(* ===== verification/Prelude.thy ===== *)
theory Prelude
  imports Main "HOL-Library.Word"
begin

unbundle bit_operations_syntax

text \<open>
  Shared vocabulary of the development: the fixed-width integer types of the sources, the
  bit tests and bit updates the kernel bitmaps are written with, the search for the first
  slot of a fixed-size table, and the slot-table interface that the tables of the packet
  filter follow.
\<close>

section \<open>Machine types\<close>

type_synonym u8 = "8 word"
type_synonym u16 = "16 word"
type_synonym u32 = "32 word"
type_synonym u64 = "64 word"

named_theorems bitmap_simps \<open>tests and updates of single bits of a bitmap word\<close>

section \<open>Single bits\<close>

abbreviation bit_of :: "nat \<Rightarrow> 'a::len word" where
  "bit_of n \<equiv> push_bit n 1"

lemma bit_bit_of [bitmap_simps]:
  "bit (bit_of n :: 'a::len word) k \<longleftrightarrow> k = n \<and> n < LENGTH('a)"
  by (auto simp: bit_simps)

lemma bit_or_bit_of [bitmap_simps]:
  "bit (w OR bit_of n) k \<longleftrightarrow> bit w k \<or> (k = n \<and> n < LENGTH('a))" for w :: "'a::len word"
  by (auto simp: bit_simps)

lemma bit_and_not_bit_of [bitmap_simps]:
  "bit (w AND NOT (bit_of n)) k \<longleftrightarrow> bit w k \<and> k \<noteq> n" for w :: "'a::len word"
  using bit_imp_le_length [of w k] by (auto simp: bit_simps)

lemma and_bit_of_eq_0 [bitmap_simps]:
  "w AND bit_of n = 0 \<longleftrightarrow> \<not> bit w n" for w :: "'a::len word"
  by (metis bit_iff_and_push_bit_not_eq_0)

text \<open>The simplifier writes \<open>1 << n\<close> as a power of two; the same laws in that form.\<close>

lemma bit_or_exp [bitmap_simps]:
  "bit (w OR 2 ^ n) k \<longleftrightarrow> bit w k \<or> (k = n \<and> n < LENGTH('a))" for w :: "'a::len word"
  by (auto simp: bit_simps)

lemma bit_and_not_exp [bitmap_simps]:
  "bit (w AND NOT (2 ^ n)) k \<longleftrightarrow> bit w k \<and> k \<noteq> n" for w :: "'a::len word"
  using bit_imp_le_length [of w k] by (auto simp: bit_simps)

declare and_exp_eq_0_iff_not_bit [bitmap_simps]

lemma unat_exp: "n < LENGTH('a) \<Longrightarrow> unat (2 ^ n :: 'a::len word) = 2 ^ n"
  using unat_of_nat [of "2 ^ n", where 'a = 'a] by (simp add: take_bit_nat_eq_self)

lemma word_zero_iff_bits: "w = 0 \<longleftrightarrow> (\<forall>n < LENGTH('a). \<not> bit w n)" for w :: "'a::len word"
  by (auto intro: bit_word_eqI)

section \<open>First slot of a table\<close>

text \<open>
  The recurring loop \<open>for (i = 0; i < N; i++) if (P(t[i])) { ...; return; }\<close>: the
  index it stops at, or nothing when it runs off the end.
\<close>

fun first_slot :: "('e \<Rightarrow> bool) \<Rightarrow> 'e list \<Rightarrow> nat option" where
  "first_slot P [] = None"
| "first_slot P (x # xs) = (if P x then Some 0 else map_option Suc (first_slot P xs))"

lemma first_slot_Some:
  "first_slot P xs = Some i \<longleftrightarrow> i < length xs \<and> P (xs ! i) \<and> (\<forall>j < i. \<not> P (xs ! j))"
proof (induction xs arbitrary: i)
  case Nil
  then show ?case by simp
next
  case (Cons x xs)
  then show ?case
    by (cases i) (auto simp: less_Suc_eq_0_disj)
qed

lemma first_slot_None: "first_slot P xs = None \<longleftrightarrow> (\<forall>x \<in> set xs. \<not> P x)"
  by (induction xs) auto

lemma first_slot_bound: "first_slot P xs = Some i \<Longrightarrow> i < length xs"
  by (simp add: first_slot_Some)

lemma first_slot_holds: "first_slot P xs = Some i \<Longrightarrow> P (xs ! i)"
  by (simp add: first_slot_Some)

definition count_slots :: "('e \<Rightarrow> bool) \<Rightarrow> 'e list \<Rightarrow> nat" where
  "count_slots P xs = length (filter P xs)"

lemma count_slots_le: "count_slots P xs \<le> length xs"
  by (simp add: count_slots_def)

lemma count_slots_update:
  "i < length xs \<Longrightarrow>
   count_slots P (xs[i := y]) + of_bool (P (xs ! i)) = count_slots P xs + of_bool (P y)"
proof (induction xs arbitrary: i)
  case Nil
  then show ?case by simp
next
  case (Cons x xs)
  show ?case
  proof (cases i)
    case 0
    then show ?thesis by (simp add: count_slots_def)
  next
    case (Suc j)
    with Cons show ?thesis by (simp add: count_slots_def)
  qed
qed

subsection \<open>Slot tables\<close>

text \<open>
  A slot table claims the first slot that is not in use and overwrites it with a value
  built from the request and from what the slot held.
\<close>

definition claim_slot ::
  "('e \<Rightarrow> bool) \<Rightarrow> ('a \<Rightarrow> 'e \<Rightarrow> 'e) \<Rightarrow> 'a \<Rightarrow> 'e list \<Rightarrow> (nat \<times> 'e list) option" where
  "claim_slot used fill a xs =
     (case first_slot (\<lambda>e. \<not> used e) xs of
        None \<Rightarrow> None
      | Some i \<Rightarrow> Some (i, xs[i := fill a (xs ! i)]))"

locale slot_table =
  fixes used :: "'e \<Rightarrow> bool"
    and fill :: "'a \<Rightarrow> 'e \<Rightarrow> 'e"
  assumes used_fill: "used (fill a e)"
begin

lemma claim_full: "claim_slot used fill a xs = None \<longleftrightarrow> (\<forall>e \<in> set xs. used e)"
  using first_slot_None [of "\<lambda>e. \<not> used e" xs]
  by (auto simp: claim_slot_def split: option.splits)

lemma claim_Some:
  assumes "claim_slot used fill a xs = Some (i, ys)"
  shows "i < length xs" "\<not> used (xs ! i)" "ys = xs[i := fill a (xs ! i)]"
    "used (ys ! i)" "length ys = length xs"
  using assms
  by (auto simp: claim_slot_def first_slot_Some used_fill split: option.splits)

lemma claim_first:
  "claim_slot used fill a xs = Some (i, ys) \<Longrightarrow> j < i \<Longrightarrow> used (xs ! j)"
  by (auto simp: claim_slot_def first_slot_Some split: option.splits)

lemma claim_keeps_used:
  assumes "claim_slot used fill a xs = Some (i, ys)" "j < length xs" "used (xs ! j)"
  shows "ys ! j = xs ! j"
proof -
  from claim_Some [OF assms(1)] assms(3) have "i \<noteq> j" by auto
  with claim_Some(3) [OF assms(1)] show ?thesis by simp
qed

lemma claim_counts:
  assumes "claim_slot used fill a xs = Some (i, ys)"
  shows "count_slots used ys = Suc (count_slots used xs)"
proof -
  from claim_Some [OF assms] have i: "i < length xs" "\<not> used (xs ! i)"
    and ys: "ys = xs[i := fill a (xs ! i)]" by auto
  from count_slots_update [OF i(1), of used "fill a (xs ! i)"] i(2) ys used_fill
  show ?thesis by simp
qed

lemma claim_exists:
  "count_slots used xs < length xs \<Longrightarrow> \<exists>i ys. claim_slot used fill a xs = Some (i, ys)"
proof -
  assume lt: "count_slots used xs < length xs"
  have "\<not> (\<forall>e \<in> set xs. used e)"
  proof
    assume "\<forall>e \<in> set xs. used e"
    then have "count_slots used xs = length xs" by (simp add: count_slots_def)
    with lt show False by simp
  qed
  with claim_full show ?thesis by (metis not_None_eq surj_pair)
qed

end

section \<open>Option results\<close>

text \<open>A result that is present and satisfies a property: a computation that returns.\<close>

definition returns :: "'a option \<Rightarrow> ('a \<Rightarrow> bool) \<Rightarrow> bool" where
  "returns r P \<longleftrightarrow> (\<exists>x. r = Some x \<and> P x)"

lemma returnsI [intro]: "r = Some x \<Longrightarrow> P x \<Longrightarrow> returns r P"
  by (auto simp: returns_def)

lemma returnsE [elim]: "returns r P \<Longrightarrow> (\<And>x. r = Some x \<Longrightarrow> P x \<Longrightarrow> Q) \<Longrightarrow> Q"
  by (auto simp: returns_def)

lemma returns_Some [simp]: "returns (Some x) P = P x"
  by (simp add: returns_def)

lemma returns_None [simp]: "\<not> returns None P"
  by (simp add: returns_def)

end
