(* ===== verification/Arch_Bits.thy ===== *)
theory Arch_Bits
  imports Prelude
begin

text \<open>
  Bit scans of \<open>kernel/core/arch_api.hpp\<close>: \<open>clz\<close>, \<open>ctz\<close>,
  \<open>find_highest_bit\<close> and \<open>find_lowest_bit\<close>. The compiler builtins are the
  reference; the portable halving loops are the fallback the header compiles without them.
\<close>

section \<open>Definitions\<close>

text \<open>The scan the builtins perform: the highest (lowest) set bit below \<open>n\<close>.\<close>

fun hi_bit :: "nat \<Rightarrow> u32 \<Rightarrow> nat option" where
  "hi_bit 0 w = None"
| "hi_bit (Suc n) w = (if bit w n then Some n else hi_bit n w)"

definition lo_bit :: "u32 \<Rightarrow> nat option" where
  "lo_bit w = first_slot (bit w) [0..<32]"

definition builtin_clz :: "u32 \<Rightarrow> nat" where
  "builtin_clz w = (case hi_bit 32 w of None \<Rightarrow> 32 | Some n \<Rightarrow> 31 - n)"

definition builtin_ctz :: "u32 \<Rightarrow> nat" where
  "builtin_ctz w = (case lo_bit w of None \<Rightarrow> 32 | Some n \<Rightarrow> n)"

definition clz :: "u32 \<Rightarrow> nat" where
  "clz val = (if val \<noteq> 0 then builtin_clz val else 32)"

definition ctz :: "u32 \<Rightarrow> nat" where
  "ctz val = (if val \<noteq> 0 then builtin_ctz val else 32)"

definition clz_step :: "u32 \<Rightarrow> nat \<Rightarrow> nat \<times> u32 \<Rightarrow> nat \<times> u32" where
  "clz_step m k s = (case s of (n, val) \<Rightarrow>
     if val AND m = 0 then (n + k, push_bit k val) else (n, val))"

definition clz_portable :: "u32 \<Rightarrow> nat" where
  "clz_portable val =
     (if val = 0 then 32
      else fst (clz_step 0x80000000 1 (clz_step 0xC0000000 2 (clz_step 0xF0000000 4
             (clz_step 0xFF000000 8 (clz_step 0xFFFF0000 16 (0, val)))))))"

definition ctz_step :: "u32 \<Rightarrow> nat \<Rightarrow> nat \<times> u32 \<Rightarrow> nat \<times> u32" where
  "ctz_step m k s = (case s of (n, val) \<Rightarrow>
     if val AND m = 0 then (n + k, drop_bit k val) else (n, val))"

definition ctz_portable :: "u32 \<Rightarrow> nat" where
  "ctz_portable val =
     (if val = 0 then 32
      else fst (ctz_step 0x00000001 1 (ctz_step 0x00000003 2 (ctz_step 0x0000000F 4
             (ctz_step 0x000000FF 8 (ctz_step 0x0000FFFF 16 (0, val)))))))"

definition find_highest_bit :: "u32 \<Rightarrow> int" where
  "find_highest_bit bitmask = (if bitmask = 0 then -1 else 31 - int (builtin_clz bitmask))"

definition find_lowest_bit :: "u32 \<Rightarrow> int" where
  "find_lowest_bit bitmask = (if bitmask = 0 then -1 else int (builtin_ctz bitmask))"

section \<open>The scans find the extreme set bit\<close>

lemma hi_bit_Some:
  "hi_bit n w = Some m \<longleftrightarrow> m < n \<and> bit w m \<and> (\<forall>j. m < j \<longrightarrow> j < n \<longrightarrow> \<not> bit w j)"
  by (induction n) (auto simp: less_Suc_eq)

lemma hi_bit_None: "hi_bit n w = None \<longleftrightarrow> (\<forall>j < n. \<not> bit w j)"
  by (induction n) (auto simp: less_Suc_eq)

lemma lo_bit_Some:
  "lo_bit w = Some m \<longleftrightarrow> m < 32 \<and> bit w m \<and> (\<forall>j < m. \<not> bit w j)"
  by (auto simp: lo_bit_def first_slot_Some)

lemma u32_bit_exists: "w \<noteq> 0 \<Longrightarrow> \<exists>n < 32. bit w n" for w :: u32
  using word_zero_iff_bits [of w] by auto

lemma u32_bit_lt: "bit (w::u32) n \<Longrightarrow> n < 32"
  using bit_imp_le_length [of w n] by simp

lemma find_highest_bit_eq:
  "find_highest_bit w = int n \<longleftrightarrow> bit w n \<and> (\<forall>j > n. \<not> bit w j)"
proof (cases "w = 0")
  case True
  then show ?thesis by (simp add: find_highest_bit_def)
next
  case False
  then obtain m where m: "hi_bit 32 w = Some m"
    using u32_bit_exists hi_bit_None by (metis not_None_eq)
  then have "m < 32" by (simp add: hi_bit_Some)
  with m False have fhb: "find_highest_bit w = int m"
    by (simp add: find_highest_bit_def builtin_clz_def)
  from m have m': "bit w m" "\<forall>j > m. \<not> bit w j"
    using u32_bit_lt [of w] by (auto simp: hi_bit_Some)
  then show ?thesis using fhb by (metis nat_neq_iff of_nat_eq_iff)
qed

lemma find_lowest_bit_eq:
  "find_lowest_bit w = int n \<longleftrightarrow> bit w n \<and> (\<forall>j < n. \<not> bit w j)"
proof (cases "w = 0")
  case True
  then show ?thesis by (simp add: find_lowest_bit_def)
next
  case False
  then obtain k where "k < 32" "bit w k" using u32_bit_exists by blast
  then obtain m where m: "lo_bit w = Some m"
    by (cases "lo_bit w") (auto simp: lo_bit_def first_slot_None)
  with False have flb: "find_lowest_bit w = int m"
    by (simp add: find_lowest_bit_def builtin_ctz_def)
  from m have "bit w m" "\<forall>j < m. \<not> bit w j" by (auto simp: lo_bit_Some)
  then show ?thesis using flb by (metis nat_neq_iff of_nat_eq_iff)
qed

lemma find_highest_bit_obtain:
  assumes "w \<noteq> 0"
  obtains n where "find_highest_bit w = int n" "n < 32" "bit w n" "\<forall>j > n. \<not> bit w j"
proof -
  from assms obtain m where m: "hi_bit 32 w = Some m"
    using u32_bit_exists hi_bit_None by (metis not_None_eq)
  then have m': "bit w m" "\<forall>j > m. \<not> bit w j"
    using u32_bit_lt [of w] by (auto simp: hi_bit_Some)
  then have "find_highest_bit w = int m" by (simp add: find_highest_bit_eq)
  then show ?thesis using that [of m] m' u32_bit_lt by blast
qed

lemma find_lowest_bit_obtain:
  assumes "w \<noteq> 0"
  obtains n where "find_lowest_bit w = int n" "n < 32" "bit w n" "\<forall>j < n. \<not> bit w j"
proof -
  from assms obtain k where "bit w k" using u32_bit_exists by blast
  then obtain n where "bit w n" "\<forall>j < n. \<not> bit w j"
    by (metis (lifting) exists_least_iff)
  then show ?thesis using that [of n] u32_bit_lt by (simp add: find_lowest_bit_eq)
qed

lemma find_highest_bit_empty [simp]: "find_highest_bit 0 = -1"
  by (simp add: find_highest_bit_def)

lemma find_lowest_bit_empty [simp]: "find_lowest_bit 0 = -1"
  by (simp add: find_lowest_bit_def)

section \<open>The portable loops agree with the builtins\<close>

lemma clz_le_iff:
  assumes "w \<noteq> 0" "k \<le> 31"
  shows "k \<le> builtin_clz w \<longleftrightarrow> w AND NOT (mask (32 - k)) = 0"
proof -
  from assms(1) obtain m where m: "hi_bit 32 w = Some m" "m < 32" "bit w m" "\<forall>j > m. \<not> bit w j"
    using find_highest_bit_obtain [OF assms(1)] u32_bit_lt by (metis hi_bit_Some)
  then have clz: "builtin_clz w = 31 - m" by (simp add: builtin_clz_def)
  have "w AND NOT (mask (32 - k)) = 0 \<longleftrightarrow> m < 32 - k"
  proof
    assume "w AND NOT (mask (32 - k)) = 0"
    then have "\<not> bit (w AND NOT (mask (32 - k))) m" by simp
    with m show "m < 32 - k" by (simp add: bit_simps)
  next
    assume "m < 32 - k"
    with m show "w AND NOT (mask (32 - k)) = 0"
      by (intro bit_word_eqI) (auto simp: bit_simps, metis le_less_trans not_less)
  qed
  with clz assms(2) m(2) show ?thesis by auto
qed

lemma clz_shift:
  assumes "w \<noteq> 0" "k \<le> builtin_clz w" "k \<le> 31"
  shows "push_bit k w \<noteq> 0 \<and> builtin_clz w = k + builtin_clz (push_bit k w)"
proof -
  from assms(1) obtain m where m: "hi_bit 32 w = Some m" "m < 32" "bit w m" "\<forall>j > m. \<not> bit w j"
    using find_highest_bit_obtain [OF assms(1)] u32_bit_lt by (metis hi_bit_Some)
  then have clz: "builtin_clz w = 31 - m" by (simp add: builtin_clz_def)
  with assms(2) m(2) have mk: "m + k < 32" by auto
  with m have b: "bit (push_bit k w) (m + k)" by (simp add: bit_simps)
  from m have "\<forall>j > m + k. \<not> bit (push_bit k w) j" by (auto simp: bit_simps)
  with b mk have "hi_bit 32 (push_bit k w) = Some (m + k)" by (simp add: hi_bit_Some)
  moreover from b have "push_bit k w \<noteq> 0" by auto
  ultimately show ?thesis using clz mk by (simp add: builtin_clz_def)
qed

definition clz_inv :: "u32 \<Rightarrow> nat \<Rightarrow> nat \<times> u32 \<Rightarrow> bool" where
  "clz_inv w k s \<longleftrightarrow> snd s \<noteq> 0 \<and> builtin_clz w = fst s + builtin_clz (snd s) \<and> builtin_clz (snd s) < k"

lemma clz_step_inv:
  assumes "clz_inv w k2 s" "k2 = 2 * k" "k \<le> 31" "m = NOT (mask (32 - k))"
  shows "clz_inv w k (clz_step m k s)"
proof (cases s)
  case (Pair n v)
  with assms(1,2) have v: "v \<noteq> 0" "builtin_clz w = n + builtin_clz v" "builtin_clz v < 2 * k"
    by (auto simp: clz_inv_def)
  from clz_le_iff [OF v(1) assms(3)] assms(4)
  have test: "v AND m = 0 \<longleftrightarrow> k \<le> builtin_clz v" by simp
  show ?thesis
  proof (cases "k \<le> builtin_clz v")
    case True
    with clz_shift [OF v(1) True assms(3)] v test Pair show ?thesis
      by (simp add: clz_step_def clz_inv_def)
  next
    case False
    with v test Pair show ?thesis by (simp add: clz_step_def clz_inv_def)
  qed
qed

lemma clz_masks:
  "(0xFFFF0000::u32) = NOT (mask (32 - 16))" "(0xFF000000::u32) = NOT (mask (32 - 8))"
  "(0xF0000000::u32) = NOT (mask (32 - 4))" "(0xC0000000::u32) = NOT (mask (32 - 2))"
  "(0x80000000::u32) = NOT (mask (32 - 1))"
  by (simp_all add: mask_eq_exp_minus_1)

lemma builtin_clz_lt: "w \<noteq> 0 \<Longrightarrow> builtin_clz w < 32"
  using u32_bit_exists [of w] hi_bit_None [of 32 w]
  by (auto simp: builtin_clz_def split: option.splits)

text \<open>the portable is equal\<close>

text \<open>
  The portable binary search for the number of leading zeros, used where the compiler
  builtin is not available, returns what the builtin returns on every 32-bit word.
\<close>

lemma clz_portable_eq: "clz_portable val = clz val"
proof (cases "val = 0")
  case True
  then show ?thesis by (simp add: clz_portable_def clz_def)
next
  case False
  then have "clz_inv val 32 (0, val)" by (simp add: clz_inv_def builtin_clz_lt)
  then have "clz_inv val 16 (clz_step 0xFFFF0000 16 (0, val))"
    by (rule clz_step_inv [OF _ _ _ clz_masks(1)]) simp_all
  then have "clz_inv val 8 (clz_step 0xFF000000 8 (clz_step 0xFFFF0000 16 (0, val)))"
    by (rule clz_step_inv [OF _ _ _ clz_masks(2)]) simp_all
  then have "clz_inv val 4 (clz_step 0xF0000000 4 (clz_step 0xFF000000 8 (clz_step 0xFFFF0000 16 (0, val))))"
    by (rule clz_step_inv [OF _ _ _ clz_masks(3)]) simp_all
  then have "clz_inv val 2 (clz_step 0xC0000000 2 (clz_step 0xF0000000 4 (clz_step 0xFF000000 8
      (clz_step 0xFFFF0000 16 (0, val)))))"
    by (rule clz_step_inv [OF _ _ _ clz_masks(4)]) simp_all
  then have "clz_inv val 1 (clz_step 0x80000000 1 (clz_step 0xC0000000 2 (clz_step 0xF0000000 4
      (clz_step 0xFF000000 8 (clz_step 0xFFFF0000 16 (0, val))))))"
    by (rule clz_step_inv [OF _ _ _ clz_masks(5)]) simp_all
  with False show ?thesis by (simp add: clz_inv_def clz_portable_def clz_def)
qed

lemma lo_bit_obtain:
  assumes "w \<noteq> 0"
  obtains m where "lo_bit w = Some m" "m < 32" "bit w m" "\<forall>j < m. \<not> bit w j" "builtin_ctz w = m"
proof -
  obtain m where m: "m < 32" "bit w m" "\<forall>j < m. \<not> bit w j"
    using find_lowest_bit_obtain [OF assms] by metis
  then have "lo_bit w = Some m" by (simp add: lo_bit_Some)
  with m that show ?thesis by (simp add: builtin_ctz_def)
qed

lemma ctz_le_iff:
  assumes "w \<noteq> 0"
  shows "k \<le> builtin_ctz w \<longleftrightarrow> w AND mask k = 0"
proof -
  from lo_bit_obtain [OF assms] obtain m where
    m: "m < 32" "bit w m" "\<forall>j < m. \<not> bit w j" "builtin_ctz w = m" by metis
  have "w AND mask k = 0 \<longleftrightarrow> k \<le> m"
  proof
    assume "w AND mask k = 0"
    then have "\<not> bit (w AND mask k) m" by simp
    with m show "k \<le> m" by (simp add: bit_simps)
  next
    assume "k \<le> m"
    with m show "w AND mask k = 0"
      by (intro bit_word_eqI) (auto simp: bit_simps)
  qed
  with m(4) show ?thesis by simp
qed

lemma ctz_shift:
  assumes "w \<noteq> 0" "k \<le> builtin_ctz w"
  shows "drop_bit k w \<noteq> 0 \<and> builtin_ctz w = k + builtin_ctz (drop_bit k w)"
proof -
  from lo_bit_obtain [OF assms(1)] obtain m where
    m: "m < 32" "bit w m" "\<forall>j < m. \<not> bit w j" "builtin_ctz w = m" by metis
  with assms(2) have b: "bit (drop_bit k w) (m - k)" by (simp add: bit_simps)
  from m assms(2) have "\<forall>j < m - k. \<not> bit (drop_bit k w) j" by (auto simp: bit_simps)
  with b m(1) have "lo_bit (drop_bit k w) = Some (m - k)" by (simp add: lo_bit_Some)
  moreover from b have "drop_bit k w \<noteq> 0" by auto
  ultimately show ?thesis using m assms(2) by (simp add: builtin_ctz_def)
qed

definition ctz_inv :: "u32 \<Rightarrow> nat \<Rightarrow> nat \<times> u32 \<Rightarrow> bool" where
  "ctz_inv w k s \<longleftrightarrow> snd s \<noteq> 0 \<and> builtin_ctz w = fst s + builtin_ctz (snd s) \<and> builtin_ctz (snd s) < k"

lemma ctz_step_inv:
  assumes "ctz_inv w k2 s" "k2 = 2 * k" "m = mask k"
  shows "ctz_inv w k (ctz_step m k s)"
proof (cases s)
  case (Pair n v)
  with assms(1,2) have v: "v \<noteq> 0" "builtin_ctz w = n + builtin_ctz v" "builtin_ctz v < 2 * k"
    by (auto simp: ctz_inv_def)
  from ctz_le_iff [OF v(1)] assms(3) have test: "v AND m = 0 \<longleftrightarrow> k \<le> builtin_ctz v" by simp
  show ?thesis
  proof (cases "k \<le> builtin_ctz v")
    case True
    with ctz_shift [OF v(1) True] v test Pair show ?thesis
      by (simp add: ctz_step_def ctz_inv_def)
  next
    case False
    with v test Pair show ?thesis by (simp add: ctz_step_def ctz_inv_def)
  qed
qed

lemma ctz_masks:
  "(0x0000FFFF::u32) = mask 16" "(0x000000FF::u32) = mask 8"
  "(0x0000000F::u32) = mask 4" "(0x00000003::u32) = mask 2" "(0x00000001::u32) = mask 1"
  by (simp_all add: mask_eq_exp_minus_1)

lemma builtin_ctz_lt: "w \<noteq> 0 \<Longrightarrow> builtin_ctz w < 32"
  by (rule lo_bit_obtain [of w]) simp_all

text \<open>
  The portable binary search for the number of trailing zeros returns what the builtin
  returns on every 32-bit word.
\<close>

lemma ctz_portable_eq: "ctz_portable val = ctz val"
proof (cases "val = 0")
  case True
  then show ?thesis by (simp add: ctz_portable_def ctz_def)
next
  case False
  then have "ctz_inv val 32 (0, val)"
    by (simp add: ctz_inv_def builtin_ctz_lt)
  then have "ctz_inv val 16 (ctz_step 0xFFFF 16 (0, val))"
    by (rule ctz_step_inv [OF _ _ ctz_masks(1)]) simp_all
  then have "ctz_inv val 8 (ctz_step 0xFF 8 (ctz_step 0xFFFF 16 (0, val)))"
    by (rule ctz_step_inv [OF _ _ ctz_masks(2)]) simp_all
  then have "ctz_inv val 4 (ctz_step 0xF 4 (ctz_step 0xFF 8 (ctz_step 0xFFFF 16 (0, val))))"
    by (rule ctz_step_inv [OF _ _ ctz_masks(3)]) simp_all
  then have "ctz_inv val 2 (ctz_step 3 2 (ctz_step 0xF 4 (ctz_step 0xFF 8 (ctz_step 0xFFFF 16 (0, val)))))"
    by (rule ctz_step_inv [OF _ _ ctz_masks(4)]) simp_all
  then have "ctz_inv val 1 (ctz_step 1 1 (ctz_step 3 2 (ctz_step 0xF 4 (ctz_step 0xFF 8
      (ctz_step 0xFFFF 16 (0, val))))))"
    by (rule ctz_step_inv [OF _ _ ctz_masks(5)]) simp_all
  with False show ?thesis by (simp add: ctz_inv_def ctz_portable_def ctz_def)
qed

text \<open>
  C29: the portable binary searches for the leading and trailing zeros, used where the compiler
  builtins are not available, return what the builtins return on every 32-bit word.
\<close>

theorem portable_bit_scans_eq: "clz_portable val = clz val \<and> ctz_portable val = ctz val"
  by (simp add: clz_portable_eq ctz_portable_eq)

end
