(* ===== verification/Mpu.thy ===== *)
theory Mpu
  imports Prelude
begin

text \<open>
  Memory protection: the CRC-32 of \<open>utils/hmac_sha256.hpp\<close>, the sandbox descriptor and
  the region checks of \<open>kernel/mm/mpu.hpp\<close>, and the PMSAv7 register encoding of
  \<open>arch/arm/cortex-m/cm3/arch_impl.hpp\<close>. Addresses are the 32-bit \<open>uintptr_t\<close> of
  the Cortex-M targets; the MPU register file is the state the region operations change.
\<close>

section \<open>CRC-32\<close>

definition crc_bit :: "u32 \<Rightarrow> u32" where
  "crc_bit crc = (if crc AND 1 \<noteq> 0 then drop_bit 1 crc XOR 0xEDB88320 else drop_bit 1 crc)"

definition crc_byte :: "u32 \<Rightarrow> u8 \<Rightarrow> u32" where
  "crc_byte crc b = (crc_bit ^^ 8) (crc XOR ucast b)"

definition crc32_compute :: "u8 list \<Rightarrow> u32" where
  "crc32_compute data = foldl crc_byte 0xFFFFFFFF data XOR 0xFFFFFFFF"

text \<open>The bytes of a word in the memory order of the little-endian targets.\<close>

definition word_bytes :: "u32 \<Rightarrow> u8 list" where
  "word_bytes w = [ucast w, ucast (drop_bit 8 w), ucast (drop_bit 16 w), ucast (drop_bit 24 w)]"

section \<open>Sandbox descriptors\<close>

record sandbox_descriptor =
  sd_stack_base :: u32
  sd_size_pow2 :: u8
  sd_subregion_disable :: u8
  sd_reserved :: u16
  sd_version :: u32
  sd_crc32 :: u32

definition sandbox_words :: "sandbox_descriptor \<Rightarrow> u32 list" where
  "sandbox_words d =
     [sd_stack_base d,
      ucast (drop_bit 32 (ucast (sd_stack_base d) :: u64)),
      ucast (sd_size_pow2 d) OR push_bit 8 (ucast (sd_subregion_disable d)),
      sd_version d]"

definition seal :: "sandbox_descriptor \<Rightarrow> sandbox_descriptor" where
  "seal d = d\<lparr>sd_crc32 := crc32_compute (concat (map word_bytes (sandbox_words d)))\<rparr>"

definition is_valid :: "sandbox_descriptor \<Rightarrow> bool" where
  "is_valid d \<longleftrightarrow> sd_crc32 d = crc32_compute (concat (map word_bytes (sandbox_words d)))"

section \<open>Sub-region masks\<close>

fun srd_mask_loop :: "nat \<Rightarrow> u8" where
  "srd_mask_loop 0 = 0"
| "srd_mask_loop (Suc i) = srd_mask_loop i OR ucast (bit_of i :: u32)"

definition calculate_stack_srd_mask :: "u32 \<Rightarrow> u8 \<Rightarrow> bool \<Rightarrow> u8" where
  "calculate_stack_srd_mask requested_stack_bytes region_size_pow2 enable_guard_subregion =
     (if region_size_pow2 < 8 then 0
      else
        let region_size = bit_of (unat region_size_pow2) :: u32;
            subregion_size = drop_bit 3 region_size;
            needed0 = (requested_stack_bytes + subregion_size - 1) div subregion_size;
            needed1 = (if needed0 = 0 then 1 else needed0);
            max_usable = (if enable_guard_subregion then 7 else 8);
            needed = (if needed1 > max_usable then max_usable else needed1)
        in srd_mask_loop (unat (8 - needed)))"

section \<open>Programming a region\<close>

record mpu_region =
  mr_base :: u32
  mr_size_pow2 :: u8
  mr_ap :: u32
  mr_execute_never :: bool
  mr_is_device :: bool
  mr_subregion_disable_mask :: u8

text \<open>The three PMSAv7 registers; a write sequence selects a region and stores its pair.\<close>

record mpu_regs =
  reg_rnr :: u32
  reg_pairs :: "u32 \<Rightarrow> u32 \<times> u32"

definition rasr_value :: "mpu_region \<Rightarrow> u32" where
  "rasr_value r =
     (let v0 = bit_of 0 :: u32;
          v1 = v0 OR push_bit 1 ((ucast (mr_size_pow2 r) - 1) AND 0x1F);
          v2 = v1 OR push_bit 8 (ucast (mr_subregion_disable_mask r) AND 0xFF);
          v3 = v2 OR push_bit 24 (mr_ap r AND 0x7);
          v4 = (if mr_is_device r then v3 OR bit_of 16 else v3 OR (bit_of 17 OR bit_of 16))
      in if mr_execute_never r then v4 OR bit_of 28 else v4)"

definition mpu_configure_region :: "u8 \<Rightarrow> mpu_region \<Rightarrow> mpu_regs \<Rightarrow> mpu_regs" where
  "mpu_configure_region idx r m =
     m\<lparr>reg_rnr := ucast idx,
       reg_pairs := (reg_pairs m)(ucast idx := (mr_base r AND NOT 0x1F, rasr_value r))\<rparr>"

text \<open>A failed \<open>KERNEL_ASSERT\<close> stalls the processor until the watchdog resets it.\<close>

datatype 'a halting = Stalled | Continues 'a

definition configure_region ::
  "u8 \<Rightarrow> u32 \<Rightarrow> u8 \<Rightarrow> u32 \<Rightarrow> bool \<Rightarrow> bool \<Rightarrow> u8 \<Rightarrow> mpu_regs \<Rightarrow> mpu_regs halting" where
  "configure_region region_num base_addr size_power_of_2 ap xn dev srd m =
     (if size_power_of_2 < 5 \<or> size_power_of_2 > 31 then Stalled
      else if base_addr AND (bit_of (unat size_power_of_2) - 1) \<noteq> 0 then Stalled
      else Continues (mpu_configure_region region_num
             \<lparr>mr_base = base_addr, mr_size_pow2 = size_power_of_2, mr_ap = ap,
              mr_execute_never = xn, mr_is_device = dev,
              mr_subregion_disable_mask = srd\<rparr> m))"

definition AP_ALL_RW :: u32 where "AP_ALL_RW = 3"

definition update_user_sandbox :: "u32 \<Rightarrow> u8 \<Rightarrow> u8 \<Rightarrow> mpu_regs \<Rightarrow> mpu_regs" where
  "update_user_sandbox stack_base size_power_of_2 subregion_disable m =
     mpu_configure_region 7
       \<lparr>mr_base = stack_base, mr_size_pow2 = size_power_of_2, mr_ap = AP_ALL_RW,
        mr_execute_never = True, mr_is_device = False,
        mr_subregion_disable_mask = subregion_disable\<rparr> m"

definition update_user_sandbox_verified ::
  "sandbox_descriptor \<Rightarrow> mpu_regs \<Rightarrow> mpu_regs halting" where
  "update_user_sandbox_verified desc m =
     (if \<not> is_valid desc then Stalled
      else if \<not> (sd_size_pow2 desc \<ge> 5 \<and> sd_size_pow2 desc \<le> 17) then Stalled
      else if sd_stack_base desc AND (bit_of (unat (sd_size_pow2 desc)) - 1) \<noteq> 0 then Stalled
      else Continues (mpu_configure_region 7
             \<lparr>mr_base = sd_stack_base desc, mr_size_pow2 = sd_size_pow2 desc, mr_ap = AP_ALL_RW,
              mr_execute_never = True, mr_is_device = False,
              mr_subregion_disable_mask = sd_subregion_disable desc\<rparr> m))"

section \<open>The CRC register is linear and loses nothing\<close>

lemma xor_cancel:
  fixes x y c :: u32
  assumes "x XOR c = y XOR c"
  shows "x = y"
proof -
  have "(x XOR c) XOR c = (y XOR c) XOR c" by (simp only: assms)
  then show ?thesis by (simp add: xor.assoc)
qed

lemma xor_cancel_left: "c XOR x = c XOR y \<Longrightarrow> x = y" for x y c :: u32
  using xor_cancel [of x c y] by (simp add: xor.commute)

lemma crc_bit_xor: "crc_bit (x XOR y) = crc_bit x XOR crc_bit y"
proof -
  have b: "\<And>z::u32. z AND 1 \<noteq> 0 \<longleftrightarrow> bit z 0" using and_bit_of_eq_0 [of _ 0] by auto
  show ?thesis
    by (rule bit_word_eqI) (auto simp: crc_bit_def b bit_simps)
qed

lemma crc_bit_eq_0: "crc_bit x = 0 \<Longrightarrow> x = 0"
proof -
  assume z: "crc_bit x = 0"
  have b: "x AND 1 \<noteq> 0 \<longleftrightarrow> bit x 0" using and_bit_of_eq_0 [of x 0] by auto
  have top: "\<not> bit (crc_bit x) 31" using z by simp
  have "\<not> bit x 0"
  proof
    assume "bit x 0"
    then have "bit (crc_bit x) 31"
      using b bit_imp_le_length [of x 32] by (auto simp: crc_bit_def bit_simps bit_numeral_rec)
    with top show False by simp
  qed
  then have c: "drop_bit 1 x = 0" using z b by (simp add: crc_bit_def)
  show "x = 0"
  proof (rule bit_word_eqI)
    fix n
    show "bit x n = bit (0::u32) n"
    proof (cases n)
      case 0
      with \<open>\<not> bit x 0\<close> show ?thesis by simp
    next
      case (Suc k)
      from c have "\<not> bit (drop_bit 1 x) k" by simp
      with Suc show ?thesis by (simp add: bit_simps)
    qed
  qed
qed

lemma inj_crc_bit: "crc_bit x = crc_bit y \<Longrightarrow> x = y"
  using crc_bit_eq_0 [of "x XOR y"] crc_bit_xor [of x y] xor_cancel [of x y y] by simp

lemma crc_bit_pow_xor: "(crc_bit ^^ n) (x XOR y) = (crc_bit ^^ n) x XOR (crc_bit ^^ n) y"
  by (induction n) (simp_all add: crc_bit_xor)

lemma inj_crc_bit_pow: "(crc_bit ^^ n) x = (crc_bit ^^ n) y \<Longrightarrow> x = y"
  by (induction n) (auto dest: inj_crc_bit)

text \<open>With its low bits clear the register only shifts.\<close>

lemma crc_bit_shift: "(crc_bit ^^ n) (push_bit n x) = x" if "\<forall>k. bit x k \<longrightarrow> k + n < 32"
  using that
proof (induction n arbitrary: x)
  case 0
  then show ?case by simp
next
  case (Suc n)
  have "\<not> bit (push_bit (Suc n) x) 0" unfolding bit_push_bit_iff by simp
  then have low: "\<not> (push_bit (Suc n) x AND 1 \<noteq> 0)"
    using and_bit_of_eq_0 [of "push_bit (Suc n) x" 0] by simp
  have shift: "drop_bit 1 (push_bit (Suc n) x) = push_bit n x"
    by (rule bit_word_eqI)
      (use Suc.prems in \<open>auto simp: bit_push_bit_iff bit_drop_bit_eq simp del: push_bit_Suc\<close>)
  have "crc_bit (push_bit (Suc n) x) = push_bit n x"
    using low shift by (simp add: crc_bit_def)
  moreover have "\<forall>k. bit x k \<longrightarrow> k + n < 32" using Suc.prems by auto
  ultimately show ?case using Suc.IH [of x] by (simp add: funpow_swap1)
qed

text \<open>Four bytes at once: the register after a word is 32 shifts of register xor word.\<close>

definition crc_word :: "u32 \<Rightarrow> u32 \<Rightarrow> u32" where
  "crc_word crc w = foldl crc_byte crc (word_bytes w)"

lemma crc_absorb:
  assumes "n + 8 \<le> 32"
  shows "(crc_bit ^^ n) x XOR ucast (b::u8) = (crc_bit ^^ n) (x XOR push_bit n (ucast b))"
proof -
  have "\<forall>k. bit (ucast b :: u32) k \<longrightarrow> k + n < 32"
    using assms bit_imp_le_length [of b] by (fastforce simp: bit_simps)
  then show ?thesis by (simp add: crc_bit_pow_xor crc_bit_shift)
qed

lemma word_of_bytes:
  "w = ucast (ucast w :: u8) XOR push_bit 8 (ucast (ucast (drop_bit 8 w) :: u8))
       XOR push_bit 16 (ucast (ucast (drop_bit 16 w) :: u8))
       XOR push_bit 24 (ucast (ucast (drop_bit 24 w) :: u8))" for w :: u32
proof (rule bit_word_eqI)
  fix n
  assume "n < LENGTH(32)"
  then have "n < 8 \<or> 8 \<le> n \<and> n < 16 \<or> 16 \<le> n \<and> n < 24 \<or> 24 \<le> n \<and> n < 32" by auto
  then show "bit w n = bit (ucast (ucast w :: u8) XOR push_bit 8 (ucast (ucast (drop_bit 8 w) :: u8))
       XOR push_bit 16 (ucast (ucast (drop_bit 16 w) :: u8))
       XOR push_bit 24 (ucast (ucast (drop_bit 24 w) :: u8)) :: u32) n"
    by (elim disjE) (auto simp: bit_simps)
qed

lemma crc_word_eq: "crc_word s w = (crc_bit ^^ 32) (s XOR w)"
proof -
  define P where "P n = crc_bit ^^ n" for n
  define b0 b1 b2 b3 :: u8 where "b0 = ucast w" and "b1 = ucast (drop_bit 8 w)"
    and "b2 = ucast (drop_bit 16 w)" and "b3 = ucast (drop_bit 24 w)"
  note bs = b0_def b1_def b2_def b3_def
  have w: "w = ucast b0 XOR push_bit 8 (ucast b1) XOR push_bit 16 (ucast b2) XOR push_bit 24 (ucast b3)"
    unfolding bs by (rule word_of_bytes)
  have PP: "P m (P n x) = P (m + n) x" for m n x
    by (simp add: P_def funpow_add)
  have absorb: "P n x XOR ucast b = P n (x XOR push_bit n (ucast b))" if "n + 8 \<le> 32" for n x and b :: u8
    using crc_absorb [OF that] by (simp add: P_def)
  have "crc_word s w =
    P 8 (P 8 (P 8 (P 8 (s XOR ucast b0) XOR ucast b1) XOR ucast b2) XOR ucast b3)"
    by (simp add: crc_word_def word_bytes_def crc_byte_def P_def bs)
  also have "\<dots> = P 32 (s XOR ucast b0 XOR push_bit 8 (ucast b1) XOR push_bit 16 (ucast b2)
      XOR push_bit 24 (ucast b3))"
    by (simp add: absorb PP xor.assoc)
  also have "\<dots> = P 32 (s XOR w)" using w by argo
  finally show ?thesis by (simp add: P_def)
qed

lemma foldl_crc_words:
  "foldl crc_byte s (concat (map word_bytes ws)) = foldl crc_word s ws"
  by (induction ws arbitrary: s) (simp_all add: crc_word_def)

lemma crc_words_state_inj: "foldl crc_word s ws = foldl crc_word t ws \<Longrightarrow> s = t"
proof (induction ws arbitrary: s t)
  case Nil
  then show ?case by simp
next
  case (Cons w ws)
  then have "crc_word s w = crc_word t w" by auto
  then have "s XOR w = t XOR w" unfolding crc_word_eq by (rule inj_crc_bit_pow)
  then show ?case by (rule xor_cancel)
qed

lemma crc_words_one_change:
  assumes "foldl crc_word s (xs @ a # ys) = foldl crc_word s (xs @ b # ys)"
  shows "a = b"
proof -
  let ?r = "foldl crc_word s xs"
  from assms have "foldl crc_word (crc_word ?r a) ys = foldl crc_word (crc_word ?r b) ys" by simp
  then have "crc_word ?r a = crc_word ?r b" by (rule crc_words_state_inj)
  then have "?r XOR a = ?r XOR b" unfolding crc_word_eq by (rule inj_crc_bit_pow)
  then show ?thesis by (rule xor_cancel_left)
qed

lemma word_high_half: "ucast (drop_bit 32 (ucast (x::u32) :: u64)) = (0::u32)"
  using bit_imp_le_length [of x] by (intro bit_word_eqI) (auto simp: bit_simps)

lemma seal_valid [simp]: "is_valid (seal d)"
  by (simp add: seal_def is_valid_def sandbox_words_def)

lemma seal_fields [simp]:
  "sd_stack_base (seal d) = sd_stack_base d" "sd_size_pow2 (seal d) = sd_size_pow2 d"
  "sd_subregion_disable (seal d) = sd_subregion_disable d" "sd_version (seal d) = sd_version d"
  by (simp_all add: seal_def)

lemma is_valid_words:
  "is_valid d \<longleftrightarrow> sd_crc32 d = foldl crc_word 0xFFFFFFFF (sandbox_words d) XOR 0xFFFFFFFF"
  by (simp add: is_valid_def crc32_compute_def foldl_crc_words)

lemma size_srd_word_inj:
  fixes a b c d :: u8
  assumes "(ucast a :: u32) OR push_bit 8 (ucast b) = ucast c OR push_bit 8 (ucast d)"
  shows "a = c \<and> b = d"
proof -
  have "bit a n = bit c n" if "n < 8" for n
    using arg_cong [OF assms, of "\<lambda>w. bit w n"] that by (simp add: bit_simps)
  moreover have "bit b n = bit d n" if "n < 8" for n
    using arg_cong [OF assms, of "\<lambda>w. bit w (n + 8)"] that bit_imp_le_length [of a "n + 8"]
      bit_imp_le_length [of c "n + 8"] by (auto simp: bit_simps)
  ultimately show ?thesis by (auto intro!: bit_word_eqI)
qed

section \<open>Sub-region masks, on natural numbers\<close>

lemma bit_srd_mask_loop: "n \<le> 8 \<Longrightarrow> bit (srd_mask_loop n) k \<longleftrightarrow> k < n"
  by (induction n) (auto simp: bit_simps less_Suc_eq)

lemma ceil_div_least:
  fixes s x m :: nat
  assumes "0 < s" "x \<le> m * s" "1 \<le> m"
  defines "n \<equiv> max 1 ((x + s - 1) div s)"
  shows "n \<le> m" "x \<le> n * s" "(n - 1) * s < max 1 x"
proof -
  define q where "q = (x + s - 1) div s"
  have lo: "q * s \<le> x + s - 1" unfolding q_def by (rule div_times_less_eq_dividend)
  have hi: "x + s - 1 < (q + 1) * s" unfolding q_def using assms(1) by (metis div_less_iff_less_mult less_add_one)
  have "x + s - 1 < (m + 1) * s" using assms by (simp add: algebra_simps)
  then have "q < m + 1" unfolding q_def using assms(1) by (simp add: div_less_iff_less_mult)
  then show "n \<le> m" using assms(3) by (simp add: n_def q_def)
  have "x \<le> q * s" using hi assms(1) by (simp add: algebra_simps)
  then show "x \<le> n * s" unfolding n_def q_def [symmetric] by (metis le_trans max.cobounded2 mult_le_mono1)
  show "(n - 1) * s < max 1 x"
  proof (cases "q \<le> 1")
    case True
    then show ?thesis by (simp add: n_def q_def)
  next
    case False
    then have "n = q" by (simp add: n_def q_def)
    with False lo assms(1) show ?thesis by (cases q) (auto simp: algebra_simps)
  qed
qed

lemma calculate_stack_srd_mask_nat:
  assumes p: "8 \<le> unat p" "unat p \<le> 31"
    and fits: "unat requested \<le> (if guard then 7 else 8) * 2 ^ (unat p - 3)"
  shows "calculate_stack_srd_mask requested p guard =
     srd_mask_loop (8 - max 1 ((unat requested + 2 ^ (unat p - 3) - 1) div 2 ^ (unat p - 3)))"
proof -
  define e where "e = unat p - 3"
  have e: "5 \<le> e" "e \<le> 28" "unat p = e + 3" using p by (auto simp: e_def)
  have sub: "drop_bit 3 (bit_of (unat p) :: u32) = bit_of e"
    using e by (intro bit_word_eqI) (auto simp: bit_simps)
  have us: "unat (2 ^ e :: u32) = 2 ^ e" using e by (simp add: unat_exp)
  have "(2::nat) ^ e \<le> 2 ^ 28" using e by (intro power_increasing) auto
  then have small: "unat requested + 2 ^ e \<le> 2 ^ 31 + 2 ^ 28" 
    using fits e_def by (auto split: if_splits)
  have nd: "unat ((requested + bit_of e - 1) div bit_of e) = (unat requested + 2 ^ e - 1) div 2 ^ e"
  proof -
    have "unat (requested + bit_of e) = unat requested + 2 ^ e"
      using small us by (simp add: unat_word_ariths)
    moreover have "1 \<le> requested + bit_of e"
      using calculation by (simp add: word_le_nat_alt Suc_le_eq)
    ultimately have "unat (requested + bit_of e - 1) = unat requested + 2 ^ e - 1"
      by (simp add: unat_sub)
    then show ?thesis by (simp add: unat_div us)
  qed
  define q where "q = (requested + bit_of e - 1) div bit_of e"
  let ?n = "(unat requested + 2 ^ e - 1) div 2 ^ e"
  have uq: "unat q = ?n" unfolding q_def by (rule nd)
  have le: "max 1 ?n \<le> (if guard then 7 else 8)"
    using ceil_div_least(1) [of "2 ^ e" "unat requested" "if guard then 7 else 8"] fits
    by (simp add: e_def)
  define u where "u = (if q = 0 then 1 else q)"
  have uu: "unat u = max 1 ?n"
    using uq unat_eq_zero [of q] by (cases "q = 0") (auto simp: u_def)
  have nl: "\<not> u > (if guard then 7 else 8)"
    using uu le by (simp add: word_less_nat_alt split: if_splits)
  have "unat (8 - u) = 8 - max 1 ?n"
    using uu le by (subst unat_sub) (auto simp: word_le_nat_alt split: if_splits)
  moreover have "calculate_stack_srd_mask requested p guard = srd_mask_loop (unat (8 - u))"
    using p nl unfolding calculate_stack_srd_mask_def Let_def sub q_def [symmetric] u_def [symmetric]
    by (simp add: word_less_nat_alt)
  ultimately show ?thesis by (simp add: e_def)
qed

lemma low_masks: "(0x1F::u32) = mask 5" "(0xFF::u32) = mask 8" "(7::u32) = mask 3"
  by (simp_all add: mask_eq_exp_minus_1)

lemma aligned_clears_low_bits:
  fixes b :: u32
  assumes "b AND (bit_of p - 1) = 0" "5 \<le> p"
  shows "b AND NOT 0x1F = b"
proof -
  have "b AND mask p = 0" using assms(1) by (simp add: mask_eq_exp_minus_1)
  then have "\<not> bit (b AND mask p) n" for n by simp
  then have low: "\<not> bit b n" if "n < 5" for n
    using spec [of "\<lambda>n. \<not> bit (b AND mask p) n" n] that assms(2) by (simp add: bit_simps)
  show ?thesis unfolding low_masks
  proof (rule bit_word_eqI)
    fix n
    show "bit (b AND NOT (mask 5)) n = bit b n" if "n < LENGTH(32)"
      using low [of n] that by (cases "n < 5") (simp_all add: bit_simps)
  qed
qed

lemma bit_rasr_value:
  "bit (rasr_value r) n \<longleftrightarrow>
     bit (1::u32) n \<or> (1 \<le> n \<and> n < 6 \<and> bit (ucast (mr_size_pow2 r) - 1 :: u32) (n - 1))
     \<or> bit (push_bit 8 (ucast (mr_subregion_disable_mask r)) :: u32) n
     \<or> bit (push_bit 24 (take_bit 3 (mr_ap r)) :: u32) n
     \<or> (n = 17 \<and> \<not> mr_is_device r) \<or> n = 16 \<or> (n = 28 \<and> mr_execute_never r)"
proof -
  have "(ucast (mr_subregion_disable_mask r) :: u32) AND mask 8 = ucast (mr_subregion_disable_mask r)"
    using bit_imp_le_length [of "mr_subregion_disable_mask r"]
    by (intro bit_word_eqI) (auto simp: bit_simps)
  moreover have "bit (push_bit 1 (take_bit 5 x) :: u32) n \<longleftrightarrow> 1 \<le> n \<and> n < 6 \<and> bit x (n - 1)" for x
    unfolding bit_push_bit_iff bit_take_bit_iff by auto
  ultimately show ?thesis
    unfolding rasr_value_def Let_def low_masks
    by (cases "mr_is_device r"; cases "mr_execute_never r")
      (simp_all only: bit_or_iff bit_bit_of if_True if_False simp_thms take_bit_eq_mask [symmetric] push_bit_0_id id_apply, simp_all)
qed

lemma rasr_fields:
  "bit (rasr_value r) 0" "bit (rasr_value r) 28 \<longleftrightarrow> mr_execute_never r"
  "take_bit 5 (drop_bit 1 (rasr_value r)) = take_bit 5 (ucast (mr_size_pow2 r) - 1)"
  "take_bit 8 (drop_bit 8 (rasr_value r)) = ucast (mr_subregion_disable_mask r)"
  "take_bit 3 (drop_bit 24 (rasr_value r)) = take_bit 3 (mr_ap r)"
proof -
  show "bit (rasr_value r) 0" by (simp add: bit_rasr_value)
  show "bit (rasr_value r) 28 \<longleftrightarrow> mr_execute_never r"
    using bit_imp_le_length [of "mr_subregion_disable_mask r" 20]
    by (auto simp: bit_rasr_value bit_simps)
  show "take_bit 5 (drop_bit 1 (rasr_value r)) = take_bit 5 (ucast (mr_size_pow2 r) - 1)"
    by (rule bit_word_eqI) (auto simp: bit_rasr_value bit_simps)
  show "take_bit 8 (drop_bit 8 (rasr_value r)) = ucast (mr_subregion_disable_mask r)"
  proof (rule bit_word_eqI)
    fix n
    show "bit (take_bit 8 (drop_bit 8 (rasr_value r))) n =
        bit (ucast (mr_subregion_disable_mask r) :: u32) n" if "n < LENGTH(32)"
      using bit_imp_le_length [of "mr_subregion_disable_mask r" n] that
      by (cases "n < 8") (auto simp: bit_rasr_value bit_simps)
  qed
  show "take_bit 3 (drop_bit 24 (rasr_value r)) = take_bit 3 (mr_ap r)"
  proof (rule bit_word_eqI)
    fix n
    show "bit (take_bit 3 (drop_bit 24 (rasr_value r))) n = bit (take_bit 3 (mr_ap r)) n"
      using bit_imp_le_length [of "mr_subregion_disable_mask r" "16 + n"]
      by (cases "n < 3") (auto simp: bit_rasr_value bit_simps)
  qed
qed

lemma size_field: 
  assumes "5 \<le> z" "z \<le> 17"
  shows "unat (take_bit 5 (ucast z - 1 :: u32)) + 1 = unat (z::u8)"
proof -
  have z: "5 \<le> unat z" "unat z \<le> 17" using assms by (simp_all add: word_le_nat_alt)
  have "unat (ucast z - 1 :: u32) = unat z - 1"
    using z by (subst unat_sub) (auto simp: word_le_nat_alt unsigned_ucast_eq take_bit_nat_eq_self)
  then show ?thesis using z by (simp add: unsigned_take_bit_eq take_bit_nat_eq_self)
qed

section \<open>Properties\<close>

text \<open>
  C28: what the CRC of a sandbox descriptor detects. A valid descriptor in which the stack base, the
  pair of size and sub-region bytes, the version or the CRC itself is then overwritten with another
  value is never accepted by \<open>is_valid\<close>. The reserved field is not covered: a valid descriptor stays
  valid whatever is written there.
\<close>

theorem sandbox_tamper_detected:
  assumes "is_valid d" and "d' \<noteq> d"
    and "d' = d\<lparr>sd_stack_base := b\<rparr> \<or> d' = d\<lparr>sd_size_pow2 := z, sd_subregion_disable := r\<rparr>
       \<or> d' = d\<lparr>sd_version := v\<rparr> \<or> d' = d\<lparr>sd_crc32 := c\<rparr>"
  shows "\<not> is_valid d' \<and> is_valid (d\<lparr>sd_reserved := x\<rparr>)"
proof (rule conjI, rule notI)
  show "is_valid (d\<lparr>sd_reserved := x\<rparr>)" using assms(1) by (simp add: is_valid_def sandbox_words_def)
  assume v': "is_valid d'"
  have eq: "foldl crc_word 0xFFFFFFFF (sandbox_words d) = foldl crc_word 0xFFFFFFFF (sandbox_words d')"
    if "sd_crc32 d' = sd_crc32 d"
    using assms(1) v' that by (metis is_valid_words xor_cancel)
  let ?sz = "\<lambda>z r. ucast (z::u8) OR push_bit 8 (ucast (r::u8)) :: u32"
  have words: "sandbox_words e = [sd_stack_base e, 0,
      ?sz (sd_size_pow2 e) (sd_subregion_disable e), sd_version e]" for e
    by (simp only: sandbox_words_def word_high_half)
  from assms(3) show False
  proof (elim disjE)
    assume d': "d' = d\<lparr>sd_stack_base := b\<rparr>"
    have "sd_stack_base d = b"
      by (rule crc_words_one_change [where s = "0xFFFFFFFF" and xs = "[]" and ys = "[0,
          ?sz (sd_size_pow2 d) (sd_subregion_disable d), sd_version d]"]) (use eq d' words in simp)
    with d' assms(2) show False by simp
  next
    assume d': "d' = d\<lparr>sd_size_pow2 := z, sd_subregion_disable := r\<rparr>"
    have "?sz (sd_size_pow2 d) (sd_subregion_disable d) = ?sz z r"
      by (rule crc_words_one_change [where s = "0xFFFFFFFF" and xs = "[sd_stack_base d, 0]"
          and ys = "[sd_version d]"]) (use eq d' words in simp)
    then have "sd_size_pow2 d = z \<and> sd_subregion_disable d = r" by (rule size_srd_word_inj)
    with d' assms(2) show False by simp
  next
    assume d': "d' = d\<lparr>sd_version := v\<rparr>"
    have "sd_version d = v"
      by (rule crc_words_one_change [where s = "0xFFFFFFFF" and xs = "[sd_stack_base d, 0,
          ?sz (sd_size_pow2 d) (sd_subregion_disable d)]" and ys = "[]"]) (use eq d' words in simp)
    with d' assms(2) show False by simp
  next
    assume d': "d' = d\<lparr>sd_crc32 := c\<rparr>"
    then have "c = sd_crc32 d" using v' assms(1) by (simp add: is_valid_def sandbox_words_def)
    with d' assms(2) show False by simp
  qed
qed

theorem sandbox_tamper_detected_witness:
  "\<not> is_valid ((seal \<lparr>sd_stack_base = 0x20004000, sd_size_pow2 = 12, sd_subregion_disable = 1, sd_reserved = 0,
      sd_version = 1, sd_crc32 = 0\<rparr>)\<lparr>sd_stack_base := 0x20005000\<rparr>)
   \<and> is_valid ((seal \<lparr>sd_stack_base = 0x20004000, sd_size_pow2 = 12, sd_subregion_disable = 1, sd_reserved = 0,
      sd_version = 1, sd_crc32 = 0\<rparr>)\<lparr>sd_reserved := 7\<rparr>)"
  by (rule sandbox_tamper_detected
      [where d = "seal \<lparr>sd_stack_base = 0x20004000, sd_size_pow2 = 12, sd_subregion_disable = 1, sd_reserved = 0,
         sd_version = 1, sd_crc32 = 0\<rparr>" and b = "0x20005000"])
    (simp_all add: seal_def is_valid_def sandbox_words_def)

text \<open>
  for a region that has sub-regions and can hold the request (one sub-region less when the
  guard is on), the mask leaves enabled exactly the topmost \<open>n\<close> sub-regions, where \<open>n\<close> is the
  least positive number of sub-regions that hold the request; with the guard the lowest
  sub-region stays disabled.
\<close>

theorem srd_mask_least_fit:
  assumes p: "8 \<le> p" "p \<le> 31"
    and fits: "unat requested \<le> (if guard then 7 else 8) * 2 ^ (unat p - 3)"
  shows "\<exists>n. {k. k < 8 \<and> \<not> bit (calculate_stack_srd_mask requested p guard) k} = {8 - n..<8}
      \<and> 1 \<le> n \<and> n \<le> (if guard then 7 else 8)
      \<and> unat requested \<le> n * 2 ^ (unat p - 3) \<and> (n - 1) * 2 ^ (unat p - 3) < max 1 (unat requested)"
proof -
  define s where "s = (2::nat) ^ (unat p - 3)"
  define n where "n = max 1 ((unat requested + s - 1) div s)"
  have up: "8 \<le> unat p" "unat p \<le> 31" using p by (simp_all add: word_le_nat_alt)
  have mask: "calculate_stack_srd_mask requested p guard = srd_mask_loop (8 - n)"
    using calculate_stack_srd_mask_nat [OF up fits] p by (simp add: n_def s_def)
  have n: "1 \<le> n" "n \<le> (if guard then 7 else 8)" "unat requested \<le> n * s"
    "(n - 1) * s < max 1 (unat requested)"
    using ceil_div_least [of s "unat requested" "if guard then 7 else 8"] fits
    by (simp_all add: n_def s_def)
  have "{k. k < 8 \<and> \<not> bit (calculate_stack_srd_mask requested p guard) k} = {8 - n..<8}"
    using n(1) by (auto simp: mask bit_srd_mask_loop)
  with n show ?thesis by (intro exI [of _ n]) (simp add: s_def)
qed

theorem srd_mask_least_fit_witness:
  "\<exists>n. {k. k < 8 \<and> \<not> bit (calculate_stack_srd_mask 1024 12 True) k} = {8 - n..<8}
      \<and> 1 \<le> n \<and> n \<le> 7 \<and> 1024 \<le> n * 512 \<and> (n - 1) * 512 < (1024::nat)"
  using srd_mask_least_fit [of 12 1024 True] by simp

text \<open>
  An accepted descriptor is programmed as asked and touches nothing else: the update either
  stalls, or leaves every region but region 7 as it was, and region 7 then holds the descriptor's
  aligned base unchanged, with a RASR word that enables the region and carries the descriptor's
  size, its sub-region mask, full access and execute-never.
\<close>

theorem verified_update_programs_region_7:
  assumes "update_user_sandbox_verified d m = Continues m'"
  shows "is_valid d \<and> (\<forall>r. r \<noteq> 7 \<longrightarrow> reg_pairs m' r = reg_pairs m r)
     \<and> fst (reg_pairs m' 7) = sd_stack_base d
     \<and> (let rasr = snd (reg_pairs m' 7) in bit rasr 0 \<and> bit rasr 28
          \<and> unat (take_bit 5 (drop_bit 1 rasr)) + 1 = unat (sd_size_pow2 d)
          \<and> take_bit 8 (drop_bit 8 rasr) = ucast (sd_subregion_disable d)
          \<and> take_bit 3 (drop_bit 24 rasr) = AP_ALL_RW)"
proof -
  from assms have v: "is_valid d" and z: "5 \<le> sd_size_pow2 d" "sd_size_pow2 d \<le> 17"
    and a: "sd_stack_base d AND (bit_of (unat (sd_size_pow2 d)) - 1) = 0"
    and m': "m' = update_user_sandbox (sd_stack_base d) (sd_size_pow2 d) (sd_subregion_disable d) m"
    by (auto simp: update_user_sandbox_verified_def update_user_sandbox_def split: if_splits)
  have base: "sd_stack_base d AND NOT 0x1F = sd_stack_base d"
    using aligned_clears_low_bits [OF a] z by (simp add: word_le_nat_alt)
  show ?thesis
    using v z base
    by (simp add: m' update_user_sandbox_def mpu_configure_region_def rasr_fields
        rasr_fields(3) [simplified] size_field [simplified] AP_ALL_RW_def Let_def)
qed

theorem verified_update_programs_region_7_witness:
  "fst (reg_pairs (update_user_sandbox 0x20004000 12 1 \<lparr>reg_rnr = 0, reg_pairs = \<lambda>_. (0, 0)\<rparr>) 7)
     = 0x20004000"
proof -
  let ?d = "seal \<lparr>sd_stack_base = 0x20004000, sd_size_pow2 = 12, sd_subregion_disable = 1,
      sd_reserved = 0, sd_version = 1, sd_crc32 = 0\<rparr>"
  have "is_valid ?d" by (simp add: seal_def is_valid_def sandbox_words_def)
  then have "update_user_sandbox_verified ?d \<lparr>reg_rnr = 0, reg_pairs = \<lambda>_. (0, 0)\<rparr> =
      Continues (update_user_sandbox 0x20004000 12 1 \<lparr>reg_rnr = 0, reg_pairs = \<lambda>_. (0, 0)\<rparr>)"
    by (simp add: update_user_sandbox_verified_def update_user_sandbox_def seal_def)
  from verified_update_programs_region_7 [OF this] show ?thesis by (simp add: seal_def)
qed

end
