(* ===== verification/Kernel_State.thy ===== *)
theory Kernel_State
  imports Prelude Mpu "HOL-Library.Monad_Syntax"
begin

text \<open>
  The kernel state of \<open>kernel/task/task.hpp\<close>, \<open>kernel/core/ipc.hpp\<close>,
  \<open>kernel/core/cspace.hpp\<close>, \<open>kernel/core/mutex.hpp\<close> and \<open>kernel/core/kernel_object.hpp\<close>.

  Task control blocks live in a store indexed by table position, so a \<open>TaskControlBlock*\<close>
  is an optional index and two pointers alias exactly when the indices agree; endpoints and
  mutexes are stores of their own. Indices read from \<open>int32_t\<close> link fields are converted
  the way the code converts them, by \<open>idx\<close>. Data pointers are 32-bit addresses into a byte
  memory. Calls into the hardware layer are appended to the event list of the state.
\<close>

section \<open>Enumerations and constants\<close>

datatype task_state = Ready | Running | Sleeping | Blocked_On_Notify | Terminated
  | Suspended | Unallocated

datatype ipc_state = IpcReady | Receiving | ReplyBlocked | Sending

datatype ipc_status = Ok | Timeout | WouldBlock | Invalid | NoPermission | ReceiverDead

datatype cap_type = CapNull | CapEndpoint | CapThread | CapMemory | CapDevice

definition MAX_TASKS :: nat where [simp]: "MAX_TASKS = 16"
definition NUM_PRIORITIES :: nat where [simp]: "NUM_PRIORITIES = 32"
definition NUM_SIG_ACTIONS :: nat where [simp]: "NUM_SIG_ACTIONS = 16"
definition MAX_CSPACE_SLOTS :: nat where [simp]: "MAX_CSPACE_SLOTS = 16"
definition TICK_RATE_HZ :: u64 where [simp]: "TICK_RATE_HZ = 1000"
definition STACK_CANARY :: u32 where "STACK_CANARY = 0xDEADBEEF"
definition SIGKILL :: nat where [simp]: "SIGKILL = 9"
definition SA_RESETHAND :: u32 where "SA_RESETHAND = 1"
definition SA_NODEFER :: u32 where "SA_NODEFER = 2"

section \<open>Kernel objects and capabilities\<close>

text \<open>A \<open>KernelObject*\<close>: the dynamic type and the identity of the object.\<close>

datatype kobj = KTask nat | KEndpoint nat | KMemory nat | KDevice nat

record cap_rights =
  cr_read :: bool
  cr_write :: bool
  cr_grant :: bool

record capability =
  cap_type :: cap_type
  cap_rights :: cap_rights
  cap_badge :: u32
  cap_object :: "kobj option"

record signal_action =
  sa_handler :: u32
  sa_mask :: u32
  sa_flags :: u32

section \<open>Task control blocks\<close>

record task_context =
  stack_ptr :: u32
  privilege :: u32
  entry_point :: u32
  errno_val :: int
  stack_canary_ptr :: u32

record scheduler_context =
  sched_state :: task_state
  task_id :: nat
  sleep_ticks :: u32
  base_priority :: nat
  current_priority :: nat
  next_ready :: int
  prev_ready :: int
  held_mutexes :: "nat option"
  waiting_on_mutex :: "nat option"

record memory_context =
  stack_base :: u32
  mem_size_pow2 :: u8
  mem_subregion_disable :: u8
  mpu_sandbox :: sandbox_descriptor
  pgdir_base :: u32
  vasp :: "nat option"

record ipc_context =
  ipc_state :: ipc_state
  ipc_status :: ipc_status
  blocked_next :: "nat option"
  msg_buf :: u32
  reply_buf :: u32
  msg_len :: u32
  max_len :: u32
  sender_id :: nat
  receiver_id :: nat
  ipc_badge :: u32
  msg_type :: u32
  label_filter :: u32
  notify_value :: u32
  notify_pending :: bool
  waiting_endpoint :: "nat option"

record security_context =
  cspace :: "nat \<Rightarrow> capability"
  occupied_mask :: u16
  pending_signals :: u32
  signal_mask :: u32
  sig_actions :: "nat \<Rightarrow> signal_action"

record tcb =
  task :: task_context
  scheduler :: scheduler_context
  memory :: memory_context
  ipc :: ipc_context
  security :: security_context

section \<open>Wait queues, endpoints and mutexes\<close>

record wait_queue =
  wq_head :: "nat option"
  wq_tail :: "nat option"

record endpoint =
  send_queue :: wait_queue
  recv_queue :: wait_queue

record mutex =
  locked :: bool
  owner :: "nat option"
  recursive_count :: u32
  next_held :: "nat option"
  wait_mask :: u32
  ceiling_prio :: nat

section \<open>The kernel\<close>

datatype arch_event =
    SwitchAddressSpace u32
  | TriggerContextSwitch
  | SetPrivilege u32
  | WatchdogFeed nat
  | DeleteVasp nat
  | SystickInit
  | StartFirstTask u32 u32 u32

record kernel =
  tasks :: "nat \<Rightarrow> tcb"
  task_count :: nat
  started :: bool
  ready_head :: "nat \<Rightarrow> int"
  ready_bitmask :: u32
  current_tcb :: "nat option"
  next_tcb :: "nat option"
  switch_start_cycle :: u32
  endpoints :: "nat \<Rightarrow> endpoint"
  mutexes :: "nat \<Rightarrow> mutex"
  ref_count :: "kobj \<Rightarrow> u32"
  current_tick :: u32
  mem :: "u32 \<Rightarrow> u8"
  mpu :: mpu_regs
  events :: "arch_event list"

text \<open>The value-initialised task control block \<open>TaskControlBlock()\<close> builds.\<close>

definition null_capability :: capability where
  "null_capability = \<lparr>cap_type = CapNull, cap_rights = \<lparr>cr_read = False, cr_write = False,
     cr_grant = False\<rparr>, cap_badge = 0, cap_object = None\<rparr>"

definition null_action :: signal_action where
  "null_action = \<lparr>sa_handler = 0, sa_mask = 0, sa_flags = 0\<rparr>"

definition empty_tcb :: tcb where
  "empty_tcb =
     \<lparr>task = \<lparr>stack_ptr = 0, privilege = 0, entry_point = 0, errno_val = 0, stack_canary_ptr = 0\<rparr>,
      scheduler = \<lparr>sched_state = Ready, task_id = 0, sleep_ticks = 0, base_priority = 0,
        current_priority = 0, next_ready = 0, prev_ready = 0, held_mutexes = None,
        waiting_on_mutex = None\<rparr>,
      memory = \<lparr>stack_base = 0, mem_size_pow2 = 0, mem_subregion_disable = 0,
        mpu_sandbox = \<lparr>sd_stack_base = 0, sd_size_pow2 = 0, sd_subregion_disable = 0,
          sd_reserved = 0, sd_version = 0, sd_crc32 = 0\<rparr>, pgdir_base = 0, vasp = None\<rparr>,
      ipc = \<lparr>ipc_state = IpcReady, ipc_status = Ok, blocked_next = None, msg_buf = 0, reply_buf = 0,
        msg_len = 0, max_len = 0, sender_id = 0, receiver_id = 0, ipc_badge = 0, msg_type = 0,
        label_filter = 0, notify_value = 0, notify_pending = False, waiting_endpoint = None\<rparr>,
      security = \<lparr>cspace = \<lambda>_. null_capability, occupied_mask = 0, pending_signals = 0,
        signal_mask = 0, sig_actions = \<lambda>_. null_action\<rparr>\<rparr>"

section \<open>Access to the stores\<close>

abbreviation sched :: "kernel \<Rightarrow> nat \<Rightarrow> scheduler_context" where
  "sched s i \<equiv> scheduler (tasks s i)"

abbreviation ipcx :: "kernel \<Rightarrow> nat \<Rightarrow> ipc_context" where
  "ipcx s i \<equiv> ipc (tasks s i)"

abbreviation secx :: "kernel \<Rightarrow> nat \<Rightarrow> security_context" where
  "secx s i \<equiv> security (tasks s i)"

definition upd_tcb :: "nat \<Rightarrow> (tcb \<Rightarrow> tcb) \<Rightarrow> kernel \<Rightarrow> kernel" where
  "upd_tcb i f s = s\<lparr>tasks := (tasks s)(i := f (tasks s i))\<rparr>"

definition upd_task :: "nat \<Rightarrow> (task_context \<Rightarrow> task_context) \<Rightarrow> kernel \<Rightarrow> kernel" where
  "upd_task i f = upd_tcb i (task_update f)"

definition upd_sched :: "nat \<Rightarrow> (scheduler_context \<Rightarrow> scheduler_context) \<Rightarrow> kernel \<Rightarrow> kernel" where
  "upd_sched i f = upd_tcb i (scheduler_update f)"

definition upd_memory :: "nat \<Rightarrow> (memory_context \<Rightarrow> memory_context) \<Rightarrow> kernel \<Rightarrow> kernel" where
  "upd_memory i f = upd_tcb i (memory_update f)"

definition upd_ipc :: "nat \<Rightarrow> (ipc_context \<Rightarrow> ipc_context) \<Rightarrow> kernel \<Rightarrow> kernel" where
  "upd_ipc i f = upd_tcb i (ipc_update f)"

definition upd_sec :: "nat \<Rightarrow> (security_context \<Rightarrow> security_context) \<Rightarrow> kernel \<Rightarrow> kernel" where
  "upd_sec i f = upd_tcb i (security_update f)"

definition log_event :: "arch_event \<Rightarrow> kernel \<Rightarrow> kernel" where
  "log_event e s = s\<lparr>events := e # events s\<rparr>"

text \<open>The conversion of an \<open>int32_t\<close> link to the \<open>uint32_t\<close> index it is used as.\<close>

definition idx :: "int \<Rightarrow> nat" where
  "idx k = unat (word_of_int k :: u32)"

lemma idx_int [simp]: "n < 2 ^ 32 \<Longrightarrow> idx (int n) = n"
  by (simp add: idx_def unat_of_nat take_bit_nat_eq_self)

lemma idx_nat [simp]: "0 \<le> k \<Longrightarrow> k < 2 ^ 32 \<Longrightarrow> idx k = nat k"
  using idx_int [of "nat k"] by simp

section \<open>Byte memory\<close>

definition store_word :: "u32 \<Rightarrow> u32 \<Rightarrow> (u32 \<Rightarrow> u8) \<Rightarrow> u32 \<Rightarrow> u8" where
  "store_word a w m = m(a := ucast w, a + 1 := ucast (drop_bit 8 w),
     a + 2 := ucast (drop_bit 16 w), a + 3 := ucast (drop_bit 24 w))"

definition load_word :: "u32 \<Rightarrow> (u32 \<Rightarrow> u8) \<Rightarrow> u32" where
  "load_word a m = ucast (m a) OR push_bit 8 (ucast (m (a + 1)))
     OR push_bit 16 (ucast (m (a + 2))) OR push_bit 24 (ucast (m (a + 3)))"

text \<open>The forward byte loop \<open>for (i = 0; i < n; ++i) dst[i] = src[i]\<close>.\<close>

fun copy_bytes :: "nat \<Rightarrow> u32 \<Rightarrow> u32 \<Rightarrow> (u32 \<Rightarrow> u8) \<Rightarrow> u32 \<Rightarrow> u8" where
  "copy_bytes 0 dst src m = m"
| "copy_bytes (Suc n) dst src m = copy_bytes n (dst + 1) (src + 1) (m(dst := m src))"

section \<open>Frame rules of the updates\<close>

named_theorems kernel_simps \<open>projections of updated kernel states\<close>

lemmas upd_defs = upd_task_def upd_sched_def upd_memory_def upd_ipc_def upd_sec_def upd_tcb_def

lemma upd_sched_frame [kernel_simps]:
  "tasks (upd_sched i f s) j = (if j = i then scheduler_update f (tasks s i) else tasks s j)"
  "task_count (upd_sched i f s) = task_count s" "started (upd_sched i f s) = started s"
  "ready_head (upd_sched i f s) = ready_head s"
  "ready_bitmask (upd_sched i f s) = ready_bitmask s"
  "current_tcb (upd_sched i f s) = current_tcb s" "next_tcb (upd_sched i f s) = next_tcb s"
  "endpoints (upd_sched i f s) = endpoints s" "mutexes (upd_sched i f s) = mutexes s"
  "ref_count (upd_sched i f s) = ref_count s" "current_tick (upd_sched i f s) = current_tick s"
  "mpu (upd_sched i f s) = mpu s" "mem (upd_sched i f s) = mem s" "events (upd_sched i f s) = events s"
  by (simp_all add: upd_defs)

lemma upd_ipc_frame [kernel_simps]:
  "tasks (upd_ipc i f s) j = (if j = i then ipc_update f (tasks s i) else tasks s j)"
  "task_count (upd_ipc i f s) = task_count s" "started (upd_ipc i f s) = started s"
  "ready_head (upd_ipc i f s) = ready_head s"
  "ready_bitmask (upd_ipc i f s) = ready_bitmask s"
  "current_tcb (upd_ipc i f s) = current_tcb s" "next_tcb (upd_ipc i f s) = next_tcb s"
  "endpoints (upd_ipc i f s) = endpoints s" "mutexes (upd_ipc i f s) = mutexes s"
  "ref_count (upd_ipc i f s) = ref_count s" "current_tick (upd_ipc i f s) = current_tick s"
  "mpu (upd_ipc i f s) = mpu s" "mem (upd_ipc i f s) = mem s" "events (upd_ipc i f s) = events s"
  by (simp_all add: upd_defs)

lemma upd_sec_frame [kernel_simps]:
  "tasks (upd_sec i f s) j = (if j = i then security_update f (tasks s i) else tasks s j)"
  "task_count (upd_sec i f s) = task_count s" "started (upd_sec i f s) = started s"
  "ready_head (upd_sec i f s) = ready_head s"
  "ready_bitmask (upd_sec i f s) = ready_bitmask s"
  "current_tcb (upd_sec i f s) = current_tcb s" "next_tcb (upd_sec i f s) = next_tcb s"
  "endpoints (upd_sec i f s) = endpoints s" "mutexes (upd_sec i f s) = mutexes s"
  "ref_count (upd_sec i f s) = ref_count s" "current_tick (upd_sec i f s) = current_tick s"
  "mpu (upd_sec i f s) = mpu s" "mem (upd_sec i f s) = mem s" "events (upd_sec i f s) = events s"
  by (simp_all add: upd_defs)

lemma upd_task_frame [kernel_simps]:
  "tasks (upd_task i f s) j = (if j = i then task_update f (tasks s i) else tasks s j)"
  "task_count (upd_task i f s) = task_count s" "started (upd_task i f s) = started s"
  "ready_head (upd_task i f s) = ready_head s"
  "ready_bitmask (upd_task i f s) = ready_bitmask s"
  "current_tcb (upd_task i f s) = current_tcb s" "next_tcb (upd_task i f s) = next_tcb s"
  "endpoints (upd_task i f s) = endpoints s" "mutexes (upd_task i f s) = mutexes s"
  "ref_count (upd_task i f s) = ref_count s" "current_tick (upd_task i f s) = current_tick s"
  "mpu (upd_task i f s) = mpu s" "mem (upd_task i f s) = mem s" "events (upd_task i f s) = events s"
  by (simp_all add: upd_defs)

lemma upd_memory_frame [kernel_simps]:
  "tasks (upd_memory i f s) j = (if j = i then memory_update f (tasks s i) else tasks s j)"
  "task_count (upd_memory i f s) = task_count s" "started (upd_memory i f s) = started s"
  "ready_head (upd_memory i f s) = ready_head s"
  "ready_bitmask (upd_memory i f s) = ready_bitmask s"
  "current_tcb (upd_memory i f s) = current_tcb s" "next_tcb (upd_memory i f s) = next_tcb s"
  "endpoints (upd_memory i f s) = endpoints s" "mutexes (upd_memory i f s) = mutexes s"
  "ref_count (upd_memory i f s) = ref_count s" "current_tick (upd_memory i f s) = current_tick s"
  "mpu (upd_memory i f s) = mpu s" "mem (upd_memory i f s) = mem s" "events (upd_memory i f s) = events s"
  by (simp_all add: upd_defs)

lemma log_event_frame [kernel_simps]:
  "tasks (log_event e s) = tasks s" "task_count (log_event e s) = task_count s"
  "started (log_event e s) = started s" "ready_head (log_event e s) = ready_head s"
  "ready_bitmask (log_event e s) = ready_bitmask s"
  "current_tcb (log_event e s) = current_tcb s" "next_tcb (log_event e s) = next_tcb s"
  "endpoints (log_event e s) = endpoints s" "mutexes (log_event e s) = mutexes s"
  "ref_count (log_event e s) = ref_count s" "current_tick (log_event e s) = current_tick s"
  "mpu (log_event e s) = mpu s" "mem (log_event e s) = mem s" "events (log_event e s) = e # events s"
  by (simp_all add: log_event_def)

end
