(* ===== verification/Scheduler.thy ===== *)
theory Scheduler
  imports Kernel_State Arch_Bits
begin

text \<open>
  The scheduler of \<open>kernel/task/task.hpp\<close>: ready queues as circular doubly linked lists
  threaded through the task table, task state and priority changes, task creation, signals,
  the scheduling decision and sleeping. The frame-aware filter, the signal handlers and the
  cycle counter, which this file only calls, are the fields of a \<open>sched_env\<close> argument.
\<close>

section \<open>Ready queues\<close>

abbreviation set_next :: "nat \<Rightarrow> int \<Rightarrow> kernel \<Rightarrow> kernel" where
  "set_next i v \<equiv> upd_sched i (\<lambda>r. r\<lparr>next_ready := v\<rparr>)"

abbreviation set_prev :: "nat \<Rightarrow> int \<Rightarrow> kernel \<Rightarrow> kernel" where
  "set_prev i v \<equiv> upd_sched i (\<lambda>r. r\<lparr>prev_ready := v\<rparr>)"

definition set_head :: "nat \<Rightarrow> int \<Rightarrow> kernel \<Rightarrow> kernel" where
  "set_head p v s = s\<lparr>ready_head := (ready_head s)(p := v)\<rparr>"

definition set_bitmask :: "u32 \<Rightarrow> kernel \<Rightarrow> kernel" where
  "set_bitmask b s = s\<lparr>ready_bitmask := b\<rparr>"

definition ready_prio :: "kernel \<Rightarrow> nat \<Rightarrow> nat" where
  "ready_prio s i =
     (let prio = current_priority (sched s i)
      in if prio \<ge> NUM_PRIORITIES then NUM_PRIORITIES - 1 else prio)"

definition init_links :: "nat \<Rightarrow> tcb \<Rightarrow> tcb" where
  "init_links i t =
     (if i < MAX_TASKS
      then t\<lparr>scheduler := (scheduler t)\<lparr>next_ready := -1, prev_ready := -1,
             sched_state := Unallocated\<rparr>\<rparr>
      else t)"

definition init :: "kernel \<Rightarrow> kernel" where
  "init s = s\<lparr>task_count := 0, started := False, ready_bitmask := 0,
     ready_head := (\<lambda>p. if p < NUM_PRIORITIES then -1 else ready_head s p),
     tasks := (\<lambda>i. init_links i (tasks s i))\<rparr>"

definition push_ready :: "nat \<Rightarrow> kernel \<Rightarrow> kernel" where
  "push_ready task_index s =
     (if task_index \<ge> MAX_TASKS then s
      else
        let prio = ready_prio s task_index;
            head = ready_head s prio
        in if head = -1
           then set_bitmask (ready_bitmask s OR bit_of prio)
                 (set_prev task_index (int task_index)
                   (set_next task_index (int task_index)
                     (set_head prio (int task_index) s)))
           else
             let tail = prev_ready (sched s (idx head))
             in set_prev (idx head) (int task_index)
                 (set_next task_index head
                   (set_prev task_index tail
                     (set_next (idx tail) (int task_index) s))))"

definition remove_ready :: "nat \<Rightarrow> kernel \<Rightarrow> kernel" where
  "remove_ready task_index s =
     (if task_index \<ge> MAX_TASKS then s
      else
        let prio = ready_prio s task_index;
            nxt = next_ready (sched s task_index);
            prv = prev_ready (sched s task_index)
        in if nxt = -1 then s
           else
             let s1 =
               (if idx nxt = task_index
                then set_bitmask (ready_bitmask s AND NOT (bit_of prio)) (set_head prio (-1) s)
                else
                  let s' = set_prev (idx nxt) prv (set_next (idx prv) nxt s)
                  in if ready_head s' prio = int task_index
                     then set_head prio (next_ready (sched s' task_index)) s' else s')
             in set_prev task_index (-1) (set_next task_index (-1) s1))"

section \<open>State and priority changes\<close>

definition set_task_state :: "nat \<Rightarrow> task_state \<Rightarrow> kernel \<Rightarrow> kernel" where
  "set_task_state i new_state s =
     (if i \<ge> MAX_TASKS \<or> i \<ge> task_count s then s
      else if sched_state (sched s i) = new_state then s
      else
        let s1 = (if sched_state (sched s i) = Ready then remove_ready i s else s);
            s2 = upd_sched i (\<lambda>r. r\<lparr>sched_state := new_state\<rparr>) s1
        in if new_state = Ready then push_ready i s2 else s2)"

definition set_task_priority :: "nat \<Rightarrow> nat \<Rightarrow> kernel \<Rightarrow> kernel" where
  "set_task_priority i new_prio s =
     (if i \<ge> MAX_TASKS \<or> i \<ge> task_count s then s
      else if current_priority (sched s i) = new_prio then s
      else
        let was_ready = (sched_state (sched s i) = Ready);
            s1 = (if was_ready then remove_ready i s else s);
            s2 = upd_sched i (\<lambda>r. r\<lparr>current_priority := new_prio\<rparr>) s1
        in if was_ready then push_ready i s2 else s2)"

section \<open>Creating and freeing tasks\<close>

text \<open>\<open>init_thread_stack\<close> of the Cortex-M3 port: the exception frame below the stack top.\<close>

definition init_thread_stack :: "u32 \<Rightarrow> u32 \<Rightarrow> u32 \<Rightarrow> (u32 \<Rightarrow> u8) \<Rightarrow> u32 \<times> (u32 \<Rightarrow> u8)" where
  "init_thread_stack task_entry stack_space stack_size m =
     (let top0 = stack_space + 4 * (stack_size div 4);
          top1 = top0 - 4; m1 = store_word top1 0x01000000 m;
          top2 = top1 - 4; m2 = store_word top2 task_entry m1;
          top3 = top2 - 4; m3 = store_word top3 0xFFFFFFFD m2;
          top4 = top3 - 4 * 5;
          top5 = top4 - 4 * 8
      in (top5, m3))"

definition new_tcb ::
  "nat \<Rightarrow> u32 \<Rightarrow> u32 \<Rightarrow> u32 \<Rightarrow> nat \<Rightarrow> u8 \<Rightarrow> u32 \<Rightarrow> u8 \<Rightarrow> tcb" where
  "new_tcb i task_entry stack_space stack_size prio size_pow2 priv subregion_disable =
     (let srd = (if subregion_disable = 0 \<and> size_pow2 \<ge> 8
                 then calculate_stack_srd_mask stack_size size_pow2 True else subregion_disable);
          sandbox = seal \<lparr>sd_stack_base = stack_space, sd_size_pow2 = size_pow2,
                     sd_subregion_disable = srd, sd_reserved = 0, sd_version = 1, sd_crc32 = 0\<rparr>
      in empty_tcb
         \<lparr>task := (task empty_tcb)\<lparr>entry_point := task_entry, privilege := priv,
            stack_canary_ptr := stack_space\<rparr>,
          scheduler := (scheduler empty_tcb)\<lparr>task_id := i, sched_state := Ready,
            base_priority := prio, current_priority := prio, next_ready := -1, prev_ready := -1\<rparr>,
          memory := (memory empty_tcb)\<lparr>stack_base := stack_space, mem_size_pow2 := size_pow2,
            mem_subregion_disable := srd, mpu_sandbox := sandbox\<rparr>\<rparr>)"

definition free_index :: "kernel \<Rightarrow> nat option" where
  "free_index s = find (\<lambda>i. sched_state (sched s i) = Unallocated) [0..<MAX_TASKS]"

definition create_task ::
  "u32 \<Rightarrow> u32 \<Rightarrow> u32 \<Rightarrow> nat \<Rightarrow> u8 \<Rightarrow> u32 \<Rightarrow> u8 \<Rightarrow> kernel \<Rightarrow> nat option \<times> kernel" where
  "create_task task_entry stack_space stack_size prio size_pow2 priv subregion_disable s =
     (case free_index s of
        None \<Rightarrow> (None, s)
      | Some i \<Rightarrow>
          let s1 = (if i \<ge> task_count s then s\<lparr>task_count := i + 1\<rparr> else s);
              s2 = upd_tcb i (\<lambda>_. new_tcb i task_entry stack_space stack_size prio size_pow2 priv
                     subregion_disable) s1;
              s3 = s2\<lparr>ref_count := (ref_count s2)(KTask i := 1)\<rparr>;
              s4 = (if stack_space \<noteq> 0
                    then s3\<lparr>mem := store_word stack_space STACK_CANARY (mem s3)\<rparr> else s3);
              (sp, m) = init_thread_stack task_entry stack_space stack_size (mem s4);
              s5 = upd_task i (\<lambda>r. r\<lparr>stack_ptr := sp\<rparr>) (s4\<lparr>mem := m\<rparr>)
          in (Some i, push_ready i s5))"

definition free_task :: "nat option \<Rightarrow> kernel \<Rightarrow> kernel" where
  "free_task t s =
     (case t of None \<Rightarrow> s
      | Some i \<Rightarrow>
          let s1 = (case vasp (memory (tasks s i)) of None \<Rightarrow> s
                    | Some v \<Rightarrow> upd_memory i (\<lambda>r. r\<lparr>vasp := None, pgdir_base := 0\<rparr>)
                                 (log_event (DeleteVasp v) s));
              s2 = (if sched_state (sched s1 i) = Ready
                    then remove_ready (task_id (sched s1 i)) s1 else s1)
          in upd_sched i (\<lambda>r. r\<lparr>sched_state := Unallocated\<rparr>) s2)"

definition get_task :: "int \<Rightarrow> kernel \<Rightarrow> nat option" where
  "get_task index s = (if index \<ge> 0 \<and> nat index < task_count s then Some (nat index) else None)"

definition get_task_by_id :: "nat \<Rightarrow> kernel \<Rightarrow> nat option" where
  "get_task_by_id i s = (if i < task_count s then Some i else None)"

section \<open>Signals\<close>

record sched_env =
  env_allowed :: "nat \<Rightarrow> bool"
  env_handler :: "u32 \<Rightarrow> nat \<Rightarrow> kernel \<Rightarrow> kernel"
  env_cycle :: u32

definition run_handler :: "sched_env \<Rightarrow> nat \<Rightarrow> nat \<Rightarrow> kernel \<Rightarrow> kernel" where
  "run_handler env t sig s =
     (let action = sig_actions (secx s t) sig in
      if sa_handler action = 0 then s
      else
        let old_mask = signal_mask (secx s t);
            s1 = upd_sec t (\<lambda>r. r\<lparr>signal_mask := signal_mask r OR sa_mask action\<rparr>) s;
            s2 = (if sa_flags action AND SA_NODEFER = 0
                  then upd_sec t (\<lambda>r. r\<lparr>signal_mask := signal_mask r OR bit_of sig\<rparr>) s1 else s1);
            s3 = env_handler env (sa_handler action) sig s2;
            s4 = (if sa_flags (sig_actions (secx s3 t) sig) AND SA_RESETHAND \<noteq> 0
                  then upd_sec t (\<lambda>r. r\<lparr>sig_actions := (sig_actions r)
                         (sig := (sig_actions r sig)\<lparr>sa_handler := 0\<rparr>)\<rparr>) s3 else s3)
        in upd_sec t (\<lambda>r. r\<lparr>signal_mask := old_mask\<rparr>) s4)"

fun dispatch_loop :: "sched_env \<Rightarrow> nat \<Rightarrow> u32 \<Rightarrow> nat list \<Rightarrow> kernel \<Rightarrow> kernel" where
  "dispatch_loop env t pending [] s = s"
| "dispatch_loop env t pending (sig # sigs) s =
     (if pending AND bit_of sig = 0 then dispatch_loop env t pending sigs s
      else if sig \<noteq> SIGKILL \<and> signal_mask (secx s t) AND bit_of sig \<noteq> 0
      then dispatch_loop env t pending sigs
             (upd_sec t (\<lambda>r. r\<lparr>pending_signals := pending_signals r OR bit_of sig\<rparr>) s)
      else if sig = SIGKILL then set_task_state (task_id (sched s t)) Terminated s
      else dispatch_loop env t pending sigs (run_handler env t sig s))"

definition actionable :: "security_context \<Rightarrow> u32" where
  "actionable r = (pending_signals r AND NOT (signal_mask r)) OR
     (pending_signals r AND bit_of SIGKILL)"

definition dispatch_signals :: "sched_env \<Rightarrow> nat option \<Rightarrow> kernel \<Rightarrow> kernel" where
  "dispatch_signals env tp s =
     (case tp of None \<Rightarrow> s
      | Some t \<Rightarrow>
          if pending_signals (secx s t) = 0 then s
          else if actionable (secx s t) = 0 then s
          else dispatch_loop env t (pending_signals (secx s t)) [1..<NUM_SIG_ACTIONS]
                 (upd_sec t (\<lambda>r. r\<lparr>pending_signals := 0\<rparr>) s))"

definition send_signal :: "nat \<Rightarrow> int \<Rightarrow> kernel \<Rightarrow> bool \<times> kernel" where
  "send_signal target_id sig s =
     (if target_id \<ge> task_count s \<or> sig \<le> 0 \<or> sig \<ge> 32 then (False, s)
      else if sched_state (sched s target_id) = Terminated then (False, s)
      else
        let s1 = upd_sec target_id
                   (\<lambda>r. r\<lparr>pending_signals := pending_signals r OR bit_of (nat sig)\<rparr>) s;
            s2 = (if sched_state (sched s1 target_id) = Sleeping
                     \<or> sched_state (sched s1 target_id) = Blocked_On_Notify
                  then set_task_state (task_id (sched s1 target_id)) Ready s1 else s1)
        in (True, s2))"

definition drop_self_privilege :: "kernel \<Rightarrow> kernel" where
  "drop_self_privilege s =
     (let current_task_id = (case current_tcb s of Some c \<Rightarrow> task_id (sched s c) | None \<Rightarrow> 0)
      in log_event (SetPrivilege 1) (upd_task current_task_id (\<lambda>r. r\<lparr>privilege := 1\<rparr>) s))"

section \<open>The scheduling decision\<close>

text \<open>
  The scan of the ready bitmask from the highest priority down for one the frame scheduler
  lets run. Each turn clears the bit it looked at.
\<close>

lemma clear_highest_less:
  assumes "msk \<noteq> 0"
  shows "card {n. bit (msk AND NOT (bit_of (nat (find_highest_bit msk)))) n} < card {n. bit msk n}"
proof -
  obtain n where n: "find_highest_bit msk = int n" "bit msk n"
    using find_highest_bit_obtain [OF assms] .
  have "{k. bit (msk AND NOT (bit_of n)) k} \<subset> {k. bit msk k}"
    unfolding bit_and_not_bit_of using n(2) by auto
  moreover have "finite {k. bit msk k}"
    by (rule finite_subset [of _ "{..<32}"]) (auto dest: u32_bit_lt)
  ultimately show ?thesis unfolding n(1) nat_int by (intro psubset_card_mono)
qed

function scan_allowed :: "(nat \<Rightarrow> bool) \<Rightarrow> u32 \<Rightarrow> nat option" where
  "scan_allowed ok msk =
     (if msk = 0 then None
      else
        let p = nat (find_highest_bit msk)
        in if ok p then Some p else scan_allowed ok (msk AND NOT (bit_of p)))"
  by auto
termination
proof (relation "measure (\<lambda>(ok, msk). card {n. bit msk n})")
  fix ok :: "nat \<Rightarrow> bool" and msk :: u32 and p
  assume "msk \<noteq> 0" "p = nat (find_highest_bit msk)"
  then show "((ok, msk AND NOT (bit_of p)), ok, msk) \<in> measure (\<lambda>(ok, msk). card {n. bit msk n})"
    using clear_highest_less unfolding in_measure case_prod_conv by blast
qed simp

declare scan_allowed.simps [simp del]

text \<open>
  The second fallback: the first ready task in priority order. Its loops follow links and stop
  only where the links lead back to the head, so not stopping is the value None.
\<close>

partial_function (option) scan_ring :: "kernel \<Rightarrow> int \<Rightarrow> int \<Rightarrow> nat option option" where
  "scan_ring s head iter =
     (if iter = head \<or> iter = -1 then Some None
      else if sched_state (sched s (idx iter)) = Ready then Some (Some (idx iter))
      else scan_ring s head (next_ready (sched s (idx iter))))"

partial_function (option) fallback_ready :: "kernel \<Rightarrow> u32 \<Rightarrow> nat option option" where
  "fallback_ready s msk =
     (if msk = 0 then Some None
      else
        let p = nat (find_highest_bit msk);
            candidate = idx (ready_head s p)
        in if candidate < task_count s \<and> sched_state (sched s candidate) = Ready
           then Some (Some candidate)
           else
             do { found \<leftarrow> (if next_ready (sched s candidate) \<noteq> -1
                        then scan_ring s (ready_head s p) (next_ready (sched s candidate))
                        else Some None);
                  (case found of Some t \<Rightarrow> Some (Some t)
                   | None \<Rightarrow> fallback_ready s (msk AND NOT (bit_of p))) })"

definition current_task_id :: "kernel \<Rightarrow> nat" where
  "current_task_id s = (case current_tcb s of Some c \<Rightarrow> task_id (sched s c) | None \<Rightarrow> 0)"

definition rotate_current :: "nat \<Rightarrow> kernel \<Rightarrow> kernel" where
  "rotate_current cur s =
     (if sched_state (sched s cur) = Ready
      then let p = current_priority (sched s cur)
           in if ready_head s p = int cur then set_head p (next_ready (sched s cur)) s else s
      else s)"

definition pick_next :: "(nat \<Rightarrow> bool) \<Rightarrow> nat \<Rightarrow> kernel \<Rightarrow> nat option" where
  "pick_next allowed cur s =
     (let next0 = (case scan_allowed allowed (ready_bitmask s) of
                     Some p \<Rightarrow> idx (ready_head s p) | None \<Rightarrow> cur);
          next1 = (if next0 = cur \<and> ready_bitmask s AND bit_of 0 \<noteq> 0
                   then idx (ready_head s 0) else next0)
      in if sched_state (sched s next1) \<noteq> Ready
         then do { found \<leftarrow> fallback_ready s (ready_bitmask s);
                   Some (case found of Some t \<Rightarrow> t | None \<Rightarrow> next1) }
         else Some next1)"

definition switch_to :: "nat \<Rightarrow> nat \<Rightarrow> kernel \<Rightarrow> kernel" where
  "switch_to cur nxt s =
     (if nxt \<noteq> cur
      then let s1 = s\<lparr>next_tcb := Some nxt\<rparr>;
               s2 = (if pgdir_base (memory (tasks s1 nxt)) \<noteq> 0
                     then log_event (SwitchAddressSpace (pgdir_base (memory (tasks s1 nxt)))) s1
                     else s1)
           in log_event TriggerContextSwitch s2
      else s)"

definition schedule :: "sched_env \<Rightarrow> kernel \<Rightarrow> kernel option" where
  "schedule env s =
     (if \<not> started s \<or> task_count s \<le> 1 then Some s
      else
        let s0 = s\<lparr>switch_start_cycle := env_cycle env\<rparr>;
            cur = current_task_id s0;
            s1 = dispatch_signals env (Some cur) s0;
            s2 = (if sched_state (sched s1 cur) \<noteq> Terminated then rotate_current cur s1 else s1)
        in do { nxt \<leftarrow> pick_next (env_allowed env) cur s2;
                let s3 = switch_to cur nxt s2;
                Some (log_event (WatchdogFeed (current_priority (sched s3 cur))) s3) })"

section \<open>Sleeping and starting\<close>

text \<open>\<open>sleep_ms\<close> dereferences the current task: without one it does not return.\<close>

definition ms_to_sleep_ticks :: "u32 \<Rightarrow> u32" where
  "ms_to_sleep_ticks ms = ucast ((ucast ms * TICK_RATE_HZ + 999) div 1000 :: u64)"

definition sleep_ms :: "sched_env \<Rightarrow> u32 \<Rightarrow> kernel \<Rightarrow> kernel option" where
  "sleep_ms env ms s =
     (case current_tcb s of
        None \<Rightarrow> None
      | Some c \<Rightarrow>
          let s1 = upd_sched c (\<lambda>r. r\<lparr>sleep_ticks := ms_to_sleep_ticks ms\<rparr>) s;
              s2 = set_task_state (task_id (sched s1 c)) Sleeping s1
          in schedule env s2)"

definition get_expected_idle_ticks :: "kernel \<Rightarrow> u32" where
  "get_expected_idle_ticks s =
     foldl (\<lambda>min_ticks i. if sleep_ticks (sched s i) > 0 \<and> sleep_ticks (sched s i) < min_ticks
                          then sleep_ticks (sched s i) else min_ticks)
       0xFFFFFFFF [0..<task_count s]"

definition get_highest_ready_priority :: "kernel \<Rightarrow> int" where
  "get_highest_ready_priority s = find_highest_bit (ready_bitmask s)"

definition start :: "kernel \<Rightarrow> kernel" where
  "start s =
     (let s1 = s\<lparr>started := True, current_tcb := Some 0, next_tcb := Some 0\<rparr>;
          s2 = (if pgdir_base (memory (tasks s1 0)) \<noteq> 0
                then log_event (SwitchAddressSpace (pgdir_base (memory (tasks s1 0)))) s1 else s1);
          s3 = log_event SystickInit s2
      in log_event (StartFirstTask (stack_ptr (task (tasks s3 0))) (entry_point (task (tasks s3 0)))
           (privilege (task (tasks s3 0)))) s3)"

section \<open>The context switch\<close>

definition mpu_switch_sandbox :: "nat option \<Rightarrow> kernel \<Rightarrow> kernel halting" where
  "mpu_switch_sandbox tp s =
     (case tp of None \<Rightarrow> Continues s
      | Some n \<Rightarrow>
          if mem_size_pow2 (memory (tasks s n)) > 0
          then (case update_user_sandbox_verified (mpu_sandbox (memory (tasks s n))) (mpu s) of
                  Stalled \<Rightarrow> Stalled | Continues m \<Rightarrow> Continues (s\<lparr>mpu := m\<rparr>))
          else Continues s)"

text \<open>
  \<open>PendSV_Handler\<close> of \<open>arch/arm/cortex-m/cm3/boot.S\<close>: save the eight callee registers below the old
  stack pointer, adopt the task \<open>schedule\<close> chose, its privilege and its sandbox. A null pointer
  faults. The registers themselves are not part of the state.
\<close>

definition pend_sv :: "u32 \<Rightarrow> kernel \<Rightarrow> kernel halting" where
  "pend_sv psp s =
     (case (current_tcb s, next_tcb s) of
        (Some c, Some n) \<Rightarrow>
          let s1 = upd_task c (\<lambda>r. r\<lparr>stack_ptr := psp - 32\<rparr>) s;
              s2 = s1\<lparr>current_tcb := Some n\<rparr>;
              s3 = log_event (SetPrivilege (privilege (task (tasks s2 n)) AND 1)) s2
          in mpu_switch_sandbox (Some n) s3
      | _ \<Rightarrow> Stalled)"

end
