(* ===== verification/Ring.thy ===== *)
theory Ring
  imports Main
begin

text \<open>
  Circular doubly linked lists over two link functions, the shape of a ready queue of
  \<open>kernel/task/task.hpp\<close>. A link holds an index or -1. The list is read off the links
  segment by segment, so that appending at the tail, unlinking a node and moving the head
  are list operations.
\<close>

section \<open>Segments\<close>

fun links :: "(nat \<Rightarrow> int) \<Rightarrow> (nat \<Rightarrow> int) \<Rightarrow> nat \<Rightarrow> nat list \<Rightarrow> nat \<Rightarrow> bool" where
  "links nx pv a [] b \<longleftrightarrow> nx a = int b \<and> pv b = int a"
| "links nx pv a (y # ys) b \<longleftrightarrow> nx a = int y \<and> pv y = int a \<and> links nx pv y ys b"

lemma links_append:
  "links nx pv a (ys @ z # zs) b \<longleftrightarrow> links nx pv a ys z \<and> links nx pv z zs b"
  by (induction ys arbitrary: a) auto

lemma links_cong:
  assumes "\<And>x. x \<in> set (a # ys) \<Longrightarrow> nx' x = nx x"
    and "\<And>x. x \<in> set (ys @ [b]) \<Longrightarrow> pv' x = pv x"
  shows "links nx' pv' a ys b = links nx pv a ys b"
  using assms by (induction ys arbitrary: a) auto

lemma links_first: "links nx pv a ys b \<Longrightarrow> nx a = int (hd (ys @ [b]))"
  by (cases ys) auto

lemma links_last: "links nx pv a ys b \<Longrightarrow> pv b = int (last (a # ys))"
  by (induction ys arbitrary: a) auto

text \<open>Retargeting the end of a segment only touches the last node's next link.\<close>

lemma links_retarget:
  assumes "links nx pv a ys b" "distinct (a # ys)" "c \<notin> set ys"
  shows "links (nx(last (a # ys) := int c)) (pv(c := int (last (a # ys)))) a ys c"
  using assms
proof (induction ys arbitrary: a)
  case Nil
  then show ?case by simp
next
  case (Cons y ys)
  define l where "l = last (y # ys)"
  have IH: "links (nx(l := int c)) (pv(c := int l)) y ys c"
    unfolding l_def using Cons.prems by (intro Cons.IH) auto
  have "l \<noteq> a" "c \<noteq> y" using Cons.prems by (auto simp: l_def split: if_splits)
  then have "(nx(l := int c)) a = int y" "(pv(c := int l)) y = int a" using Cons.prems by auto
  with IH have "links (nx(l := int c)) (pv(c := int l)) a (y # ys) c" by (simp only: links.simps)
  then show ?case by (simp only: l_def last.simps list.distinct if_False)
qed

section \<open>Rings\<close>

fun ring :: "(nat \<Rightarrow> int) \<Rightarrow> (nat \<Rightarrow> int) \<Rightarrow> nat list \<Rightarrow> bool" where
  "ring nx pv [] \<longleftrightarrow> True"
| "ring nx pv (x # xs) \<longleftrightarrow> links nx pv x xs x"

lemma ring_rotate: "ring nx pv (us @ vs) \<longleftrightarrow> ring nx pv (vs @ us)"
  by (cases us; cases vs) (auto simp: links_append)

lemma ring_cong:
  assumes "\<And>x. x \<in> set xs \<Longrightarrow> nx' x = nx x" "\<And>x. x \<in> set xs \<Longrightarrow> pv' x = pv x"
  shows "ring nx' pv' xs = ring nx pv xs"
proof (cases xs)
  case (Cons y ys)
  then show ?thesis using assms links_cong [of y ys nx' nx y pv' pv] by auto
qed simp

lemma ring_tail: "ring nx pv (x # xs) \<Longrightarrow> pv x = int (last (x # xs))"
  using links_last by fastforce

lemma ring_next: "ring nx pv (x # y # ys) \<Longrightarrow> nx x = int y"
  by simp

lemma ring_single: "ring nx pv [x] \<Longrightarrow> nx x = int x \<and> pv x = int x"
  by simp

lemma ring_range:
  assumes "ring nx pv xs" "x \<in> set xs"
  shows "nx x \<in> int ` set xs" "pv x \<in> int ` set xs"
proof -
  obtain us vs where xs: "xs = us @ x # vs" using assms(2) split_list by metis
  then have r: "ring nx pv (x # vs @ us)" using assms(1) ring_rotate [of nx pv us "x # vs"] by simp
  have "set xs = insert x (set (vs @ us))" using xs by auto
  then show "nx x \<in> int ` set xs" using r by (cases "vs @ us") (simp_all only: ring.simps links.simps, auto)
  show "pv x \<in> int ` set xs" using ring_tail [OF r] xs last_in_set [of "x # vs @ us"] by auto
qed

text \<open>Appending a node at the tail: the four link writes of \<open>push_ready\<close>.\<close>

lemma ring_snoc:
  assumes "ring nx pv (h # ys)" "distinct (h # ys)" "t \<notin> set (h # ys)"
  defines "tl' \<equiv> last (h # ys)"
  shows "ring ((nx(tl' := int t))(t := int h)) ((pv(t := int tl'))(h := int t)) (h # ys @ [t])"
proof -
  have "links (nx(tl' := int t)) (pv(t := int tl')) h ys t"
    unfolding tl'_def using assms by (intro links_retarget) auto
  moreover have "t \<noteq> h" "tl' \<noteq> t" using assms(3) last_in_set [of "h # ys"] by (auto simp: tl'_def)
  ultimately have "links ((nx(tl' := int t))(t := int h)) ((pv(t := int tl'))(h := int t)) h ys t"
    using assms(2,3) by (subst links_cong) auto
  then show ?thesis by (simp add: links_append)
qed

text \<open>Unlinking a node that is not alone: the two link writes of \<open>remove_ready\<close>.\<close>

lemma ring_unlink_first:
  assumes "ring nx pv (x # zs)" "zs \<noteq> []" "distinct (x # zs)"
  shows "ring (nx(last zs := int (hd zs))) (pv(hd zs := int (last zs))) zs"
proof -
  obtain y ys where zs: "zs = y # ys" using assms(2) by (cases zs) auto
  with assms have l: "links nx pv y ys x" "distinct (y # ys)" by auto
  show ?thesis using links_retarget [OF l, of y] l zs by simp
qed

lemma ring_unlink:
  assumes "ring nx pv xs" "x \<in> set xs" "distinct xs" "xs \<noteq> [x]"
  shows "ring (nx(nat (pv x) := nx x)) (pv(nat (nx x) := pv x)) (remove1 x xs)"
proof -
  obtain us vs where xs: "xs = us @ x # vs" using assms(2) split_list by metis
  let ?zs = "vs @ us"
  have r: "ring nx pv (x # ?zs)" using assms(1) xs ring_rotate [of nx pv us "x # vs"] by simp
  have ne: "?zs \<noteq> []" and d: "distinct (x # ?zs)" using assms(3,4) xs by auto
  have "nx x = int (hd ?zs)" "pv x = int (last ?zs)"
    using r ne ring_tail [OF r] by (cases ?zs; auto)+
  then have "ring (nx(nat (pv x) := nx x)) (pv(nat (nx x) := pv x)) ?zs"
    using ring_unlink_first [OF r ne d] by simp
  moreover have "remove1 x xs = us @ vs" using d xs by (simp add: remove1_append)
  ultimately show ?thesis using ring_rotate by metis
qed

lemma ring_next_hd:
  assumes "ring nx pv (x # zs)"
  shows "nx x = (if zs = [] then int x else int (hd zs))"
  using assms by (cases zs) auto

lemma ring_self_iff:
  assumes "ring nx pv xs" "x \<in> set xs" "distinct xs"
  shows "nx x = int x \<longleftrightarrow> xs = [x]"
proof -
  obtain us vs where xs: "xs = us @ x # vs" using assms(2) split_list by metis
  then have r: "ring nx pv (x # vs @ us)" using assms(1) ring_rotate [of nx pv us "x # vs"] by simp
  have "xs = [x] \<longleftrightarrow> vs @ us = []" "x \<notin> set (vs @ us)"
    using assms(3) xs by (auto simp: append_eq_Cons_conv)
  then show ?thesis using ring_next_hd [OF r] hd_in_set [of "vs @ us"]
    by (cases "vs @ us = []") (metis int_int_eq)+
qed

section \<open>Walking a ring\<close>

fun walk :: "(nat \<Rightarrow> int) \<Rightarrow> nat \<Rightarrow> nat \<Rightarrow> nat \<Rightarrow> nat list" where
  "walk nx 0 h x = []"
| "walk nx (Suc k) h x = x # (if nx x = int h then [] else walk nx k h (nat (nx x)))"

lemma walk_links:
  assumes "links nx pv x ys h" "h \<notin> set ys" "length ys < k"
  shows "walk nx k h x = x # ys"
  using assms
proof (induction ys arbitrary: x k)
  case Nil
  then show ?case by (cases k) auto
next
  case (Cons y ys)
  then show ?case by (cases k) auto
qed

lemma walk_ring:
  assumes "ring nx pv (h # ys)" "distinct (h # ys)" "length ys < k"
  shows "walk nx k h h = h # ys"
  using assms by (intro walk_links) auto

end
