(* ===== verification/Ready_Queue.thy ===== *)
theory Ready_Queue
  imports Scheduler Ring
begin

text \<open>
  The ready-queue invariant of the scheduler and its preservation. \<open>queue_of\<close> reads the list
  of a priority level off the links; the invariant says that every level is a well-formed ring
  whose members are exactly the ready tasks of that priority and that the bitmask marks the
  levels in use. \<open>push_ready\<close> and \<open>remove_ready\<close> then refine append and removal on lists.
\<close>

section \<open>Links as functions\<close>

definition nxt :: "kernel \<Rightarrow> nat \<Rightarrow> int" where
  "nxt s = (\<lambda>t. next_ready (sched s t))"

definition prv :: "kernel \<Rightarrow> nat \<Rightarrow> int" where
  "prv s = (\<lambda>t. prev_ready (sched s t))"

named_theorems link_simps \<open>links, heads and bitmask of updated states\<close>

lemma link_updates [link_simps]:
  "nxt (set_next i v s) = (nxt s)(i := v)" "prv (set_next i v s) = prv s"
  "nxt (set_prev i v s) = nxt s" "prv (set_prev i v s) = (prv s)(i := v)"
  "nxt (set_head p v s) = nxt s" "prv (set_head p v s) = prv s"
  "nxt (set_bitmask b s) = nxt s" "prv (set_bitmask b s) = prv s"
  "nxt (upd_sched i (\<lambda>r. r\<lparr>sched_state := st\<rparr>) s) = nxt s"
  "prv (upd_sched i (\<lambda>r. r\<lparr>sched_state := st\<rparr>) s) = prv s"
  "nxt (upd_sched i (\<lambda>r. r\<lparr>current_priority := pr\<rparr>) s) = nxt s"
  "prv (upd_sched i (\<lambda>r. r\<lparr>current_priority := pr\<rparr>) s) = prv s"
  by (auto simp: nxt_def prv_def kernel_simps set_head_def set_bitmask_def)

lemma head_updates [link_simps]:
  "ready_head (set_head p v s) = (ready_head s)(p := v)"
  "ready_bitmask (set_head p v s) = ready_bitmask s"
  "ready_head (set_bitmask b s) = ready_head s" "ready_bitmask (set_bitmask b s) = b"
  by (simp_all add: set_head_def set_bitmask_def)

lemma set_head_frame [kernel_simps]:
  "tasks (set_head p v s) = tasks s" "task_count (set_head p v s) = task_count s"
  "started (set_head p v s) = started s" "current_tcb (set_head p v s) = current_tcb s"
  "next_tcb (set_head p v s) = next_tcb s" "endpoints (set_head p v s) = endpoints s"
  "mutexes (set_head p v s) = mutexes s" "ref_count (set_head p v s) = ref_count s"
  "current_tick (set_head p v s) = current_tick s" "mem (set_head p v s) = mem s" "mpu (set_head p v s) = mpu s"
  "events (set_head p v s) = events s"
  by (simp_all add: set_head_def)

lemma set_bitmask_frame [kernel_simps]:
  "tasks (set_bitmask b s) = tasks s" "task_count (set_bitmask b s) = task_count s"
  "started (set_bitmask b s) = started s" "current_tcb (set_bitmask b s) = current_tcb s"
  "next_tcb (set_bitmask b s) = next_tcb s" "endpoints (set_bitmask b s) = endpoints s"
  "mutexes (set_bitmask b s) = mutexes s" "ref_count (set_bitmask b s) = ref_count s"
  "current_tick (set_bitmask b s) = current_tick s" "mem (set_bitmask b s) = mem s" "mpu (set_bitmask b s) = mpu s"
  "events (set_bitmask b s) = events s"
  by (simp_all add: set_bitmask_def)

section \<open>What the queue operations leave alone\<close>

text \<open>Everything of a task but its two links.\<close>

definition same_but_links :: "tcb \<Rightarrow> tcb \<Rightarrow> bool" where
  "same_but_links t t' \<longleftrightarrow>
     t'\<lparr>scheduler := (scheduler t')\<lparr>next_ready := 0, prev_ready := 0\<rparr>\<rparr> =
     t\<lparr>scheduler := (scheduler t)\<lparr>next_ready := 0, prev_ready := 0\<rparr>\<rparr>"

definition same_but_queues :: "kernel \<Rightarrow> kernel \<Rightarrow> bool" where
  "same_but_queues s s' \<longleftrightarrow>
     (\<forall>t. same_but_links (tasks s t) (tasks s' t)) \<and> task_count s' = task_count s
     \<and> started s' = started s \<and> current_tcb s' = current_tcb s \<and> next_tcb s' = next_tcb s
     \<and> endpoints s' = endpoints s \<and> mutexes s' = mutexes s \<and> ref_count s' = ref_count s
     \<and> current_tick s' = current_tick s \<and> mem s' = mem s \<and> mpu s' = mpu s
     \<and> events s' = events s"

lemma same_but_links_fields:
  assumes "same_but_links t t'"
  shows "task t' = task t" "memory t' = memory t" "ipc t' = ipc t" "security t' = security t"
    "sched_state (scheduler t') = sched_state (scheduler t)"
    "task_id (scheduler t') = task_id (scheduler t)"
    "sleep_ticks (scheduler t') = sleep_ticks (scheduler t)"
    "base_priority (scheduler t') = base_priority (scheduler t)"
    "current_priority (scheduler t') = current_priority (scheduler t)"
    "held_mutexes (scheduler t') = held_mutexes (scheduler t)"
    "waiting_on_mutex (scheduler t') = waiting_on_mutex (scheduler t)"
  using assms unfolding same_but_links_def
  by (cases t; cases t'; cases "scheduler t"; cases "scheduler t'"; simp)+

lemma same_but_links_refl [simp]: "same_but_links t t"
  by (simp add: same_but_links_def)

lemma same_but_links_trans:
  "same_but_links t t' \<Longrightarrow> same_but_links t' t'' \<Longrightarrow> same_but_links t t''"
  by (simp add: same_but_links_def)

lemma same_but_queues_refl [simp]: "same_but_queues s s"
  by (simp add: same_but_queues_def same_but_links_def)

lemma same_but_queues_trans:
  "same_but_queues s s' \<Longrightarrow> same_but_queues s' s'' \<Longrightarrow> same_but_queues s s''"
  by (auto simp: same_but_queues_def same_but_links_def)

lemma same_but_queues_updates:
  assumes "same_but_queues s s'"
  shows "same_but_queues s (set_next i v s')" "same_but_queues s (set_prev i v s')"
    "same_but_queues s (set_head p v s')" "same_but_queues s (set_bitmask b s')"
  using assms by (simp_all add: same_but_queues_def same_but_links_def kernel_simps)

lemma push_ready_frame: "same_but_queues s (push_ready i s)"
  unfolding push_ready_def Let_def by (auto intro!: same_but_queues_updates)

lemma remove_ready_frame: "same_but_queues s (remove_ready i s)"
  unfolding remove_ready_def Let_def by (auto intro!: same_but_queues_updates)

lemma same_task:
  assumes "same_but_queues s s'"
  shows "task (tasks s' t) = task (tasks s t)" "memory (tasks s' t) = memory (tasks s t)"
    "ipcx s' t = ipcx s t" "secx s' t = secx s t"
    "sched_state (sched s' t) = sched_state (sched s t)"
    "task_id (sched s' t) = task_id (sched s t)"
    "sleep_ticks (sched s' t) = sleep_ticks (sched s t)"
    "base_priority (sched s' t) = base_priority (sched s t)"
    "current_priority (sched s' t) = current_priority (sched s t)"
    "held_mutexes (sched s' t) = held_mutexes (sched s t)"
    "waiting_on_mutex (sched s' t) = waiting_on_mutex (sched s t)"
  using assms same_but_links_fields [of "tasks s t" "tasks s' t"]
  by (simp_all add: same_but_queues_def)

lemma same_kernel:
  assumes "same_but_queues s s'"
  shows "task_count s' = task_count s" "started s' = started s" "current_tcb s' = current_tcb s"
    "next_tcb s' = next_tcb s" "endpoints s' = endpoints s" "mutexes s' = mutexes s"
    "ref_count s' = ref_count s" "current_tick s' = current_tick s" "mem s' = mem s"
    "mpu s' = mpu s" "events s' = events s"
  using assms by (simp_all add: same_but_queues_def)

lemmas push_frame [kernel_simps] =
  same_task [OF push_ready_frame] same_kernel [OF push_ready_frame]

lemmas remove_frame [kernel_simps] =
  same_task [OF remove_ready_frame] same_kernel [OF remove_ready_frame]

section \<open>The invariant\<close>

text \<open>The queue of a priority level, read off the links.\<close>

definition queue_of :: "kernel \<Rightarrow> nat \<Rightarrow> nat list" where
  "queue_of s p =
     (if ready_head s p = -1 then []
      else walk (nxt s) MAX_TASKS (nat (ready_head s p)) (nat (ready_head s p)))"

definition queue_wf :: "nat list \<Rightarrow> nat \<Rightarrow> kernel \<Rightarrow> bool" where
  "queue_wf xs p s \<longleftrightarrow>
     distinct xs \<and> ring (nxt s) (prv s) xs
     \<and> ready_head s p = (case xs of [] \<Rightarrow> -1 | x # _ \<Rightarrow> int x)
     \<and> (bit (ready_bitmask s) p \<longleftrightarrow> xs \<noteq> [])
     \<and> (\<forall>t \<in> set xs. t < MAX_TASKS \<and> current_priority (sched s t) = p)"

definition queues :: "(nat \<Rightarrow> nat list) \<Rightarrow> kernel \<Rightarrow> bool" where
  "queues Q s \<longleftrightarrow> (\<forall>p < NUM_PRIORITIES. queue_wf (Q p) p s)"

definition tasks_wf :: "kernel \<Rightarrow> bool" where
  "tasks_wf s \<longleftrightarrow>
     task_count s \<le> MAX_TASKS
     \<and> (\<forall>t < task_count s. task_id (sched s t) = t \<and> current_priority (sched s t) < NUM_PRIORITIES
          \<and> base_priority (sched s t) < NUM_PRIORITIES
          \<and> (sched_state (sched s t) \<noteq> Ready \<longrightarrow> next_ready (sched s t) = -1))
     \<and> (\<forall>t. task_count s \<le> t \<and> t < MAX_TASKS \<longrightarrow> sched_state (sched s t) = Unallocated)"

definition ready_inv :: "(nat \<Rightarrow> nat list) \<Rightarrow> kernel \<Rightarrow> bool" where
  "ready_inv Q s \<longleftrightarrow> queues Q s \<and> tasks_wf s
     \<and> (\<forall>p < NUM_PRIORITIES. set (Q p) =
          {t. t < task_count s \<and> sched_state (sched s t) = Ready \<and> current_priority (sched s t) = p})"

definition ready_ok :: "kernel \<Rightarrow> bool" where
  "ready_ok s \<longleftrightarrow> ready_inv (queue_of s) s"

lemma queue_wf_length:
  assumes "queue_wf xs p s" shows "length xs \<le> MAX_TASKS"
proof -
  have "length xs = card (set xs)" using assms by (simp add: queue_wf_def distinct_card)
  also have "\<dots> \<le> card {..<MAX_TASKS}" using assms by (intro card_mono) (auto simp: queue_wf_def)
  finally show ?thesis by simp
qed

lemma queue_wf_unique:
  assumes "queue_wf xs p s" shows "queue_of s p = xs"
proof (cases xs)
  case Nil
  with assms show ?thesis by (simp add: queue_wf_def queue_of_def)
next
  case (Cons x ys)
  with assms have "ring (nxt s) (prv s) (x # ys)" "distinct (x # ys)" "ready_head s p = int x"
    by (auto simp: queue_wf_def)
  moreover have "length ys < MAX_TASKS" using queue_wf_length [OF assms] Cons by simp
  ultimately show ?thesis using Cons walk_ring [of "nxt s" "prv s" x ys MAX_TASKS]
    by (simp add: queue_of_def)
qed

lemma ready_inv_queue_of: "ready_inv Q s \<Longrightarrow> p < NUM_PRIORITIES \<Longrightarrow> queue_of s p = Q p"
  by (auto simp: ready_inv_def queues_def intro: queue_wf_unique)

lemma ready_inv_ok: "ready_inv Q s \<Longrightarrow> ready_ok s"
  using ready_inv_queue_of [of Q s] unfolding ready_ok_def ready_inv_def queues_def by simp

section \<open>Appending and unlinking\<close>

lemma next_nxt: "next_ready (sched s t) = nxt s t" and prev_prv: "prev_ready (sched s t) = prv s t"
  by (simp_all add: nxt_def prv_def)

lemma push_ready_empty:
  assumes "t < MAX_TASKS" "current_priority (sched s t) = p" "p < NUM_PRIORITIES"
    "ready_head s p = -1"
  shows "nxt (push_ready t s) = (nxt s)(t := int t)" "prv (push_ready t s) = (prv s)(t := int t)"
    "ready_head (push_ready t s) = (ready_head s)(p := int t)"
    "ready_bitmask (push_ready t s) = ready_bitmask s OR bit_of p"
  using assms by (simp_all add: push_ready_def ready_prio_def Let_def link_simps kernel_simps)

lemma push_ready_nonempty:
  assumes "t < MAX_TASKS" "current_priority (sched s t) = p" "p < NUM_PRIORITIES"
    "ready_head s p = int h" "h < MAX_TASKS" "prv s h = int l" "l < MAX_TASKS"
  shows "nxt (push_ready t s) = ((nxt s)(l := int t))(t := int h)"
    "prv (push_ready t s) = ((prv s)(t := int l))(h := int t)"
    "ready_head (push_ready t s) = ready_head s"
    "ready_bitmask (push_ready t s) = ready_bitmask s"
  using assms
  by (simp_all add: push_ready_def ready_prio_def Let_def link_simps kernel_simps prev_prv)

lemma queue_wf_other:
  assumes "queue_wf xs q s"
    and "\<And>x. x \<in> set xs \<Longrightarrow> nxt s' x = nxt s x" "\<And>x. x \<in> set xs \<Longrightarrow> prv s' x = prv s x"
    and "ready_head s' q = ready_head s q" "bit (ready_bitmask s') q = bit (ready_bitmask s) q"
    and "\<And>x. x \<in> set xs \<Longrightarrow> current_priority (sched s' x) = current_priority (sched s x)"
  shows "queue_wf xs q s'"
  using assms ring_cong [of xs "nxt s'" "nxt s" "prv s'" "prv s"] by (auto simp: queue_wf_def)

lemma push_ready_wf:
  assumes wf: "queue_wf xs p s" and t: "t < MAX_TASKS" "current_priority (sched s t) = p"
    and p: "p < NUM_PRIORITIES" and new: "t \<notin> set xs"
  shows "queue_wf (xs @ [t]) p (push_ready t s)"
proof (cases xs)
  case Nil
  with wf have "ready_head s p = -1" by (simp add: queue_wf_def)
  note e = push_ready_empty [OF t p this]
  from p show ?thesis using Nil t by (simp add: queue_wf_def e kernel_simps bitmap_simps)
next
  case (Cons h ys)
  define l where "l = last (h # ys)"
  from wf Cons have r: "ring (nxt s) (prv s) (h # ys)" and d: "distinct (h # ys)"
    and hd: "ready_head s p = int h" and m: "\<forall>x \<in> set (h # ys). x < MAX_TASKS"
    by (auto simp: queue_wf_def)
  have l: "prv s h = int l" "l < MAX_TASKS"
    using ring_tail [OF r] m last_in_set [of "h # ys"] by (auto simp: l_def)
  have h: "h < MAX_TASKS" using m by simp
  note e = push_ready_nonempty [OF t p hd h l]
  have "ring (nxt (push_ready t s)) (prv (push_ready t s)) (h # ys @ [t])"
    unfolding e unfolding l_def by (rule ring_snoc [OF r d]) (use new Cons in simp)
  then show ?thesis using wf t d new Cons hd by (auto simp: queue_wf_def e(3,4) kernel_simps)
qed

lemma push_ready_other:
  assumes wf: "queue_wf xs q s" and wfp: "queue_wf ys p s" and "q \<noteq> p" "p < NUM_PRIORITIES"
    and t: "t < MAX_TASKS" "current_priority (sched s t) = p"
  shows "queue_wf xs q (push_ready t s)"
proof (cases ys)
  case Nil
  with wfp have "ready_head s p = -1" by (simp add: queue_wf_def)
  note e = push_ready_empty [OF t assms(4) this]
  have "t \<notin> set xs" using wf t assms(3) by (auto simp: queue_wf_def)
  then show ?thesis using assms(3)
    by (intro queue_wf_other [OF wf]) (auto simp: e kernel_simps bitmap_simps)
next
  case (Cons h zs)
  define l where "l = last (h # zs)"
  from wfp Cons have r: "ring (nxt s) (prv s) (h # zs)" and hd: "ready_head s p = int h"
    and m: "\<forall>x \<in> set (h # zs). x < MAX_TASKS \<and> current_priority (sched s x) = p"
    by (auto simp: queue_wf_def)
  have lm: "l \<in> set (h # zs)" unfolding l_def by (rule last_in_set) simp
  have l: "prv s h = int l" "l < MAX_TASKS" and h: "h < MAX_TASKS"
    using ring_tail [OF r] m lm by (auto simp: l_def)
  note e = push_ready_nonempty [OF t assms(4) hd h l]
  have "t \<notin> set xs" "h \<notin> set xs" "l \<notin> set xs"
    using wf t assms(3) m lm by (auto simp: queue_wf_def)
  then show ?thesis by (intro queue_wf_other [OF wf]) (auto simp: e kernel_simps)
qed

lemma push_ready_queues:
  assumes "queues Q s" "t < MAX_TASKS" "current_priority (sched s t) = p" "p < NUM_PRIORITIES"
    "t \<notin> set (Q p)"
  shows "queues (Q(p := Q p @ [t])) (push_ready t s)"
proof -
  have wf: "queue_wf (Q q) q s" if "q < NUM_PRIORITIES" for q
    using assms(1) that by (simp add: queues_def)
  show ?thesis unfolding queues_def
    using push_ready_wf [OF wf [OF assms(4)] assms(2,3,4,5)]
      push_ready_other [OF wf wf [OF assms(4)] _ assms(4,2,3)] by simp
qed

lemma remove_ready_single:
  assumes "t < MAX_TASKS" "current_priority (sched s t) = p" "p < NUM_PRIORITIES" "nxt s t = int t"
  shows "nxt (remove_ready t s) = (nxt s)(t := -1)" "prv (remove_ready t s) = (prv s)(t := -1)"
    "ready_head (remove_ready t s) = (ready_head s)(p := -1)"
    "ready_bitmask (remove_ready t s) = ready_bitmask s AND NOT (bit_of p)"
  using assms
  by (simp_all add: remove_ready_def ready_prio_def Let_def link_simps kernel_simps next_nxt)

lemma remove_ready_multi:
  assumes "t < MAX_TASKS" "current_priority (sched s t) = p" "p < NUM_PRIORITIES"
    "nxt s t = int a" "a < MAX_TASKS" "a \<noteq> t" "prv s t = int b" "b < MAX_TASKS" "b \<noteq> t"
  shows "nxt (remove_ready t s) = ((nxt s)(b := int a))(t := -1)"
    "prv (remove_ready t s) = ((prv s)(a := int b))(t := -1)"
    "ready_head (remove_ready t s) =
       (if ready_head s p = int t then (ready_head s)(p := int a) else ready_head s)"
    "ready_bitmask (remove_ready t s) = ready_bitmask s"
  using assms
  by (simp_all add: remove_ready_def ready_prio_def Let_def link_simps kernel_simps next_nxt prev_prv)

text \<open>The neighbours of a member of a ring with at least two nodes.\<close>

lemma ring_neighbours:
  assumes wf: "queue_wf xs p s" and t: "t \<in> set xs" and ne: "xs \<noteq> [t]"
  obtains a b where "nxt s t = int a" "a \<in> set xs" "a \<noteq> t" "prv s t = int b" "b \<in> set xs" "b \<noteq> t"
    "xs = t # tl xs \<Longrightarrow> tl xs \<noteq> [] \<and> a = hd (tl xs)"
proof -
  from wf have r: "ring (nxt s) (prv s) xs" and d: "distinct xs" by (auto simp: queue_wf_def)
  obtain us vs where xs: "xs = us @ t # vs" using t split_list by metis
  let ?zs = "vs @ us"
  have r': "ring (nxt s) (prv s) (t # ?zs)" using r xs ring_rotate [of "nxt s" "prv s" us "t # vs"] by simp
  have z: "?zs \<noteq> []" "t \<notin> set ?zs" "set ?zs \<subseteq> set xs" using xs ne d by auto
  have a: "nxt s t = int (hd ?zs)" using ring_next_hd [OF r'] z(1) by (simp only: if_False)
  have b: "prv s t = int (last ?zs)" using ring_tail [OF r'] z(1) by (simp only: last.simps if_False)
  have m: "hd ?zs \<in> set ?zs" "last ?zs \<in> set ?zs"
    using hd_in_set [OF z(1)] last_in_set [OF z(1)] by this
  have "tl xs \<noteq> [] \<and> hd ?zs = hd (tl xs)" if e: "xs = t # tl xs"
  proof -
    have "us = []"
    proof (cases us)
      case (Cons u us')
      with e xs d show ?thesis by auto
    qed
    with xs ne show ?thesis by auto
  qed
  with a b m z show ?thesis by (intro that [of "hd ?zs" "last ?zs"]) blast+
qed

lemma remove_ready_wf:
  assumes wf: "queue_wf xs p s" and t: "t \<in> set xs" and p: "p < NUM_PRIORITIES"
  shows "queue_wf (remove1 t xs) p (remove_ready t s)" "nxt (remove_ready t s) t = -1"
proof -
  from wf t have m: "t < MAX_TASKS" "current_priority (sched s t) = p"
    and r: "ring (nxt s) (prv s) xs" and d: "distinct xs" by (auto simp: queue_wf_def)
  have "queue_wf (remove1 t xs) p (remove_ready t s) \<and> nxt (remove_ready t s) t = -1"
  proof (cases "xs = [t]")
    case True
    then have n: "nxt s t = int t" using r by simp
    note e = remove_ready_single [OF m p n]
    show ?thesis using True by (simp add: queue_wf_def e bitmap_simps)
  next
    case False
    from ring_neighbours [OF wf t False] obtain a b where
      a: "nxt s t = int a" "a \<in> set xs" "a \<noteq> t" and b: "prv s t = int b" "b \<in> set xs" "b \<noteq> t"
      and first: "xs = t # tl xs \<Longrightarrow> tl xs \<noteq> [] \<and> a = hd (tl xs)" by blast
    have lt: "a < MAX_TASKS" "b < MAX_TASKS" using wf a(2) b(2) by (auto simp: queue_wf_def)
    note e = remove_ready_multi [OF m p a(1) lt(1) a(3) b(1) lt(2) b(3)]
    have "ring ((nxt s)(b := int a)) ((prv s)(a := int b)) (remove1 t xs)"
      using ring_unlink [OF r t d False] a(1) b(1) by simp
    then have ring: "ring (nxt (remove_ready t s)) (prv (remove_ready t s)) (remove1 t xs)"
      using d by (subst ring_cong) (auto simp: e(1,2))
    have ne: "remove1 t xs \<noteq> []" using a(2,3) by (metis in_set_remove1 list.set_cases list.distinct(1))
    have "ready_head (remove_ready t s) p = (case remove1 t xs of [] \<Rightarrow> -1 | x # _ \<Rightarrow> int x)"
    proof (cases xs)
      case (Cons x ys)
      have hd: "ready_head s p = int x" using wf Cons by (simp add: queue_wf_def)
      show ?thesis
      proof (cases "x = t")
        case True
        then show ?thesis using hd Cons first by (simp add: e(3)) (cases ys; auto)
      next
        case False
        then show ?thesis using hd Cons by (simp add: e(3))
      qed
    qed (use t in simp)
    then show ?thesis using wf d ne ring
      by (auto simp: queue_wf_def e(1,4) kernel_simps dest: notin_set_remove1 [rotated])
  qed
  then show "queue_wf (remove1 t xs) p (remove_ready t s)" "nxt (remove_ready t s) t = -1" by auto
qed

lemma remove_ready_other:
  assumes wf: "queue_wf xs q s" and wfp: "queue_wf ys p s" and t: "t \<in> set ys"
    and "q \<noteq> p" "p < NUM_PRIORITIES"
  shows "queue_wf xs q (remove_ready t s)"
proof -
  from wfp t have m: "t < MAX_TASKS" "current_priority (sched s t) = p"
    and r: "ring (nxt s) (prv s) ys" by (auto simp: queue_wf_def)
  have disj: "x \<notin> set xs" if "x \<in> set ys" for x
    using that wf wfp \<open>q \<noteq> p\<close> by (auto simp: queue_wf_def)
  show ?thesis
  proof (cases "ys = [t]")
    case True
    then have n: "nxt s t = int t" using r by simp
    note e = remove_ready_single [OF m assms(5) n]
    show ?thesis using disj [OF t] \<open>q \<noteq> p\<close>
      by (intro queue_wf_other [OF wf]) (auto simp: e kernel_simps bitmap_simps)
  next
    case False
    from ring_neighbours [OF wfp t False] obtain a b where
      a: "nxt s t = int a" "a \<in> set ys" "a \<noteq> t" and b: "prv s t = int b" "b \<in> set ys" "b \<noteq> t" by blast
    have lt: "a < MAX_TASKS" "b < MAX_TASKS" using wfp a(2) b(2) by (auto simp: queue_wf_def)
    note e = remove_ready_multi [OF m assms(5) a(1) lt(1) a(3) b(1) lt(2) b(3)]
    show ?thesis using disj [OF t] disj [OF a(2)] disj [OF b(2)] \<open>q \<noteq> p\<close>
      by (intro queue_wf_other [OF wf]) (auto simp: e kernel_simps)
  qed
qed

lemma remove_ready_queues:
  assumes "queues Q s" "t \<in> set (Q p)" "p < NUM_PRIORITIES"
  shows "queues (Q(p := remove1 t (Q p))) (remove_ready t s)" "nxt (remove_ready t s) t = -1"
proof -
  have wf: "queue_wf (Q q) q s" if "q < NUM_PRIORITIES" for q
    using assms(1) that by (simp add: queues_def)
  show "queues (Q(p := remove1 t (Q p))) (remove_ready t s)" unfolding queues_def
    using remove_ready_wf(1) [OF wf [OF assms(3)] assms(2,3)]
      remove_ready_other [OF wf wf [OF assms(3)] assms(2) _ assms(3)] by simp
  show "nxt (remove_ready t s) t = -1"
    by (rule remove_ready_wf(2) [OF wf [OF assms(3)] assms(2,3)])
qed

section \<open>State and priority changes keep the invariant\<close>

lemma upd_state_fields [kernel_simps]:
  "sched_state (sched (upd_sched i (\<lambda>r. r\<lparr>sched_state := st\<rparr>) s) t) =
     (if t = i then st else sched_state (sched s t))"
  "current_priority (sched (upd_sched i (\<lambda>r. r\<lparr>sched_state := st\<rparr>) s) t) =
     current_priority (sched s t)"
  "base_priority (sched (upd_sched i (\<lambda>r. r\<lparr>sched_state := st\<rparr>) s) t) = base_priority (sched s t)"
  "task_id (sched (upd_sched i (\<lambda>r. r\<lparr>sched_state := st\<rparr>) s) t) = task_id (sched s t)"
  by (simp_all add: upd_sched_frame)

lemma upd_priority_fields [kernel_simps]:
  "current_priority (sched (upd_sched i (\<lambda>r. r\<lparr>current_priority := pr\<rparr>) s) t) =
     (if t = i then pr else current_priority (sched s t))"
  "sched_state (sched (upd_sched i (\<lambda>r. r\<lparr>current_priority := pr\<rparr>) s) t) = sched_state (sched s t)"
  "base_priority (sched (upd_sched i (\<lambda>r. r\<lparr>current_priority := pr\<rparr>) s) t) =
     base_priority (sched s t)"
  "task_id (sched (upd_sched i (\<lambda>r. r\<lparr>current_priority := pr\<rparr>) s) t) = task_id (sched s t)"
  by (simp_all add: upd_sched_frame)

lemma queues_upd_state:
  "queues Q (upd_sched i (\<lambda>r. r\<lparr>sched_state := st\<rparr>) s) = queues Q s"
  unfolding queues_def queue_wf_def by (simp add: link_simps upd_state_fields upd_sched_frame(4,5))

lemma queues_upd_priority:
  assumes "\<forall>p < NUM_PRIORITIES. i \<notin> set (Q p)"
  shows "queues Q (upd_sched i (\<lambda>r. r\<lparr>current_priority := pr\<rparr>) s) = queues Q s"
proof -
  have "queue_wf (Q p) p (upd_sched i (\<lambda>r. r\<lparr>current_priority := pr\<rparr>) s) = queue_wf (Q p) p s"
    if "p < NUM_PRIORITIES" for p
    using assms that unfolding queue_wf_def
    by (auto simp: link_simps upd_priority_fields upd_sched_frame(4,5))
  then show ?thesis by (simp add: queues_def)
qed

lemma ready_inv_facts:
  assumes "ready_inv Q s" "t < task_count s"
  shows "t < MAX_TASKS" "task_id (sched s t) = t" "current_priority (sched s t) < NUM_PRIORITIES"
    "base_priority (sched s t) < NUM_PRIORITIES"
    "sched_state (sched s t) \<noteq> Ready \<Longrightarrow> nxt s t = -1"
    "p < NUM_PRIORITIES \<Longrightarrow> t \<in> set (Q p) \<longleftrightarrow>
       sched_state (sched s t) = Ready \<and> current_priority (sched s t) = p"
  using assms by (auto simp: ready_inv_def tasks_wf_def nxt_def)

text \<open>
  \<open>ready_inv\<close> in the form the operations establish it: links through \<open>nxt\<close> and membership
  spelled out.
\<close>

lemma ready_inv_iff:
  "ready_inv Q s \<longleftrightarrow> queues Q s \<and> task_count s \<le> MAX_TASKS
     \<and> (\<forall>t < task_count s. task_id (sched s t) = t \<and> current_priority (sched s t) < NUM_PRIORITIES
          \<and> base_priority (sched s t) < NUM_PRIORITIES)
     \<and> (\<forall>t < task_count s. sched_state (sched s t) \<noteq> Ready \<longrightarrow> nxt s t = -1)
     \<and> (\<forall>t. task_count s \<le> t \<and> t < MAX_TASKS \<longrightarrow> sched_state (sched s t) = Unallocated)
     \<and> (\<forall>p < NUM_PRIORITIES. \<forall>t. t \<in> set (Q p) \<longleftrightarrow>
          t < task_count s \<and> sched_state (sched s t) = Ready \<and> current_priority (sched s t) = p)"
  unfolding ready_inv_def tasks_wf_def next_nxt by blast

text \<open>The queues after a state change: leave the old one, join the end of the new one.\<close>

definition q_state :: "nat \<Rightarrow> nat \<Rightarrow> task_state \<Rightarrow> task_state \<Rightarrow> (nat \<Rightarrow> nat list) \<Rightarrow> nat \<Rightarrow> nat list" where
  "q_state i p old new Q =
     (if old = new then Q
      else if old = Ready then Q(p := remove1 i (Q p))
      else if new = Ready then Q(p := Q p @ [i]) else Q)"

text \<open>Links of tasks other than the one moved that are not queued are not written.\<close>

lemma remove_ready_nxt_other:
  assumes wf: "queue_wf xs p s" "p < NUM_PRIORITIES" "i \<in> set xs" "t \<notin> set xs"
  shows "nxt (remove_ready i s) t = nxt s t"
proof -
  from wf have m: "i < MAX_TASKS" "current_priority (sched s i) = p"
    and r: "ring (nxt s) (prv s) xs" by (auto simp: queue_wf_def)
  show ?thesis
  proof (cases "xs = [i]")
    case True
    then have n: "nxt s i = int i" using r by simp
    show ?thesis using wf(3,4) by (auto simp: remove_ready_single(1) [OF m wf(2) n])
  next
    case False
    from ring_neighbours [OF wf(1) wf(3) False] obtain a b where
      a: "nxt s i = int a" "a \<in> set xs" "a \<noteq> i" and b: "prv s i = int b" "b \<in> set xs" "b \<noteq> i" by blast
    have lt: "a < MAX_TASKS" "b < MAX_TASKS" using wf(1) a(2) b(2) by (auto simp: queue_wf_def)
    show ?thesis using wf(3,4) b(2)
      by (auto simp: remove_ready_multi(1) [OF m wf(2) a(1) lt(1) a(3) b(1) lt(2) b(3)])
  qed
qed

lemma push_ready_nxt_other:
  assumes wf: "queue_wf xs p s" "p < NUM_PRIORITIES" and i: "i < MAX_TASKS"
    "current_priority (sched s i) = p" and t: "t \<noteq> i" "t \<notin> set xs"
  shows "nxt (push_ready i s) t = nxt s t"
proof (cases xs)
  case Nil
  with wf have "ready_head s p = -1" by (simp add: queue_wf_def)
  from push_ready_empty(1) [OF i wf(2) this] t show ?thesis by simp
next
  case (Cons h ys)
  from wf Cons have r: "ring (nxt s) (prv s) (h # ys)" and hd: "ready_head s p = int h"
    and m: "\<forall>x \<in> set (h # ys). x < MAX_TASKS" by (auto simp: queue_wf_def)
  have l: "prv s h = int (last (h # ys))" "last (h # ys) < MAX_TASKS"
    using ring_tail [OF r] m last_in_set [of "h # ys"] by auto
  have h: "h < MAX_TASKS" and lm: "last (h # ys) \<in> set xs"
    using m Cons last_in_set [of "h # ys"] by auto
  show ?thesis using t lm by (auto simp: push_ready_nonempty(1) [OF i wf(2) hd h l])
qed

lemma set_task_state_leave:
  assumes inv: "ready_inv Q s" and i: "i < task_count s"
    and st: "sched_state (sched s i) = Ready" "new \<noteq> Ready"
  defines "p \<equiv> current_priority (sched s i)"
  shows "ready_inv (Q(p := remove1 i (Q p))) (set_task_state i new s)"
proof -
  note f = ready_inv_facts [OF inv i]
  have mem: "i \<in> set (Q p)" and p: "p < NUM_PRIORITIES" using f st by (simp_all add: p_def)
  have q: "queues Q s" and wf: "queue_wf (Q p) p s"
    using inv p by (simp_all add: ready_inv_def queues_def)
  note r = remove_ready_queues [OF q mem p]
  have d: "distinct (Q p)" using wf by (simp add: queue_wf_def)
  have op: "set_task_state i new s = upd_sched i (\<lambda>x. x\<lparr>sched_state := new\<rparr>) (remove_ready i s)"
    using st i f(1) by (simp add: set_task_state_def Let_def)
  have n: "nxt (remove_ready i s) t = -1" if "t < task_count s" "sched_state (sched s t) \<noteq> Ready \<or> t = i" for t
  proof (cases "t = i")
    case False
    with that have "nxt s t = -1" "t \<notin> set (Q p)" using inv p by (auto simp: ready_inv_iff)
    then show ?thesis using remove_ready_nxt_other [OF wf p mem] by simp
  qed (use r in simp)
  show ?thesis using inv r(1) d n i st(2) p_def unfolding ready_inv_iff op
    by (auto simp: queues_upd_state link_simps kernel_simps)
qed

lemma set_task_state_join:
  assumes inv: "ready_inv Q s" and i: "i < task_count s" and st: "sched_state (sched s i) \<noteq> Ready"
  defines "p \<equiv> current_priority (sched s i)"
  shows "ready_inv (Q(p := Q p @ [i])) (set_task_state i Ready s)"
proof -
  note f = ready_inv_facts [OF inv i]
  let ?s = "upd_sched i (\<lambda>x. x\<lparr>sched_state := Ready\<rparr>) s"
  have new: "i \<notin> set (Q p)" and p: "p < NUM_PRIORITIES" using f st by (simp_all add: p_def)
  have q: "queues Q ?s" using inv by (simp add: ready_inv_def queues_upd_state)
  then have wf: "queue_wf (Q p) p ?s" using p by (simp add: queues_def)
  have pi: "current_priority (sched ?s i) = p" by (simp add: kernel_simps p_def)
  note r = push_ready_queues [OF q f(1) pi p new]
  have op: "set_task_state i Ready s = push_ready i ?s"
    using st i f(1) by (simp add: set_task_state_def Let_def)
  have n: "nxt (push_ready i ?s) t = -1" if "t < task_count s" "sched_state (sched s t) \<noteq> Ready" "t \<noteq> i" for t
  proof -
    from that have "nxt s t = -1" "t \<notin> set (Q p)" using inv p by (auto simp: ready_inv_iff)
    then show ?thesis using push_ready_nxt_other [OF wf p f(1) pi that(3)] by (simp add: link_simps)
  qed
  show ?thesis using inv r n i p_def unfolding ready_inv_iff op
    by (auto simp: link_simps kernel_simps)
qed

lemma set_task_state_inv:
  assumes inv: "ready_inv Q s" and i: "i < task_count s"
  shows "ready_inv (q_state i (current_priority (sched s i)) (sched_state (sched s i)) new Q)
     (set_task_state i new s)"
proof -
  note f = ready_inv_facts [OF inv i]
  consider "sched_state (sched s i) = new" | "sched_state (sched s i) = Ready" "new \<noteq> Ready"
    | "sched_state (sched s i) \<noteq> Ready" "new = Ready"
    | "sched_state (sched s i) \<noteq> new" "sched_state (sched s i) \<noteq> Ready" "new \<noteq> Ready" by blast
  then show ?thesis
  proof cases
    case 1
    then show ?thesis using inv by (simp add: q_state_def set_task_state_def)
  next
    case 2
    then show ?thesis using set_task_state_leave [OF inv i 2] by (simp add: q_state_def)
  next
    case 3
    then show ?thesis using set_task_state_join [OF inv i 3(1)] by (simp add: q_state_def)
  next
    case 4
    then have "set_task_state i new s = upd_sched i (\<lambda>r. r\<lparr>sched_state := new\<rparr>) s"
      using i f(1) by (simp add: set_task_state_def Let_def)
    then show ?thesis using 4 inv f(5) i unfolding ready_inv_iff q_state_def
      by (auto simp: queues_upd_state link_simps kernel_simps)
  qed
qed

text \<open>The queues after a priority change of a ready task: to the end of the new level.\<close>

definition q_prio :: "nat \<Rightarrow> nat \<Rightarrow> nat \<Rightarrow> bool \<Rightarrow> (nat \<Rightarrow> nat list) \<Rightarrow> nat \<Rightarrow> nat list" where
  "q_prio i old new rdy Q =
     (if old = new \<or> \<not> rdy then Q
      else (Q(old := remove1 i (Q old)))(new := Q new @ [i]))"

lemma set_task_priority_ready:
  assumes inv: "ready_inv Q s" and i: "i < task_count s" and st: "sched_state (sched s i) = Ready"
    and new: "new < NUM_PRIORITIES" "current_priority (sched s i) \<noteq> new"
  defines "p \<equiv> current_priority (sched s i)"
  shows "ready_inv ((Q(p := remove1 i (Q p)))(new := Q new @ [i])) (set_task_priority i new s)"
proof -
  note f = ready_inv_facts [OF inv i]
  let ?Q = "Q(p := remove1 i (Q p))"
  let ?s = "upd_sched i (\<lambda>x. x\<lparr>current_priority := new\<rparr>) (remove_ready i s)"
  have mem: "i \<in> set (Q p)" and p: "p < NUM_PRIORITIES" and neq: "new \<noteq> p"
    using f st new by (simp_all add: p_def)
  have q: "queues Q s" and wf: "queue_wf (Q p) p s"
    using inv p by (simp_all add: ready_inv_def queues_def)
  have d: "distinct (Q p)" using wf by (simp add: queue_wf_def)
  note r = remove_ready_queues [OF q mem p]
  have out: "\<forall>q < NUM_PRIORITIES. i \<notin> set (?Q q)" using inv d p_def by (auto simp: ready_inv_iff)
  then have q2: "queues ?Q ?s" using r(1) queues_upd_priority [of i ?Q] by simp
  then have wf2: "queue_wf (?Q new) new ?s" using new by (simp add: queues_def)
  have pi: "current_priority (sched ?s i) = new" by (simp add: kernel_simps)
  have nin: "i \<notin> set (?Q new)" using out new by blast
  note r2 = push_ready_queues [OF q2 f(1) pi new(1) nin, unfolded fun_upd_other [OF neq]]
  have op: "set_task_priority i new s = push_ready i ?s"
    using st i f(1) new(2) by (simp add: set_task_priority_def Let_def)
  have n: "nxt (push_ready i ?s) t = -1" if "t < task_count s" "sched_state (sched s t) \<noteq> Ready" for t
  proof -
    from that have "nxt s t = -1" "t \<notin> set (Q p)" "t \<notin> set (?Q new)" "t \<noteq> i"
      using inv p new st by (auto simp: ready_inv_iff)
    then show ?thesis
      using push_ready_nxt_other [OF wf2 new(1) f(1) pi, of t] remove_ready_nxt_other [OF wf p mem, of t]
      by (simp add: link_simps)
  qed
  show ?thesis unfolding ready_inv_iff op
    by (intro conjI, rule r2)
      (use inv n i neq d p_def st new in \<open>auto simp: ready_inv_iff link_simps kernel_simps\<close>)
qed

lemma set_task_priority_inv:
  assumes inv: "ready_inv Q s" and i: "i < task_count s" and new: "new < NUM_PRIORITIES"
  shows "ready_inv (q_prio i (current_priority (sched s i)) new (sched_state (sched s i) = Ready) Q)
     (set_task_priority i new s)"
proof -
  note f = ready_inv_facts [OF inv i]
  consider "current_priority (sched s i) = new"
    | "current_priority (sched s i) \<noteq> new" "sched_state (sched s i) = Ready"
    | "current_priority (sched s i) \<noteq> new" "sched_state (sched s i) \<noteq> Ready" by blast
  then show ?thesis
  proof cases
    case 1
    then show ?thesis using inv by (simp add: q_prio_def set_task_priority_def)
  next
    case 2
    then show ?thesis using set_task_priority_ready [OF inv i 2(2) new 2(1)] by (simp add: q_prio_def)
  next
    case 3
    then have op: "set_task_priority i new s = upd_sched i (\<lambda>r. r\<lparr>current_priority := new\<rparr>) s"
      using i f(1) by (simp add: set_task_priority_def Let_def)
    have "\<forall>p < NUM_PRIORITIES. i \<notin> set (Q p)" using f(6) 3(2) by blast
    then have "queues Q (upd_sched i (\<lambda>r. r\<lparr>current_priority := new\<rparr>) s)"
      using inv by (simp add: queues_upd_priority ready_inv_def)
    then show ?thesis using 3 inv new unfolding ready_inv_iff q_prio_def op
      by (auto simp: link_simps kernel_simps)
  qed
qed

section \<open>Operations that do not schedule\<close>

text \<open>The part of the state the invariant reads.\<close>

definition sched_view :: "kernel \<Rightarrow> (nat \<Rightarrow> task_state \<times> nat \<times> nat \<times> nat \<times> int \<times> int)
    \<times> nat \<times> (nat \<Rightarrow> int) \<times> u32" where
  "sched_view s =
     (\<lambda>t. (sched_state (sched s t), task_id (sched s t), base_priority (sched s t),
           current_priority (sched s t), next_ready (sched s t), prev_ready (sched s t)),
      task_count s, ready_head s, ready_bitmask s)"

lemma sched_view_eqD:
  assumes "sched_view s' = sched_view s"
  shows "sched_state (sched s' t) = sched_state (sched s t)" "task_id (sched s' t) = task_id (sched s t)"
    "base_priority (sched s' t) = base_priority (sched s t)"
    "current_priority (sched s' t) = current_priority (sched s t)"
    "nxt s' = nxt s" "prv s' = prv s" "task_count s' = task_count s"
    "ready_head s' = ready_head s" "ready_bitmask s' = ready_bitmask s"
  using assms by (auto simp: sched_view_def nxt_def prv_def fun_eq_iff)

lemma ready_inv_view:
  assumes "sched_view s' = sched_view s"
  shows "ready_inv Q s' = ready_inv Q s" "queue_of s' = queue_of s" "ready_ok s' = ready_ok s"
proof -
  note v = sched_view_eqD [OF assms]
  show inv: "ready_inv Q s' = ready_inv Q s" for Q
    unfolding ready_inv_iff queues_def queue_wf_def by (simp only: v)
  show "queue_of s' = queue_of s" by (simp add: fun_eq_iff queue_of_def v)
  then show "ready_ok s' = ready_ok s" by (simp add: ready_ok_def inv)
qed

named_theorems view_simps \<open>updates outside the scheduling view\<close>

lemma sched_view_updates [view_simps]:
  "sched_view (upd_ipc i f s) = sched_view s" "sched_view (upd_sec i g s) = sched_view s"
  "sched_view (upd_task i h s) = sched_view s" "sched_view (upd_memory i k s) = sched_view s"
  "sched_view (log_event e s) = sched_view s"
  "sched_view (s\<lparr>mpu := pu\<rparr>) = sched_view s" "sched_view (s\<lparr>mem := m\<rparr>) = sched_view s" "sched_view (s\<lparr>next_tcb := c\<rparr>) = sched_view s"
  "sched_view (s\<lparr>current_tcb := c\<rparr>) = sched_view s" "sched_view (s\<lparr>started := b\<rparr>) = sched_view s"
  "sched_view (s\<lparr>switch_start_cycle := w\<rparr>) = sched_view s"
  "sched_view (s\<lparr>endpoints := es\<rparr>) = sched_view s" "sched_view (s\<lparr>mutexes := ms\<rparr>) = sched_view s"
  "sched_view (s\<lparr>ref_count := rc\<rparr>) = sched_view s" "sched_view (s\<lparr>current_tick := ct\<rparr>) = sched_view s"
  "sched_view (upd_sched i (\<lambda>r. r\<lparr>sleep_ticks := n\<rparr>) s) = sched_view s"
  "sched_view (upd_sched i (\<lambda>r. r\<lparr>held_mutexes := hm\<rparr>) s) = sched_view s"
  "sched_view (upd_sched i (\<lambda>r. r\<lparr>waiting_on_mutex := wm\<rparr>) s) = sched_view s"
  by (auto simp: sched_view_def upd_defs log_event_def fun_eq_iff)

end
