(* ===== verification/Scheduling.thy ===== *)
theory Scheduling
  imports Ready_Queue
begin

text \<open>
  What the scheduler promises its clients, and what it decides. The interface of the ready
  queues is the locale \<open>scheduler_service\<close>; any sequence of its operations keeps an invariant
  that meets its laws. The ready-queue invariant does. The second half is about task creation
  and release, signals and the choice \<open>schedule\<close> makes.
\<close>

section \<open>The interface\<close>

lemma set_task_state_ok: "ready_ok s \<Longrightarrow> ready_ok (set_task_state i st s)"
proof (cases "i < task_count s")
  case True
  assume "ready_ok s"
  then have "ready_inv (queue_of s) s" by (simp add: ready_ok_def)
  from set_task_state_inv [OF this True] show ?thesis by (rule ready_inv_ok)
qed (simp add: set_task_state_def)

lemma set_task_priority_ok:
  "ready_ok s \<Longrightarrow> p < NUM_PRIORITIES \<Longrightarrow> ready_ok (set_task_priority i p s)"
proof (cases "i < task_count s")
  case True
  assume "ready_ok s" and p: "p < NUM_PRIORITIES"
  then have "ready_inv (queue_of s) s" by (simp add: ready_ok_def)
  from set_task_priority_inv [OF this True p] show ?thesis by (rule ready_inv_ok)
qed (simp add: set_task_priority_def)

text \<open>
  One call a client makes on the scheduler: a state change, a priority change to a level the
  table already holds or to an admissible constant, or a write outside the scheduling view.
\<close>

inductive sched_step :: "kernel \<Rightarrow> kernel \<Rightarrow> bool" where
  state: "sched_step s (set_task_state i st s)"
| prio: "p < NUM_PRIORITIES \<Longrightarrow> sched_step s (set_task_priority i p s)"
| inherit: "j < task_count s \<Longrightarrow> p = current_priority (sched s j) \<or> p = base_priority (sched s j)
    \<Longrightarrow> sched_step s (set_task_priority i p s)"
| other: "sched_view s' = sched_view s \<Longrightarrow> sched_step s s'"

abbreviation sched_steps :: "kernel \<Rightarrow> kernel \<Rightarrow> bool" where
  "sched_steps \<equiv> sched_step\<^sup>*\<^sup>*"

lemma task_count_set_state [kernel_simps]: "task_count (set_task_state i st s) = task_count s"
  by (simp add: set_task_state_def Let_def kernel_simps)

lemma task_count_set_priority [kernel_simps]: "task_count (set_task_priority i p s) = task_count s"
  by (simp add: set_task_priority_def Let_def kernel_simps)

lemma sched_step_task_count: "sched_step s s' \<Longrightarrow> task_count s' = task_count s"
  by (induction rule: sched_step.induct) (auto simp: kernel_simps dest: sched_view_eqD(7))

lemma sched_steps_task_count: "sched_steps s s' \<Longrightarrow> task_count s' = task_count s"
  by (induction rule: rtranclp_induct) (simp_all add: sched_step_task_count)

locale scheduler_service =
  fixes inv :: "kernel \<Rightarrow> bool"
  assumes inv_state: "inv s \<Longrightarrow> inv (set_task_state i st s)"
    and inv_prio: "inv s \<Longrightarrow> p < NUM_PRIORITIES \<Longrightarrow> inv (set_task_priority i p s)"
    and inv_levels: "inv s \<Longrightarrow> j < task_count s \<Longrightarrow>
      current_priority (sched s j) < NUM_PRIORITIES \<and> base_priority (sched s j) < NUM_PRIORITIES"
    and inv_view: "inv s \<Longrightarrow> sched_view s' = sched_view s \<Longrightarrow> inv s'"
begin

lemma step_inv: "sched_step s s' \<Longrightarrow> inv s \<Longrightarrow> inv s'"
proof (induction rule: sched_step.induct)
  case (inherit j s p i)
  then show ?case using inv_levels [of s j] inv_prio by blast
qed (auto intro: inv_state inv_prio inv_view)

lemma steps_inv: "sched_steps s s' \<Longrightarrow> inv s \<Longrightarrow> inv s'"
  by (induction rule: rtranclp_induct) (auto intro: step_inv)

end

interpretation rq: scheduler_service ready_ok
proof unfold_locales
  fix s j assume "ready_ok s" "j < task_count s"
  then show "current_priority (sched s j) < NUM_PRIORITIES \<and> base_priority (sched s j) < NUM_PRIORITIES"
    using ready_inv_facts [of "queue_of s" s j] by (simp add: ready_ok_def)
next
  fix s s' assume "ready_ok s" "sched_view s' = sched_view s"
  then show "ready_ok s'" using ready_inv_view(3) by blast
qed (simp_all add: set_task_state_ok set_task_priority_ok)

section \<open>Creating and releasing tasks\<close>

lemma init_inv: "ready_inv (\<lambda>_. []) (init s)"
  unfolding ready_inv_iff queues_def queue_wf_def init_def init_links_def by simp

lemma free_index_spec:
  assumes "tasks_wf s" "free_index s = Some i"
  shows "i < MAX_TASKS" "i \<le> task_count s" "sched_state (sched s i) = Unallocated"
proof -
  from assms(2) have i: "i < MAX_TASKS" "sched_state (sched s i) = Unallocated"
    and first: "\<forall>j < i. sched_state (sched s j) \<noteq> Unallocated"
    by (auto simp: free_index_def find_Some_iff)
  then show "i < MAX_TASKS" "sched_state (sched s i) = Unallocated" by auto
  show "i \<le> task_count s"
  proof (rule ccontr)
    assume "\<not> i \<le> task_count s"
    then have "task_count s < i" by simp
    with first have "sched_state (sched s (task_count s)) \<noteq> Unallocated" by blast
    moreover have "task_count s < MAX_TASKS" using \<open>task_count s < i\<close> i by simp
    ultimately show False using assms(1) unfolding tasks_wf_def by blast
  qed
qed

lemma free_index_None:
  "free_index s = None \<longleftrightarrow> (\<forall>i < MAX_TASKS. sched_state (sched s i) \<noteq> Unallocated)"
  by (auto simp: free_index_def find_None_iff)

text \<open>A freshly written, not yet queued task leaves the queues as they are.\<close>

lemma queues_new_task:
  assumes inv: "ready_inv Q s" and st: "sched_state (sched s i) \<noteq> Ready"
    and same: "\<And>t. t \<noteq> i \<Longrightarrow> sched s' t = sched s t"
      "ready_head s' = ready_head s" "ready_bitmask s' = ready_bitmask s"
  shows "queues Q s'"
proof -
  have "queue_wf (Q p) p s'" if p: "p < NUM_PRIORITIES" for p
  proof (rule queue_wf_other)
    show "queue_wf (Q p) p s" using inv p by (simp add: ready_inv_def queues_def)
    have ne: "x \<noteq> i" if "x \<in> set (Q p)" for x using inv st p that by (auto simp: ready_inv_iff)
    show "nxt s' x = nxt s x" "prv s' x = prv s x"
      "current_priority (sched s' x) = current_priority (sched s x)" if "x \<in> set (Q p)" for x
      using same(1) [OF ne [OF that]] by (simp_all add: nxt_def prv_def)
  qed (simp_all add: same)
  then show ?thesis by (simp add: queues_def)
qed

lemma push_new_task_inv:
  assumes inv: "ready_inv Q s" and i: "i < MAX_TASKS" "i \<le> task_count s"
    and st: "sched_state (sched s i) = Unallocated"
    and same: "\<And>t. t \<noteq> i \<Longrightarrow> sched s' t = sched s t"
      "ready_head s' = ready_head s" "ready_bitmask s' = ready_bitmask s"
    and new: "task_count s' = max (task_count s) (Suc i)" "sched_state (sched s' i) = Ready"
      "task_id (sched s' i) = i" "current_priority (sched s' i) = p" "base_priority (sched s' i) = p"
    and p: "p < NUM_PRIORITIES"
  shows "ready_inv (Q(p := Q p @ [i])) (push_ready i s')"
proof -
  have "sched_state (sched s i) \<noteq> Ready" using st by simp
  from queues_new_task [OF inv this] same have q: "queues Q s'" by blast
  then have wf: "queue_wf (Q p) p s'" using p by (simp add: queues_def)
  have nin: "i \<notin> set (Q p)" using inv st p by (auto simp: ready_inv_iff)
  note r = push_ready_queues [OF q i(1) new(4) p nin]
  have n: "nxt (push_ready i s') t = -1"
    if "t < task_count s'" "sched_state (sched s' t) \<noteq> Ready" for t
  proof -
    have "t \<noteq> i" using that new by auto
    note t = this same(1) [OF this]
    then have "t < task_count s" "nxt s' t = nxt s t"
      using that new i by (auto simp: nxt_def)
    moreover have "t \<notin> set (Q p)" "nxt s t = -1"
      using inv p that t \<open>t < task_count s\<close> by (auto simp: ready_inv_iff)
    ultimately show ?thesis using push_ready_nxt_other [OF wf p i(1) new(4) t(1)] by simp
  qed
  show ?thesis unfolding ready_inv_iff
  proof (intro conjI)
    show "queues (Q(p := Q p @ [i])) (push_ready i s')" by (rule r)
    show "task_count (push_ready i s') \<le> MAX_TASKS" using inv i new by (simp add: kernel_simps ready_inv_iff)
    show "\<forall>t<task_count (push_ready i s'). sched_state (sched (push_ready i s') t) \<noteq> Ready \<longrightarrow>
        nxt (push_ready i s') t = - 1" using n by (simp add: kernel_simps)
    show "\<forall>t<task_count (push_ready i s'). task_id (sched (push_ready i s') t) = t \<and>
        current_priority (sched (push_ready i s') t) < NUM_PRIORITIES \<and>
        base_priority (sched (push_ready i s') t) < NUM_PRIORITIES"
    proof (intro allI impI)
      fix t assume "t < task_count (push_ready i s')"
      then have "t = i \<or> t < task_count s \<and> sched s' t = sched s t"
        using new(1) i(2) same(1) [of t] by (auto simp: kernel_simps)
      then show "task_id (sched (push_ready i s') t) = t \<and>
        current_priority (sched (push_ready i s') t) < NUM_PRIORITIES \<and>
        base_priority (sched (push_ready i s') t) < NUM_PRIORITIES"
        using inv new p by (auto simp: kernel_simps ready_inv_iff)
    qed
    show "\<forall>t. task_count (push_ready i s') \<le> t \<and> t < MAX_TASKS \<longrightarrow>
        sched_state (sched (push_ready i s') t) = Unallocated"
      using inv same(1) new unfolding ready_inv_iff kernel_simps by simp
    show "\<forall>pa<NUM_PRIORITIES. \<forall>t. (t \<in> set ((Q(p := Q p @ [i])) pa)) = (t < task_count (push_ready i s') \<and>
        sched_state (sched (push_ready i s') t) = Ready \<and> current_priority (sched (push_ready i s') t) = pa)"
    proof (intro allI impI)
      fix pa t assume "pa < NUM_PRIORITIES"
      then have old: "t \<in> set (Q pa) \<longleftrightarrow> t < task_count s \<and> sched_state (sched s t) = Ready
          \<and> current_priority (sched s t) = pa" using inv by (simp add: ready_inv_iff)
      show "(t \<in> set ((Q(p := Q p @ [i])) pa)) = (t < task_count (push_ready i s') \<and>
        sched_state (sched (push_ready i s') t) = Ready \<and> current_priority (sched (push_ready i s') t) = pa)"
      proof (cases "t = i")
        case True
        then show ?thesis using old st new by (auto simp: kernel_simps)
      next
        case False
        then have "t < task_count s' \<longleftrightarrow> t < task_count s" using new i by auto
        then show ?thesis using old False same(1) [OF False] by (auto simp: kernel_simps)
      qed
    qed
  qed
qed

lemma create_task_inv:
  assumes inv: "ready_inv Q s" and i: "free_index s = Some i" and prio: "prio < NUM_PRIORITIES"
  shows "ready_inv (Q(prio := Q prio @ [i]))
     (snd (create_task entry stk sz prio pw priv srd s))"
proof -
  have wf: "tasks_wf s" using inv by (simp add: ready_inv_def)
  note f = free_index_spec [OF wf i]
  show ?thesis unfolding create_task_def i option.case Let_def case_prod_beta snd_conv
    by (rule push_new_task_inv [OF inv f(1,2,3)])
      (use prio f(2) in \<open>simp_all add: upd_defs new_tcb_def Let_def max_def\<close>)
qed

lemma create_task_fields:
  fixes entry stk sz priv :: u32 and pw srd :: u8 and prio :: nat
  assumes i: "free_index s = Some i"
  defines "s' \<equiv> snd (create_task entry stk sz prio pw priv srd s)"
  shows "fst (create_task entry stk sz prio pw priv srd s) = Some i"
    "task_count s' = (if i \<ge> task_count s then i + 1 else task_count s)"
    "sched_state (sched s' t) = (if t = i then Ready else sched_state (sched s t))"
    "current_priority (sched s' t) = (if t = i then prio else current_priority (sched s t))"
    "memory (tasks s' t) = (if t = i then memory (new_tcb i entry stk sz prio pw priv srd)
       else memory (tasks s t))"
    "ipcx s' t = (if t = i then ipc empty_tcb else ipcx s t)"
    "secx s' t = (if t = i then security empty_tcb else secx s t)"
    "privilege (task (tasks s' t)) = (if t = i then priv else privilege (task (tasks s t)))"
    "current_tcb s' = current_tcb s" "next_tcb s' = next_tcb s" "started s' = started s"
    "mpu s' = mpu s"
  unfolding s'_def create_task_def i option.case Let_def case_prod_beta
  by (simp_all add: kernel_simps) (simp_all add: upd_defs new_tcb_def Let_def)

lemma create_task_others:
  assumes i: "free_index s = Some i" and t: "t \<noteq> i"
  shows "same_but_links (tasks s t) (tasks (snd (create_task entry stk sz prio pw priv srd s)) t)"
proof -
  have p: "same_but_links (tasks s' t) (tasks (push_ready i s') t)" for s'
    using push_ready_frame by (simp add: same_but_queues_def)
  show ?thesis
    unfolding create_task_def i option.case Let_def case_prod_beta snd_conv
    by (rule same_but_links_trans [OF _ p]) (use t in \<open>simp add: kernel_simps upd_defs\<close>)
qed

lemma free_task_eq:
  assumes inv: "ready_inv Q s" and i: "i < task_count s"
  obtains s1 where "sched_view s1 = sched_view s" "free_task (Some i) s = set_task_state i Unallocated s1"
proof -
  define s1 where "s1 = (case vasp (memory (tasks s i)) of None \<Rightarrow> s
    | Some v \<Rightarrow> upd_memory i (\<lambda>r. r\<lparr>vasp := None, pgdir_base := 0\<rparr>) (log_event (DeleteVasp v) s))"
  have v: "sched_view s1 = sched_view s" by (simp add: s1_def view_simps split: option.split)
  have f: "i < MAX_TASKS" "task_id (sched s1 i) = i" "task_count s1 = task_count s"
    using ready_inv_facts [OF inv i] sched_view_eqD [OF v] by auto
  have "upd_sched i (\<lambda>r. r\<lparr>sched_state := Unallocated\<rparr>) s1 = s1" if "sched_state (sched s1 i) = Unallocated"
    using that by (auto simp: upd_defs fun_eq_iff intro!: kernel.equality)
  then have "free_task (Some i) s = set_task_state i Unallocated s1"
    using f i unfolding free_task_def option.case s1_def [symmetric]
    by (auto simp: set_task_state_def Let_def)
  with v show ?thesis by (rule that)
qed

lemma free_task_ok:
  assumes "ready_ok s" "i < task_count s"
  shows "ready_ok (free_task (Some i) s)"
proof -
  from assms obtain s1 where "sched_view s1 = sched_view s"
    "free_task (Some i) s = set_task_state i Unallocated s1"
    using free_task_eq [of "queue_of s" s i] by (auto simp: ready_ok_def)
  then show ?thesis using assms(1) ready_inv_view(3) [of s1 s] set_task_state_ok [of s1] by simp
qed

section \<open>The choice, on lists\<close>

text \<open>
  The abstract scheduler works on the queues as lists: the highest admissible level that is
  not empty, the head of that level, and the two fallbacks of the code.
\<close>

definition top_level :: "(nat \<Rightarrow> bool) \<Rightarrow> (nat \<Rightarrow> nat list) \<Rightarrow> nat option" where
  "top_level ok Q = find (\<lambda>p. Q p \<noteq> [] \<and> ok p) (rev [0..<NUM_PRIORITIES])"

definition abs_pick :: "(nat \<Rightarrow> bool) \<Rightarrow> nat \<Rightarrow> bool \<Rightarrow> (nat \<Rightarrow> nat list) \<Rightarrow> nat" where
  "abs_pick ok cur cur_ready Q =
     (let next0 = (case top_level ok Q of Some p \<Rightarrow> hd (Q p) | None \<Rightarrow> cur);
          next1 = (if next0 = cur \<and> Q 0 \<noteq> [] then hd (Q 0) else next0)
      in if next1 = cur \<and> \<not> cur_ready
         then (case top_level (\<lambda>_. True) Q of Some p \<Rightarrow> hd (Q p) | None \<Rightarrow> next1)
         else next1)"

definition q_rotate :: "nat \<Rightarrow> nat \<Rightarrow> (nat \<Rightarrow> nat list) \<Rightarrow> nat \<Rightarrow> nat list" where
  "q_rotate cur p Q = (if Q p \<noteq> [] \<and> hd (Q p) = cur then Q(p := rotate1 (Q p)) else Q)"

lemma find_downto:
  "find P (rev [0..<n]) = Some p \<longleftrightarrow> p < n \<and> P p \<and> (\<forall>q. p < q \<and> q < n \<longrightarrow> \<not> P q)"
proof (induction n)
  case (Suc n)
  then show ?case by (cases "P n") (auto simp: less_Suc_eq dest: less_antisym)
qed simp

lemma find_downto_None: "find P (rev [0..<n]) = None \<longleftrightarrow> (\<forall>p < n. \<not> P p)"
  by (auto simp: find_None_iff)

lemma top_level_Some:
  "top_level ok Q = Some p \<longleftrightarrow> p < NUM_PRIORITIES \<and> Q p \<noteq> [] \<and> ok p \<and>
     (\<forall>q. p < q \<and> q < NUM_PRIORITIES \<longrightarrow> Q q = [] \<or> \<not> ok q)"
  unfolding top_level_def find_downto by auto

lemma top_level_None: "top_level ok Q = None \<longleftrightarrow> (\<forall>p < NUM_PRIORITIES. Q p = [] \<or> \<not> ok p)"
  unfolding top_level_def find_downto_None by auto

lemma abs_pick_cong:
  assumes "\<And>p. p < NUM_PRIORITIES \<Longrightarrow> Q p = Q' p"
  shows "abs_pick ok cur r Q = abs_pick ok cur r Q'"
proof -
  have top: "top_level g Q = top_level g Q'" for g
    unfolding top_level_def using assms by (intro find_cong) auto
  have cs: "(case top_level g Q' of None \<Rightarrow> d | Some p \<Rightarrow> hd (Q p)) =
      (case top_level g Q' of None \<Rightarrow> d | Some p \<Rightarrow> hd (Q' p))" for g d
  proof (cases "top_level g Q'")
    case (Some p)
    then have "p < NUM_PRIORITIES" by (simp add: top_level_Some)
    with Some show ?thesis by (simp add: assms)
  qed simp
  have "Q 0 = Q' 0" by (rule assms) simp
  then show ?thesis by (simp only: abs_pick_def top cs)
qed

section \<open>The bitmask scan finds the highest admissible level\<close>

lemma scan_allowed_spec:
  "scan_allowed ok m = find (\<lambda>p. bit m p \<and> ok p) (rev [0..<32])"
proof (induction ok m rule: scan_allowed.induct)
  case (1 ok m)
  show ?case
  proof (cases "m = 0")
    case True
    then have "find (\<lambda>p. bit m p \<and> ok p) (rev [0..<32]) = None" unfolding find_downto_None by simp
    with True show ?thesis by (subst scan_allowed.simps) simp
  next
    case False
    then obtain n where n: "find_highest_bit m = int n" "n < 32" "bit m n" "\<forall>j > n. \<not> bit m j"
      by (rule find_highest_bit_obtain)
    show ?thesis
    proof (cases "ok n")
      case True
      then have "find (\<lambda>p. bit m p \<and> ok p) (rev [0..<32]) = Some n"
        unfolding find_downto using n by auto
      then show ?thesis using False True n by (subst scan_allowed.simps) simp
    next
      case no: False
      have "find (\<lambda>p. bit (m AND NOT (bit_of n)) p \<and> ok p) (rev [0..<32]) =
          find (\<lambda>p. bit m p \<and> ok p) (rev [0..<32])"
        using no by (intro find_cong refl) (auto simp: bit_and_not_bit_of simp del: push_bit_of_1)
      moreover have "scan_allowed ok m = scan_allowed ok (m AND NOT (bit_of n))"
        using False no n by (subst scan_allowed.simps) (simp del: push_bit_of_1)
      moreover have "scan_allowed ok (m AND NOT (bit_of n)) =
          find (\<lambda>p. bit (m AND NOT (bit_of n)) p \<and> ok p) (rev [0..<32])"
        using 1 [OF False refl] no n(1) by (simp del: push_bit_of_1)
      ultimately show ?thesis by simp
    qed
  qed
qed

lemma scan_allowed_top:
  assumes "queues Q s"
  shows "scan_allowed ok (ready_bitmask s) = top_level ok Q"
proof -
  have "bit (ready_bitmask s) p \<longleftrightarrow> Q p \<noteq> []" if "p < 32" for p
    using assms that by (simp add: queues_def queue_wf_def)
  then show ?thesis unfolding scan_allowed_spec top_level_def
    by (intro find_cong) auto
qed

text \<open>Reading the head of a level that is in use.\<close>

lemma head_of_level:
  assumes "ready_inv Q s" "p < NUM_PRIORITIES" "Q p \<noteq> []"
  shows "ready_head s p = int (hd (Q p))" "idx (ready_head s p) = hd (Q p)"
    "hd (Q p) < task_count s" "sched_state (sched s (hd (Q p))) = Ready"
    "current_priority (sched s (hd (Q p))) = p"
proof -
  from assms have wf: "queue_wf (Q p) p s" by (simp add: ready_inv_def queues_def)
  have m: "hd (Q p) \<in> set (Q p)" using assms(3) by simp
  then show "hd (Q p) < task_count s" "sched_state (sched s (hd (Q p))) = Ready"
    "current_priority (sched s (hd (Q p))) = p" using assms(1,2) by (simp_all add: ready_inv_iff)
  show h: "ready_head s p = int (hd (Q p))"
    using wf assms(3) by (cases "Q p") (simp_all add: queue_wf_def)
  have "hd (Q p) < MAX_TASKS" using wf m by (simp add: queue_wf_def)
  then show "idx (ready_head s p) = hd (Q p)" unfolding h by simp
qed

lemma fallback_ready_top:
  assumes inv: "ready_inv Q s"
  shows "fallback_ready s (ready_bitmask s) =
     Some (map_option (\<lambda>p. hd (Q p)) (top_level (\<lambda>_. True) Q))"
proof (cases "ready_bitmask s = 0")
  case True
  have "top_level (\<lambda>_. True) Q = None"
    using inv True by (simp add: top_level_None ready_inv_def queues_def queue_wf_def)
  then show ?thesis using True by (subst fallback_ready.simps) simp
next
  case False
  then obtain n where n: "find_highest_bit (ready_bitmask s) = int n" "n < 32"
    "bit (ready_bitmask s) n" "\<forall>j > n. \<not> bit (ready_bitmask s) j"
    by (rule find_highest_bit_obtain)
  have b: "bit (ready_bitmask s) p \<longleftrightarrow> Q p \<noteq> []" if "p < 32" for p
    using inv that by (simp add: ready_inv_def queues_def queue_wf_def)
  have "top_level (\<lambda>_. True) Q = Some n" unfolding top_level_Some using n b by auto
  moreover have "Q n \<noteq> []" using b n by blast
  note head_of_level [OF inv _ this]
  ultimately show ?thesis using False n by (subst fallback_ready.simps) simp
qed

lemma pick_next_refines:
  assumes inv: "ready_inv Q s" and cur: "cur < task_count s"
  shows "pick_next ok cur s = Some (abs_pick ok cur (sched_state (sched s cur) = Ready) Q)"
proof -
  define next0 where "next0 = (case top_level ok Q of Some p \<Rightarrow> hd (Q p) | None \<Rightarrow> cur)"
  define next1 where "next1 = (if next0 = cur \<and> Q 0 \<noteq> [] then hd (Q 0) else next0)"
  have q: "queues Q s" using inv by (simp add: ready_inv_def)
  have b0: "bit (ready_bitmask s) 0 \<longleftrightarrow> Q 0 \<noteq> []" using q by (simp add: queues_def queue_wf_def)
  have n0: "(case scan_allowed ok (ready_bitmask s) of Some p \<Rightarrow> idx (ready_head s p) | None \<Rightarrow> cur) = next0"
  proof (cases "top_level ok Q")
    case (Some p)
    then have "p < NUM_PRIORITIES" "Q p \<noteq> []" by (simp_all add: top_level_Some)
    from head_of_level(2) [OF inv this] Some show ?thesis by (simp add: next0_def scan_allowed_top [OF q])
  qed (simp add: next0_def scan_allowed_top [OF q])
  have n1: "(if next0 = cur \<and> ready_bitmask s AND bit_of 0 \<noteq> 0 then idx (ready_head s 0) else next0) = next1"
    unfolding next1_def and_bit_of_eq_0 using b0 head_of_level(2) [OF inv, of 0] by auto
  have rdy: "sched_state (sched s next1) = Ready \<longleftrightarrow> \<not> (next1 = cur \<and> sched_state (sched s cur) \<noteq> Ready)"
  proof (cases "next1 = cur")
    case False
    then consider "next1 = hd (Q 0)" "Q 0 \<noteq> []" | p where "top_level ok Q = Some p" "next1 = hd (Q p)"
      unfolding next1_def next0_def by (auto split: if_splits option.splits)
    then have "sched_state (sched s next1) = Ready"
      by cases (simp_all add: top_level_Some head_of_level(4) [OF inv])
    with False show ?thesis by simp
  qed simp
  show ?thesis
    unfolding pick_next_def abs_pick_def Let_def n0 n1 fallback_ready_top [OF inv]
      next0_def [symmetric] next1_def [symmetric]
    using rdy by (auto split: option.split)
qed

section \<open>Rotation and signals\<close>

lemma rotate_current_inv:
  assumes inv: "ready_inv Q s" and cur: "cur < task_count s"
  shows "ready_inv (q_rotate cur (current_priority (sched s cur)) Q) (rotate_current cur s)"
proof -
  let ?p = "current_priority (sched s cur)"
  note f = ready_inv_facts [OF inv cur]
  have p: "?p < NUM_PRIORITIES" and wf: "queue_wf (Q ?p) ?p s"
    using f(3) inv by (auto simp: ready_inv_def queues_def)
  show ?thesis
  proof (cases "Q ?p \<noteq> [] \<and> hd (Q ?p) = cur")
    case True
    then obtain ys where Q: "Q ?p = cur # ys" by (cases "Q ?p") auto
    have h: "ready_head s ?p = int cur" "sched_state (sched s cur) = Ready"
      using head_of_level [OF inv p] True by auto
    have r: "ring (nxt s) (prv s) (cur # ys)" using wf Q by (simp add: queue_wf_def)
    have op: "rotate_current cur s = set_head ?p (int (hd (ys @ [cur]))) s"
      using h ring_next_hd [OF r] by (cases ys) (simp_all add: rotate_current_def next_nxt)
    have r': "ring (nxt s) (prv s) (ys @ [cur])" using r ring_rotate [of _ _ "[cur]" ys] by simp
    have "queue_wf (ys @ [cur]) ?p (set_head ?p (int (hd (ys @ [cur]))) s)"
      using wf Q r' by (cases ys) (auto simp: queue_wf_def link_simps kernel_simps)
    moreover have "queue_wf (Q q) q (set_head ?p v s)" if "q \<noteq> ?p" "q < NUM_PRIORITIES" for q v
    proof (rule queue_wf_other)
      show "queue_wf (Q q) q s" using inv that(2) by (simp add: ready_inv_def queues_def)
    qed (use that(1) in \<open>simp_all add: link_simps kernel_simps\<close>)
    ultimately have q: "queues (Q(?p := ys @ [cur])) (rotate_current cur s)"
      unfolding queues_def op by simp
    have qr: "q_rotate cur ?p Q = Q(?p := ys @ [cur])" using Q by (simp add: q_rotate_def)
    have m: "t \<in> set ((Q(?p := ys @ [cur])) pa) \<longleftrightarrow> t \<in> set (Q pa)" for t pa using Q by auto
    show ?thesis using inv q unfolding ready_inv_iff qr m unfolding op
      by (simp add: link_simps kernel_simps)
  next
    case False
    have "\<not> (sched_state (sched s cur) = Ready \<and> ready_head s ?p = int cur)"
    proof
      assume a: "sched_state (sched s cur) = Ready \<and> ready_head s ?p = int cur"
      then have "cur \<in> set (Q ?p)" using f(6) p by blast
      then have "Q ?p \<noteq> []" by auto
      with head_of_level(1) [OF inv p] a False show False by simp
    qed
    then have "rotate_current cur s = s" by (auto simp: rotate_current_def Let_def)
    then show ?thesis using False inv by (auto simp: q_rotate_def)
  qed
qed

text \<open>
  The state between operations: well-formed queues, and task pointers that point into the
  table. A signal handler is asked to keep this and not to shrink the table.
\<close>

definition sched_ok :: "kernel \<Rightarrow> bool" where
  "sched_ok s \<longleftrightarrow> ready_ok s
     \<and> (\<forall>c. current_tcb s = Some c \<or> next_tcb s = Some c \<longrightarrow> c < task_count s)"

definition handlers_ok :: "sched_env \<Rightarrow> bool" where
  "handlers_ok env \<longleftrightarrow>
     (\<forall>a sig s. sched_ok s \<longrightarrow> sched_ok (env_handler env a sig s)
        \<and> task_count s \<le> task_count (env_handler env a sig s))"

lemma sched_ok_view:
  assumes "sched_view s' = sched_view s" "current_tcb s' = current_tcb s" "next_tcb s' = next_tcb s"
  shows "sched_ok s' = sched_ok s"
  using assms ready_inv_view(3) [OF assms(1)] sched_view_eqD(7) [OF assms(1)] by (simp add: sched_ok_def)

lemma sched_ok_upd_sec: "sched_ok (upd_sec t f s) = sched_ok s"
  by (rule sched_ok_view) (simp_all add: view_simps kernel_simps)

lemma pointers_set_task_state [kernel_simps]:
  "current_tcb (set_task_state i st s) = current_tcb s" "next_tcb (set_task_state i st s) = next_tcb s"
  by (simp_all add: set_task_state_def Let_def kernel_simps)

lemma pointers_set_task_priority [kernel_simps]:
  "current_tcb (set_task_priority i p s) = current_tcb s"
  "next_tcb (set_task_priority i p s) = next_tcb s"
  by (simp_all add: set_task_priority_def Let_def kernel_simps)

lemma sched_ok_set_state: "sched_ok s \<Longrightarrow> sched_ok (set_task_state i st s)"
  by (simp add: sched_ok_def set_task_state_ok kernel_simps)

lemma sched_ok_set_priority:
  "sched_ok s \<Longrightarrow> p < NUM_PRIORITIES \<Longrightarrow> sched_ok (set_task_priority i p s)"
  by (simp add: sched_ok_def set_task_priority_ok kernel_simps)

lemma run_handler_ok:
  assumes "handlers_ok env" "sched_ok s"
  shows "sched_ok (run_handler env t sig s) \<and> task_count s \<le> task_count (run_handler env t sig s)"
proof -
  have h: "sched_ok (env_handler env a n s') \<and> task_count s' \<le> task_count (env_handler env a n s')"
    if "sched_ok s'" for a n s' using assms(1) that by (auto simp: handlers_ok_def)
  show ?thesis
    using assms(2) h [of "upd_sec t _ (upd_sec t _ s)"] h [of "upd_sec t _ s"]
    unfolding run_handler_def Let_def by (simp add: sched_ok_upd_sec upd_sec_frame)
qed

lemma dispatch_loop_ok:
  assumes "handlers_ok env" "sched_ok s"
  shows "sched_ok (dispatch_loop env t pend sigs s)
     \<and> task_count s \<le> task_count (dispatch_loop env t pend sigs s)"
  using assms(2)
proof (induction sigs arbitrary: s)
  case (Cons sig sigs)
  have u: "sched_ok (upd_sec t f s) \<and> task_count (upd_sec t f s) = task_count s" for f
    using Cons.prems by (simp add: sched_ok_upd_sec kernel_simps)
  show ?case
    using Cons.IH [OF Cons.prems] Cons.IH [OF u [THEN conjunct1]] u
      run_handler_ok [OF assms(1) Cons.prems, of t sig]
      Cons.IH [of "run_handler env t sig s"] sched_ok_set_state [OF Cons.prems]
    by (auto simp: task_count_set_state simp del: push_bit_of_1 intro: le_trans)
qed simp

lemma dispatch_signals_ok:
  assumes "handlers_ok env" "sched_ok s"
  shows "sched_ok (dispatch_signals env tp s) \<and> task_count s \<le> task_count (dispatch_signals env tp s)"
proof -
  have u: "sched_ok (upd_sec t f s)" for t f using assms(2) by (simp add: sched_ok_upd_sec)
  show ?thesis
    using dispatch_loop_ok [OF assms(1) u] assms(2)
    unfolding dispatch_signals_def
    by (simp add: upd_sec_frame(2) del: push_bit_of_1 upt_Suc NUM_SIG_ACTIONS_def split: option.split)
qed

section \<open>Scheduling\<close>

lemma current_task_id_lt:
  assumes "sched_ok s" "0 < task_count s" shows "current_task_id s < task_count s"
  using assms ready_inv_facts(2) [of "queue_of s" s]
  by (auto simp: sched_ok_def current_task_id_def ready_ok_def split: option.splits)

lemma switch_to_frame:
  "sched_view (switch_to cur n s) = sched_view s" "current_tcb (switch_to cur n s) = current_tcb s"
  "next_tcb (switch_to cur n s) = (if n = cur then next_tcb s else Some n)"
  by (simp_all add: switch_to_def Let_def view_simps kernel_simps)

lemma rotate_current_ok:
  assumes "sched_ok s" "cur < task_count s"
  shows "sched_ok (rotate_current cur s)" "task_count (rotate_current cur s) = task_count s"
  using rotate_current_inv [of "queue_of s" s cur] assms ready_inv_ok
  by (auto simp: sched_ok_def ready_ok_def rotate_current_def Let_def kernel_simps)

lemma abs_pick_lt:
  assumes inv: "ready_inv Q s" and cur: "cur < task_count s"
  shows "abs_pick ok cur r Q < task_count s"
proof -
  have h: "hd (Q p) < task_count s" if "top_level g Q = Some p" for g p
    using that head_of_level(3) [OF inv] by (simp add: top_level_Some)
  have "hd (Q 0) < task_count s" if "Q 0 \<noteq> []" using that head_of_level(3) [OF inv] by simp
  then show ?thesis using h cur by (auto simp: abs_pick_def Let_def split: option.split)
qed

text \<open>The part of \<open>schedule\<close> after signal dispatch, and its effect.\<close>

definition decide :: "sched_env \<Rightarrow> nat \<Rightarrow> kernel \<Rightarrow> kernel" where
  "decide env cur s =
     (let s2 = (if sched_state (sched s cur) \<noteq> Terminated then rotate_current cur s else s);
          n = abs_pick (env_allowed env) cur (sched_state (sched s2 cur) = Ready) (queue_of s2);
          s3 = switch_to cur n s2
      in log_event (WatchdogFeed (current_priority (sched s3 cur))) s3)"

lemma decide_ok:
  assumes s1: "sched_ok s1" "cur < task_count s1"
  defines "s2 \<equiv> (if sched_state (sched s1 cur) \<noteq> Terminated then rotate_current cur s1 else s1)"
  shows "sched_ok (decide env cur s1)"
    "pick_next (env_allowed env) cur s2 =
       Some (abs_pick (env_allowed env) cur (sched_state (sched s2 cur) = Ready) (queue_of s2))"
proof -
  have s2: "sched_ok s2" "cur < task_count s2" using s1 rotate_current_ok [OF s1] by (auto simp: s2_def)
  then have inv: "ready_inv (queue_of s2) s2" by (simp add: sched_ok_def ready_ok_def)
  let ?n = "abs_pick (env_allowed env) cur (sched_state (sched s2 cur) = Ready) (queue_of s2)"
  show "pick_next (env_allowed env) cur s2 = Some ?n" by (rule pick_next_refines [OF inv s2(2)])
  have "?n < task_count s2" by (rule abs_pick_lt [OF inv s2(2)])
  then show "sched_ok (decide env cur s1)"
    using s2(1) unfolding decide_def Let_def s2_def [symmetric]
    using ready_inv_view(3) [of "log_event (WatchdogFeed _) (switch_to cur ?n s2)" s2]
      sched_view_eqD(7) [of "switch_to cur ?n s2" s2]
    by (auto simp: sched_ok_def view_simps kernel_simps switch_to_frame)
qed

lemma current_task_id_cycle [simp]:
  "current_task_id (s\<lparr>switch_start_cycle := w\<rparr>) = current_task_id s"
  by (simp add: current_task_id_def split: option.split)

lemma sched_ok_cycle [simp]: "sched_ok (s\<lparr>switch_start_cycle := w\<rparr>) = sched_ok s"
  by (rule sched_ok_view) (simp_all add: view_simps)

lemma schedule_eq_decide:
  fixes env :: sched_env
  assumes on: "started s" "1 < task_count s"
  defines "s1 \<equiv> dispatch_signals env (Some (current_task_id s)) (s\<lparr>switch_start_cycle := env_cycle env\<rparr>)"
  assumes ok: "sched_ok s1" "current_task_id s < task_count s1"
  shows "schedule env s = Some (decide env (current_task_id s) s1)"
  using on decide_ok(2) [OF ok, of env]
  unfolding schedule_def decide_def Let_def current_task_id_cycle s1_def [symmetric] by simp

lemma schedule_eq:
  assumes h: "handlers_ok env" and ok: "sched_ok s" and on: "started s" "1 < task_count s"
  defines "s1 \<equiv> dispatch_signals env (Some (current_task_id s)) (s\<lparr>switch_start_cycle := env_cycle env\<rparr>)"
  shows "schedule env s = Some (decide env (current_task_id s) s1)"
    "sched_ok (decide env (current_task_id s) s1)"
proof -
  let ?s0 = "s\<lparr>switch_start_cycle := env_cycle env\<rparr>"
  have "sched_ok ?s0" "current_task_id s < task_count ?s0"
    using ok current_task_id_lt [OF ok] on by simp_all
  with dispatch_signals_ok [OF h, of ?s0 "Some (current_task_id s)"]
  have s1: "sched_ok s1" "current_task_id s < task_count s1"
    unfolding s1_def by (auto intro: less_le_trans)
  show "schedule env s = Some (decide env (current_task_id s) s1)"
    using schedule_eq_decide [OF on] s1 unfolding s1_def by blast
  show "sched_ok (decide env (current_task_id s) s1)" by (rule decide_ok(1) [OF s1])
qed

lemma schedule_ok:
  assumes "handlers_ok env" "sched_ok s"
  shows "returns (schedule env s) sched_ok"
proof (cases "started s \<and> 1 < task_count s")
  case True
  then show ?thesis using schedule_eq [OF assms] by auto
qed (use assms in \<open>auto simp: schedule_def\<close>)

text \<open>Without pending signals the dispatch is the identity, whatever the handlers do.\<close>

lemma schedule_quiet:
  fixes env :: sched_env
  assumes ok: "sched_ok s" and on: "started s" "1 < task_count s"
    and quiet: "pending_signals (secx s (current_task_id s)) = 0"
  defines "cur \<equiv> current_task_id s"
  defines "Q \<equiv> q_rotate cur (current_priority (sched s cur)) (queue_of s)"
  defines "n \<equiv> abs_pick (env_allowed env) cur (sched_state (sched s cur) = Ready) Q"
  obtains s' where "schedule env s = Some s'" "sched_ok s'" "current_tcb s' = current_tcb s"
    "next_tcb s' = (if n = cur then next_tcb s else Some n)"
proof -
  let ?s0 = "s\<lparr>switch_start_cycle := env_cycle env\<rparr>"
  have d: "dispatch_signals env (Some cur) ?s0 = ?s0" using quiet by (simp add: dispatch_signals_def cur_def)
  have lt: "cur < task_count s" using current_task_id_lt [OF ok] on by (simp add: cur_def)
  have ok0: "sched_ok ?s0" "cur < task_count ?s0" using ok lt by simp_all
  have eq: "schedule env s = Some (decide env cur ?s0)"
    using schedule_eq_decide [OF on, of env] ok0 d by (simp add: cur_def)
  let ?s2 = "if sched_state (sched ?s0 cur) \<noteq> Terminated then rotate_current cur ?s0 else ?s0"
  have inv: "ready_inv (queue_of s) s" using ok by (simp add: sched_ok_def ready_ok_def)
  then have inv0: "ready_inv (queue_of s) ?s0" using ready_inv_view(1) [of ?s0 s] by (simp add: view_simps)
  have "ready_inv Q ?s2"
  proof (cases "sched_state (sched ?s0 cur) = Terminated")
    case True
    have "current_priority (sched s cur) < NUM_PRIORITIES" using ready_inv_facts(3) [OF inv lt] .
    then have "Q = queue_of s" unfolding Q_def q_rotate_def
      using head_of_level(4) [OF inv, of "current_priority (sched s cur)"] True by auto
    then show ?thesis using True inv0 by simp
  next
    case False
    then show ?thesis using rotate_current_inv [OF inv0 ok0(2)] by (simp add: Q_def)
  qed
  then have q2: "queue_of ?s2 p = Q p" if "p < NUM_PRIORITIES" for p
    using ready_inv_queue_of that by blast
  have "abs_pick g cur r (queue_of ?s2) = abs_pick g cur r Q" for g r
    using q2 by (rule abs_pick_cong)
  moreover have "sched_state (sched ?s2 cur) = sched_state (sched s cur)"
    by (simp add: rotate_current_def Let_def kernel_simps)
  moreover have "current_tcb ?s2 = current_tcb s" "next_tcb ?s2 = next_tcb s"
    by (simp_all add: rotate_current_def Let_def kernel_simps)
  ultimately have "current_tcb (decide env cur ?s0) = current_tcb s"
    "next_tcb (decide env cur ?s0) = (if n = cur then next_tcb s else Some n)"
    unfolding decide_def Let_def n_def by (simp_all add: kernel_simps switch_to_frame)
  with eq decide_ok(1) [OF ok0] show ?thesis by (intro that)
qed

end
