(* ===== verification/Example_States.thy ===== *)
theory Example_States
  imports Scheduling
begin

text \<open>
  Concrete states: the state after reset, a system of an idle task and an application task
  built by the kernel's own operations, and a scheduling environment without filter or
  handlers. They are the inputs on which properties are exercised.
\<close>

section \<open>The reset state and a two-task system\<close>

text \<open>Zero-initialised storage after the constructor of \<open>Scheduler\<close>, before \<open>init\<close>.\<close>

definition reset_state :: kernel where
  "reset_state =
     \<lparr>tasks = (\<lambda>i. empty_tcb\<lparr>scheduler := (scheduler empty_tcb)\<lparr>sched_state := Unallocated\<rparr>\<rparr>),
      task_count = 0, started = False, ready_head = (\<lambda>_. -1), ready_bitmask = 0,
      current_tcb = None, next_tcb = None, switch_start_cycle = 0,
      endpoints = (\<lambda>_. \<lparr>send_queue = \<lparr>wq_head = None, wq_tail = None\<rparr>,
        recv_queue = \<lparr>wq_head = None, wq_tail = None\<rparr>\<rparr>),
      mutexes = (\<lambda>_. \<lparr>locked = False, owner = None, recursive_count = 0, next_held = None,
        wait_mask = 0, ceiling_prio = 0\<rparr>),
      ref_count = (\<lambda>_. 1), current_tick = 0, mem = (\<lambda>_. 0),
      mpu = \<lparr>reg_rnr = 0, reg_pairs = \<lambda>_. (0, 0)\<rparr>, events = []\<rparr>"

text \<open>An idle task in slot 0 and an application task of priority 8 in slot 1.\<close>

definition two_tasks :: kernel where
  "two_tasks =
     start (snd (create_task 0x200 0x20001000 1024 8 0 0 0
       (snd (create_task 0x100 0x20000000 1024 0 0 0 0 (init reset_state)))))"

definition plain_env :: sched_env where
  "plain_env = \<lparr>env_allowed = (\<lambda>_. True), env_handler = (\<lambda>_ _ s. s), env_cycle = 0\<rparr>"

lemma plain_handlers_ok: "handlers_ok plain_env"
  by (simp add: handlers_ok_def plain_env_def)

lemma sched_view_start: "sched_view (start s) = sched_view s"
  by (simp add: start_def Let_def view_simps)

lemma start_fields:
  "started (start s)" "current_tcb (start s) = Some 0" "next_tcb (start s) = Some 0"
  "secx (start s) t = secx s t" "ipcx (start s) t = ipcx s t"
  "endpoints (start s) = endpoints s"
  by (simp_all add: start_def Let_def kernel_simps)

lemma first_task_free: "free_index (init reset_state) = Some 0"
  by (simp add: free_index_def init_def init_links_def reset_state_def upt_rec)

lemma second_task_free:
  "free_index (snd (create_task a b c d e f g (init reset_state))) = Some 1"
proof -
  have "sched_state (sched (init reset_state) i) = Unallocated" if "i < 16" for i
    using that by (simp add: init_def init_links_def)
  then show ?thesis
    by (simp add: free_index_def upt_rec create_task_fields(3) [OF first_task_free])
qed

lemma two_tasks_inv:
  "ready_inv ((\<lambda>_. [])(0 := [0], 8 := [1])) two_tasks"
proof -
  let ?s1 = "snd (create_task 0x100 0x20000000 1024 0 0 0 0 (init reset_state))"
  have "ready_inv ((\<lambda>_. [])(0 := [0])) ?s1"
    using create_task_inv [OF init_inv first_task_free, of 0] by simp
  from create_task_inv [OF this second_task_free, of 8]
  have "ready_inv ((\<lambda>_. [])(0 := [0], 8 := [1]))
     (snd (create_task 0x200 0x20001000 1024 8 0 0 0 ?s1))" by simp
  then show ?thesis unfolding two_tasks_def
    using ready_inv_view(1) [OF sched_view_start] by blast
qed

lemma two_tasks_facts:
  "task_count two_tasks = 2" "started two_tasks" "current_tcb two_tasks = Some 0"
  "next_tcb two_tasks = Some 0" "pending_signals (secx two_tasks 0) = 0"
  "pending_signals (secx two_tasks (Suc 0)) = 0"
  "current_priority (sched two_tasks 0) = 0" "current_priority (sched two_tasks (Suc 0)) = 8"
  "sched_state (sched two_tasks 0) = Ready" "sched_state (sched two_tasks (Suc 0)) = Ready"
proof -
  have "task_count (init reset_state) = 0" by (simp add: init_def)
  then show "task_count two_tasks = 2"
    using sched_view_eqD(7) [OF sched_view_start] unfolding two_tasks_def
    by (simp add: create_task_fields [OF second_task_free] create_task_fields [OF first_task_free])
  show "started two_tasks" "current_tcb two_tasks = Some 0" "next_tcb two_tasks = Some 0"
    by (simp_all add: two_tasks_def start_fields)
  show "pending_signals (secx two_tasks 0) = 0" "pending_signals (secx two_tasks (Suc 0)) = 0"
    by (simp_all add: two_tasks_def start_fields create_task_fields [OF second_task_free]
        create_task_fields [OF first_task_free] empty_tcb_def)
  note v = sched_view_eqD [OF sched_view_start]
  show "current_priority (sched two_tasks 0) = 0" "current_priority (sched two_tasks (Suc 0)) = 8"
    "sched_state (sched two_tasks 0) = Ready" "sched_state (sched two_tasks (Suc 0)) = Ready"
    unfolding two_tasks_def v
    by (simp_all add: create_task_fields [OF second_task_free] create_task_fields [OF first_task_free])
qed

lemma two_tasks_ok: "sched_ok two_tasks"
  using ready_inv_ok [OF two_tasks_inv] by (simp add: sched_ok_def two_tasks_facts)

lemma two_tasks_queue:
  "p < NUM_PRIORITIES \<Longrightarrow> queue_of two_tasks p = (if p = 8 then [1] else if p = 0 then [0] else [])"
  using ready_inv_queue_of [OF two_tasks_inv] by simp

lemma two_tasks_current:
  "current_task_id two_tasks = 0"
  "current_task_id (two_tasks\<lparr>current_tcb := Some (Suc 0)\<rparr>) = Suc 0"
  using ready_inv_facts(2) [OF two_tasks_inv, of 0] ready_inv_facts(2) [OF two_tasks_inv, of 1]
  by (simp_all add: current_task_id_def two_tasks_facts)

lemma two_tasks_ipc: "ipcx two_tasks 0 = ipc empty_tcb" "ipcx two_tasks (Suc 0) = ipc empty_tcb"
  "blocked_next (ipc empty_tcb) = None" "ipc_state (ipc empty_tcb) = IpcReady"
  "waiting_endpoint (ipc empty_tcb) = None"
  by (simp_all add: two_tasks_def start_fields create_task_fields [OF second_task_free]
      create_task_fields [OF first_task_free]) (simp_all add: empty_tcb_def)

end
