(* ===== verification/Scheduler_Props.thy ===== *)
theory Scheduler_Props
  imports Example_States
begin

text \<open>
  Properties of the scheduler: the invariant in every reachable state, the refinement of the
  linked queues by lists, the scheduling decision, signals and task creation.
\<close>

section \<open>Reachable states\<close>

text \<open>Every sequence of scheduler operations after \<open>init\<close>.\<close>

inductive kernel_reach :: "sched_env \<Rightarrow> kernel \<Rightarrow> bool" for env where
  boot: "current_tcb s = None \<Longrightarrow> next_tcb s = None \<Longrightarrow> kernel_reach env (init s)"
| create: "kernel_reach env s \<Longrightarrow> prio < NUM_PRIORITIES \<Longrightarrow>
    kernel_reach env (snd (create_task entry stk sz prio pw priv srd s))"
| release: "kernel_reach env s \<Longrightarrow> i < task_count s \<Longrightarrow> kernel_reach env (free_task (Some i) s)"
| set_state: "kernel_reach env s \<Longrightarrow> kernel_reach env (set_task_state i st s)"
| set_prio: "kernel_reach env s \<Longrightarrow> p < NUM_PRIORITIES \<Longrightarrow>
    kernel_reach env (set_task_priority i p s)"
| signal: "kernel_reach env s \<Longrightarrow> kernel_reach env (snd (send_signal i sig s))"
| drop: "kernel_reach env s \<Longrightarrow> kernel_reach env (drop_self_privilege s)"
| start: "kernel_reach env s \<Longrightarrow> 0 < task_count s \<Longrightarrow> kernel_reach env (start s)"
| sched: "kernel_reach env s \<Longrightarrow> schedule env s = Some s' \<Longrightarrow> kernel_reach env s'"
| sleep: "kernel_reach env s \<Longrightarrow> sleep_ms env ms s = Some s' \<Longrightarrow> kernel_reach env s'"
| pend_sv: "kernel_reach env s \<Longrightarrow> pend_sv psp s = Continues s' \<Longrightarrow> kernel_reach env s'"

lemma create_task_sched_ok:
  assumes "sched_ok s" "prio < NUM_PRIORITIES"
  shows "sched_ok (snd (create_task entry stk sz prio pw priv srd s))"
proof (cases "free_index s")
  case None
  then show ?thesis using assms by (simp add: create_task_def)
next
  case (Some i)
  have "ready_inv (queue_of s) s" using assms(1) by (simp add: sched_ok_def ready_ok_def)
  from ready_inv_ok [OF create_task_inv [OF this Some assms(2)]]
  have "ready_ok (snd (create_task entry stk sz prio pw priv srd s))" .
  then show ?thesis using assms(1)
    by (auto simp: sched_ok_def create_task_fields [OF Some] less_Suc_eq_le intro: less_imp_le less_le_trans)
qed

lemma free_task_sched_ok:
  assumes "sched_ok s" "i < task_count s"
  shows "sched_ok (free_task (Some i) s)"
proof -
  have "task_count (free_task (Some i) s) = task_count s" "current_tcb (free_task (Some i) s) = current_tcb s"
    "next_tcb (free_task (Some i) s) = next_tcb s"
    by (auto simp: free_task_def Let_def kernel_simps split: option.split)
  then show ?thesis using assms free_task_ok [of s i] by (simp add: sched_ok_def)
qed

lemma send_signal_sched_ok: "sched_ok s \<Longrightarrow> sched_ok (snd (send_signal i sig s))"
  by (simp add: send_signal_def Let_def sched_ok_set_state sched_ok_upd_sec)

lemma sleep_ms_sched_ok:
  assumes "handlers_ok env" "sched_ok s" "current_tcb s = Some c"
  shows "returns (sleep_ms env ms s) sched_ok"
proof -
  have "sched_ok (upd_sched c (\<lambda>r. r\<lparr>sleep_ticks := n\<rparr>) s)" for n
    using assms(2) sched_ok_view [of "upd_sched c (\<lambda>r. r\<lparr>sleep_ticks := n\<rparr>) s" s]
    by (simp add: view_simps kernel_simps)
  then show ?thesis using assms(3) schedule_ok [OF assms(1) sched_ok_set_state]
    by (simp add: sleep_ms_def Let_def)
qed

lemma pend_sv_sched_ok:
  assumes "sched_ok s" "pend_sv psp s = Continues s'"
  shows "sched_ok s'"
proof -
  from assms(2) obtain c n where cn: "current_tcb s = Some c" "next_tcb s = Some n"
    by (auto simp: pend_sv_def split: option.splits)
  have "sched_view s' = sched_view s" "current_tcb s' = Some n" "next_tcb s' = Some n"
    using assms(2) cn
    by (auto simp: pend_sv_def mpu_switch_sandbox_def Let_def view_simps kernel_simps
        split: if_splits halting.splits)
  then show ?thesis using assms(1) cn ready_inv_view(3) [of s' s] sched_view_eqD(7) [of s' s]
    by (auto simp: sched_ok_def)
qed

section \<open>Properties: queues\<close>

text \<open>
  C1: in every state the scheduler can reach from \<open>init\<close> by creating, releasing, signalling,
  re-prioritising, sleeping, scheduling and switching tasks in any order, the ready queues are
  well-formed rings that hold exactly the ready tasks of each priority, the bitmask marks the
  non-empty ones, and the task pointers point into the table; handlers that respect this are
  the only assumption. Timer ticks are not among the steps.
\<close>

theorem reachable_sched_ok:
  assumes "handlers_ok env" "kernel_reach env s"
  shows "sched_ok s"
  using assms(2)
proof induction
  case (boot s)
  then show ?case using ready_inv_ok [OF init_inv] by (simp add: sched_ok_def init_def)
next
  case (drop s)
  then show ?case
    using sched_ok_view [of "drop_self_privilege s" s]
    by (simp add: drop_self_privilege_def Let_def view_simps kernel_simps)
next
  case (start s)
  then show ?case using ready_inv_view(3) [OF sched_view_start, of s] sched_view_eqD(7) [OF sched_view_start, of s]
    by (simp add: sched_ok_def start_fields)
next
  case (sched s s')
  from schedule_ok [OF assms(1) sched.IH] sched.hyps(2) show ?case by simp
next
  case (sleep s ms s')
  then obtain c where "current_tcb s = Some c" by (auto simp: sleep_ms_def split: option.splits)
  from sleep_ms_sched_ok [OF assms(1) sleep.IH this, of ms] sleep.hyps(2) show ?case by simp
qed (auto intro: create_task_sched_ok free_task_sched_ok sched_ok_set_state sched_ok_set_priority
    send_signal_sched_ok pend_sv_sched_ok)

theorem reachable_sched_ok_witness: "handlers_ok plain_env \<and> sched_ok two_tasks"
proof -
  have "kernel_reach plain_env (init reset_state)" by (rule boot) (simp_all add: reset_state_def)
  then have r: "kernel_reach plain_env (snd (create_task 0x200 0x20001000 1024 8 0 0 0
      (snd (create_task 0x100 0x20000000 1024 0 0 0 0 (init reset_state)))))"
    by (intro create) simp_all
  then have "kernel_reach plain_env two_tasks"
    unfolding two_tasks_def
    by (rule kernel_reach.start) (simp add: create_task_fields [OF second_task_free])
  from reachable_sched_ok [OF plain_handlers_ok this] show ?thesis using plain_handlers_ok by simp
qed

text \<open>
  C24: the linked queues implement lists. A state change takes the task out of its level or
  appends it to its level, a priority change of a ready task moves it to the end of the new
  level, a call that changes nothing leaves every level alone, and both operations return a
  well-formed state.
\<close>

theorem queue_operations_refine_lists:
  assumes "ready_ok s" "i < task_count s" "new < NUM_PRIORITIES" "p < NUM_PRIORITIES"
  shows "queue_of (set_task_state i st s) p =
      q_state i (current_priority (sched s i)) (sched_state (sched s i)) st (queue_of s) p
    \<and> queue_of (set_task_priority i new s) p =
      q_prio i (current_priority (sched s i)) new (sched_state (sched s i) = Ready) (queue_of s) p
    \<and> ready_ok (set_task_state i st s) \<and> ready_ok (set_task_priority i new s)"
proof -
  have inv: "ready_inv (queue_of s) s" using assms(1) by (simp add: ready_ok_def)
  note a = set_task_state_inv [OF inv assms(2), of st] and b = set_task_priority_inv [OF inv assms(2,3)]
  show ?thesis
    using ready_inv_queue_of [OF a assms(4)] ready_inv_queue_of [OF b assms(4)]
      ready_inv_ok [OF a] ready_inv_ok [OF b] by simp
qed

theorem queue_operations_refine_lists_witness:
  "queue_of (set_task_state 1 Sleeping two_tasks) 8 = [] \<and>
   queue_of (set_task_priority 1 0 two_tasks) 0 = [0, 1]"
  using queue_operations_refine_lists [of two_tasks 1 0 8 Sleeping]
    queue_operations_refine_lists [of two_tasks 1 0 0 Sleeping] two_tasks_ok
  by (simp add: sched_ok_def two_tasks_facts two_tasks_queue q_state_def q_prio_def)

text \<open>
  C25: creating a task uses the lowest unallocated slot, fails exactly when every slot is taken,
  leaves every other task's control block unchanged but for queue links, and puts the new task at the end of the
  queue of its priority.
\<close>

theorem create_task_spec:
  assumes ok: "ready_ok s" and prio: "prio < NUM_PRIORITIES"
  shows "case create_task entry stk sz prio pw priv srd s of (r, s') \<Rightarrow>
    (r = None \<longleftrightarrow> (\<forall>i < MAX_TASKS. sched_state (sched s i) \<noteq> Unallocated)) \<and>
    (case r of None \<Rightarrow> s' = s
     | Some i \<Rightarrow> i < task_count s' \<and> sched_state (sched s i) = Unallocated
         \<and> (\<forall>j < i. sched_state (sched s j) \<noteq> Unallocated)
         \<and> queue_of s' prio = queue_of s prio @ [i] \<and> ready_ok s'
         \<and> (\<forall>t. t \<noteq> i \<longrightarrow> same_but_links (tasks s t) (tasks s' t)))"
proof (cases "free_index s")
  case None
  then have "create_task entry stk sz prio pw priv srd s = (None, s)" by (simp add: create_task_def)
  then show ?thesis using None by (simp add: free_index_None)
next
  case (Some i)
  have inv: "ready_inv (queue_of s) s" using ok by (simp add: ready_ok_def)
  note c = create_task_inv [OF inv Some prio, of entry stk sz pw priv srd]
    and f = create_task_fields [OF Some, of entry stk sz prio pw priv srd]
    and o = create_task_others [OF Some, of _ entry stk sz prio pw priv srd]
  obtain s' where s': "create_task entry stk sz prio pw priv srd s = (Some i, s')"
    using f(1) by (metis prod.collapse)
  have "sched_state (sched s i) = Unallocated" "\<forall>j < i. sched_state (sched s j) \<noteq> Unallocated"
    "i < MAX_TASKS" using Some by (auto simp: free_index_def find_Some_iff)
  moreover have "i < task_count s'" using f(2) by (simp add: s')
  moreover have "queue_of s' prio = queue_of s prio @ [i]" "ready_ok s'"
    using ready_inv_queue_of [OF c prio] ready_inv_ok [OF c] by (simp_all add: s')
  ultimately show ?thesis using o unfolding s' by auto
qed

theorem create_task_spec_witness:
  "queue_of (snd (create_task 0x100 0 0 8 0 0 0 (init reset_state))) 8 = [0]"
proof -
  have ok: "ready_ok (init reset_state)" "queue_of (init reset_state) 8 = []"
    using ready_inv_ok [OF init_inv] ready_inv_queue_of [OF init_inv] by simp_all
  then show ?thesis
    using create_task_spec [of "init reset_state" 8 "0x100" 0 0 0 0 0]
      create_task_fields(1) [OF first_task_free, where entry = "0x100" and stk = 0 and sz = 0
        and prio = 8 and pw = 0 and priv = 0 and srd = 0]
    by (simp add: case_prod_beta)
qed

text \<open>
  a task created with a stack aligned to a region of 32 bytes to 128 KB carries a sealed
  sandbox descriptor, so that the context switch into it never trips the descriptor check: the
  switch completes, the task becomes current and the privilege bit is its own.
\<close>

theorem created_task_switch_never_stalls:
  assumes slot: "free_index s = Some n" and pw: "5 \<le> pw" "pw \<le> 17"
    and aligned: "stk AND (bit_of (unat pw) - 1) = 0"
    and cur: "current_tcb s = Some c"
  shows "\<exists>s''. pend_sv psp ((snd (create_task entry stk sz prio pw priv srd s))\<lparr>next_tcb := Some n\<rparr>)
        = Continues s''
     \<and> current_tcb s'' = Some n \<and> SetPrivilege (priv AND 1) \<in> set (events s'')
     \<and> fst (reg_pairs (mpu s'') 7) = stk AND NOT 0x1F"
proof -
  define t where "t = snd (create_task entry stk sz prio pw priv srd s)"
  let ?m = "memory (new_tcb n entry stk sz prio pw priv srd)"
  have m: "memory (tasks t n) = ?m" "current_tcb t = Some c" "privilege (task (tasks t n)) = priv"
    using create_task_fields [OF slot] cur by (simp_all add: t_def)
  have u: "memory (tasks (upd_task c (\<lambda>r. r\<lparr>stack_ptr := w\<rparr>) r) n) = memory (tasks r n)"
    "privilege (task (tasks (upd_task c (\<lambda>r. r\<lparr>stack_ptr := w\<rparr>) r) n)) = privilege (task (tasks r n))"
    for w r by (simp_all add: kernel_simps)
  have "0 < pw" using pw(1) by (simp add: word_less_nat_alt word_le_nat_alt)
  then have "0 < mem_size_pow2 ?m" "update_user_sandbox_verified (mpu_sandbox ?m) r =
      Continues (update_user_sandbox stk pw (mem_subregion_disable ?m) r)" for r
    using pw aligned
    by (auto simp: new_tcb_def Let_def update_user_sandbox_verified_def update_user_sandbox_def)
  then show ?thesis
    using m unfolding t_def [symmetric]
    by (simp add: pend_sv_def mpu_switch_sandbox_def Let_def u log_event_frame update_user_sandbox_def
        mpu_configure_region_def)
qed

theorem created_task_switch_never_stalls_witness:
  "\<exists>s''. pend_sv 0x20002000 ((snd (create_task 0x300 0x20004000 1024 8 12 1 0
        ((init reset_state)\<lparr>current_tcb := Some 0\<rparr>)))\<lparr>next_tcb := Some 0\<rparr>) = Continues s''"
proof -
  have "free_index ((init reset_state)\<lparr>current_tcb := Some 0\<rparr>) = Some 0"
    using first_task_free by (simp add: free_index_def)
  from created_task_switch_never_stalls
    [OF this, where pw = 12 and stk = "0x20004000" and c = 0 and psp = "0x20002000"
       and entry = "0x300" and sz = 1024 and prio = 8 and priv = 1 and srd = 0]
  show ?thesis by auto
qed

section \<open>Properties: the scheduling decision\<close>

lemma q_rotate_hd:
  assumes inv: "ready_inv Q s" and p: "p < NUM_PRIORITIES" and t: "t \<in> set (Q p)" "t \<noteq> cur"
    and lt: "cur < task_count s"
  shows "hd (q_rotate cur (current_priority (sched s cur)) Q p) \<in> set (Q p)"
    "hd (q_rotate cur (current_priority (sched s cur)) Q p) \<noteq> cur"
proof -
  let ?pc = "current_priority (sched s cur)"
  have d: "distinct (Q p)" using inv p by (simp add: ready_inv_def queues_def queue_wf_def)
  have ne: "Q p \<noteq> []" using t by auto
  have "hd (q_rotate cur ?pc Q p) \<in> set (Q p) \<and> hd (q_rotate cur ?pc Q p) \<noteq> cur"
  proof (cases "p = ?pc \<and> hd (Q p) = cur")
    case True
    then obtain ys where Q: "Q p = cur # ys" using ne by (cases "Q p") auto
    with t have ys: "ys \<noteq> []" by auto
    then have "q_rotate cur ?pc Q p = ys @ [cur]" using True Q by (simp add: q_rotate_def)
    moreover have "hd ys \<in> set ys" using ys by simp
    ultimately show ?thesis using Q d ys by auto
  next
    case False
    then have "q_rotate cur ?pc Q p = Q p" by (auto simp: q_rotate_def)
    moreover have "hd (Q p) \<noteq> cur"
      using False inv p hd_in_set [OF ne] by (auto simp: ready_inv_iff)
    ultimately show ?thesis using ne by simp
  qed
  then show "hd (q_rotate cur ?pc Q p) \<in> set (Q p)" "hd (q_rotate cur ?pc Q p) \<noteq> cur" by auto
qed

lemma q_rotate_Nil [simp]: "q_rotate cur p Q q = [] \<longleftrightarrow> Q q = []"
  by (auto simp: q_rotate_def)

lemma q_rotate_set [simp]: "set (q_rotate cur p Q q) = set (Q q)"
  by (simp add: q_rotate_def)

lemma schedule_names:
  assumes "sched_ok s" "started s" "1 < task_count s"
    and "pending_signals (secx s (current_task_id s)) = 0"
    and "abs_pick (env_allowed env) (current_task_id s) (sched_state (sched s (current_task_id s)) = Ready)
      (q_rotate (current_task_id s) (current_priority (sched s (current_task_id s))) (queue_of s)) = n"
    and "n \<noteq> current_task_id s"
  shows "\<exists>s'. schedule env s = Some s' \<and> next_tcb s' = Some n"
proof (rule schedule_quiet [OF assms(1-4), of env])
  fix s' assume "schedule env s = Some s'"
    "next_tcb s' = (if abs_pick (env_allowed env) (current_task_id s)
        (sched_state (sched s (current_task_id s)) = Ready)
        (q_rotate (current_task_id s) (current_priority (sched s (current_task_id s))) (queue_of s)) =
        current_task_id s then next_tcb s else Some (abs_pick (env_allowed env) (current_task_id s)
        (sched_state (sched s (current_task_id s)) = Ready)
        (q_rotate (current_task_id s) (current_priority (sched s (current_task_id s))) (queue_of s))))"
  with assms(5,6) show ?thesis by simp
qed

lemma levels_above_empty:
  assumes inv: "ready_inv Q s"
    and top: "\<forall>u < task_count s. sched_state (sched s u) = Ready \<and> ok (current_priority (sched s u))
      \<longrightarrow> current_priority (sched s u) \<le> p"
    and q: "p < q" "q < NUM_PRIORITIES"
  shows "Q q = [] \<or> \<not> ok q"
proof (rule ccontr)
  assume "\<not> (Q q = [] \<or> \<not> ok q)"
  then have "Q q \<noteq> []" "ok q" by auto
  with head_of_level [OF inv q(2)] top have "q \<le> p" by metis
  with q(1) show False by simp
qed

lemma two_tasks_top: "top_level (\<lambda>_. True) (q_rotate cur p (queue_of two_tasks)) = Some 8"
  unfolding top_level_Some by (simp add: two_tasks_queue)

lemma two_tasks_pick:
  "abs_pick (\<lambda>_. True) 0 True (q_rotate 0 0 (queue_of two_tasks)) = 1"
proof -
  have "q_rotate 0 0 (queue_of two_tasks) 8 = [1]" by (simp add: q_rotate_def two_tasks_queue)
  then show ?thesis by (simp add: abs_pick_def two_tasks_top Let_def)
qed

text \<open>
  C11: the code's choice is the choice of the abstract scheduler on lists. With no signal
  pending for the running task, \<open>schedule\<close> always returns, and requests a switch exactly
  when the list scheduler, applied to the queues after time-slice rotation, names another task.
\<close>

theorem schedule_refines_list_scheduler:
  assumes "sched_ok s" "started s" "1 < task_count s"
    and "pending_signals (secx s (current_task_id s)) = 0"
  shows "\<exists>s'. schedule env s = Some s' \<and> sched_ok s' \<and> current_tcb s' = current_tcb s \<and>
     next_tcb s' =
       (let cur = current_task_id s;
            n = abs_pick (env_allowed env) cur (sched_state (sched s cur) = Ready)
                  (q_rotate cur (current_priority (sched s cur)) (queue_of s))
        in if n = cur then next_tcb s else Some n)"
  by (rule schedule_quiet [OF assms, of env]) (auto simp: Let_def)

theorem schedule_refines_list_scheduler_witness:
  "\<exists>s'. schedule plain_env two_tasks = Some s' \<and> next_tcb s' = Some 1"
  using schedule_refines_list_scheduler [OF two_tasks_ok, of plain_env] two_tasks_pick
  by (auto simp: two_tasks_current two_tasks_facts Let_def plain_env_def)

text \<open>
  C23: when no signal is pending for the running task, a ready task other than the running one that has the highest admissible priority is
  enough for \<open>schedule\<close> to switch: it returns, and the task it names is ready, is not the
  running one, and has that highest priority.
\<close>

theorem schedule_runs_highest_priority:
  assumes ok: "sched_ok s" "started s" "1 < task_count s"
    "pending_signals (secx s (current_task_id s)) = 0"
    and t: "t < task_count s" "t \<noteq> current_task_id s" "sched_state (sched s t) = Ready"
      "env_allowed env (current_priority (sched s t))"
    and top: "\<forall>u < task_count s. sched_state (sched s u) = Ready
      \<and> env_allowed env (current_priority (sched s u))
      \<longrightarrow> current_priority (sched s u) \<le> current_priority (sched s t)"
  shows "\<exists>s' n. schedule env s = Some s' \<and> next_tcb s' = Some n \<and> n \<noteq> current_task_id s
     \<and> n < task_count s \<and> sched_state (sched s n) = Ready
     \<and> current_priority (sched s n) = current_priority (sched s t)"
proof -
  let ?cur = "current_task_id s" and ?p = "current_priority (sched s t)"
  let ?Q = "q_rotate ?cur (current_priority (sched s ?cur)) (queue_of s)"
  have inv: "ready_inv (queue_of s) s" using ok(1) by (simp add: sched_ok_def ready_ok_def)
  have lt: "?cur < task_count s" using current_task_id_lt [OF ok(1)] ok(3) by simp
  have p: "?p < NUM_PRIORITIES" by (rule ready_inv_facts(3) [OF inv t(1)])
  have m: "t \<in> set (queue_of s ?p)" using ready_inv_facts(6) [OF inv t(1) p] t(3) by simp
  have h: "hd (?Q ?p) \<in> set (queue_of s ?p)" "hd (?Q ?p) \<noteq> ?cur"
    using q_rotate_hd [OF inv p m t(2) lt] by simp_all
  have above: "?Q q = [] \<or> \<not> env_allowed env q" if "?p < q" "q < NUM_PRIORITIES" for q
    using levels_above_empty [OF inv top that] by simp
  have "top_level (env_allowed env) ?Q = Some ?p"
    unfolding top_level_Some using p m t(4) above by auto
  then have "abs_pick (env_allowed env) ?cur r ?Q = hd (?Q ?p)" for r
    using h(2) by (simp add: abs_pick_def Let_def)
  from schedule_names [OF ok this h(2)] obtain s' where
    "schedule env s = Some s'" "next_tcb s' = Some (hd (?Q ?p))" by blast
  moreover have "hd (?Q ?p) < task_count s \<and> sched_state (sched s (hd (?Q ?p))) = Ready
      \<and> current_priority (sched s (hd (?Q ?p))) = ?p"
    using inv p h(1) by (simp add: ready_inv_iff)
  ultimately show ?thesis using h(2) by blast
qed

theorem schedule_runs_highest_priority_witness:
  "\<exists>s' n. schedule plain_env two_tasks = Some s' \<and> next_tcb s' = Some n \<and> n \<noteq> 0
     \<and> current_priority (sched two_tasks n) = 8"
proof -
  have "\<forall>u < task_count two_tasks. sched_state (sched two_tasks u) = Ready
      \<and> env_allowed plain_env (current_priority (sched two_tasks u))
      \<longrightarrow> current_priority (sched two_tasks u) \<le> current_priority (sched two_tasks 1)"
    by (auto simp: two_tasks_facts less_Suc_eq numeral_2_eq_2)
  from schedule_runs_highest_priority [OF two_tasks_ok _ _ _ _ _ _ _ this]
  show ?thesis by (auto simp: two_tasks_facts two_tasks_current plain_env_def)
qed

text \<open>
  C33: a running task that alone has the highest admissible priority is nevertheless switched
  out whenever an idle-priority task is ready: its level's head is the task itself, the code
  takes that for the case that nothing was admissible, and names the idle task.
\<close>

theorem schedule_preempts_sole_highest_for_idle:
  assumes ok: "sched_ok s" "started s" "1 < task_count s"
    "pending_signals (secx s (current_task_id s)) = 0"
    and cur: "sched_state (sched s (current_task_id s)) = Ready"
      "env_allowed env (current_priority (sched s (current_task_id s)))"
      "0 < current_priority (sched s (current_task_id s))"
    and sole: "\<forall>u < task_count s. u \<noteq> current_task_id s \<and> sched_state (sched s u) = Ready
      \<and> env_allowed env (current_priority (sched s u))
      \<longrightarrow> current_priority (sched s u) < current_priority (sched s (current_task_id s))"
    and idle: "i < task_count s" "sched_state (sched s i) = Ready" "current_priority (sched s i) = 0"
  shows "\<exists>s' n. schedule env s = Some s' \<and> next_tcb s' = Some n \<and> n \<noteq> current_task_id s
     \<and> current_priority (sched s n) = 0"
proof -
  let ?cur = "current_task_id s"
  let ?p = "current_priority (sched s ?cur)"
  let ?Q = "q_rotate ?cur ?p (queue_of s)"
  have inv: "ready_inv (queue_of s) s" using ok(1) by (simp add: sched_ok_def ready_ok_def)
  have lt: "?cur < task_count s" using current_task_id_lt [OF ok(1)] ok(3) by simp
  have p: "?p < NUM_PRIORITIES" by (rule ready_inv_facts(3) [OF inv lt])
  have m: "?cur \<in> set (queue_of s ?p)" using ready_inv_facts(6) [OF inv lt p] cur(1) by simp
  have "\<forall>u < task_count s. sched_state (sched s u) = Ready \<and> env_allowed env (current_priority (sched s u))
      \<longrightarrow> current_priority (sched s u) \<le> ?p" using sole by (metis less_imp_le order_refl)
  then have above: "?Q q = [] \<or> \<not> env_allowed env q" if "?p < q" "q < NUM_PRIORITIES" for q
    using levels_above_empty [OF inv _ that] by simp
  have "queue_of s ?p \<noteq> []" using m by auto
  then have top: "top_level (env_allowed env) ?Q = Some ?p"
    unfolding top_level_Some using p cur(2) above by auto
  have "x = ?cur" if "x \<in> set (?Q ?p)" for x
    using that inv p cur(2) sole by (auto simp: ready_inv_iff)
  moreover have "hd (?Q ?p) \<in> set (?Q ?p)" using m by (intro hd_in_set) auto
  ultimately have self: "hd (?Q ?p) = ?cur" by blast
  have "i \<in> set (queue_of s 0)" using ready_inv_facts(6) [OF inv idle(1), of 0] idle by simp
  then have "queue_of s 0 \<noteq> []" by auto
  note q0 = this hd_in_set [OF this]
  have Q0: "?Q 0 = queue_of s 0" using cur(3) by (simp add: q_rotate_def)
  have z: "current_priority (sched s (hd (queue_of s 0))) = 0" using inv q0(2) by (simp add: ready_inv_iff)
  then have ne: "hd (queue_of s 0) \<noteq> ?cur" using cur(3) by auto
  have "abs_pick (env_allowed env) ?cur r ?Q = hd (queue_of s 0)" for r
    using top self Q0 q0 ne by (simp add: abs_pick_def Let_def)
  from schedule_names [OF ok this ne] obtain s' where
    "schedule env s = Some s'" "next_tcb s' = Some (hd (queue_of s 0))" by blast
  then show ?thesis using ne z by blast
qed

theorem schedule_preempts_sole_highest_for_idle_witness:
  "\<exists>s' n. schedule plain_env (two_tasks\<lparr>current_tcb := Some 1\<rparr>) = Some s' \<and> next_tcb s' = Some n
     \<and> current_priority (sched two_tasks n) = 0"
proof -
  let ?s = "two_tasks\<lparr>current_tcb := Some 1\<rparr>"
  have ok: "sched_ok ?s"
    using two_tasks_ok ready_inv_view(3) [of ?s two_tasks] by (simp add: sched_ok_def view_simps two_tasks_facts)
  have "\<forall>u < task_count ?s. u \<noteq> current_task_id ?s \<and> sched_state (sched ?s u) = Ready
      \<and> env_allowed plain_env (current_priority (sched ?s u))
      \<longrightarrow> current_priority (sched ?s u) < current_priority (sched ?s (current_task_id ?s))"
    by (auto simp: two_tasks_current two_tasks_facts less_Suc_eq numeral_2_eq_2)
  from schedule_preempts_sole_highest_for_idle [OF ok _ _ _ _ _ _ this, of 0]
  show ?thesis by (auto simp: two_tasks_facts two_tasks_current plain_env_def)
qed

text \<open>
  \<open>schedule\<close> never leaves the processor on a task that cannot run while some task can:
  if any task is ready, the task that runs next, named or kept, is ready, also when the frame
  filter rejects every level and when the running task has just blocked or terminated.
\<close>

theorem schedule_target_is_ready:
  assumes ok: "sched_ok s" "started s" "1 < task_count s"
    "pending_signals (secx s (current_task_id s)) = 0"
    and some: "t < task_count s" "sched_state (sched s t) = Ready"
  shows "\<exists>s' n. schedule env s = Some s' \<and> n < task_count s \<and> sched_state (sched s n) = Ready
     \<and> next_tcb s' = (if n = current_task_id s then next_tcb s else Some n)"
proof -
  let ?cur = "current_task_id s"
  let ?Q = "q_rotate ?cur (current_priority (sched s ?cur)) (queue_of s)"
  let ?n = "abs_pick (env_allowed env) ?cur (sched_state (sched s ?cur) = Ready) ?Q"
  have inv: "ready_inv (queue_of s) s" using ok(1) by (simp add: sched_ok_def ready_ok_def)
  have mem: "x < task_count s \<and> sched_state (sched s x) = Ready"
    if "x \<in> set (?Q p)" "p < NUM_PRIORITIES" for x p using inv that by (simp add: ready_inv_iff)
  have lvl: "hd (?Q p) < task_count s \<and> sched_state (sched s (hd (?Q p))) = Ready"
    if "top_level g ?Q = Some p" for g p
    using that mem [OF hd_in_set] by (simp add: top_level_Some)
  have lvl0: "hd (?Q 0) < task_count s \<and> sched_state (sched s (hd (?Q 0))) = Ready" if "?Q 0 \<noteq> []"
    using mem [OF hd_in_set [OF that]] by simp
  have "t \<in> set (?Q (current_priority (sched s t)))" "current_priority (sched s t) < NUM_PRIORITIES"
    using ready_inv_facts [OF inv some(1)] some by auto
  then have ne: "top_level (\<lambda>_. True) ?Q \<noteq> None" unfolding top_level_None by force
  have lt: "?cur < task_count s" using current_task_id_lt [OF ok(1)] ok(3) by simp
  have "?n < task_count s \<and> sched_state (sched s ?n) = Ready"
    using lvl [of "env_allowed env"] lvl [of "\<lambda>_. True"] lvl0 ne lt
    by (auto simp: abs_pick_def Let_def split: option.split if_split)
  then show ?thesis by (rule_tac schedule_quiet [OF ok, of env]) blast
qed

theorem schedule_target_is_ready_witness:
  "\<exists>s' n. schedule \<lparr>env_allowed = (\<lambda>_. False), env_handler = (\<lambda>_ _ s. s), env_cycle = 0\<rparr> two_tasks = Some s'
     \<and> sched_state (sched two_tasks n) = Ready \<and> n < 2"
  using schedule_target_is_ready [OF two_tasks_ok, of 0
      "\<lparr>env_allowed = (\<lambda>_. False), env_handler = (\<lambda>_ _ s. s), env_cycle = 0\<rparr>"]
  by (auto simp: two_tasks_facts two_tasks_current)

section \<open>Properties: signals\<close>

lemma set_task_state_state:
  "i < task_count s \<Longrightarrow> i < MAX_TASKS \<Longrightarrow> sched_state (sched (set_task_state i st s) i) = st"
  by (auto simp: set_task_state_def Let_def kernel_simps)

lemma dispatch_loop_sigkill:
  assumes h: "handlers_ok env" and kill: "SIGKILL \<in> set sigs" "bit pend SIGKILL"
    and s: "sched_ok s" "t < task_count s"
  shows "sched_state (sched (dispatch_loop env t pend sigs s) t) = Terminated"
  using kill(1) s
proof (induction sigs arbitrary: s)
  case (Cons sig sigs)
  show ?case
  proof (cases "sig = SIGKILL")
    case True
    have "task_id (sched s t) = t" "t < MAX_TASKS"
      using ready_inv_facts [of "queue_of s" s t] Cons.prems by (auto simp: sched_ok_def ready_ok_def)
    moreover have "pend AND bit_of SIGKILL \<noteq> 0" using kill(2) by (simp only: and_bit_of_eq_0 not_not)
    ultimately show ?thesis using True Cons.prems
      by (simp add: set_task_state_state del: push_bit_of_1 SIGKILL_def)
  next
    case False
    then have m: "SIGKILL \<in> set sigs" using Cons.prems by auto
    have u: "sched_ok (upd_sec t f s)" "t < task_count (upd_sec t f s)" for f
      using Cons.prems by (simp_all add: sched_ok_upd_sec kernel_simps)
    have r: "sched_ok (run_handler env t sig s)" "t < task_count (run_handler env t sig s)"
      using run_handler_ok [OF h, of s t sig] Cons.prems by auto
    show ?thesis using Cons.IH [OF m Cons.prems(2,3)] Cons.IH [OF m u] Cons.IH [OF m r] False
      by (simp del: push_bit_of_1)
  qed
qed simp

text \<open>
  C26: \<open>SIGKILL\<close> cannot be blocked, ignored or handled: whatever the task's mask and handlers,
  once it is pending the next dispatch for that task leaves it terminated and out of every
  ready queue.
\<close>

theorem sigkill_terminates:
  assumes "handlers_ok env" "sched_ok s" "t < task_count s"
    and "bit (pending_signals (secx s t)) SIGKILL"
  shows "sched_state (sched (dispatch_signals env (Some t) s) t) = Terminated
    \<and> (\<forall>p < NUM_PRIORITIES. t \<notin> set (queue_of (dispatch_signals env (Some t) s) p))"
proof -
  let ?s = "upd_sec t (\<lambda>r. r\<lparr>pending_signals := 0\<rparr>) s"
  let ?r = "dispatch_signals env (Some t) s"
  have "pending_signals (secx s t) \<noteq> 0" using assms(4) by auto
  moreover have "bit (actionable (secx s t)) SIGKILL"
    using assms(4) unfolding actionable_def bit_or_iff bit_and_iff bit_bit_of by simp
  then have "actionable (secx s t) \<noteq> 0" by (auto simp del: SIGKILL_def)
  ultimately have "?r = dispatch_loop env t (pending_signals (secx s t)) [1..<NUM_SIG_ACTIONS] ?s"
    by (simp add: dispatch_signals_def)
  moreover have "SIGKILL \<in> set [1..<NUM_SIG_ACTIONS]" by simp
  ultimately have k: "sched_state (sched ?r t) = Terminated"
    using dispatch_loop_sigkill [OF assms(1) _ assms(4), of "[1..<NUM_SIG_ACTIONS]" ?s t] assms(2,3)
    by (simp add: sched_ok_upd_sec kernel_simps del: upt_rec)
  moreover have "ready_inv (queue_of ?r) ?r"
    using dispatch_signals_ok [OF assms(1,2), of "Some t"] by (simp add: sched_ok_def ready_ok_def)
  ultimately show ?thesis by (auto simp: ready_inv_iff)
qed

theorem sigkill_terminates_witness:
  "sched_state (sched (dispatch_signals plain_env (Some 1)
     (upd_sec 1 (\<lambda>r. r\<lparr>pending_signals := 0x200, signal_mask := 0xFFFFFFFF\<rparr>) two_tasks)) 1) = Terminated"
proof -
  let ?s = "upd_sec 1 (\<lambda>r. r\<lparr>pending_signals := 0x200, signal_mask := 0xFFFFFFFF\<rparr>) two_tasks"
  have "bit (0x200::u32) 9" by (simp add: bit_numeral_rec)
  then have "bit (pending_signals (secx ?s 1)) SIGKILL" by (simp add: kernel_simps)
  moreover have "sched_ok ?s" "1 < task_count ?s"
    using two_tasks_ok by (simp_all add: sched_ok_upd_sec kernel_simps two_tasks_facts)
  ultimately show ?thesis using sigkill_terminates [OF plain_handlers_ok, of ?s 1] by simp
qed

text \<open>What a handler run does to the task's signal words when the handler leaves them alone.\<close>

lemma run_handler_words:
  assumes "\<And>a n s. secx (env_handler env a n s) t = secx s t"
  shows "pending_signals (secx (run_handler env t sig s) t) = pending_signals (secx s t)"
    "signal_mask (secx (run_handler env t sig s) t) = signal_mask (secx s t)"
  using assms by (simp_all add: run_handler_def Let_def kernel_simps del: push_bit_of_1)

lemma dispatch_loop_words:
  assumes keep: "\<And>a n s. secx (env_handler env a n s) t = secx s t"
    and kill: "\<not> bit pend SIGKILL"
  shows "(bit (pending_signals (secx (dispatch_loop env t pend sigs s) t)) k \<longleftrightarrow>
       bit (pending_signals (secx s t)) k
       \<or> (k < 32 \<and> k \<in> set sigs \<and> bit pend k \<and> bit (signal_mask (secx s t)) k))
    \<and> signal_mask (secx (dispatch_loop env t pend sigs s) t) = signal_mask (secx s t)"
proof (induction sigs arbitrary: s)
  case (Cons sig sigs)
  let ?u = "upd_sec t (\<lambda>r. r\<lparr>pending_signals := pending_signals r OR bit_of sig\<rparr>) s"
  have u: "pending_signals (secx ?u t) = pending_signals (secx s t) OR bit_of sig"
    "signal_mask (secx ?u t) = signal_mask (secx s t)" by (simp_all add: kernel_simps del: push_bit_of_1)
  consider "\<not> bit pend sig" | "bit pend sig" "bit (signal_mask (secx s t)) sig" "sig \<noteq> SIGKILL"
    | "bit pend sig" "\<not> bit (signal_mask (secx s t)) sig" "sig \<noteq> SIGKILL"
    using kill by metis
  then show ?case
  proof cases
    case 1
    then have "dispatch_loop env t pend (sig # sigs) s = dispatch_loop env t pend sigs s"
      by (simp add: and_bit_of_eq_0 del: push_bit_of_1)
    with Cons.IH [of s] 1 show ?thesis by auto
  next
    case 2
    then have e: "dispatch_loop env t pend (sig # sigs) s = dispatch_loop env t pend sigs ?u"
      by (simp add: and_bit_of_eq_0 del: push_bit_of_1)
    have "sig < 32" using 2(1) u32_bit_lt by blast
    then show ?thesis unfolding e using Cons.IH [of ?u] 2 unfolding u bit_or_bit_of by auto
  next
    case 3
    then have e: "dispatch_loop env t pend (sig # sigs) s =
        dispatch_loop env t pend sigs (run_handler env t sig s)"
      by (simp add: and_bit_of_eq_0 del: push_bit_of_1)
    show ?thesis unfolding e using Cons.IH [of "run_handler env t sig s"] 3
      unfolding run_handler_words [OF keep] by auto
  qed
qed simp

text \<open>
  what dispatching leaves pending. When something can be delivered and \<open>SIGKILL\<close> is not
  pending, exactly the blocked signals numbered 1 to 15 stay pending and the mask is restored;
  a signal numbered 16 to 31, which \<open>send_signal\<close> accepts, is gone without having been
  handled, blocked or not.
\<close>

theorem dispatch_signals_pending:
  assumes keep: "\<And>a n s. secx (env_handler env a n s) t = secx s t"
    and "\<not> bit (pending_signals (secx s t)) SIGKILL" "actionable (secx s t) \<noteq> 0"
  shows "(bit (pending_signals (secx (dispatch_signals env (Some t) s) t)) k \<longleftrightarrow>
       0 < k \<and> k < NUM_SIG_ACTIONS \<and> bit (pending_signals (secx s t)) k
       \<and> bit (signal_mask (secx s t)) k)
    \<and> signal_mask (secx (dispatch_signals env (Some t) s) t) = signal_mask (secx s t)"
proof -
  let ?s = "upd_sec t (\<lambda>r. r\<lparr>pending_signals := 0\<rparr>) s"
  have "pending_signals (secx s t) \<noteq> 0" using assms(3) by (auto simp: actionable_def)
  then have e: "dispatch_signals env (Some t) s =
      dispatch_loop env t (pending_signals (secx s t)) [1..<NUM_SIG_ACTIONS] ?s"
    using assms(3) by (simp add: dispatch_signals_def)
  have z: "pending_signals (secx ?s t) = 0" "signal_mask (secx ?s t) = signal_mask (secx s t)"
    by (simp_all add: kernel_simps)
  show ?thesis unfolding e
    using dispatch_loop_words [OF keep assms(2), of "[1..<NUM_SIG_ACTIONS]" ?s k] unfolding z by auto
qed

theorem dispatch_signals_pending_witness:
  "\<not> bit (pending_signals (secx (dispatch_signals plain_env (Some 1)
     (upd_sec 1 (\<lambda>r. r\<lparr>pending_signals := 0x20002, signal_mask := 0x20000\<rparr>) two_tasks)) 1)) 17"
proof -
  let ?s = "upd_sec 1 (\<lambda>r. r\<lparr>pending_signals := 0x20002, signal_mask := 0x20000\<rparr>) two_tasks"
  have "\<not> bit (pending_signals (secx ?s 1)) SIGKILL"
    by (simp add: kernel_simps bit_numeral_rec)
  moreover have "actionable (secx ?s 1) \<noteq> 0"
    by (simp add: kernel_simps actionable_def)
  ultimately show ?thesis
    using dispatch_signals_pending [of plain_env 1 ?s 17] by (simp add: plain_env_def)
qed

end
