(* ===== verification/Wait_Queue.thy ===== *)
theory Wait_Queue
  imports Example_States
begin

text \<open>
  The wait queues of \<open>kernel/task/wait_queue.cpp\<close>: singly linked through the
  \<open>blocked_next\<close> field of the control blocks, with head and tail pointers, ordered by
  priority. The operations return the changed queue and kernel state; a loop that follows
  links does not return (None) when the links do not end. They refine list operations:
  stable insertion by priority, removal and removal of the first match.
\<close>

section \<open>Operations\<close>

abbreviation bnext :: "kernel \<Rightarrow> nat \<Rightarrow> nat option" where
  "bnext s t \<equiv> blocked_next (ipcx s t)"

definition set_bnext :: "nat \<Rightarrow> nat option \<Rightarrow> kernel \<Rightarrow> kernel" where
  "set_bnext t v = upd_ipc t (\<lambda>r. r\<lparr>blocked_next := v\<rparr>)"

abbreviation tprio :: "kernel \<Rightarrow> nat \<Rightarrow> nat" where
  "tprio s t \<equiv> current_priority (sched s t)"

partial_function (option) wq_seek :: "kernel \<Rightarrow> nat \<Rightarrow> nat \<Rightarrow> nat option" where
  "wq_seek s t cur =
     (case bnext s cur of
        None \<Rightarrow> Some cur
      | Some n \<Rightarrow> if tprio s n \<ge> tprio s t then wq_seek s t n else Some cur)"

definition wq_enqueue :: "wait_queue \<Rightarrow> nat option \<Rightarrow> kernel \<Rightarrow> (wait_queue \<times> kernel) option" where
  "wq_enqueue q tp s =
     (case tp of
        None \<Rightarrow> Some (q, s)
      | Some t \<Rightarrow>
          let s1 = set_bnext t None s in
          (case wq_head q of
             None \<Rightarrow> Some (q\<lparr>wq_head := Some t, wq_tail := (if wq_tail q = None then Some t else wq_tail q)\<rparr>,
                           set_bnext t (wq_head q) s1)
           | Some h \<Rightarrow>
               if tprio s1 t > tprio s1 h
               then Some (q\<lparr>wq_head := Some t, wq_tail := (if wq_tail q = None then Some t else wq_tail q)\<rparr>,
                          set_bnext t (wq_head q) s1)
               else do { cur \<leftarrow> wq_seek s1 t h;
                         let s2 = set_bnext t (bnext s1 cur) s1;
                             s3 = set_bnext cur (Some t) s2;
                             q' = (if Some cur = wq_tail q then q\<lparr>wq_tail := Some t\<rparr> else q)
                         in Some (q', s3) }))"

definition wq_dequeue :: "wait_queue \<Rightarrow> kernel \<Rightarrow> nat option \<times> wait_queue \<times> kernel" where
  "wq_dequeue q s =
     (case wq_head q of
        None \<Rightarrow> (None, q, s)
      | Some t \<Rightarrow>
          let h = bnext s t;
              q' = q\<lparr>wq_head := h, wq_tail := (if h = None then None else wq_tail q)\<rparr>
          in (Some t, q', set_bnext t None s))"

partial_function (option) wq_find :: "kernel \<Rightarrow> nat \<Rightarrow> nat \<Rightarrow> nat option" where
  "wq_find s t cur =
     (case bnext s cur of
        None \<Rightarrow> Some cur
      | Some n \<Rightarrow> if n \<noteq> t then wq_find s t n else Some cur)"

definition wq_remove :: "wait_queue \<Rightarrow> nat option \<Rightarrow> kernel \<Rightarrow> (bool \<times> wait_queue \<times> kernel) option" where
  "wq_remove q tp s =
     (case (wq_head q, tp) of
        (Some h, Some t) \<Rightarrow>
          if h = t
          then let h' = bnext s t
               in Some (True, q\<lparr>wq_head := h', wq_tail := (if h' = None then None else wq_tail q)\<rparr>,
                        set_bnext t None s)
          else do { cur \<leftarrow> wq_find s t h;
                    if bnext s cur = Some t
                    then let s1 = set_bnext cur (bnext s t) s;
                             q' = (if wq_tail q = Some t then q\<lparr>wq_tail := Some cur\<rparr> else q)
                         in Some (True, q', set_bnext t None s1)
                    else Some (False, q, s) }
      | _ \<Rightarrow> Some (False, q, s))"

text \<open>The two matching dequeues share their loop; they differ in the match.\<close>

partial_function (option) wq_scan ::
  "(ipc_context \<Rightarrow> bool) \<Rightarrow> kernel \<Rightarrow> nat \<Rightarrow> nat option \<Rightarrow> (nat \<times> nat) option option" where
  "wq_scan m s prev cur =
     (if cur = None then Some None
      else if m (ipcx s (the cur)) then Some (Some (prev, the cur))
      else wq_scan m s (the cur) (bnext s (the cur)))"

definition wq_dequeue_match ::
  "(ipc_context \<Rightarrow> bool) \<Rightarrow> wait_queue \<Rightarrow> kernel \<Rightarrow> (nat option \<times> wait_queue \<times> kernel) option" where
  "wq_dequeue_match m q s =
     (case wq_head q of
        None \<Rightarrow> Some (None, q, s)
      | Some h \<Rightarrow>
          if m (ipcx s h) then Some (wq_dequeue q s)
          else do { r \<leftarrow> wq_scan m s h (bnext s h);
                    (case r of
                       None \<Rightarrow> Some (None, q, s)
                     | Some (prev, c) \<Rightarrow>
                         let s1 = set_bnext prev (bnext s c) s;
                             q' = (if wq_tail q = Some c then q\<lparr>wq_tail := Some prev\<rparr> else q)
                         in Some (Some c, q', set_bnext c None s1)) })"

definition dequeue_matching_sender ::
  "u32 \<Rightarrow> wait_queue \<Rightarrow> kernel \<Rightarrow> (nat option \<times> wait_queue \<times> kernel) option" where
  "dequeue_matching_sender filt = wq_dequeue_match (\<lambda>r. filt = 0 \<or> msg_type r = filt)"

definition dequeue_matching_receiver ::
  "u32 \<Rightarrow> wait_queue \<Rightarrow> kernel \<Rightarrow> (nat option \<times> wait_queue \<times> kernel) option" where
  "dequeue_matching_receiver label =
     wq_dequeue_match (\<lambda>r. label_filter r = 0 \<or> label_filter r = label)"

section \<open>Linked segments\<close>

fun lseg :: "(nat \<Rightarrow> nat option) \<Rightarrow> nat option \<Rightarrow> nat list \<Rightarrow> nat option \<Rightarrow> bool" where
  "lseg nx p [] e \<longleftrightarrow> p = e"
| "lseg nx p (x # xs) e \<longleftrightarrow> p = Some x \<and> lseg nx (nx x) xs e"

lemma lseg_append: "lseg nx p (xs @ ys) e \<longleftrightarrow> (\<exists>m. lseg nx p xs m \<and> lseg nx m ys e)"
  by (induction xs arbitrary: p) auto

lemma lseg_cong: "(\<And>x. x \<in> set xs \<Longrightarrow> nx' x = nx x) \<Longrightarrow> lseg nx' p xs e = lseg nx p xs e"
  by (induction xs arbitrary: p) auto

lemma lseg_upd_other [simp]: "t \<notin> set xs \<Longrightarrow> lseg (nx(t := v)) p xs e = lseg nx p xs e"
  by (rule lseg_cong) auto

lemma lseg_last: "xs \<noteq> [] \<Longrightarrow> lseg nx p xs e \<Longrightarrow> nx (last xs) = e"
  by (induction xs arbitrary: p) auto

lemma lseg_retarget:
  assumes "xs \<noteq> []" "distinct xs" "lseg nx p xs e"
  shows "lseg (nx(last xs := e')) p xs e'"
  using assms
proof (induction xs arbitrary: p)
  case (Cons x xs)
  show ?case
  proof (cases "xs = []")
    case False
    have IH: "lseg (nx(last xs := e')) (nx x) xs e'" using Cons.prems False by (intro Cons.IH) auto
    have "last xs \<noteq> x" using Cons.prems False last_in_set [of xs] by auto
    then have "(nx(last xs := e')) x = nx x" by simp
    with IH have "lseg (nx(last xs := e')) p (x # xs) e'" using Cons.prems by (simp only: lseg.simps)
    then show ?thesis using False by (simp only: last.simps if_False)
  qed (use Cons.prems in simp)
qed simp

lemma lseg_end_unique: "lseg nx p xs None \<Longrightarrow> lseg nx p ys None \<Longrightarrow> xs = ys"
proof (induction xs arbitrary: p ys)
  case Nil
  then show ?case by (cases ys) auto
next
  case (Cons x xs)
  then show ?case by (cases ys) auto
qed

section \<open>Queues as lists\<close>

definition bn :: "kernel \<Rightarrow> nat \<Rightarrow> nat option" where
  "bn s = (\<lambda>t. bnext s t)"

definition wq_rep :: "wait_queue \<Rightarrow> (nat \<Rightarrow> nat option) \<Rightarrow> nat list \<Rightarrow> bool" where
  "wq_rep q nx xs \<longleftrightarrow> distinct xs \<and> lseg nx (wq_head q) xs None
     \<and> wq_tail q = (if xs = [] then None else Some (last xs))"

lemma wq_rep_cong: "(\<And>x. x \<in> set xs \<Longrightarrow> nx' x = nx x) \<Longrightarrow> wq_rep q nx' xs = wq_rep q nx xs"
  using lseg_cong [of xs nx' nx] by (simp add: wq_rep_def)

lemma bnext_bn: "bnext s t = bn s t"
  by (simp add: bn_def)

text \<open>All that the operations write: the links.\<close>

definition relink :: "(nat \<Rightarrow> nat option) \<Rightarrow> kernel \<Rightarrow> kernel" where
  "relink f s = s\<lparr>tasks := (\<lambda>i. ipc_update (\<lambda>r. r\<lparr>blocked_next := f i\<rparr>) (tasks s i))\<rparr>"

lemma set_bnext_relink: "set_bnext t v s = relink ((bn s)(t := v)) s"
  by (auto simp: set_bnext_def relink_def upd_defs bn_def fun_eq_iff intro!: kernel.equality)

lemma relink_relink [simp]: "relink f (relink g s) = relink f s"
  by (simp add: relink_def o_def)

lemma bn_relink [simp]: "bn (relink f s) = f"
  by (simp add: bn_def relink_def)

lemma relink_self [simp]: "relink (bn s) s = s"
  by (auto simp: relink_def bn_def fun_eq_iff intro!: kernel.equality)

lemma relink_frame [kernel_simps]:
  "scheduler (tasks (relink f s) i) = sched s i" "secx (relink f s) i = secx s i"
  "task (tasks (relink f s) i) = task (tasks s i)" "memory (tasks (relink f s) i) = memory (tasks s i)"
  "ipc_state (ipcx (relink f s) i) = ipc_state (ipcx s i)"
  "ipc_status (ipcx (relink f s) i) = ipc_status (ipcx s i)"
  "waiting_endpoint (ipcx (relink f s) i) = waiting_endpoint (ipcx s i)"
  "receiver_id (ipcx (relink f s) i) = receiver_id (ipcx s i)"
  "msg_type (ipcx (relink f s) i) = msg_type (ipcx s i)"
  "label_filter (ipcx (relink f s) i) = label_filter (ipcx s i)"
  "ipc_badge (ipcx (relink f s) i) = ipc_badge (ipcx s i)"
  "msg_buf (ipcx (relink f s) i) = msg_buf (ipcx s i)" "msg_len (ipcx (relink f s) i) = msg_len (ipcx s i)"
  "max_len (ipcx (relink f s) i) = max_len (ipcx s i)"
  "task_count (relink f s) = task_count s" "endpoints (relink f s) = endpoints s"
  "sched_view (relink f s) = sched_view s" "current_tcb (relink f s) = current_tcb s"
  "next_tcb (relink f s) = next_tcb s" "mem (relink f s) = mem s" "started (relink f s) = started s"
  "ref_count (relink f s) = ref_count s" "mutexes (relink f s) = mutexes s"
  "current_tick (relink f s) = current_tick s" "events (relink f s) = events s"
  by (simp_all add: relink_def sched_view_def)

text \<open>Stable insertion by descending priority.\<close>

fun wq_insert :: "(nat \<Rightarrow> nat) \<Rightarrow> nat \<Rightarrow> nat list \<Rightarrow> nat list" where
  "wq_insert pr t [] = [t]"
| "wq_insert pr t (x # xs) = (if pr t > pr x then t # x # xs else x # wq_insert pr t xs)"

lemma set_wq_insert [simp]: "set (wq_insert pr t xs) = insert t (set xs)"
  by (induction xs) auto

lemma distinct_wq_insert: "distinct xs \<Longrightarrow> t \<notin> set xs \<Longrightarrow> distinct (wq_insert pr t xs)"
  by (induction xs) auto

lemma sorted_wq_insert:
  "sorted_wrt (\<lambda>a b. pr a \<ge> pr b) xs \<Longrightarrow> sorted_wrt (\<lambda>a b. pr a \<ge> pr b) (wq_insert pr t xs)"
  by (induction xs) auto

lemma filter_wq_insert:
  assumes "sorted_wrt (\<lambda>a b. pr a \<ge> pr b) xs"
  shows "filter (\<lambda>x. pr x = k) (wq_insert pr t xs) =
     filter (\<lambda>x. pr x = k) xs @ (if pr t = k then [t] else [])"
  using assms
proof (induction xs)
  case (Cons x xs)
  then have "filter (\<lambda>y. pr y = pr t) (x # xs) = []" if "pr t > pr x"
    using that by (auto simp: filter_empty_conv)
  with Cons show ?case by auto
qed simp

lemma wq_insert_split:
  assumes "\<not> pr t > pr x"
  obtains us vs where "x # xs = us @ vs" "us \<noteq> []" "wq_insert pr t (x # xs) = us @ t # vs"
    "\<forall>u \<in> set us. pr u \<ge> pr t" "vs \<noteq> [] \<longrightarrow> \<not> pr (hd vs) \<ge> pr t"
proof -
  have "\<exists>us vs. xs = us @ vs \<and> wq_insert pr t xs = us @ t # vs \<and> (\<forall>u \<in> set us. pr u \<ge> pr t)
      \<and> (vs \<noteq> [] \<longrightarrow> \<not> pr (hd vs) \<ge> pr t)"
  proof (induction xs)
    case (Cons y ys)
    then obtain us vs where "ys = us @ vs" "wq_insert pr t ys = us @ t # vs"
      "\<forall>u \<in> set us. pr u \<ge> pr t" "vs \<noteq> [] \<longrightarrow> \<not> pr (hd vs) \<ge> pr t" by blast
    then show ?case
      by (cases "pr t > pr y") (force intro: exI [of _ "[]"] exI [of _ "y # us"])+
  qed simp
  then obtain us vs where "xs = us @ vs" "wq_insert pr t xs = us @ t # vs"
    "\<forall>u \<in> set us. pr u \<ge> pr t" "vs \<noteq> [] \<longrightarrow> \<not> pr (hd vs) \<ge> pr t" by blast
  then show ?thesis using assms by (intro that [of "x # us" vs]) auto
qed

text \<open>The seek loop stops at the last node of the prefix it may pass.\<close>

lemma wq_seek_stops:
  assumes "lseg (bn s) (bn s c) us e" "\<forall>u \<in> set us. tprio s u \<ge> tprio s t"
    and "\<And>n. e = Some n \<Longrightarrow> \<not> tprio s n \<ge> tprio s t"
  shows "wq_seek s t c = Some (last (c # us))"
  using assms
proof (induction us arbitrary: c)
  case Nil
  then show ?case by (subst wq_seek.simps) (auto simp: bnext_bn split: option.split)
next
  case (Cons u us)
  then have "wq_seek s t u = Some (last (u # us))" by auto
  then show ?case using Cons.prems by (subst wq_seek.simps) (simp add: bnext_bn)
qed

section \<open>The operations refine the list operations\<close>

lemma enqueue_refines:
  assumes rep: "wq_rep q (bn s) xs" and new: "t \<notin> set xs"
  shows "\<exists>q' f. wq_enqueue q (Some t) s = Some (q', relink f s)
     \<and> wq_rep q' f (wq_insert (tprio s) t xs) \<and> (\<forall>x. x \<notin> insert t (set xs) \<longrightarrow> f x = bn s x)"
proof (cases xs)
  case Nil
  then show ?thesis using rep
    by (auto simp: wq_rep_def wq_enqueue_def Let_def set_bnext_relink)
next
  case (Cons h ys)
  then have q: "wq_head q = Some h" "wq_tail q = Some (last xs)" and d: "distinct xs"
    and l: "lseg (bn s) (Some h) xs None" using rep by (auto simp: wq_rep_def)
  let ?s1 = "set_bnext t None s"
  have pr: "tprio ?s1 i = tprio s i" for i by (simp add: set_bnext_relink kernel_simps)
  show ?thesis
  proof (cases "tprio s t > tprio s h")
    case True
    then have "wq_enqueue q (Some t) s =
        Some (q\<lparr>wq_head := Some t, wq_tail := wq_tail q\<rparr>, relink ((bn s)(t := Some h)) s)"
      using q by (simp add: wq_enqueue_def Let_def pr) (simp add: set_bnext_relink)
    moreover have "wq_rep (q\<lparr>wq_head := Some t, wq_tail := wq_tail q\<rparr>) ((bn s)(t := Some h)) (t # xs)"
      using q d l new Cons by (auto simp: wq_rep_def)
    ultimately show ?thesis using True Cons by auto
  next
    case False
    obtain us vs where xs: "xs = us @ vs" "us \<noteq> []" and ins: "wq_insert (tprio s) t xs = us @ t # vs"
      and us: "\<forall>u \<in> set us. tprio s u \<ge> tprio s t" and vs: "vs \<noteq> [] \<longrightarrow> \<not> tprio s (hd vs) \<ge> tprio s t"
      by (rule wq_insert_split [of "tprio s" h t ys, folded Cons, OF False]) blast
    obtain us' where us': "us = h # us'" using xs Cons by (cases us) auto
    let ?c = "last us"
    have c: "?c \<in> set us" "?c \<noteq> t" using xs(2) new xs(1) by auto
    from l xs obtain e where lu: "lseg (bn s) (Some h) us e" and lv: "lseg (bn s) e vs None"
      by (auto simp: lseg_append)
    have tn: "t \<notin> set us" "t \<notin> set vs" using new xs by auto
    have e: "bn s ?c = e" using lseg_last [OF xs(2) lu] .
    have seek: "wq_seek ?s1 t h = Some ?c"
    proof -
      have "lseg (bn ?s1) (bn ?s1 h) us' e" using lu us' tn by (simp add: set_bnext_relink)
      moreover have "\<not> tprio ?s1 n \<ge> tprio ?s1 t" if "e = Some n" for n
        using that lv vs unfolding pr by (cases vs) auto
      moreover have "\<forall>u \<in> set us'. tprio ?s1 u \<ge> tprio ?s1 t" using us us' unfolding pr by simp
      ultimately show ?thesis using wq_seek_stops [of ?s1 h us' e t] us' by simp
    qed
    define f where "f = ((bn s)(t := e))(?c := Some t)"
    have res: "wq_enqueue q (Some t) s =
        Some (if vs = [] then q\<lparr>wq_tail := Some t\<rparr> else q, relink f s)"
    proof -
      have "bnext ?s1 ?c = e" using e c(2) by (simp add: bnext_bn set_bnext_relink)
      moreover have "set_bnext ?c (Some t) (set_bnext t e ?s1) = relink f s"
        by (simp add: set_bnext_relink f_def)
      moreover have "Some ?c = wq_tail q \<longleftrightarrow> vs = []"
      proof (cases "vs = []")
        case False
        then have "last vs \<in> set vs" by simp
        moreover have "set us \<inter> set vs = {}" using d xs(1) by simp
        ultimately have "?c \<noteq> last vs" using c(1) by auto
        then show ?thesis using q(2) xs(1) False by simp
      qed (use q(2) xs(1) in simp)
      ultimately show ?thesis using q(1) False
        by (simp add: wq_enqueue_def Let_def pr seek)
    qed
    have "lseg f (Some h) us (Some t)"
    proof -
      have "lseg ((bn s)(?c := Some t)) (Some h) us (Some t)"
        using lseg_retarget [OF xs(2) _ lu] d xs(1) by simp
      then show ?thesis using tn(1) c(2) unfolding f_def fun_upd_twist [OF c(2) [symmetric]]
        by (simp only: lseg_upd_other not_False_eq_True)
    qed
    moreover have "lseg f (f t) vs None"
    proof -
      have "set us \<inter> set vs = {}" using d xs(1) by simp
      then have "?c \<notin> set vs" using c(1) by blast
      then show ?thesis using lv tn(2) c(2) by (simp add: f_def)
    qed
    ultimately have "lseg f (Some h) (us @ t # vs) None" by (auto simp: lseg_append)
    then have "wq_rep (if vs = [] then q\<lparr>wq_tail := Some t\<rparr> else q) f (us @ t # vs)"
      using q d new xs by (auto simp: wq_rep_def)
    moreover have "f x = bn s x" if "x \<notin> insert t (set xs)" for x
      using that xs c(1) by (auto simp: f_def)
    ultimately show ?thesis using res unfolding ins by blast
  qed
qed

lemma dequeue_refines:
  assumes "wq_rep q (bn s) (t # xs)"
  shows "\<exists>q'. wq_dequeue q s = (Some t, q', relink ((bn s)(t := None)) s)
     \<and> wq_rep q' ((bn s)(t := None)) xs"
  using assms by (cases xs) (auto simp: wq_rep_def wq_dequeue_def Let_def bnext_bn set_bnext_relink)

lemma wq_find_stops:
  assumes "lseg (bn s) (bn s c) us (Some t)" "t \<notin> set us"
  shows "wq_find s t c = Some (last (c # us))"
  using assms
proof (induction us arbitrary: c)
  case Nil
  then show ?case by (subst wq_find.simps) (simp add: bnext_bn)
next
  case (Cons u us)
  then have "wq_find s t u = Some (last (u # us))" by auto
  then show ?case using Cons.prems by (subst wq_find.simps) (auto simp: bnext_bn)
qed

lemma wq_find_absent:
  assumes "lseg (bn s) (bn s c) us None" "t \<notin> set us"
  shows "wq_find s t c = Some (last (c # us)) \<and> bn s (last (c # us)) = None"
  using assms
proof (induction us arbitrary: c)
  case Nil
  then show ?case by (subst wq_find.simps) (simp add: bnext_bn)
next
  case (Cons u us)
  then have "wq_find s t u = Some (last (u # us)) \<and> bn s (last (u # us)) = None" by auto
  then show ?case using Cons.prems by (subst wq_find.simps) (auto simp: bnext_bn)
qed

lemma unlink_rep:
  assumes rep: "wq_rep q nx (us @ c # vs)" and ne: "us \<noteq> []"
  shows "nx (last us) = Some c"
    "wq_rep (if wq_tail q = Some c then q\<lparr>wq_tail := Some (last us)\<rparr> else q)
       ((nx(last us := nx c))(c := None)) (us @ vs)"
proof -
  from rep have d: "distinct (us @ c # vs)" and tl: "wq_tail q = Some (last (c # vs))"
    by (auto simp: wq_rep_def)
  from rep obtain m where lu: "lseg nx (wq_head q) us m" and m: "m = Some c" and lv: "lseg nx (nx c) vs None"
    by (auto simp: wq_rep_def lseg_append)
  show "nx (last us) = Some c" using lseg_last [OF ne lu] m by simp
  have disj: "set us \<inter> set vs = {}" "c \<notin> set us" "c \<notin> set vs" using d by auto
  have l: "last us \<in> set us" using ne by simp
  then have lc: "last us \<noteq> c" "last us \<notin> set vs" using disj by blast+
  let ?f = "(nx(last us := nx c))(c := None)"
  have "lseg (nx(last us := nx c)) (wq_head q) us (nx c)" using lseg_retarget [OF ne _ lu] d by simp
  then have "lseg ?f (wq_head q) us (nx c)"
    using lseg_upd_other [OF disj(2), of "nx(last us := nx c)" None] by blast
  moreover have "lseg ?f (nx c) vs None" using lv lc(2) disj(3) by simp
  ultimately have "lseg ?f (wq_head q) (us @ vs) None" by (auto simp: lseg_append)
  moreover have "wq_tail q = Some c \<longleftrightarrow> vs = []"
    using tl disj(3) last_in_set [of vs] by (cases "vs = []") auto
  ultimately show "wq_rep (if wq_tail q = Some c then q\<lparr>wq_tail := Some (last us)\<rparr> else q) ?f (us @ vs)"
    using d tl ne by (auto simp: wq_rep_def)
qed

lemma remove_refines:
  assumes rep: "wq_rep q (bn s) xs"
  shows "\<exists>q' f. wq_remove q (Some t) s = Some (t \<in> set xs, q', relink f s)
     \<and> wq_rep q' f (remove1 t xs) \<and> (\<forall>x. x \<notin> set xs \<longrightarrow> f x = bn s x) \<and> (t \<in> set xs \<longrightarrow> f t = None)
     \<and> (t \<notin> set xs \<longrightarrow> q' = q \<and> f = bn s)"
proof (cases xs)
  case Nil
  then have "wq_remove q (Some t) s = Some (False, q, relink (bn s) s)"
    using rep by (simp add: wq_rep_def wq_remove_def)
  then show ?thesis using Nil rep by auto
next
  case (Cons h ys)
  then have q: "wq_head q = Some h" and d: "distinct xs"
    and l: "lseg (bn s) (bn s h) ys None" using rep by (auto simp: wq_rep_def)
  consider "t = h" | "t \<noteq> h" "t \<in> set ys" | "t \<noteq> h" "t \<notin> set ys" by blast
  then show ?thesis
  proof cases
    case 1
    let ?q = "q\<lparr>wq_head := bn s t, wq_tail := (if bn s t = None then None else wq_tail q)\<rparr>"
    have "wq_remove q (Some t) s = Some (True, ?q, relink ((bn s)(t := None)) s)"
      using 1 q by (simp add: wq_remove_def Let_def bnext_bn set_bnext_relink)
    moreover have "wq_rep ?q ((bn s)(t := None)) ys"
      using 1 Cons rep by (cases ys) (auto simp: wq_rep_def)
    ultimately show ?thesis using 1 Cons by auto
  next
    case 2
    obtain us vs where ys: "ys = us @ t # vs" "t \<notin> set us" using split_list_first [OF 2(2)] by blast
    have x: "xs = (h # us) @ t # vs" using Cons ys by simp
    let ?c = "last (h # us)"
    note u = unlink_rep [OF rep [unfolded x]]
    have "lseg (bn s) (bn s h) us (Some t)" using l ys by (auto simp: lseg_append)
    then have find: "wq_find s t h = Some ?c" using wq_find_stops ys(2) by blast
    let ?f = "((bn s)(?c := bn s t))(t := None)"
    have "t \<noteq> ?c" using 2(1) ys(2) last_in_set [of "h # us"] by auto
    then have "wq_remove q (Some t) s = Some (True,
        (if wq_tail q = Some t then q\<lparr>wq_tail := Some ?c\<rparr> else q), relink ?f s)"
      using q 2(1) find u(1) by (simp add: wq_remove_def Let_def bnext_bn set_bnext_relink del: last.simps)
    moreover have "remove1 t xs = (h # us) @ vs" using 2(1) ys x by (simp add: remove1_append)
    moreover have "\<forall>x. x \<notin> set xs \<longrightarrow> ?f x = bn s x" using x last_in_set [of "h # us"] by auto
    ultimately show ?thesis using u(2) 2(2) Cons
      by (intro exI [of _ "if wq_tail q = Some t then q\<lparr>wq_tail := Some ?c\<rparr> else q"] exI [of _ ?f])
        (simp del: last.simps)
  next
    case 3
    then have "wq_find s t h = Some (last (h # ys)) \<and> bn s (last (h # ys)) = None"
      using wq_find_absent [OF l] by blast
    then have "wq_remove q (Some t) s = Some (False, q, relink (bn s) s)"
      using q 3(1) by (simp add: wq_remove_def bnext_bn del: last.simps)
    moreover have "remove1 t xs = xs" "t \<notin> set xs" using 3 Cons by (auto simp: remove1_idem)
    ultimately show ?thesis using rep by auto
  qed
qed

lemma wq_scan_none:
  assumes "lseg (bn s) cur ys None" "\<forall>y \<in> set ys. \<not> m (ipcx s y)"
  shows "wq_scan m s p cur = Some None"
  using assms
proof (induction ys arbitrary: p cur)
  case Nil
  then show ?case by (subst wq_scan.simps) simp
next
  case (Cons y ys)
  then have "wq_scan m s y (bn s y) = Some None" by auto
  then show ?case using Cons.prems by (subst wq_scan.simps) (simp add: bnext_bn)
qed

lemma wq_scan_finds:
  assumes "lseg (bn s) cur (us @ c # vs) None" "\<forall>u \<in> set us. \<not> m (ipcx s u)" "m (ipcx s c)"
  shows "wq_scan m s p cur = Some (Some (last (p # us), c))"
  using assms
proof (induction us arbitrary: p cur)
  case Nil
  then show ?case by (subst wq_scan.simps) simp
next
  case (Cons y us)
  then have "wq_scan m s y (bn s y) = Some (Some (last (y # us), c))" by auto
  then show ?case using Cons.prems by (subst wq_scan.simps) (simp add: bnext_bn)
qed

lemma find_split:
  "find P xs = Some c \<Longrightarrow> \<exists>us vs. xs = us @ c # vs \<and> (\<forall>u \<in> set us. \<not> P u) \<and> P c"
proof (induction xs)
  case (Cons x xs)
  show ?case
  proof (cases "P x")
    case True
    then show ?thesis using Cons.prems by (intro exI [of _ "[]"] exI [of _ xs]) simp
  next
    case False
    with Cons obtain us vs where "xs = us @ c # vs \<and> (\<forall>u \<in> set us. \<not> P u) \<and> P c" by auto
    then show ?thesis using False by (intro exI [of _ "x # us"] exI [of _ vs]) auto
  qed
qed simp

lemma dequeue_match_refines:
  fixes m :: "ipc_context \<Rightarrow> bool"
  assumes rep: "wq_rep q (bn s) xs"
  defines "P \<equiv> \<lambda>x. m (ipcx s x)"
  shows "case find P xs of
       None \<Rightarrow> wq_dequeue_match m q s = Some (None, q, s)
     | Some c \<Rightarrow> \<exists>q' f. wq_dequeue_match m q s = Some (Some c, q', relink f s)
         \<and> wq_rep q' f (remove1 c xs) \<and> (\<forall>x. x \<notin> set xs \<longrightarrow> f x = bn s x)"
proof (cases xs)
  case Nil
  then show ?thesis using rep by (simp add: wq_rep_def wq_dequeue_match_def)
next
  case (Cons h ys)
  then have q: "wq_head q = Some h" and l: "lseg (bn s) (bn s h) ys None" and d: "distinct xs"
    using rep by (auto simp: wq_rep_def)
  show ?thesis
  proof (cases "P h")
    case True
    obtain q' where "wq_dequeue q s = (Some h, q', relink ((bn s)(h := None)) s)"
      "wq_rep q' ((bn s)(h := None)) ys" using dequeue_refines [of q s h ys] rep Cons by blast
    then show ?thesis using True Cons q
      by (auto simp: wq_dequeue_match_def P_def intro!: exI [of _ q'] exI [of _ "(bn s)(h := None)"])
  next
    case False
    show ?thesis
    proof (cases "find P ys")
      case None
      then have "wq_scan m s h (bn s h) = Some None"
        using wq_scan_none [OF l] by (auto simp: find_None_iff P_def)
      then show ?thesis using None False Cons q
        by (simp add: wq_dequeue_match_def P_def bnext_bn)
    next
      case (Some c)
      then obtain us vs where ys: "ys = us @ c # vs" "\<forall>u \<in> set us. \<not> P u" "P c"
        using find_split by metis
      have x: "xs = (h # us) @ c # vs" using Cons ys by simp
      let ?c = "last (h # us)"
      let ?f = "((bn s)(?c := bn s c))(c := None)"
      note u = unlink_rep [OF rep [unfolded x]]
      have "wq_scan m s h (bn s h) = Some (Some (?c, c))"
        using wq_scan_finds [OF l [unfolded ys(1)]] ys(2,3) by (simp add: P_def)
      then have "wq_dequeue_match m q s = Some (Some c,
          (if wq_tail q = Some c then q\<lparr>wq_tail := Some ?c\<rparr> else q), relink ?f s)"
        using q False
        by (simp add: wq_dequeue_match_def P_def bnext_bn Let_def set_bnext_relink del: last.simps)
      moreover have "remove1 c xs = (h # us) @ vs" using d x by (simp add: remove1_append)
      moreover have "\<forall>x. x \<notin> set xs \<longrightarrow> ?f x = bn s x" using x last_in_set [of "h # us"] by auto
      moreover have "find P xs = Some c" using Some False Cons by simp
      ultimately show ?thesis using u(2) by (simp only: option.case) blast
    qed
  qed
qed

text \<open>The same in one form: the match and the line without it.\<close>

definition line_without :: "nat option \<Rightarrow> nat list \<Rightarrow> nat list" where
  "line_without r xs = (case r of None \<Rightarrow> xs | Some c \<Rightarrow> remove1 c xs)"

lemma dequeue_match_line:
  assumes rep: "wq_rep q (bn s) xs"
  shows "\<exists>q' f. wq_dequeue_match m q s = Some (find (\<lambda>x. m (ipcx s x)) xs, q', relink f s)
     \<and> wq_rep q' f (line_without (find (\<lambda>x. m (ipcx s x)) xs) xs)
     \<and> (\<forall>x. x \<notin> set xs \<longrightarrow> f x = bn s x)"
proof (cases "find (\<lambda>x. m (ipcx s x)) xs")
  case None
  then show ?thesis using dequeue_match_refines [OF rep, of m] rep
    by (intro exI [of _ q] exI [of _ "bn s"]) (simp add: line_without_def)
next
  case (Some c)
  then show ?thesis using dequeue_match_refines [OF rep, of m] by (simp add: line_without_def)
qed

section \<open>Properties\<close>

text \<open>
  C12: enqueueing a task that is not waiting always returns, and what the links then represent
  is the old line with the task inserted by descending priority, behind every waiter of its own
  priority: the line stays sorted, and among equal priorities it stays first come, first served.
\<close>

theorem enqueue_stable_priority_order:
  assumes rep: "wq_rep q (bn s) xs" and new: "t \<notin> set xs"
    and sorted: "sorted_wrt (\<lambda>a b. tprio s a \<ge> tprio s b) xs"
  shows "\<exists>q' s' ys. wq_enqueue q (Some t) s = Some (q', s') \<and> wq_rep q' (bn s') ys
     \<and> sorted_wrt (\<lambda>a b. tprio s' a \<ge> tprio s' b) ys
     \<and> (\<forall>k. filter (\<lambda>x. tprio s' x = k) ys =
          filter (\<lambda>x. tprio s x = k) xs @ (if tprio s t = k then [t] else []))"
proof -
  from enqueue_refines [OF rep new] obtain q' f where
    e: "wq_enqueue q (Some t) s = Some (q', relink f s)" "wq_rep q' f (wq_insert (tprio s) t xs)" by blast
  have "tprio (relink f s) x = tprio s x" for x by (simp add: kernel_simps)
  then show ?thesis
    using e sorted_wq_insert [OF sorted, of t] filter_wq_insert [OF sorted, of _ t]
    by (intro exI [of _ q'] exI [of _ "relink f s"] exI [of _ "wq_insert (tprio s) t xs"]) simp
qed

theorem enqueue_stable_priority_order_witness:
  "\<exists>q' s' ys. wq_enqueue \<lparr>wq_head = Some 0, wq_tail = Some 0\<rparr> (Some 1) two_tasks = Some (q', s')
     \<and> wq_rep q' (bn s') ys \<and> filter (\<lambda>x. tprio s' x = 8) ys = [1]"
proof -
  have "wq_rep \<lparr>wq_head = Some 0, wq_tail = Some 0\<rparr> (bn two_tasks) [0]"
    by (simp add: wq_rep_def bn_def two_tasks_ipc)
  from enqueue_stable_priority_order [OF this, of 1] obtain q' s' ys where
    "wq_enqueue \<lparr>wq_head = Some 0, wq_tail = Some 0\<rparr> (Some 1) two_tasks = Some (q', s')"
    "wq_rep q' (bn s') ys"
    "\<forall>k. filter (\<lambda>x. tprio s' x = k) ys =
       filter (\<lambda>x. tprio two_tasks x = k) [0] @ (if tprio two_tasks 1 = k then [1] else [])" by auto
  then show ?thesis by (intro exI [of _ q'] exI [of _ s'] exI [of _ ys]) (simp add: two_tasks_facts)
qed

text \<open>
  C27: the ways out of a line. Taking the head, cancelling a given waiter, taking the first sender
  whose message type matches a filter and taking the first receiver whose filter matches a label all
  return, and what remains is the line without exactly that waiter, in the same order; cancelling an
  absent task changes nothing.
\<close>

theorem dequeue_operations_refine_lists:
  assumes rep: "wq_rep q (bn s) xs"
  shows "(\<exists>q' s'. wq_remove q (Some t) s = Some (t \<in> set xs, q', s') \<and> wq_rep q' (bn s') (remove1 t xs))
    \<and> (\<exists>q' s'. dequeue_matching_sender l q s =
          Some (find (\<lambda>x. l = 0 \<or> msg_type (ipcx s x) = l) xs, q', s')
        \<and> wq_rep q' (bn s') (line_without (find (\<lambda>x. l = 0 \<or> msg_type (ipcx s x) = l) xs) xs))
    \<and> (\<exists>q' s'. dequeue_matching_receiver l q s =
          Some (find (\<lambda>x. label_filter (ipcx s x) = 0 \<or> label_filter (ipcx s x) = l) xs, q', s')
        \<and> wq_rep q' (bn s') (line_without (find (\<lambda>x. label_filter (ipcx s x) = 0 \<or> label_filter (ipcx s x) = l) xs) xs))
    \<and> (\<exists>q' s'. wq_dequeue q s = (if xs = [] then None else Some (hd xs), q', s')
        \<and> wq_rep q' (bn s') (tl xs))"
proof (intro conjI)
  show "\<exists>q' s'. wq_remove q (Some t) s = Some (t \<in> set xs, q', s') \<and> wq_rep q' (bn s') (remove1 t xs)"
    using remove_refines [OF rep, of t] by (metis bn_relink)
  show "\<exists>q' s'. dequeue_matching_sender l q s =
      Some (find (\<lambda>x. l = 0 \<or> msg_type (ipcx s x) = l) xs, q', s')
    \<and> wq_rep q' (bn s') (line_without (find (\<lambda>x. l = 0 \<or> msg_type (ipcx s x) = l) xs) xs)"
    using dequeue_match_line [OF rep, of "\<lambda>r. l = 0 \<or> msg_type r = l"]
    unfolding dequeue_matching_sender_def by (metis bn_relink)
  show "\<exists>q' s'. dequeue_matching_receiver l q s =
      Some (find (\<lambda>x. label_filter (ipcx s x) = 0 \<or> label_filter (ipcx s x) = l) xs, q', s')
    \<and> wq_rep q' (bn s') (line_without (find (\<lambda>x. label_filter (ipcx s x) = 0 \<or> label_filter (ipcx s x) = l) xs) xs)"
  proof -
    obtain q' f where "wq_dequeue_match (\<lambda>r. label_filter r = 0 \<or> label_filter r = l) q s =
          Some (find (\<lambda>x. label_filter (ipcx s x) = 0 \<or> label_filter (ipcx s x) = l) xs, q', relink f s)"
        "wq_rep q' f (line_without (find (\<lambda>x. label_filter (ipcx s x) = 0 \<or> label_filter (ipcx s x) = l) xs) xs)"
      using dequeue_match_line [OF rep, of "\<lambda>r. label_filter r = 0 \<or> label_filter r = l"] by blast
    then show ?thesis
      unfolding dequeue_matching_receiver_def by (intro exI [of _ q'] exI [of _ "relink f s"]) simp
  qed
  show "\<exists>q' s'. wq_dequeue q s = (if xs = [] then None else Some (hd xs), q', s')
      \<and> wq_rep q' (bn s') (tl xs)"
  proof (cases xs)
    case Nil
    then show ?thesis using rep by (auto simp: wq_rep_def wq_dequeue_def)
  next
    case (Cons x ys)
    then obtain q' where "wq_dequeue q s = (Some x, q', relink ((bn s)(x := None)) s)"
      "wq_rep q' ((bn s)(x := None)) ys" using dequeue_refines [of q s x ys] rep by blast
    then show ?thesis using Cons by simp
  qed
qed

theorem dequeue_operations_refine_lists_witness:
  "\<exists>q' s'. wq_remove \<lparr>wq_head = Some 0, wq_tail = Some 0\<rparr> (Some 0) two_tasks = Some (True, q', s')
     \<and> wq_rep q' (bn s') []"
proof -
  have "wq_rep \<lparr>wq_head = Some 0, wq_tail = Some 0\<rparr> (bn two_tasks) [0]"
    by (simp add: wq_rep_def bn_def two_tasks_ipc)
  from dequeue_operations_refine_lists [OF this, of 0] show ?thesis by simp
qed

lemma wq_find_self_loop:
  assumes "bn s c = Some c" "c \<noteq> t"
  shows "wq_find s t c = None"
proof -
  have "\<not> (s' = s \<and> t' = t \<and> c' = c)" if "wq_find s' t' c' = Some y" for s' t' c' y
    using _ that
  proof (rule wq_find.raw_induct)
    fix f s' t' c' y
    assume IH: "\<And>s' t' c' y. f s' t' c' = Some y \<Longrightarrow> \<not> (s' = s \<and> t' = t \<and> c' = c)"
      and step: "(case bnext s' c' of None \<Rightarrow> Some c' | Some n \<Rightarrow> if n \<noteq> t' then f s' t' n else Some c')
        = Some y"
    show "\<not> (s' = s \<and> t' = t \<and> c' = c)"
      using step IH [of s t c y] assms by (auto simp: bnext_bn)
  qed
  then show ?thesis by fastforce
qed

text \<open>
  C34: a waiter that is enqueued a second time while it heads the line ends up linked to
  itself, and from then on cancelling any other waiter never returns. Nothing in \<open>enqueue\<close>
  guards against it.
\<close>

theorem requeued_head_makes_cancel_hang:
  assumes rep: "wq_rep q (bn s) (x # xs)" and y: "y \<noteq> x"
  shows "\<exists>q' s'. wq_enqueue q (Some x) s = Some (q', s') \<and> bn s' x = Some x
     \<and> wq_remove q' (Some y) s' = None"
proof -
  have q: "wq_head q = Some x" using rep by (simp add: wq_rep_def)
  let ?s1 = "set_bnext x None s"
  have "wq_seek ?s1 x x = Some x"
    by (subst wq_seek.simps) (simp add: bnext_bn set_bnext_relink)
  then obtain q' where q': "wq_enqueue q (Some x) s = Some (q', relink ((bn s)(x := Some x)) s)"
    "wq_head q' = Some x"
    using q by (auto simp: wq_enqueue_def Let_def bnext_bn) (simp_all add: set_bnext_relink)
  have "wq_find (relink ((bn s)(x := Some x)) s) y x = None"
    using y by (intro wq_find_self_loop) auto
  then show ?thesis using q' y by (auto simp: wq_remove_def)
qed

theorem requeued_head_makes_cancel_hang_witness:
  "\<exists>q' s'. wq_enqueue \<lparr>wq_head = Some 0, wq_tail = Some 0\<rparr> (Some 0) two_tasks = Some (q', s')
     \<and> wq_remove q' (Some 1) s' = None"
proof -
  have "wq_rep \<lparr>wq_head = Some 0, wq_tail = Some 0\<rparr> (bn two_tasks) [0]"
    by (simp add: wq_rep_def bn_def two_tasks_ipc)
  from requeued_head_makes_cancel_hang [OF this, of 1] show ?thesis by auto
qed

end
