(* ===== verification/Ipc.thy ===== *)
theory Ipc
  imports Wait_Queue
begin

text \<open>
  Endpoints of \<open>kernel/core/ipc.cpp\<close>: call, receive, reply, cancellation, priority
  inheritance, and the tick handlers of \<open>kernel/task/task.hpp\<close> that time out waiting tasks.
  Results are None when a loop over a wait queue does not return.
\<close>

section \<open>Constants and queue access\<close>

definition IPC_TIMEOUT_INFINITE :: u32 where "IPC_TIMEOUT_INFINITE = 0xFFFFFFFF"
definition IPC_NONBLOCK :: u32 where "IPC_NONBLOCK = 0"
definition MAX_IPC_MSG_SIZE :: u32 where "MAX_IPC_MSG_SIZE = 4096"

definition set_send_queue :: "nat \<Rightarrow> wait_queue \<Rightarrow> kernel \<Rightarrow> kernel" where
  "set_send_queue e q s = s\<lparr>endpoints := (endpoints s)(e := (endpoints s e)\<lparr>send_queue := q\<rparr>)\<rparr>"

definition set_recv_queue :: "nat \<Rightarrow> wait_queue \<Rightarrow> kernel \<Rightarrow> kernel" where
  "set_recv_queue e q s = s\<lparr>endpoints := (endpoints s)(e := (endpoints s e)\<lparr>recv_queue := q\<rparr>)\<rparr>"

definition set_sleep :: "nat \<Rightarrow> u32 \<Rightarrow> kernel \<Rightarrow> kernel" where
  "set_sleep t n = upd_sched t (\<lambda>r. r\<lparr>sleep_ticks := n\<rparr>)"

section \<open>Priority inheritance\<close>

definition inherited_priority :: "nat \<Rightarrow> kernel \<Rightarrow> nat" where
  "inherited_priority r s =
     foldl (\<lambda>max_prio i.
         if ipc_state (ipcx s i) = ReplyBlocked \<and> receiver_id (ipcx s i) = task_id (sched s r)
            \<and> tprio s i > max_prio
         then tprio s i else max_prio)
       (base_priority (sched s r)) [0..<task_count s]"

definition recalculate_receiver_priority :: "nat option \<Rightarrow> kernel \<Rightarrow> kernel" where
  "recalculate_receiver_priority rp s =
     (case rp of None \<Rightarrow> s
      | Some r \<Rightarrow> set_task_priority (task_id (sched s r)) (inherited_priority r s) s)"

definition inherit_from :: "nat \<Rightarrow> nat \<Rightarrow> kernel \<Rightarrow> kernel" where
  "inherit_from sender receiver s =
     (if tprio s sender > tprio s receiver
      then set_task_priority (task_id (sched s receiver)) (tprio s sender) s else s)"

section \<open>Message transfer\<close>

definition clamp_len :: "u32 \<Rightarrow> u32 \<Rightarrow> u32" where
  "clamp_len len cap =
     (let copy_len = (if len < cap then len else cap)
      in if copy_len > MAX_IPC_MSG_SIZE then MAX_IPC_MSG_SIZE else copy_len)"

definition transfer :: "u32 \<Rightarrow> u32 \<Rightarrow> u32 \<Rightarrow> kernel \<Rightarrow> u32 \<times> kernel" where
  "transfer copy_len dst src s =
     (if copy_len > 0 \<and> src \<noteq> 0 \<and> dst \<noteq> 0
      then (copy_len, s\<lparr>mem := copy_bytes (unat copy_len) dst src (mem s)\<rparr>) else (0, s))"

definition header_type :: "u32 \<Rightarrow> u32 \<Rightarrow> kernel \<Rightarrow> u32" where
  "header_type msg len s = (if len \<ge> 8 \<and> msg \<noteq> 0 then load_word msg (mem s) else 0)"

text \<open>What both sides of a rendezvous write into the receiver.\<close>

definition deliver :: "nat \<Rightarrow> nat \<Rightarrow> u32 \<Rightarrow> u32 \<Rightarrow> u32 \<Rightarrow> kernel \<Rightarrow> kernel" where
  "deliver receiver from_id len badge mtype s =
     set_sleep receiver 0
       (upd_ipc receiver (\<lambda>r. r\<lparr>msg_len := len, sender_id := from_id, ipc_badge := badge,
           msg_type := mtype, ipc_state := IpcReady, ipc_status := Ok, waiting_endpoint := None\<rparr>) s)"

section \<open>Endpoint operations\<close>

definition call ::
  "nat \<Rightarrow> nat option \<Rightarrow> u32 \<Rightarrow> u32 \<Rightarrow> u32 \<Rightarrow> u32 \<Rightarrow> u32 \<Rightarrow> u32 \<Rightarrow> kernel \<Rightarrow> (ipc_status \<times> kernel) option" where
  "call e sp msg len reply max_reply timeout badge s =
     (case sp of
        None \<Rightarrow> Some (Invalid, s)
      | Some sender \<Rightarrow>
          let s1 = upd_ipc sender (\<lambda>r. r\<lparr>reply_buf := reply, max_len := max_reply, ipc_status := Ok,
                     ipc_badge := badge\<rparr>) s;
              mtype = header_type msg len s1;
              s2 = upd_ipc sender (\<lambda>r. r\<lparr>msg_type := mtype\<rparr>) s1
          in do { (rp, rq, s3) \<leftarrow> dequeue_matching_receiver mtype (recv_queue (endpoints s2 e)) s2;
                  let s4 = set_recv_queue e rq s3;
                  (case rp of
                     Some receiver \<Rightarrow>
                       let (n, s5) = transfer (clamp_len len (max_len (ipcx s4 receiver)))
                                       (msg_buf (ipcx s4 receiver)) msg s4;
                           s6 = deliver receiver (task_id (sched s5 sender)) n badge mtype s5;
                           s7 = upd_ipc sender (\<lambda>r. r\<lparr>receiver_id := task_id (sched s6 receiver)\<rparr>) s6
                       in if timeout = IPC_NONBLOCK
                          then let s8 = set_sleep sender 0 (upd_ipc sender
                                     (\<lambda>r. r\<lparr>ipc_state := IpcReady, waiting_endpoint := None\<rparr>) s7)
                               in Some (Ok, set_task_state (task_id (sched s8 receiver)) Ready s8)
                          else let s8 = set_sleep sender (if timeout = IPC_TIMEOUT_INFINITE then 0 else timeout)
                                     (upd_ipc sender (\<lambda>r. r\<lparr>ipc_state := ReplyBlocked,
                                        waiting_endpoint := Some e\<rparr>) s7);
                                   s9 = set_task_state (task_id (sched s8 sender)) Blocked_On_Notify s8;
                                   s10 = inherit_from sender receiver s9
                               in Some (Ok, set_task_state (task_id (sched s10 receiver)) Ready s10)
                   | None \<Rightarrow>
                       if timeout = IPC_NONBLOCK
                       then Some (WouldBlock, set_sleep sender 0 (upd_ipc sender (\<lambda>r. r\<lparr>ipc_state := IpcReady,
                              ipc_status := WouldBlock, waiting_endpoint := None\<rparr>) s4))
                       else let s5 = set_sleep sender (if timeout = IPC_TIMEOUT_INFINITE then 0 else timeout)
                                  (upd_ipc sender (\<lambda>r. r\<lparr>msg_buf := msg, msg_len := len,
                                     ipc_state := Sending, waiting_endpoint := Some e\<rparr>) s4)
                            in do { (sq, s6) \<leftarrow> wq_enqueue (send_queue (endpoints s5 e)) (Some sender) s5;
                                    let s7 = set_send_queue e sq s6;
                                    Some (Ok, set_task_state (task_id (sched s7 sender)) Blocked_On_Notify s7) }) })"

definition receive ::
  "nat \<Rightarrow> nat option \<Rightarrow> u32 \<Rightarrow> u32 \<Rightarrow> u32 \<Rightarrow> u32 \<Rightarrow> kernel \<Rightarrow> (ipc_status \<times> kernel) option" where
  "receive e rp buf cap timeout filt s =
     (case rp of
        None \<Rightarrow> Some (Invalid, s)
      | Some receiver \<Rightarrow>
          let s1 = upd_ipc receiver (\<lambda>r. r\<lparr>msg_buf := buf, max_len := cap, ipc_status := Ok,
                     label_filter := filt\<rparr>) s
          in do { (sp, sq, s2) \<leftarrow> dequeue_matching_sender filt (send_queue (endpoints s1 e)) s1;
                  let s3 = set_send_queue e sq s2;
                  (case sp of
                     Some sender \<Rightarrow>
                       let (n, s4) = transfer (clamp_len (msg_len (ipcx s3 sender)) cap) buf
                                       (msg_buf (ipcx s3 sender)) s3;
                           s5 = deliver receiver (task_id (sched s4 sender)) n (ipc_badge (ipcx s4 sender))
                                  (msg_type (ipcx s4 sender)) s4;
                           s6 = upd_ipc sender (\<lambda>r. r\<lparr>receiver_id := task_id (sched s5 receiver),
                                  ipc_state := ReplyBlocked\<rparr>) s5;
                           s7 = set_task_state (task_id (sched s6 sender)) Blocked_On_Notify s6
                       in Some (Ok, inherit_from sender receiver s7)
                   | None \<Rightarrow>
                       if timeout = IPC_NONBLOCK
                       then Some (WouldBlock, set_sleep receiver 0 (upd_ipc receiver (\<lambda>r. r\<lparr>ipc_state := IpcReady,
                              ipc_status := WouldBlock, waiting_endpoint := None\<rparr>) s3))
                       else let s4 = set_sleep receiver (if timeout = IPC_TIMEOUT_INFINITE then 0 else timeout)
                                  (upd_ipc receiver (\<lambda>r. r\<lparr>ipc_state := Receiving,
                                     waiting_endpoint := Some e\<rparr>) s3)
                            in do { (rq, s5) \<leftarrow> wq_enqueue (recv_queue (endpoints s4 e)) (Some receiver) s4;
                                    let s6 = set_recv_queue e rq s5;
                                    Some (Ok, set_task_state (task_id (sched s6 receiver)) Blocked_On_Notify s6) }) })"

definition nb_call :: "nat \<Rightarrow> nat option \<Rightarrow> u32 \<Rightarrow> u32 \<Rightarrow> u32 \<Rightarrow> u32 \<Rightarrow> u32 \<Rightarrow> kernel \<Rightarrow> (ipc_status \<times> kernel) option" where
  "nb_call e sp msg len reply max_reply badge = call e sp msg len reply max_reply IPC_NONBLOCK badge"

definition nb_receive :: "nat \<Rightarrow> nat option \<Rightarrow> u32 \<Rightarrow> u32 \<Rightarrow> u32 \<Rightarrow> kernel \<Rightarrow> (ipc_status \<times> kernel) option" where
  "nb_receive e rp buf cap filt = receive e rp buf cap IPC_NONBLOCK filt"

definition reply :: "nat option \<Rightarrow> nat \<Rightarrow> u32 \<Rightarrow> u32 \<Rightarrow> kernel \<Rightarrow> ipc_status \<times> kernel" where
  "reply rp to_id reply_msg len s =
     (case rp of
        None \<Rightarrow> (Invalid, s)
      | Some receiver \<Rightarrow>
          if to_id \<ge> MAX_TASKS then (ReceiverDead, s)
          else
            (case get_task_by_id to_id s of
               None \<Rightarrow> (ReceiverDead, s)
             | Some sender \<Rightarrow>
                 if ipc_state (ipcx s sender) = ReplyBlocked
                    \<and> receiver_id (ipcx s sender) = task_id (sched s receiver)
                 then
                   let (n, s1) = transfer (clamp_len len (max_len (ipcx s sender)))
                                   (reply_buf (ipcx s sender)) reply_msg s;
                       s2 = set_sleep sender 0 (upd_ipc sender (\<lambda>r. r\<lparr>msg_len := n,
                              ipc_state := IpcReady, ipc_status := Ok, waiting_endpoint := None\<rparr>) s1);
                       s3 = set_task_state (task_id (sched s2 sender)) Ready s2
                   in (Ok, recalculate_receiver_priority (Some receiver) s3)
                 else (Invalid, s)))"

text \<open>Waking a waiter with a reason: the writes shared by the cancellations.\<close>

definition wake_with :: "nat \<Rightarrow> ipc_status \<Rightarrow> kernel \<Rightarrow> kernel" where
  "wake_with t reason s =
     (let s1 = set_sleep t 0 (upd_ipc t (\<lambda>r. r\<lparr>waiting_endpoint := None, ipc_state := IpcReady,
                 ipc_status := reason\<rparr>) s)
      in set_task_state (task_id (sched s1 t)) Ready s1)"

definition cancel_waiter :: "nat \<Rightarrow> nat option \<Rightarrow> ipc_status \<Rightarrow> kernel \<Rightarrow> kernel option" where
  "cancel_waiter e tp reason s =
     (case tp of
        None \<Rightarrow> Some s
      | Some t \<Rightarrow>
          do { (_, sq, s1) \<leftarrow> wq_remove (send_queue (endpoints s e)) (Some t) s;
               let s2 = set_send_queue e sq s1;
               (_, rq, s3) \<leftarrow> wq_remove (recv_queue (endpoints s2 e)) (Some t) s2;
               let s4 = set_recv_queue e rq s3;
               let rid = receiver_id (ipcx s4 t);
               let was_reply_blocked = (ipc_state (ipcx s4 t) = ReplyBlocked);
               let s5 = wake_with t reason s4;
               Some (if was_reply_blocked \<and> rid < MAX_TASKS
                     then recalculate_receiver_priority (get_task_by_id rid s5) s5 else s5) })"

text \<open>
  \<open>cancel_all\<close> drains both queues and then wakes every task that waits for this endpoint.
  Its drain loops end when the queue is empty; the links decide whether that happens.
\<close>

partial_function (option) drain_send :: "nat \<Rightarrow> ipc_status \<Rightarrow> kernel \<Rightarrow> kernel option" where
  "drain_send e reason s =
     (if wq_head (send_queue (endpoints s e)) = None then Some s
      else
        let (tp, q, s1) = wq_dequeue (send_queue (endpoints s e)) s;
            s2 = set_send_queue e q s1
        in drain_send e reason (case tp of None \<Rightarrow> s2
             | Some t \<Rightarrow> wake_with t reason (set_bnext t None s2)))"

partial_function (option) drain_recv :: "nat \<Rightarrow> ipc_status \<Rightarrow> kernel \<Rightarrow> kernel option" where
  "drain_recv e reason s =
     (if wq_head (recv_queue (endpoints s e)) = None then Some s
      else
        let (tp, q, s1) = wq_dequeue (recv_queue (endpoints s e)) s;
            s2 = set_recv_queue e q s1
        in drain_recv e reason (case tp of None \<Rightarrow> s2
             | Some t \<Rightarrow> recalculate_receiver_priority (Some t) (wake_with t reason (set_bnext t None s2))))"

definition cancel_reply_waiter :: "nat \<Rightarrow> ipc_status \<Rightarrow> kernel \<Rightarrow> nat \<Rightarrow> kernel" where
  "cancel_reply_waiter e reason s i =
     (case get_task (int i) s of
        None \<Rightarrow> s
      | Some t \<Rightarrow>
          if waiting_endpoint (ipcx s t) = Some e
          then let rec_id = receiver_id (ipcx s t);
                   s1 = wake_with t reason (set_bnext t None s)
               in if rec_id < MAX_TASKS then recalculate_receiver_priority (get_task_by_id rec_id s1) s1
                  else s1
          else s)"

definition cancel_all :: "nat \<Rightarrow> ipc_status \<Rightarrow> kernel \<Rightarrow> kernel option" where
  "cancel_all e reason s =
     do { s1 \<leftarrow> drain_send e reason s;
          s2 \<leftarrow> drain_recv e reason s1;
          Some (foldl (cancel_reply_waiter e reason) s2 [0..<task_count s2]) }"

section \<open>Ticks\<close>

definition canary_broken :: "kernel \<Rightarrow> nat \<Rightarrow> bool" where
  "canary_broken s i \<longleftrightarrow>
     stack_canary_ptr (task (tasks s i)) \<noteq> 0
     \<and> load_word (stack_canary_ptr (task (tasks s i))) (mem s) \<noteq> STACK_CANARY
     \<and> sched_state (sched s i) \<noteq> Terminated"

definition ipc_waiting :: "kernel \<Rightarrow> nat \<Rightarrow> bool" where
  "ipc_waiting s i \<longleftrightarrow> ipc_state (ipcx s i) = Sending \<or> ipc_state (ipcx s i) = Receiving
     \<or> ipc_state (ipcx s i) = ReplyBlocked"

definition expire :: "nat \<Rightarrow> kernel \<Rightarrow> kernel option" where
  "expire i s =
     (case waiting_endpoint (ipcx s i) of
        Some e \<Rightarrow> cancel_waiter e (Some i) Timeout s
      | None \<Rightarrow> Some (set_task_state i Ready
                  (upd_ipc i (\<lambda>r. r\<lparr>ipc_state := IpcReady, ipc_status := Timeout\<rparr>) s)))"

definition tick_task :: "nat \<Rightarrow> kernel \<Rightarrow> kernel option" where
  "tick_task i s =
     (if canary_broken s i then Some (set_task_state i Terminated s)
      else if sched_state (sched s i) = Sleeping
      then let s1 = (if sleep_ticks (sched s i) > 0 then set_sleep i (sleep_ticks (sched s i) - 1) s else s)
           in Some (if sleep_ticks (sched s1 i) = 0 then set_task_state i Ready s1 else s1)
      else if ipc_waiting s i
      then if sleep_ticks (sched s i) > 0
           then let s1 = set_sleep i (sleep_ticks (sched s i) - 1) s
                in if sleep_ticks (sched s1 i) = 0 then expire i s1 else Some s1
           else Some s
      else Some s)"

fun for_tasks :: "(nat \<Rightarrow> kernel \<Rightarrow> kernel option) \<Rightarrow> nat list \<Rightarrow> kernel \<Rightarrow> kernel option" where
  "for_tasks f [] s = Some s"
| "for_tasks f (i # is) s = do { s1 \<leftarrow> f i s; for_tasks f is s1 }"

definition tick_update :: "kernel \<Rightarrow> kernel option" where
  "tick_update s = for_tasks tick_task [0..<task_count s] s"

definition compensate_task :: "u32 \<Rightarrow> nat \<Rightarrow> kernel \<Rightarrow> kernel option" where
  "compensate_task skipped i s =
     (if sched_state (sched s i) = Sleeping \<and> sleep_ticks (sched s i) > 0
      then if sleep_ticks (sched s i) > skipped
           then Some (set_sleep i (sleep_ticks (sched s i) - skipped) s)
           else Some (set_task_state i Ready (set_sleep i 0 s))
      else if ipc_waiting s i \<and> sleep_ticks (sched s i) > 0
      then if sleep_ticks (sched s i) > skipped
           then Some (set_sleep i (sleep_ticks (sched s i) - skipped) s)
           else expire i (set_sleep i 0 s)
      else Some s)"

definition compensate_ticks :: "u32 \<Rightarrow> kernel \<Rightarrow> kernel option" where
  "compensate_ticks skipped s = for_tasks (compensate_task skipped) [0..<task_count s] s"

end
