(* ===== verification/Ipc_Invariant.thy ===== *)
theory Ipc_Invariant
  imports Ipc
begin

text \<open>
  The invariant of the endpoints: every endpoint queue represents a line, a task stands in
  exactly the line its own state and endpoint pointer name, a waiting task is neither ready nor sleeping, and a
  task that owes a reply runs at least at the priority of those who wait for it. Every endpoint
  operation and both tick handlers return and keep it.
\<close>

section \<open>What the operations leave alone\<close>

named_theorems ipc_simps \<open>control block fields after the steps of an endpoint operation\<close>

lemma upd_ipc_fields [ipc_simps]:
  "ipcx (upd_ipc i f s) j = (if j = i then f (ipcx s i) else ipcx s j)"
  "sched (upd_ipc i f s) j = sched s j" "secx (upd_ipc i f s) j = secx s j"
  "task (tasks (upd_ipc i f s) j) = task (tasks s j)"
  by (simp_all add: kernel_simps)

lemma set_sleep_fields [ipc_simps]:
  "ipcx (set_sleep i n s) j = ipcx s j" "secx (set_sleep i n s) j = secx s j"
  "task (tasks (set_sleep i n s) j) = task (tasks s j)"
  "sleep_ticks (sched (set_sleep i n s) j) = (if j = i then n else sleep_ticks (sched s j))"
  "sched_state (sched (set_sleep i n s) j) = sched_state (sched s j)"
  "task_id (sched (set_sleep i n s) j) = task_id (sched s j)"
  "tprio (set_sleep i n s) j = tprio s j"
  "base_priority (sched (set_sleep i n s) j) = base_priority (sched s j)"
  "task_count (set_sleep i n s) = task_count s" "endpoints (set_sleep i n s) = endpoints s"
  "mem (set_sleep i n s) = mem s" "sched_view (set_sleep i n s) = sched_view s"
  by (simp_all add: set_sleep_def kernel_simps view_simps)

lemma set_task_state_fields [ipc_simps]:
  "ipcx (set_task_state i st s) j = ipcx s j" "secx (set_task_state i st s) j = secx s j"
  "task (tasks (set_task_state i st s) j) = task (tasks s j)"
  "sleep_ticks (sched (set_task_state i st s) j) = sleep_ticks (sched s j)"
  "sched_state (sched (set_task_state i st s) j) =
     (if j = i \<and> i < MAX_TASKS \<and> i < task_count s then st else sched_state (sched s j))"
  "task_id (sched (set_task_state i st s) j) = task_id (sched s j)"
  "tprio (set_task_state i st s) j = tprio s j"
  "base_priority (sched (set_task_state i st s) j) = base_priority (sched s j)"
  "endpoints (set_task_state i st s) = endpoints s" "mem (set_task_state i st s) = mem s"
  "task_count (set_task_state i st s) = task_count s"
  by (auto simp: set_task_state_def Let_def kernel_simps)

lemma set_task_priority_fields [ipc_simps]:
  "ipcx (set_task_priority i p s) j = ipcx s j" "secx (set_task_priority i p s) j = secx s j"
  "task (tasks (set_task_priority i p s) j) = task (tasks s j)"
  "sleep_ticks (sched (set_task_priority i p s) j) = sleep_ticks (sched s j)"
  "sched_state (sched (set_task_priority i p s) j) = sched_state (sched s j)"
  "task_id (sched (set_task_priority i p s) j) = task_id (sched s j)"
  "tprio (set_task_priority i p s) j =
     (if j = i \<and> i < MAX_TASKS \<and> i < task_count s then p else tprio s j)"
  "base_priority (sched (set_task_priority i p s) j) = base_priority (sched s j)"
  "endpoints (set_task_priority i p s) = endpoints s" "mem (set_task_priority i p s) = mem s"
  "task_count (set_task_priority i p s) = task_count s"
  by (auto simp: set_task_priority_def Let_def kernel_simps)

lemma set_queue_fields [ipc_simps]:
  "tasks (set_send_queue e q s) = tasks s" "tasks (set_recv_queue e q s) = tasks s"
  "task_count (set_send_queue e q s) = task_count s" "task_count (set_recv_queue e q s) = task_count s"
  "mem (set_send_queue e q s) = mem s" "mem (set_recv_queue e q s) = mem s"
  "endpoints (set_send_queue e q s) = (endpoints s)(e := (endpoints s e)\<lparr>send_queue := q\<rparr>)"
  "endpoints (set_recv_queue e q s) = (endpoints s)(e := (endpoints s e)\<lparr>recv_queue := q\<rparr>)"
  "sched_view (set_send_queue e q s) = sched_view s" "sched_view (set_recv_queue e q s) = sched_view s"
  by (simp_all add: set_send_queue_def set_recv_queue_def view_simps)

lemma transfer_fields [ipc_simps]:
  "tasks (snd (transfer n d a s)) = tasks s" "task_count (snd (transfer n d a s)) = task_count s"
  "endpoints (snd (transfer n d a s)) = endpoints s"
  "sched_view (snd (transfer n d a s)) = sched_view s"
  by (simp_all add: transfer_def view_simps)

lemma deliver_fields [ipc_simps]:
  "ipcx (deliver r i n b m s) j = (if j = r then (ipcx s r)\<lparr>msg_len := n, sender_id := i, ipc_badge := b,
     msg_type := m, ipc_state := IpcReady, ipc_status := Ok, waiting_endpoint := None\<rparr> else ipcx s j)"
  "sched_state (sched (deliver r i n b m s) j) = sched_state (sched s j)"
  "task_id (sched (deliver r i n b m s) j) = task_id (sched s j)"
  "tprio (deliver r i n b m s) j = tprio s j"
  "sleep_ticks (sched (deliver r i n b m s) j) = (if j = r then 0 else sleep_ticks (sched s j))"
  "base_priority (sched (deliver r i n b m s) j) = base_priority (sched s j)"
  "task_count (deliver r i n b m s) = task_count s" "endpoints (deliver r i n b m s) = endpoints s"
  "mem (deliver r i n b m s) = mem s" "sched_view (deliver r i n b m s) = sched_view s"
  by (simp_all add: deliver_def ipc_simps kernel_simps view_simps)

lemma upd_ipc_kernel [ipc_simps]:
  "task_count (upd_ipc i f s) = task_count s" "endpoints (upd_ipc i f s) = endpoints s"
  "mem (upd_ipc i f s) = mem s" "sched_view (upd_ipc i f s) = sched_view s"
  by (simp_all add: kernel_simps view_simps)

text \<open>The links: only the queue operations write them.\<close>

lemma bn_fields [ipc_simps]:
  "bn (set_sleep i n s) = bn s" "bn (set_task_state i st s) = bn s"
  "bn (set_task_priority i p s) = bn s" "bn (set_send_queue e q s) = bn s"
  "bn (set_recv_queue e q s) = bn s" "bn (snd (transfer n d a s)) = bn s"
  "bn (deliver r k n b m s) = bn s"
  by (simp_all add: bn_def ipc_simps fun_eq_iff)

lemma bn_upd_ipc [ipc_simps]:
  "(\<And>r. blocked_next (f r) = blocked_next r) \<Longrightarrow> bn (upd_ipc i f s) = bn s"
  by (simp add: bn_def ipc_simps fun_eq_iff)

section \<open>The invariant\<close>

definition queued :: "ipc_state \<Rightarrow> bool" where
  "queued k \<longleftrightarrow> k = Sending \<or> k = Receiving"

definition line_of :: "ipc_state \<Rightarrow> endpoint \<Rightarrow> wait_queue" where
  "line_of k ep = (if k = Sending then send_queue ep else recv_queue ep)"

definition wait_key :: "kernel \<Rightarrow> nat \<Rightarrow> ipc_state \<times> nat option" where
  "wait_key s t = (ipc_state (ipcx s t), waiting_endpoint (ipcx s t))"

definition lines :: "(ipc_state \<Rightarrow> nat \<Rightarrow> nat list) \<Rightarrow> kernel \<Rightarrow> bool" where
  "lines L s \<longleftrightarrow> (\<forall>k e. queued k \<longrightarrow>
     wq_rep (line_of k (endpoints s e)) (bn s) (L k e)
     \<and> set (L k e) = {t. t < task_count s \<and> wait_key s t = (k, Some e)})"

definition pip :: "kernel \<Rightarrow> bool" where
  "pip s \<longleftrightarrow> (\<forall>t < task_count s. base_priority (sched s t) \<le> tprio s t
     \<and> (ipc_state (ipcx s t) = ReplyBlocked \<longrightarrow> receiver_id (ipcx s t) < task_count s
          \<longrightarrow> tprio s t \<le> tprio s (receiver_id (ipcx s t))))"

definition asleep :: "kernel \<Rightarrow> bool" where
  "asleep s \<longleftrightarrow> (\<forall>t < task_count s. ipc_waiting s t \<longrightarrow>
     sched_state (sched s t) \<noteq> Ready \<and> sched_state (sched s t) \<noteq> Sleeping)"

definition ipc_inv :: "kernel \<Rightarrow> bool" where
  "ipc_inv s \<longleftrightarrow> ready_ok s \<and> (\<exists>L. lines L s) \<and> pip s \<and> asleep s"

lemma linesD:
  assumes "lines L s" "queued k"
  shows "wq_rep (line_of k (endpoints s e)) (bn s) (L k e)"
    "set (L k e) = {t. t < task_count s \<and> wait_key s t = (k, Some e)}"
  using assms by (simp_all add: lines_def)

text \<open>One line changes; the tasks whose links change stand in no other line.\<close>

lemma lines_update:
  assumes inv: "lines L s" and k: "queued k"
    and rep: "wq_rep (line_of k (endpoints s' e)) (bn s') xs"
    and set_xs: "set xs = {t. t < task_count s' \<and> wait_key s' t = (k, Some e)}"
    and count: "task_count s' = task_count s"
    and links: "\<And>x j e'. queued j \<Longrightarrow> (j, e') \<noteq> (k, e) \<Longrightarrow> x \<in> set (L j e') \<Longrightarrow> bn s' x = bn s x"
    and queues: "\<And>j e'. queued j \<Longrightarrow> (j, e') \<noteq> (k, e) \<Longrightarrow>
       line_of j (endpoints s' e') = line_of j (endpoints s e')"
    and keys: "\<And>x j e'. queued j \<Longrightarrow> (j, e') \<noteq> (k, e) \<Longrightarrow> x < task_count s \<Longrightarrow>
       wait_key s' x = (j, Some e') \<longleftrightarrow> wait_key s x = (j, Some e')"
  shows "lines (L(k := (L k)(e := xs))) s'"
  unfolding lines_def
proof (intro allI impI conjI)
  fix j e' assume j: "queued j"
  show "wq_rep (line_of j (endpoints s' e')) (bn s') ((L(k := (L k)(e := xs))) j e')"
  proof (cases "(j, e') = (k, e)")
    case False
    have "wq_rep (line_of j (endpoints s e')) (bn s') (L j e')"
      using linesD(1) [OF inv j, of e'] wq_rep_cong [of "L j e'" "bn s'" "bn s"] links [OF j False] by blast
    then show ?thesis using False queues [OF j False] by auto
  qed (use rep in simp)
  show "set ((L(k := (L k)(e := xs))) j e') = {t. t < task_count s' \<and> wait_key s' t = (j, Some e')}"
  proof (cases "(j, e') = (k, e)")
    case False
    then have "(L(k := (L k)(e := xs))) j e' = L j e'" by auto
    then show ?thesis using linesD(2) [OF inv j, of e'] keys [OF j False] count by auto
  qed (use set_xs in simp)
qed

text \<open>Nothing the lines depend on changes.\<close>

lemma lines_same:
  assumes "lines L s" "bn s' = bn s" "endpoints s' = endpoints s" "task_count s' = task_count s"
    and "\<And>t k e. t < task_count s \<Longrightarrow> queued k \<Longrightarrow>
      wait_key s' t = (k, Some e) \<longleftrightarrow> wait_key s t = (k, Some e)"
  shows "lines L s'"
  using assms unfolding lines_def by (auto simp: set_eq_iff)

section \<open>Priority inheritance\<close>

lemma ok_facts:
  assumes "ready_ok s" "t < task_count s"
  shows "t < MAX_TASKS" "task_id (sched s t) = t" "tprio s t < NUM_PRIORITIES"
    "base_priority (sched s t) < NUM_PRIORITIES"
  using ready_inv_facts [of "queue_of s" s t] assms by (simp_all add: ready_ok_def)

text \<open>The running maximum of a scan.\<close>

lemma foldl_max:
  fixes g :: "'a \<Rightarrow> nat" and P :: "'a \<Rightarrow> bool"
  defines "m \<equiv> foldl (\<lambda>b i. if P i \<and> g i > b then g i else b)"
  shows "b \<le> m b xs" "\<And>i. i \<in> set xs \<Longrightarrow> P i \<Longrightarrow> g i \<le> m b xs"
    "m b xs = b \<or> (\<exists>i \<in> set xs. P i \<and> m b xs = g i)"
proof (induction xs arbitrary: b)
  case (Cons x xs)
  { case 1 show ?case using Cons.IH(1) [of "g x"] Cons.IH(1) [of b] by (auto simp: m_def) }
  { case (2 i) then show ?case using Cons.IH(1) [of "g x"] Cons.IH(1) [of b] Cons.IH(2) [of i]
      by (auto simp: m_def intro: order_trans) }
  { case 3 show ?case using Cons.IH(3) [of "g x"] Cons.IH(3) [of b] by (auto simp: m_def) }
qed (simp_all add: m_def)

lemma inherited_priority_spec:
  assumes ok: "ready_ok s" and r: "r < task_count s"
  shows "base_priority (sched s r) \<le> inherited_priority r s"
    and "\<And>t. t < task_count s \<Longrightarrow> ipc_state (ipcx s t) = ReplyBlocked \<Longrightarrow> receiver_id (ipcx s t) = r
      \<Longrightarrow> tprio s t \<le> inherited_priority r s"
    and "inherited_priority r s = base_priority (sched s r)
      \<or> (\<exists>t < task_count s. ipc_state (ipcx s t) = ReplyBlocked \<and> receiver_id (ipcx s t) = r
            \<and> inherited_priority r s = tprio s t)"
proof -
  let ?P = "\<lambda>i. ipc_state (ipcx s i) = ReplyBlocked \<and> receiver_id (ipcx s i) = r"
  have eq: "inherited_priority r s = foldl (\<lambda>b i. if ?P i \<and> tprio s i > b then tprio s i else b)
      (base_priority (sched s r)) [0..<task_count s]"
    by (simp add: inherited_priority_def ok_facts(2) [OF ok r])
  note m = foldl_max [where P = ?P and g = "tprio s" and b = "base_priority (sched s r)"
      and xs = "[0..<task_count s]", folded eq]
  show "base_priority (sched s r) \<le> inherited_priority r s" by (rule m(1))
  show "tprio s t \<le> inherited_priority r s" if "t < task_count s" "ipc_state (ipcx s t) = ReplyBlocked"
    "receiver_id (ipcx s t) = r" for t using m(2) [of t] that by simp
  show "inherited_priority r s = base_priority (sched s r)
      \<or> (\<exists>t < task_count s. ipc_state (ipcx s t) = ReplyBlocked \<and> receiver_id (ipcx s t) = r
            \<and> inherited_priority r s = tprio s t)" using m(3) by auto
qed

lemma inherited_priority_lt:
  assumes "ready_ok s" "r < task_count s" shows "inherited_priority r s < NUM_PRIORITIES"
  using inherited_priority_spec(3) [OF assms] ok_facts(3,4) [OF assms(1)] assms(2) by metis

lemma recalculate_eq:
  assumes "ready_ok s" "r < task_count s"
  shows "recalculate_receiver_priority (Some r) s = set_task_priority r (inherited_priority r s) s"
  using ok_facts(2) [OF assms] by (simp add: recalculate_receiver_priority_def)

lemma recalculate_ok:
  assumes "ready_ok s" "\<And>r. rp = Some r \<Longrightarrow> r < task_count s"
  shows "ready_ok (recalculate_receiver_priority rp s)"
proof (cases rp)
  case (Some r)
  then show ?thesis using assms recalculate_eq inherited_priority_lt
    by (simp add: set_task_priority_ok del: NUM_PRIORITIES_def)
qed (simp add: recalculate_receiver_priority_def assms(1))

lemma recalculate_fields [ipc_simps]:
  "ipcx (recalculate_receiver_priority rp s) j = ipcx s j"
  "sched_state (sched (recalculate_receiver_priority rp s) j) = sched_state (sched s j)"
  "sleep_ticks (sched (recalculate_receiver_priority rp s) j) = sleep_ticks (sched s j)"
  "base_priority (sched (recalculate_receiver_priority rp s) j) = base_priority (sched s j)"
  "task_id (sched (recalculate_receiver_priority rp s) j) = task_id (sched s j)"
  "task (tasks (recalculate_receiver_priority rp s) j) = task (tasks s j)"
  "endpoints (recalculate_receiver_priority rp s) = endpoints s"
  "mem (recalculate_receiver_priority rp s) = mem s"
  "task_count (recalculate_receiver_priority rp s) = task_count s"
  "bn (recalculate_receiver_priority rp s) = bn s"
  by (simp_all add: recalculate_receiver_priority_def ipc_simps split: option.split)

text \<open>Dropping a reply obligation, or recomputing a priority, keeps the inheritance order.\<close>

lemma pip_weaken:
  assumes "pip s" "task_count s' = task_count s"
    and "\<And>t. t < task_count s \<Longrightarrow> tprio s' t = tprio s t \<and> base_priority (sched s' t) = base_priority (sched s t)"
    and "\<And>t. t < task_count s \<Longrightarrow> ipc_state (ipcx s' t) = ReplyBlocked \<Longrightarrow>
      ipc_state (ipcx s t) = ReplyBlocked \<and> receiver_id (ipcx s' t) = receiver_id (ipcx s t)"
  shows "pip s'"
  using assms unfolding pip_def by (metis (no_types, lifting))

lemma recalculate_pip:
  assumes ok: "ready_ok s" and pip: "pip s" and r: "\<And>r. rp = Some r \<Longrightarrow> r < task_count s"
  shows "pip (recalculate_receiver_priority rp s)"
proof (cases rp)
  case (Some r)
  with r have r: "r < task_count s" by simp
  let ?p = "inherited_priority r s"
  note sp = inherited_priority_spec [OF ok r]
  have le: "?p \<le> tprio s r" using sp(3) pip r by (auto simp: pip_def)
  show ?thesis
    unfolding pip_def Some recalculate_eq [OF ok r]
  proof (intro allI impI conjI)
    fix t assume "t < task_count (set_task_priority r ?p s)"
    then have t: "t < task_count s" by (simp add: ipc_simps)
    then show "base_priority (sched (set_task_priority r ?p s) t) \<le> tprio (set_task_priority r ?p s) t"
      using pip sp(1) by (auto simp: ipc_simps pip_def)
    assume "ipc_state (ipcx (set_task_priority r ?p s) t) = ReplyBlocked"
      and "receiver_id (ipcx (set_task_priority r ?p s) t) < task_count (set_task_priority r ?p s)"
    then have b: "ipc_state (ipcx s t) = ReplyBlocked" "receiver_id (ipcx s t) < task_count s"
      by (simp_all add: ipc_simps)
    then have "tprio s t \<le> tprio s (receiver_id (ipcx s t))" using pip t by (simp add: pip_def)
    then show "tprio (set_task_priority r ?p s) t
        \<le> tprio (set_task_priority r ?p s) (receiver_id (ipcx (set_task_priority r ?p s) t))"
      using sp(2) [OF t b(1)] le by (auto simp: ipc_simps)
  qed
qed (simp add: recalculate_receiver_priority_def pip)

lemma inherit_from_fields [ipc_simps]:
  "ipcx (inherit_from a r s) j = ipcx s j"
  "sched_state (sched (inherit_from a r s) j) = sched_state (sched s j)"
  "sleep_ticks (sched (inherit_from a r s) j) = sleep_ticks (sched s j)"
  "base_priority (sched (inherit_from a r s) j) = base_priority (sched s j)"
  "task_id (sched (inherit_from a r s) j) = task_id (sched s j)"
  "endpoints (inherit_from a r s) = endpoints s" "mem (inherit_from a r s) = mem s"
  "task_count (inherit_from a r s) = task_count s" "bn (inherit_from a r s) = bn s"
  by (simp_all add: inherit_from_def ipc_simps)

lemma inherit_from_prio:
  assumes "ready_ok s" "r < task_count s"
  shows "tprio (inherit_from a r s) j = (if j = r then max (tprio s r) (tprio s a) else tprio s j)"
  using ok_facts(1,2) [OF assms] assms(2) by (auto simp: inherit_from_def ipc_simps)

lemma inherit_from_ok:
  "ready_ok s \<Longrightarrow> a < task_count s \<Longrightarrow> ready_ok (inherit_from a r s)"
  using ok_facts(3) [of s a] by (simp add: inherit_from_def set_task_priority_ok)

lemma inherit_from_pip:
  assumes ok: "ready_ok s" and r: "r < task_count s" and a: "a < task_count s"
    and base: "\<And>t. t < task_count s \<Longrightarrow> base_priority (sched s t) \<le> tprio s t"
    and rest: "\<And>t. t < task_count s \<Longrightarrow> t \<noteq> a \<Longrightarrow> ipc_state (ipcx s t) = ReplyBlocked \<Longrightarrow>
      receiver_id (ipcx s t) < task_count s \<Longrightarrow> tprio s t \<le> tprio s (receiver_id (ipcx s t))"
    and ends: "receiver_id (ipcx s a) = r" "a \<noteq> r" "ipc_state (ipcx s r) \<noteq> ReplyBlocked"
  shows "pip (inherit_from a r s)"
  unfolding pip_def ipc_simps inherit_from_prio [OF ok r]
proof (intro allI impI conjI)
  fix t assume t: "t < task_count s"
  then show "base_priority (sched s t) \<le> (if t = r then max (tprio s r) (tprio s a) else tprio s t)"
    using base [OF t] by auto
  assume b: "ipc_state (ipcx s t) = ReplyBlocked" "receiver_id (ipcx s t) < task_count s"
  then have "t \<noteq> r" using ends by auto
  then show "(if t = r then max (tprio s r) (tprio s a) else tprio s t)
      \<le> (if receiver_id (ipcx s t) = r then max (tprio s r) (tprio s a) else tprio s (receiver_id (ipcx s t)))"
    using rest [OF t _ b] ends by (cases "t = a") auto
qed

section \<open>Small steps of the invariant\<close>

lemma ready_ok_view: "ready_ok s \<Longrightarrow> sched_view s' = sched_view s \<Longrightarrow> ready_ok s'"
  by (rule rq.inv_view)

lemma set_queue_same [simp]:
  "set_recv_queue e (recv_queue (endpoints s e)) s = s" "set_send_queue e (send_queue (endpoints s e)) s = s"
  by (simp_all add: set_recv_queue_def set_send_queue_def)

lemma queued_simps [simp]: "queued Sending" "queued Receiving" "\<not> queued IpcReady" "\<not> queued ReplyBlocked"
  by (simp_all add: queued_def)

lemma line_of_simps [simp]: "line_of Sending ep = send_queue ep" "line_of Receiving ep = recv_queue ep"
  by (simp_all add: line_of_def)

lemma not_waiting: "\<not> ipc_waiting s t \<Longrightarrow> ipc_state (ipcx s t) = IpcReady"
  by (cases "ipc_state (ipcx s t)") (auto simp: ipc_waiting_def)

end
