(* ===== verification/Ipc_Operations.thy ===== *)
theory Ipc_Operations
  imports Ipc_Invariant
begin

text \<open>
  Every endpoint operation returns and keeps the invariant. An operation takes at most one
  task out of a line and puts at most one into a line; the rest of its writes are outside what
  the lines depend on.
\<close>

section \<open>Leaving and joining a line\<close>

lemma lines_leave:
  assumes inv: "lines L s" and k: "queued k"
    and rep: "wq_rep (line_of k (endpoints s' e)) (bn s') (remove1 c (L k e))"
    and agree: "\<And>x. x \<notin> set (L k e) \<Longrightarrow> bn s' x = bn s x"
    and queues: "\<And>j e'. queued j \<Longrightarrow> (j, e') \<noteq> (k, e) \<Longrightarrow>
       line_of j (endpoints s' e') = line_of j (endpoints s e')"
    and count: "task_count s' = task_count s"
    and key_c: "\<not> queued (ipc_state (ipcx s' c)) \<or> waiting_endpoint (ipcx s' c) = None"
    and key_c_old: "\<And>j e'. queued j \<Longrightarrow> wait_key s c = (j, Some e') \<Longrightarrow> (j, e') = (k, e)"
    and keys: "\<And>x j e'. queued j \<Longrightarrow> x \<noteq> c \<Longrightarrow> x < task_count s \<Longrightarrow>
       wait_key s' x = (j, Some e') \<longleftrightarrow> wait_key s x = (j, Some e')"
  shows "lines (L(k := (L k)(e := remove1 c (L k e)))) s'"
proof (rule lines_update [OF inv k rep _ count _ queues])
  have nc: "wait_key s' c \<noteq> (j, Some e')" if "queued j" for j e' using key_c that by (auto simp: wait_key_def)
  have "distinct (L k e)" using linesD(1) [OF inv k, of e] by (simp add: wq_rep_def)
  then show "set (remove1 c (L k e)) = {t. t < task_count s' \<and> wait_key s' t = (k, Some e)}"
    using linesD(2) [OF inv k, of e] keys [OF k, of _ e] nc [OF k, of e] count by (auto; metis)
  show "bn s' x = bn s x" if "queued j" "(j, e') \<noteq> (k, e)" "x \<in> set (L j e')" for x j e'
    using that linesD(2) [OF inv that(1), of e'] linesD(2) [OF inv k, of e] agree [of x] by auto
  show "wait_key s' x = (j, Some e') \<longleftrightarrow> wait_key s x = (j, Some e')"
    if "queued j" "(j, e') \<noteq> (k, e)" "x < task_count s" for x j e'
    using that keys [OF that(1) _ that(3)] nc [OF that(1)] key_c_old [OF that(1)] by (cases "x = c") auto
qed

lemma lines_join:
  assumes inv: "lines L s" and k: "queued k" and t: "t < task_count s" "\<not> queued (ipc_state (ipcx s t))"
    and rep: "wq_rep (line_of k (endpoints s' e)) (bn s') (wq_insert pr t (L k e))"
    and agree: "\<And>x. x \<notin> insert t (set (L k e)) \<Longrightarrow> bn s' x = bn s x"
    and queues: "\<And>j e'. queued j \<Longrightarrow> (j, e') \<noteq> (k, e) \<Longrightarrow>
       line_of j (endpoints s' e') = line_of j (endpoints s e')"
    and count: "task_count s' = task_count s"
    and key_t: "wait_key s' t = (k, Some e)"
    and keys: "\<And>x. x \<noteq> t \<Longrightarrow> wait_key s' x = wait_key s x"
  shows "lines (L(k := (L k)(e := wq_insert pr t (L k e)))) s'"
proof (rule lines_update [OF inv k rep _ count _ queues])
  have nt: "wait_key s t \<noteq> (j, Some e')" if "queued j" for j e' using t(2) that by (auto simp: wait_key_def)
  show "set (wq_insert pr t (L k e)) = {x. x < task_count s' \<and> wait_key s' x = (k, Some e)}"
  proof (rule set_eqI)
    fix x show "x \<in> set (wq_insert pr t (L k e)) \<longleftrightarrow> x \<in> {x. x < task_count s' \<and> wait_key s' x = (k, Some e)}"
      using linesD(2) [OF inv k, of e] keys [of x] key_t count t(1) by (cases "x = t") auto
  qed
  show "bn s' x = bn s x" if "queued j" "(j, e') \<noteq> (k, e)" "x \<in> set (L j e')" for x j e'
    using that linesD(2) [OF inv that(1), of e'] linesD(2) [OF inv k, of e] agree [of x] nt [OF that(1)] by auto
  show "wait_key s' x = (j, Some e') \<longleftrightarrow> wait_key s x = (j, Some e')"
    if "queued j" "(j, e') \<noteq> (k, e)" "x < task_count s" for x j e'
    using that keys [of x] nt [OF that(1)] key_t by (cases "x = t") auto
qed

section \<open>call\<close>

text \<open>What a call records about the caller before it looks for a receiver.\<close>

definition call_setup :: "nat \<Rightarrow> u32 \<Rightarrow> u32 \<Rightarrow> u32 \<Rightarrow> u32 \<Rightarrow> u32 \<Rightarrow> kernel \<Rightarrow> kernel" where
  "call_setup a msg len rb mx badge s =
     upd_ipc a (\<lambda>r. r\<lparr>msg_type := header_type msg len s\<rparr>)
       (upd_ipc a (\<lambda>r. r\<lparr>reply_buf := rb, max_len := mx, ipc_status := Ok, ipc_badge := badge\<rparr>) s)"

lemma header_type_upd_ipc [simp]: "header_type msg len (upd_ipc i f s) = header_type msg len s"
  by (simp add: header_type_def kernel_simps)

lemma call_setup_fields [ipc_simps]:
  "ipcx (call_setup a msg len rb mx badge s) j = (if j = a then (ipcx s a)\<lparr>reply_buf := rb, max_len := mx,
     ipc_status := Ok, ipc_badge := badge, msg_type := header_type msg len s\<rparr> else ipcx s j)"
  "sched (call_setup a msg len rb mx badge s) j = sched s j"
  "endpoints (call_setup a msg len rb mx badge s) = endpoints s"
  "mem (call_setup a msg len rb mx badge s) = mem s"
  "task_count (call_setup a msg len rb mx badge s) = task_count s"
  "sched_view (call_setup a msg len rb mx badge s) = sched_view s"
  "bn (call_setup a msg len rb mx badge s) = bn s"
  by (simp_all add: call_setup_def ipc_simps kernel_simps view_simps)

abbreviation wait_ticks :: "u32 \<Rightarrow> u32" where
  "wait_ticks timeout \<equiv> (if timeout = IPC_TIMEOUT_INFINITE then 0 else timeout)"

text \<open>The receiver a call finds: the first in line whose filter admits the label.\<close>

definition admits :: "u32 \<Rightarrow> kernel \<Rightarrow> nat \<Rightarrow> bool" where
  "admits label s x \<longleftrightarrow> label_filter (ipcx s x) = 0 \<or> label_filter (ipcx s x) = label"

lemma call_no_receiver:
  assumes inv: "lines L s" and none: "find (admits (header_type msg len s) s) (L Receiving e) = None"
    and a: "ipc_state (ipcx s a) = IpcReady" "a < task_count s"
  shows "timeout = IPC_NONBLOCK \<Longrightarrow> call e (Some a) msg len rb mx timeout badge s =
     Some (WouldBlock, set_sleep a 0 (upd_ipc a (\<lambda>r. r\<lparr>ipc_state := IpcReady, ipc_status := WouldBlock,
       waiting_endpoint := None\<rparr>) (call_setup a msg len rb mx badge s)))"
    and "timeout \<noteq> IPC_NONBLOCK \<Longrightarrow> \<exists>q f.
      call e (Some a) msg len rb mx timeout badge s =
        (let s5 = set_sleep a (wait_ticks timeout) (upd_ipc a (\<lambda>r. r\<lparr>msg_buf := msg, msg_len := len,
              ipc_state := Sending, waiting_endpoint := Some e\<rparr>) (call_setup a msg len rb mx badge s));
             s7 = set_send_queue e q (relink f s5)
         in Some (Ok, set_task_state (task_id (sched s a)) Blocked_On_Notify s7))
      \<and> wq_rep q f (wq_insert (tprio s) a (L Sending e))
      \<and> (\<forall>x. x \<notin> insert a (set (L Sending e)) \<longrightarrow> f x = bn s x)"
proof -
  let ?s2 = "call_setup a msg len rb mx badge s"
  have l: "a \<notin> set (L Receiving e)" "a \<notin> set (L Sending e)"
    using linesD(2) [OF inv] a by (auto simp: wait_key_def)
  have rep: "wq_rep (recv_queue (endpoints ?s2 e)) (bn ?s2) (L Receiving e)"
    using linesD(1) [OF inv, of Receiving e] by (simp add: ipc_simps)
  have "find (\<lambda>x. label_filter (ipcx ?s2 x) = 0 \<or> label_filter (ipcx ?s2 x) = header_type msg len s)
      (L Receiving e) = None"
    using none by (auto simp: find_None_iff admits_def ipc_simps)
  then have d: "dequeue_matching_receiver (header_type msg len s) (recv_queue (endpoints ?s2 e)) ?s2
      = Some (None, recv_queue (endpoints ?s2 e), ?s2)"
    using dequeue_match_refines [OF rep, of "\<lambda>r. label_filter r = 0 \<or> label_filter r = header_type msg len s"]
    by (simp add: dequeue_matching_receiver_def)
  note unfold = call_def Let_def header_type_upd_ipc option.case call_setup_def [symmetric]
  show "call e (Some a) msg len rb mx timeout badge s =
     Some (WouldBlock, set_sleep a 0 (upd_ipc a (\<lambda>r. r\<lparr>ipc_state := IpcReady, ipc_status := WouldBlock,
       waiting_endpoint := None\<rparr>) ?s2))" if "timeout = IPC_NONBLOCK"
    using that unfolding unfold d by simp
  let ?s5 = "set_sleep a (wait_ticks timeout) (upd_ipc a (\<lambda>r. r\<lparr>msg_buf := msg, msg_len := len,
              ipc_state := Sending, waiting_endpoint := Some e\<rparr>) ?s2)"
  have rep: "wq_rep (send_queue (endpoints ?s5 e)) (bn ?s5) (L Sending e)"
    using linesD(1) [OF inv, of Sending e] by (simp add: ipc_simps)
  obtain q f where enq: "wq_enqueue (send_queue (endpoints ?s5 e)) (Some a) ?s5 = Some (q, relink f ?s5)"
    and r: "wq_rep q f (wq_insert (tprio ?s5) a (L Sending e))" "\<forall>x. x \<notin> insert a (set (L Sending e)) \<longrightarrow> f x = bn ?s5 x"
    using enqueue_refines [OF rep l(2)] by blast
  have tp: "tprio ?s5 = tprio s" by (simp add: ipc_simps fun_eq_iff)
  show "\<exists>q f. call e (Some a) msg len rb mx timeout badge s =
        (let s5 = ?s5; s7 = set_send_queue e q (relink f s5)
         in Some (Ok, set_task_state (task_id (sched s a)) Blocked_On_Notify s7))
      \<and> wq_rep q f (wq_insert (tprio s) a (L Sending e))
      \<and> (\<forall>x. x \<notin> insert a (set (L Sending e)) \<longrightarrow> f x = bn s x)" if "timeout \<noteq> IPC_NONBLOCK"
  proof (intro exI [of _ q] exI [of _ f] conjI)
    show "call e (Some a) msg len rb mx timeout badge s =
        (let s5 = ?s5; s7 = set_send_queue e q (relink f s5)
         in Some (Ok, set_task_state (task_id (sched s a)) Blocked_On_Notify s7))"
      using that unfolding unfold d Option.bind.simps prod.case set_queue_same
      by (simp only: if_False enq Option.bind.simps prod.case) (simp add: ipc_simps kernel_simps)
    show "wq_rep q f (wq_insert (tprio s) a (L Sending e))" using r(1) by (simp only: tp)
    show "\<forall>x. x \<notin> insert a (set (L Sending e)) \<longrightarrow> f x = bn s x" using r(2) by (simp add: ipc_simps)
  qed
qed

text \<open>The rendezvous of a caller with a waiting receiver.\<close>

definition meet :: "nat \<Rightarrow> nat \<Rightarrow> u32 \<Rightarrow> u32 \<Rightarrow> u32 \<Rightarrow> u32 \<Rightarrow> kernel \<Rightarrow> kernel" where
  "meet a r msg len badge label s =
     (let (n, s5) = transfer (clamp_len len (max_len (ipcx s r))) (msg_buf (ipcx s r)) msg s;
          s6 = deliver r (task_id (sched s5 a)) n badge label s5
      in upd_ipc a (\<lambda>x. x\<lparr>receiver_id := task_id (sched s6 r)\<rparr>) s6)"

lemma meet_fields:
  assumes "a \<noteq> r"
  shows "ipcx (meet a r msg len badge label s) r = (ipcx s r)\<lparr>
      msg_len := fst (transfer (clamp_len len (max_len (ipcx s r))) (msg_buf (ipcx s r)) msg s),
      sender_id := task_id (sched s a), ipc_badge := badge, msg_type := label, ipc_state := IpcReady,
      ipc_status := Ok, waiting_endpoint := None\<rparr>"
    "ipcx (meet a r msg len badge label s) a = (ipcx s a)\<lparr>receiver_id := task_id (sched s r)\<rparr>"
    "j \<noteq> a \<Longrightarrow> j \<noteq> r \<Longrightarrow> ipcx (meet a r msg len badge label s) j = ipcx s j"
  using assms by (simp_all add: meet_def Let_def split_beta ipc_simps)

lemma meet_keys:
  assumes "a \<noteq> r"
  shows "wait_key (meet a r msg len badge label s) j = (if j = r then (IpcReady, None) else wait_key s j)"
    "receiver_id (ipcx (meet a r msg len badge label s) j) =
       (if j = a then task_id (sched s r) else receiver_id (ipcx s j))"
  using assms by (simp_all add: wait_key_def meet_def Let_def split_beta ipc_simps)

lemma meet_frame [ipc_simps]:
  "sched_state (sched (meet a r msg len badge label s) j) = sched_state (sched s j)"
  "task_id (sched (meet a r msg len badge label s) j) = task_id (sched s j)"
  "tprio (meet a r msg len badge label s) j = tprio s j"
  "base_priority (sched (meet a r msg len badge label s) j) = base_priority (sched s j)"
  "task_count (meet a r msg len badge label s) = task_count s"
  "endpoints (meet a r msg len badge label s) = endpoints s"
  "sched_view (meet a r msg len badge label s) = sched_view s"
  "bn (meet a r msg len badge label s) = bn s"
  by (simp_all add: meet_def Let_def split_beta ipc_simps)

definition call_met :: "nat \<Rightarrow> nat \<Rightarrow> nat \<Rightarrow> u32 \<Rightarrow> kernel \<Rightarrow> kernel" where
  "call_met a r e timeout s =
     set_task_state (task_id (sched s r)) Ready
       (if timeout = IPC_NONBLOCK
        then set_sleep a 0 (upd_ipc a (\<lambda>x. x\<lparr>ipc_state := IpcReady, waiting_endpoint := None\<rparr>) s)
        else inherit_from a r (set_task_state (task_id (sched s a)) Blocked_On_Notify
          (set_sleep a (wait_ticks timeout)
            (upd_ipc a (\<lambda>x. x\<lparr>ipc_state := ReplyBlocked, waiting_endpoint := Some e\<rparr>) s))))"

lemma call_receiver:
  assumes inv: "lines L s" and some: "find (admits (header_type msg len s) s) (L Receiving e) = Some r"
    and a: "ipc_state (ipcx s a) = IpcReady" "a < task_count s"
  shows "r \<in> set (L Receiving e)" "admits (header_type msg len s) s r" "a \<noteq> r" "r < task_count s"
    "wait_key s r = (Receiving, Some e)"
    and "\<exists>q f.
      call e (Some a) msg len rb mx timeout badge s =
        Some (Ok, call_met a r e timeout (meet a r msg len badge (header_type msg len s)
                    (set_recv_queue e q (relink f (call_setup a msg len rb mx badge s)))))
      \<and> wq_rep q f (remove1 r (L Receiving e)) \<and> (\<forall>x. x \<notin> set (L Receiving e) \<longrightarrow> f x = bn s x)"
proof -
  let ?s2 = "call_setup a msg len rb mx badge s"
  from some show r: "r \<in> set (L Receiving e)" "admits (header_type msg len s) s r"
    by (auto simp: find_Some_iff)
  then show "r < task_count s" and k: "wait_key s r = (Receiving, Some e)"
    using linesD(2) [OF inv, of Receiving e] by auto
  then show "a \<noteq> r" using a(1) by (auto simp: wait_key_def)
  have rep: "wq_rep (recv_queue (endpoints ?s2 e)) (bn ?s2) (L Receiving e)"
    using linesD(1) [OF inv, of Receiving e] by (simp add: ipc_simps)
  have "(\<lambda>x. label_filter (ipcx ?s2 x) = 0 \<or> label_filter (ipcx ?s2 x) = header_type msg len s)
      = admits (header_type msg len s) s" by (auto simp: admits_def ipc_simps fun_eq_iff)
  then obtain q f where
    d: "dequeue_matching_receiver (header_type msg len s) (recv_queue (endpoints ?s2 e)) ?s2
      = Some (Some r, q, relink f ?s2)" and w: "wq_rep q f (remove1 r (L Receiving e))"
      "\<forall>x. x \<notin> set (L Receiving e) \<longrightarrow> f x = bn s x"
    using dequeue_match_refines [OF rep, of "\<lambda>r. label_filter r = 0 \<or> label_filter r = header_type msg len s"] some
    by (auto simp: dequeue_matching_receiver_def ipc_simps)
  note unfold = call_def Let_def header_type_upd_ipc option.case call_setup_def [symmetric]
  have "call e (Some a) msg len rb mx timeout badge s =
        Some (Ok, call_met a r e timeout (meet a r msg len badge (header_type msg len s)
                    (set_recv_queue e q (relink f ?s2))))"
    unfolding unfold d Option.bind.simps prod.case
    by (auto simp: call_met_def meet_def Let_def split_beta ipc_simps kernel_simps)
  with w show "\<exists>q f.
      call e (Some a) msg len rb mx timeout badge s =
        Some (Ok, call_met a r e timeout (meet a r msg len badge (header_type msg len s)
                    (set_recv_queue e q (relink f ?s2))))
      \<and> wq_rep q f (remove1 r (L Receiving e)) \<and> (\<forall>x. x \<notin> set (L Receiving e) \<longrightarrow> f x = bn s x)"
    by blast
qed

text \<open>
  The invariant after each way a call ends, from what the steps before leave behind: \<open>s\<close> is the
  state at the call, \<open>s2\<close> the state the last steps start from.
\<close>

definition scheduled_as :: "kernel \<Rightarrow> kernel \<Rightarrow> bool" where
  "scheduled_as s s' \<longleftrightarrow> sched_view s' = sched_view s \<and> task_count s' = task_count s
     \<and> (\<forall>j. sched_state (sched s' j) = sched_state (sched s j) \<and> task_id (sched s' j) = task_id (sched s j)
          \<and> tprio s' j = tprio s j \<and> base_priority (sched s' j) = base_priority (sched s j))"

lemma scheduled_asD:
  assumes "scheduled_as s s'"
  shows "sched_view s' = sched_view s" "task_count s' = task_count s"
    "sched_state (sched s' j) = sched_state (sched s j)" "task_id (sched s' j) = task_id (sched s j)"
    "tprio s' j = tprio s j" "base_priority (sched s' j) = base_priority (sched s j)"
  using assms by (simp_all add: scheduled_as_def)

lemma give_up_inv:
  assumes inv: "ipc_inv s" and a: "a < task_count s" "ipc_state (ipcx s a) = IpcReady"
    and s2: "scheduled_as s s2" "bn s2 = bn s" "endpoints s2 = endpoints s"
      "\<And>j. j \<noteq> a \<Longrightarrow> ipcx s2 j = ipcx s j"
  shows "ipc_inv (set_sleep a 0 (upd_ipc a (\<lambda>r. r\<lparr>ipc_state := IpcReady, ipc_status := WouldBlock,
       waiting_endpoint := None\<rparr>) s2))" (is "ipc_inv ?s'")
proof -
  from inv obtain L where l: "lines L s" and ok: "ready_ok s" and pip: "pip s" and sl: "asleep s"
    by (auto simp: ipc_inv_def)
  note d = scheduled_asD [OF s2(1)]
  have f: "ipcx ?s' j = (if j = a then (ipcx s2 a)\<lparr>ipc_state := IpcReady, ipc_status := WouldBlock,
       waiting_endpoint := None\<rparr> else ipcx s j)" for j using s2(4) by (simp add: ipc_simps)
  have "lines L ?s'"
    by (rule lines_same [OF l]) (use a s2(2-4) d(2) in \<open>auto simp: f wait_key_def ipc_simps\<close>)
  moreover have "ready_ok ?s'" using ok by (rule ready_ok_view) (simp add: ipc_simps d)
  moreover have "pip ?s'"
    by (rule pip_weaken [OF pip], unfold f) (auto simp: ipc_simps d split: if_splits)
  moreover have "asleep ?s'"
    using sl unfolding asleep_def ipc_waiting_def f by (auto simp: ipc_simps d)
  ultimately show ?thesis by (auto simp: ipc_inv_def)
qed

lemma join_inv:
  assumes inv: "ipc_inv s" and l: "lines L s" and k: "queued k"
    and a: "a < task_count s" "ipc_state (ipcx s a) = IpcReady"
    and s2: "scheduled_as s s2" "\<And>j. j \<noteq> a \<Longrightarrow> wait_key s2 j = wait_key s j \<and> receiver_id (ipcx s2 j) = receiver_id (ipcx s j)"
      "wait_key s2 a = (k, Some e)"
    and ep: "line_of k (endpoints s2 e) = q"
       "\<And>j e'. queued j \<Longrightarrow> (j, e') \<noteq> (k, e) \<Longrightarrow> line_of j (endpoints s2 e') = line_of j (endpoints s e')"
    and w: "wq_rep q (bn s2) (wq_insert pr a (L k e))" "\<And>x. x \<notin> insert a (set (L k e)) \<Longrightarrow> bn s2 x = bn s x"
  shows "ipc_inv (set_task_state (task_id (sched s2 a)) Blocked_On_Notify s2)" (is "ipc_inv ?s'")
proof -
  from inv have ok: "ready_ok s" and pip: "pip s" and sl: "asleep s" by (auto simp: ipc_inv_def)
  note d = scheduled_asD [OF s2(1)] and id = ok_facts(1,2) [OF ok a(1)]
  have key: "wait_key ?s' j = (if j = a then (k, Some e) else wait_key s j)" for j
    using s2(2,3) by (simp add: wait_key_def ipc_simps)
  have st: "ipc_state (ipcx ?s' j) = (if j = a then k else ipc_state (ipcx s j))" for j
    using key [of j] by (simp add: wait_key_def split: if_splits)
  have "lines (L(k := (L k)(e := wq_insert pr a (L k e)))) ?s'"
    by (rule lines_join [OF l k]) (use a w ep key d(2) in \<open>auto simp: ipc_simps\<close>)
  moreover have "ready_ok ?s'" by (intro set_task_state_ok ready_ok_view [OF ok d(1)])
  moreover have "pip ?s'"
    by (rule pip_weaken [OF pip], unfold st)
      (use k s2(2) in \<open>auto simp: ipc_simps d queued_def split: if_splits\<close>)
  moreover have "asleep ?s'"
    using sl id a unfolding asleep_def ipc_waiting_def st by (auto simp: ipc_simps d)
  ultimately show ?thesis by (auto simp: ipc_inv_def)
qed

lemma call_met_inv:
  assumes inv: "ipc_inv s" and l: "lines L s"
    and a: "a < task_count s" "ipc_state (ipcx s a) = IpcReady"
    and r: "r < task_count s" "a \<noteq> r" "wait_key s r = (Receiving, Some e)"
    and s7: "scheduled_as s s7" "\<And>j. wait_key s7 j = (if j = r then (IpcReady, None) else wait_key s j)"
      "\<And>j. receiver_id (ipcx s7 j) = (if j = a then r else receiver_id (ipcx s j))"
    and ep: "line_of Receiving (endpoints s7 e) = q"
       "\<And>j e'. queued j \<Longrightarrow> (j, e') \<noteq> (Receiving, e) \<Longrightarrow> line_of j (endpoints s7 e') = line_of j (endpoints s e')"
    and w: "wq_rep q (bn s7) (remove1 r (L Receiving e))" "\<And>x. x \<notin> set (L Receiving e) \<Longrightarrow> bn s7 x = bn s x"
  shows "ipc_inv (call_met a r e timeout s7)" (is "ipc_inv ?s'")
proof -
  from inv have ok: "ready_ok s" and pip: "pip s" and sl: "asleep s" by (auto simp: ipc_inv_def)
  note d = scheduled_asD [OF s7(1)] and ida = ok_facts(1,2) [OF ok a(1)] and idr = ok_facts(1,2) [OF ok r(1)]
  have st7: "ipc_state (ipcx s7 j) = (if j = r then IpcReady else ipc_state (ipcx s j))"
    "waiting_endpoint (ipcx s7 j) = (if j = r then None else waiting_endpoint (ipcx s j))" for j
    using s7(2) [of j] by (simp_all add: wait_key_def split: if_splits)
  let ?b = "timeout = IPC_NONBLOCK"
  have st: "ipc_state (ipcx ?s' j) = (if j = a then if ?b then IpcReady else ReplyBlocked
      else if j = r then IpcReady else ipc_state (ipcx s j))" 
    "waiting_endpoint (ipcx ?s' j) = (if j = a then if ?b then None else Some e
      else if j = r then None else waiting_endpoint (ipcx s j))"
    "receiver_id (ipcx ?s' j) = receiver_id (ipcx s7 j)"
    "endpoints ?s' = endpoints s7" "bn ?s' = bn s7" "task_count ?s' = task_count s" for j
    by (simp_all add: call_met_def ipc_simps st7 d)
  have l': "lines (L(Receiving := (L Receiving)(e := remove1 r (L Receiving e)))) ?s'"
    by (rule lines_leave [OF l]) (use a r w ep in \<open>auto simp: st wait_key_def\<close>)
  let ?s8 = "set_task_state (task_id (sched s7 a)) Blocked_On_Notify (set_sleep a (wait_ticks timeout)
            (upd_ipc a (\<lambda>x. x\<lparr>ipc_state := ReplyBlocked, waiting_endpoint := Some e\<rparr>) s7))"
  let ?n = "set_sleep a 0 (upd_ipc a (\<lambda>x. x\<lparr>ipc_state := IpcReady, waiting_endpoint := None\<rparr>) s7)"
  have ok7: "ready_ok s7" by (rule ready_ok_view [OF ok d(1)])
  have ok8: "ready_ok ?s8" by (intro set_task_state_ok ready_ok_view [OF ok7]) (simp add: ipc_simps)
  have "ready_ok ?n" by (rule ready_ok_view [OF ok7]) (simp add: ipc_simps)
  moreover have "ready_ok (inherit_from a r ?s8)" using inherit_from_ok [OF ok8] a by (simp add: ipc_simps d)
  ultimately have "ready_ok ?s'" by (simp add: call_met_def set_task_state_ok)
  moreover have "pip ?s'"
  proof (cases ?b)
    case True
    then show ?thesis
      by (intro pip_weaken [OF pip], unfold st s7(3)) (auto simp: call_met_def ipc_simps d split: if_splits)
  next
    case False
    have "pip (inherit_from a r ?s8)"
      by (rule inherit_from_pip [OF ok8])
        (use pip a r in \<open>auto simp: ipc_simps d st7 s7(3) pip_def split: if_splits\<close>)
    then have "pip (set_task_state (task_id (sched s7 r)) Ready (inherit_from a r ?s8))"
      by (rule pip_weaken) (auto simp: ipc_simps)
    then show ?thesis using False by (simp add: call_met_def ipc_simps)
  qed
  moreover have "asleep ?s'"
    using sl r(2) ida idr unfolding asleep_def ipc_waiting_def st
    by (auto simp: call_met_def ipc_simps d)
  ultimately show ?thesis using l' by (auto simp: ipc_inv_def)
qed

lemma scheduled_as_trans: "scheduled_as s t \<Longrightarrow> scheduled_as t u \<Longrightarrow> scheduled_as s u"
  by (simp add: scheduled_as_def)

lemma scheduled_as_steps [ipc_simps]:
  "scheduled_as s (call_setup a msg len rb mx badge s2) = scheduled_as s s2"
  "scheduled_as s (upd_ipc i f s2) = scheduled_as s s2"
  "scheduled_as s (set_sleep i n s2) = scheduled_as s s2"
  "scheduled_as s (set_send_queue e q s2) = scheduled_as s s2"
  "scheduled_as s (set_recv_queue e q s2) = scheduled_as s s2"
  "scheduled_as s (relink g s2) = scheduled_as s s2"
  "scheduled_as s (snd (transfer n x y s2)) = scheduled_as s s2"
  "scheduled_as s (deliver r k n b m s2) = scheduled_as s s2"
  "scheduled_as s (meet a r msg len badge label s2) = scheduled_as s s2"
  "scheduled_as s s"
  by (simp_all add: scheduled_as_def ipc_simps relink_frame)

lemma call_inv:
  assumes inv: "ipc_inv s" and a: "a < task_count s" "\<not> ipc_waiting s a"
  shows "\<exists>st s'. call e (Some a) msg len rb mx timeout badge s = Some (st, s') \<and> ipc_inv s'
     \<and> task_count s' = task_count s"
proof -
  from inv obtain L where l: "lines L s" and ok: "ready_ok s" by (auto simp: ipc_inv_def)
  have as: "ipc_state (ipcx s a) = IpcReady" using a by (simp add: not_waiting)
  let ?s2 = "call_setup a msg len rb mx badge s"
  show ?thesis
  proof (cases "find (admits (header_type msg len s) s) (L Receiving e)")
    case None
    note c = call_no_receiver [OF l None as a(1), of timeout rb mx badge]
    show ?thesis
    proof (cases "timeout = IPC_NONBLOCK")
      case True
      have "ipc_inv (set_sleep a 0 (upd_ipc a (\<lambda>r. r\<lparr>ipc_state := IpcReady, ipc_status := WouldBlock,
          waiting_endpoint := None\<rparr>) ?s2))"
        by (rule give_up_inv [OF inv a(1) as]) (simp_all add: ipc_simps)
      then show ?thesis using c(1) [OF True] by (simp add: ipc_simps)
    next
      case False
      let ?s5 = "set_sleep a (wait_ticks timeout) (upd_ipc a (\<lambda>r. r\<lparr>msg_buf := msg, msg_len := len,
              ipc_state := Sending, waiting_endpoint := Some e\<rparr>) ?s2)"
      obtain q f where eq: "call e (Some a) msg len rb mx timeout badge s =
          Some (Ok, set_task_state (task_id (sched s a)) Blocked_On_Notify (set_send_queue e q (relink f ?s5)))"
        and r: "wq_rep q f (wq_insert (tprio s) a (L Sending e))"
          "\<forall>x. x \<notin> insert a (set (L Sending e)) \<longrightarrow> f x = bn s x"
        using c(2) [OF False] by (auto simp: Let_def)
      let ?s7 = "set_send_queue e q (relink f ?s5)"
      have "ipc_inv (set_task_state (task_id (sched ?s7 a)) Blocked_On_Notify ?s7)"
        by (rule join_inv [OF inv l _ a(1) as, of Sending, where pr = "tprio s" and q = q and e = e])
          (use r in \<open>auto simp: ipc_simps kernel_simps wait_key_def line_of_def queued_def\<close>)
      then show ?thesis using eq by (simp add: ipc_simps kernel_simps)
    qed
  next
    case (Some r)
    note c = call_receiver [OF l Some as a(1)]
    obtain q f where eq: "call e (Some a) msg len rb mx timeout badge s =
        Some (Ok, call_met a r e timeout (meet a r msg len badge (header_type msg len s)
                    (set_recv_queue e q (relink f ?s2))))"
      and w: "wq_rep q f (remove1 r (L Receiving e))" "\<forall>x. x \<notin> set (L Receiving e) \<longrightarrow> f x = bn s x"
      using c(6) by blast
    let ?s4 = "set_recv_queue e q (relink f ?s2)"
    let ?s7 = "meet a r msg len badge (header_type msg len s) ?s4"
    have s4: "wait_key ?s4 j = wait_key s j" "receiver_id (ipcx ?s4 j) = receiver_id (ipcx s j)"
      "task_id (sched ?s4 j) = task_id (sched s j)" for j
      by (simp_all add: wait_key_def ipc_simps kernel_simps)
    have k: "wait_key ?s7 j = (if j = r then (IpcReady, None) else wait_key s j)" for j
      using meet_keys(1) [OF c(3)] s4(1) [of j] by (simp only:)
    have i: "receiver_id (ipcx ?s7 j) = (if j = a then r else receiver_id (ipcx s j))" for j
      using meet_keys(2) [OF c(3)] s4(2) [of j] s4(3) [of r] ok_facts(2) [OF ok c(4)] by (simp only:)
    have "ipc_inv (call_met a r e timeout ?s7)"
      by (rule call_met_inv [OF inv l a(1) as c(4,3,5) _ k i, where q = q])
        (use w in \<open>auto simp: ipc_simps kernel_simps line_of_def queued_def\<close>)
    then show ?thesis using eq by (simp add: call_met_def ipc_simps kernel_simps)
  qed
qed

section \<open>receive\<close>

definition receive_setup :: "nat \<Rightarrow> u32 \<Rightarrow> u32 \<Rightarrow> u32 \<Rightarrow> kernel \<Rightarrow> kernel" where
  "receive_setup r buf cap filt =
     upd_ipc r (\<lambda>x. x\<lparr>msg_buf := buf, max_len := cap, ipc_status := Ok, label_filter := filt\<rparr>)"

lemma receive_setup_fields [ipc_simps]:
  "ipcx (receive_setup r buf cap filt s) j = (if j = r then (ipcx s r)\<lparr>msg_buf := buf, max_len := cap,
     ipc_status := Ok, label_filter := filt\<rparr> else ipcx s j)"
  "sched (receive_setup r buf cap filt s) j = sched s j"
  "endpoints (receive_setup r buf cap filt s) = endpoints s" "mem (receive_setup r buf cap filt s) = mem s"
  "task_count (receive_setup r buf cap filt s) = task_count s"
  "bn (receive_setup r buf cap filt s) = bn s"
  "scheduled_as s0 (receive_setup r buf cap filt s) = scheduled_as s0 s"
  by (simp_all add: receive_setup_def ipc_simps)

definition offers :: "u32 \<Rightarrow> kernel \<Rightarrow> nat \<Rightarrow> bool" where
  "offers filt s x \<longleftrightarrow> filt = 0 \<or> msg_type (ipcx s x) = filt"

text \<open>The rendezvous of a receiver with a waiting sender.\<close>

definition accept :: "nat \<Rightarrow> nat \<Rightarrow> u32 \<Rightarrow> u32 \<Rightarrow> kernel \<Rightarrow> kernel" where
  "accept c r buf cap s =
     (let (n, s4) = transfer (clamp_len (msg_len (ipcx s c)) cap) buf (msg_buf (ipcx s c)) s;
          s5 = deliver r (task_id (sched s4 c)) n (ipc_badge (ipcx s4 c)) (msg_type (ipcx s4 c)) s4
      in upd_ipc c (\<lambda>x. x\<lparr>receiver_id := task_id (sched s5 r), ipc_state := ReplyBlocked\<rparr>) s5)"

lemma accept_frame [ipc_simps]:
  "sched_state (sched (accept c r buf cap s) j) = sched_state (sched s j)"
  "task_id (sched (accept c r buf cap s) j) = task_id (sched s j)"
  "tprio (accept c r buf cap s) j = tprio s j"
  "base_priority (sched (accept c r buf cap s) j) = base_priority (sched s j)"
  "task_count (accept c r buf cap s) = task_count s" "endpoints (accept c r buf cap s) = endpoints s"
  "bn (accept c r buf cap s) = bn s" "scheduled_as s0 (accept c r buf cap s) = scheduled_as s0 s"
  by (simp_all add: accept_def Let_def split_beta ipc_simps)

lemma accept_keys:
  assumes "c \<noteq> r"
  shows "wait_key (accept c r buf cap s) j = (if j = r then (IpcReady, None)
      else if j = c then (ReplyBlocked, waiting_endpoint (ipcx s c)) else wait_key s j)"
    "receiver_id (ipcx (accept c r buf cap s) j) =
       (if j = c then task_id (sched s r) else receiver_id (ipcx s j))"
  using assms by (simp_all add: wait_key_def accept_def Let_def split_beta ipc_simps)

lemma receive_no_sender:
  assumes inv: "lines L s" and none: "find (offers filt s) (L Sending e) = None"
    and r: "ipc_state (ipcx s r) = IpcReady" "r < task_count s"
  shows "timeout = IPC_NONBLOCK \<Longrightarrow> receive e (Some r) buf cap timeout filt s =
     Some (WouldBlock, set_sleep r 0 (upd_ipc r (\<lambda>x. x\<lparr>ipc_state := IpcReady, ipc_status := WouldBlock,
       waiting_endpoint := None\<rparr>) (receive_setup r buf cap filt s)))"
    and "timeout \<noteq> IPC_NONBLOCK \<Longrightarrow> \<exists>q f.
      receive e (Some r) buf cap timeout filt s =
        (let s4 = set_sleep r (wait_ticks timeout) (upd_ipc r (\<lambda>x. x\<lparr>ipc_state := Receiving,
              waiting_endpoint := Some e\<rparr>) (receive_setup r buf cap filt s));
             s6 = set_recv_queue e q (relink f s4)
         in Some (Ok, set_task_state (task_id (sched s r)) Blocked_On_Notify s6))
      \<and> wq_rep q f (wq_insert (tprio s) r (L Receiving e))
      \<and> (\<forall>x. x \<notin> insert r (set (L Receiving e)) \<longrightarrow> f x = bn s x)"
proof -
  let ?s1 = "receive_setup r buf cap filt s"
  have l: "r \<notin> set (L Receiving e)" using linesD(2) [OF inv] r by (auto simp: wait_key_def)
  have rep: "wq_rep (send_queue (endpoints ?s1 e)) (bn ?s1) (L Sending e)"
    using linesD(1) [OF inv, of Sending e] by (simp add: ipc_simps)
  have "find (\<lambda>x. filt = 0 \<or> msg_type (ipcx ?s1 x) = filt) (L Sending e) = None"
    using none by (auto simp: find_None_iff offers_def ipc_simps)
  then have d: "dequeue_matching_sender filt (send_queue (endpoints ?s1 e)) ?s1
      = Some (None, send_queue (endpoints ?s1 e), ?s1)"
    using dequeue_match_refines [OF rep, of "\<lambda>x. filt = 0 \<or> msg_type x = filt"]
    by (simp add: dequeue_matching_sender_def)
  note unfold = receive_def Let_def option.case receive_setup_def [symmetric]
  show "receive e (Some r) buf cap timeout filt s =
     Some (WouldBlock, set_sleep r 0 (upd_ipc r (\<lambda>x. x\<lparr>ipc_state := IpcReady, ipc_status := WouldBlock,
       waiting_endpoint := None\<rparr>) ?s1))" if "timeout = IPC_NONBLOCK"
    using that unfolding unfold d by simp
  let ?s4 = "set_sleep r (wait_ticks timeout) (upd_ipc r (\<lambda>x. x\<lparr>ipc_state := Receiving,
              waiting_endpoint := Some e\<rparr>) ?s1)"
  have rep: "wq_rep (recv_queue (endpoints ?s4 e)) (bn ?s4) (L Receiving e)"
    using linesD(1) [OF inv, of Receiving e] by (simp add: ipc_simps)
  obtain q f where enq: "wq_enqueue (recv_queue (endpoints ?s4 e)) (Some r) ?s4 = Some (q, relink f ?s4)"
    and w: "wq_rep q f (wq_insert (tprio ?s4) r (L Receiving e))" "\<forall>x. x \<notin> insert r (set (L Receiving e)) \<longrightarrow> f x = bn ?s4 x"
    using enqueue_refines [OF rep l] by blast
  have tp: "tprio ?s4 = tprio s" by (simp add: ipc_simps fun_eq_iff)
  show "\<exists>q f. receive e (Some r) buf cap timeout filt s =
        (let s4 = ?s4; s6 = set_recv_queue e q (relink f s4)
         in Some (Ok, set_task_state (task_id (sched s r)) Blocked_On_Notify s6))
      \<and> wq_rep q f (wq_insert (tprio s) r (L Receiving e))
      \<and> (\<forall>x. x \<notin> insert r (set (L Receiving e)) \<longrightarrow> f x = bn s x)" if "timeout \<noteq> IPC_NONBLOCK"
  proof (intro exI [of _ q] exI [of _ f] conjI)
    show "receive e (Some r) buf cap timeout filt s =
        (let s4 = ?s4; s6 = set_recv_queue e q (relink f s4)
         in Some (Ok, set_task_state (task_id (sched s r)) Blocked_On_Notify s6))"
      using that unfolding unfold d Option.bind.simps prod.case set_queue_same
      by (simp only: if_False enq Option.bind.simps prod.case) (simp add: ipc_simps kernel_simps)
    show "wq_rep q f (wq_insert (tprio s) r (L Receiving e))" using w(1) by (simp only: tp)
    show "\<forall>x. x \<notin> insert r (set (L Receiving e)) \<longrightarrow> f x = bn s x" using w(2) by (simp add: ipc_simps)
  qed
qed

lemma receive_sender:
  assumes inv: "lines L s" and some: "find (offers filt s) (L Sending e) = Some c"
    and r: "ipc_state (ipcx s r) = IpcReady" "r < task_count s"
  shows "c \<in> set (L Sending e)" "offers filt s c" "c \<noteq> r" "c < task_count s"
    "wait_key s c = (Sending, Some e)"
    and "\<exists>q f.
      receive e (Some r) buf cap timeout filt s =
        Some (Ok, inherit_from c r (set_task_state (task_id (sched s c)) Blocked_On_Notify
          (accept c r buf cap (set_send_queue e q (relink f (receive_setup r buf cap filt s))))))
      \<and> wq_rep q f (remove1 c (L Sending e)) \<and> (\<forall>x. x \<notin> set (L Sending e) \<longrightarrow> f x = bn s x)"
proof -
  let ?s1 = "receive_setup r buf cap filt s"
  from some show c: "c \<in> set (L Sending e)" "offers filt s c" by (auto simp: find_Some_iff)
  then show "c < task_count s" and k: "wait_key s c = (Sending, Some e)"
    using linesD(2) [OF inv, of Sending e] by auto
  then show "c \<noteq> r" using r(1) by (auto simp: wait_key_def)
  have rep: "wq_rep (send_queue (endpoints ?s1 e)) (bn ?s1) (L Sending e)"
    using linesD(1) [OF inv, of Sending e] by (simp add: ipc_simps)
  have "(\<lambda>x. filt = 0 \<or> msg_type (ipcx ?s1 x) = filt) = offers filt s"
    by (auto simp: offers_def ipc_simps fun_eq_iff)
  then obtain q f where d: "dequeue_matching_sender filt (send_queue (endpoints ?s1 e)) ?s1
      = Some (Some c, q, relink f ?s1)" and w: "wq_rep q f (remove1 c (L Sending e))"
      "\<forall>x. x \<notin> set (L Sending e) \<longrightarrow> f x = bn s x"
    using dequeue_match_refines [OF rep, of "\<lambda>x. filt = 0 \<or> msg_type x = filt"] some
    by (auto simp: dequeue_matching_sender_def ipc_simps)
  note unfold = receive_def Let_def option.case receive_setup_def [symmetric]
  have "receive e (Some r) buf cap timeout filt s =
        Some (Ok, inherit_from c r (set_task_state (task_id (sched s c)) Blocked_On_Notify
          (accept c r buf cap (set_send_queue e q (relink f ?s1)))))"
    unfolding unfold d Option.bind.simps prod.case
    by (simp add: accept_def Let_def split_beta ipc_simps relink_frame)
  with w show "\<exists>q f.
      receive e (Some r) buf cap timeout filt s =
        Some (Ok, inherit_from c r (set_task_state (task_id (sched s c)) Blocked_On_Notify
          (accept c r buf cap (set_send_queue e q (relink f ?s1)))))
      \<and> wq_rep q f (remove1 c (L Sending e)) \<and> (\<forall>x. x \<notin> set (L Sending e) \<longrightarrow> f x = bn s x)"
    by blast
qed

lemma accepted_inv:
  assumes inv: "ipc_inv s" and l: "lines L s"
    and r: "r < task_count s" "ipc_state (ipcx s r) = IpcReady"
    and c: "c < task_count s" "c \<noteq> r" "wait_key s c = (Sending, Some e)"
    and s6: "scheduled_as s s6" "\<And>j. wait_key s6 j = (if j = r then (IpcReady, None)
         else if j = c then (ReplyBlocked, Some e) else wait_key s j)"
      "\<And>j. receiver_id (ipcx s6 j) = (if j = c then r else receiver_id (ipcx s j))"
    and ep: "line_of Sending (endpoints s6 e) = q"
       "\<And>j e'. queued j \<Longrightarrow> (j, e') \<noteq> (Sending, e) \<Longrightarrow> line_of j (endpoints s6 e') = line_of j (endpoints s e')"
    and w: "wq_rep q (bn s6) (remove1 c (L Sending e))" "\<And>x. x \<notin> set (L Sending e) \<Longrightarrow> bn s6 x = bn s x"
  shows "ipc_inv (inherit_from c r (set_task_state (task_id (sched s6 c)) Blocked_On_Notify s6))" (is "ipc_inv ?s'")
proof -
  from inv have ok: "ready_ok s" and pip: "pip s" and sl: "asleep s" by (auto simp: ipc_inv_def)
  note d = scheduled_asD [OF s6(1)] and idc = ok_facts(1,2) [OF ok c(1)]
  have st6: "ipc_state (ipcx s6 j) = (if j = r then IpcReady else if j = c then ReplyBlocked else ipc_state (ipcx s j))"
    "waiting_endpoint (ipcx s6 j) = (if j = r then None else if j = c then Some e else waiting_endpoint (ipcx s j))" for j
    using s6(2) [of j] by (auto simp: wait_key_def split: if_splits)
  have l': "lines (L(Sending := (L Sending)(e := remove1 c (L Sending e)))) ?s'"
    by (rule lines_leave [OF l]) (use r c w ep d(2) in \<open>auto simp: ipc_simps st6 wait_key_def\<close>)
  let ?s7 = "set_task_state (task_id (sched s6 c)) Blocked_On_Notify s6"
  have ok7: "ready_ok ?s7" by (intro set_task_state_ok ready_ok_view [OF ok d(1)])
  then have "ready_ok ?s'" using inherit_from_ok [OF ok7] c(1) by (simp add: ipc_simps d)
  moreover have "pip ?s'"
    by (rule inherit_from_pip [OF ok7])
      (use pip r c in \<open>auto simp: ipc_simps d st6 s6(3) pip_def split: if_splits\<close>)
  moreover have "asleep ?s'"
    using sl idc c(1) unfolding asleep_def ipc_waiting_def by (auto simp: ipc_simps d st6)
  ultimately show ?thesis using l' by (auto simp: ipc_inv_def)
qed

lemma receive_inv:
  assumes inv: "ipc_inv s" and r: "r < task_count s" "\<not> ipc_waiting s r"
  shows "\<exists>st s'. receive e (Some r) buf cap timeout filt s = Some (st, s') \<and> ipc_inv s'
     \<and> task_count s' = task_count s"
proof -
  from inv obtain L where l: "lines L s" and ok: "ready_ok s" by (auto simp: ipc_inv_def)
  have rs: "ipc_state (ipcx s r) = IpcReady" using r by (simp add: not_waiting)
  let ?s1 = "receive_setup r buf cap filt s"
  show ?thesis
  proof (cases "find (offers filt s) (L Sending e)")
    case None
    note c = receive_no_sender [OF l None rs r(1), of timeout buf cap]
    show ?thesis
    proof (cases "timeout = IPC_NONBLOCK")
      case True
      have "ipc_inv (set_sleep r 0 (upd_ipc r (\<lambda>x. x\<lparr>ipc_state := IpcReady, ipc_status := WouldBlock,
          waiting_endpoint := None\<rparr>) ?s1))"
        by (rule give_up_inv [OF inv r(1) rs]) (simp_all add: ipc_simps)
      then show ?thesis using c(1) [OF True] by (simp add: ipc_simps)
    next
      case False
      let ?s4 = "set_sleep r (wait_ticks timeout) (upd_ipc r (\<lambda>x. x\<lparr>ipc_state := Receiving,
              waiting_endpoint := Some e\<rparr>) ?s1)"
      obtain q f where eq: "receive e (Some r) buf cap timeout filt s =
          Some (Ok, set_task_state (task_id (sched s r)) Blocked_On_Notify (set_recv_queue e q (relink f ?s4)))"
        and w: "wq_rep q f (wq_insert (tprio s) r (L Receiving e))"
          "\<forall>x. x \<notin> insert r (set (L Receiving e)) \<longrightarrow> f x = bn s x"
        using c(2) [OF False] by (auto simp: Let_def)
      let ?s6 = "set_recv_queue e q (relink f ?s4)"
      have "ipc_inv (set_task_state (task_id (sched ?s6 r)) Blocked_On_Notify ?s6)"
        by (rule join_inv [OF inv l _ r(1) rs, of Receiving, where pr = "tprio s" and q = q and e = e])
          (use w in \<open>auto simp: ipc_simps kernel_simps wait_key_def line_of_def queued_def\<close>)
      then show ?thesis using eq by (simp add: ipc_simps kernel_simps)
    qed
  next
    case (Some c)
    note c = receive_sender [OF l Some rs r(1)]
    obtain q f where eq: "receive e (Some r) buf cap timeout filt s =
        Some (Ok, inherit_from c r (set_task_state (task_id (sched s c)) Blocked_On_Notify
          (accept c r buf cap (set_send_queue e q (relink f ?s1)))))"
      and w: "wq_rep q f (remove1 c (L Sending e))" "\<forall>x. x \<notin> set (L Sending e) \<longrightarrow> f x = bn s x"
      using c(6) by blast
    let ?s3 = "set_send_queue e q (relink f ?s1)"
    let ?s6 = "accept c r buf cap ?s3"
    have s3: "wait_key ?s3 j = wait_key s j" "receiver_id (ipcx ?s3 j) = receiver_id (ipcx s j)"
      "task_id (sched ?s3 j) = task_id (sched s j)" for j
      by (simp_all add: wait_key_def ipc_simps kernel_simps)
    have "waiting_endpoint (ipcx ?s3 c) = Some e" using s3(1) [of c] c(5) by (simp add: wait_key_def)
    then have k: "wait_key ?s6 j = (if j = r then (IpcReady, None)
         else if j = c then (ReplyBlocked, Some e) else wait_key s j)" for j
      using accept_keys(1) [OF c(3)] s3(1) [of j] by (simp only:)
    have i: "receiver_id (ipcx ?s6 j) = (if j = c then r else receiver_id (ipcx s j))" for j
      using accept_keys(2) [OF c(3)] s3(2) [of j] s3(3) [of r] ok_facts(2) [OF ok r(1)] by (simp only:)
    have "ipc_inv (inherit_from c r (set_task_state (task_id (sched ?s6 c)) Blocked_On_Notify ?s6))"
      by (rule accepted_inv [OF inv l r(1) rs c(4,3,5) _ k i, where q = q])
        (use w in \<open>auto simp: ipc_simps relink_frame line_of_def queued_def\<close>)
    then show ?thesis using eq by (simp add: ipc_simps kernel_simps)
  qed
qed

section \<open>Waking and recomputing\<close>

lemma lines_dropped:
  assumes inv: "lines L s"
    and rep: "\<And>k e. queued k \<Longrightarrow> wq_rep (line_of k (endpoints s' e)) (bn s') (remove1 t (L k e))"
    and count: "task_count s' = task_count s"
    and t: "\<not> queued (ipc_state (ipcx s' t)) \<or> waiting_endpoint (ipcx s' t) = None"
    and keys: "\<And>x. x \<noteq> t \<Longrightarrow> wait_key s' x = wait_key s x"
  shows "lines (\<lambda>k e. remove1 t (L k e)) s'"
  unfolding lines_def
proof (intro allI impI conjI rep)
  fix k e assume k: "queued k"
  have "distinct (L k e)" using linesD(1) [OF inv k, of e] by (simp add: wq_rep_def)
  moreover have "wait_key s' t \<noteq> (k, Some e)" using t k by (auto simp: wait_key_def)
  ultimately show "set (remove1 t (L k e)) = {x. x < task_count s' \<and> wait_key s' x = (k, Some e)}"
    using linesD(2) [OF inv k, of e] keys count by (auto; metis)
qed

lemma wake_with_fields [ipc_simps]:
  "ipcx (wake_with t reason s) j = (if j = t then (ipcx s t)\<lparr>waiting_endpoint := None, ipc_state := IpcReady,
     ipc_status := reason\<rparr> else ipcx s j)"
  "sched_state (sched (wake_with t reason s) j) =
     (if j = task_id (sched s t) \<and> j < MAX_TASKS \<and> j < task_count s then Ready else sched_state (sched s j))"
  "sleep_ticks (sched (wake_with t reason s) j) = (if j = t then 0 else sleep_ticks (sched s j))"
  "task_id (sched (wake_with t reason s) j) = task_id (sched s j)"
  "tprio (wake_with t reason s) j = tprio s j"
  "base_priority (sched (wake_with t reason s) j) = base_priority (sched s j)"
  "task_count (wake_with t reason s) = task_count s" "endpoints (wake_with t reason s) = endpoints s"
  "bn (wake_with t reason s) = bn s" "mem (wake_with t reason s) = mem s"
  by (auto simp: wake_with_def Let_def ipc_simps)

lemma wake_with_ok: "ready_ok s \<Longrightarrow> ready_ok (wake_with t reason s)"
  by (simp add: wake_with_def Let_def set_task_state_ok ready_ok_view [of s] ipc_simps)

text \<open>Two states that agree on what the endpoint operations read of the waiting tasks.\<close>

definition waits_as :: "kernel \<Rightarrow> kernel \<Rightarrow> bool" where
  "waits_as s s' \<longleftrightarrow> (\<forall>j. wait_key s' j = wait_key s j \<and> receiver_id (ipcx s' j) = receiver_id (ipcx s j)
     \<and> ipc_status (ipcx s' j) = ipc_status (ipcx s j) \<and> sleep_ticks (sched s' j) = sleep_ticks (sched s j))"

lemma waits_asD:
  assumes "waits_as s s'"
  shows "wait_key s' j = wait_key s j" "receiver_id (ipcx s' j) = receiver_id (ipcx s j)"
    "ipc_status (ipcx s' j) = ipc_status (ipcx s j)" "ipc_state (ipcx s' j) = ipc_state (ipcx s j)"
    "waiting_endpoint (ipcx s' j) = waiting_endpoint (ipcx s j)"
    "sleep_ticks (sched s' j) = sleep_ticks (sched s j)"
  using assms by (simp_all add: waits_as_def wait_key_def)

lemma wake_inv:
  assumes inv: "ipc_inv s" and l: "lines L s" and t: "t < task_count s"
    and s4: "scheduled_as s s4" "waits_as s s4"
      "\<And>k e. queued k \<Longrightarrow> wq_rep (line_of k (endpoints s4 e)) (bn s4) (remove1 t (L k e))"
  shows "ipc_inv (wake_with t reason s4) \<and> lines (\<lambda>k e. remove1 t (L k e)) (wake_with t reason s4)"
proof -
  from inv have ok: "ready_ok s" and pip: "pip s" and sl: "asleep s" by (auto simp: ipc_inv_def)
  note d = scheduled_asD [OF s4(1)] and v = waits_asD [OF s4(2)] and id = ok_facts(1,2) [OF ok t]
  have l': "lines (\<lambda>k e. remove1 t (L k e)) (wake_with t reason s4)"
    by (rule lines_dropped [OF l]) (use s4(3) v(1) in \<open>auto simp: ipc_simps d wait_key_def\<close>)
  moreover have "ready_ok (wake_with t reason s4)" by (intro wake_with_ok ready_ok_view [OF ok d(1)])
  moreover have "pip (wake_with t reason s4)"
    by (rule pip_weaken [OF pip]) (auto simp: ipc_simps d v split: if_splits)
  moreover have "asleep (wake_with t reason s4)"
    using sl unfolding asleep_def ipc_waiting_def by (auto simp: ipc_simps d v id)
  ultimately show ?thesis by (auto simp: ipc_inv_def)
qed

lemma recalculate_lines: "lines L (recalculate_receiver_priority rp s) = lines L s"
  by (simp add: lines_def wait_key_def ipc_simps)

lemma recalculate_inv:
  assumes inv: "ipc_inv s" and r: "\<And>r. rp = Some r \<Longrightarrow> r < task_count s"
  shows "ipc_inv (recalculate_receiver_priority rp s)"
  using inv recalculate_ok [OF _ r] recalculate_pip [OF _ _ r]
  by (auto simp: ipc_inv_def recalculate_lines asleep_def ipc_waiting_def ipc_simps)

lemma get_task_by_id_lt: "get_task_by_id i s = Some r \<Longrightarrow> r < task_count s"
  by (simp add: get_task_by_id_def split: if_splits)

section \<open>reply\<close>

lemma reply_inv:
  assumes inv: "ipc_inv s" and r: "r < task_count s"
  shows "ipc_inv (snd (reply (Some r) to_id msg len s))
     \<and> task_count (snd (reply (Some r) to_id msg len s)) = task_count s"
proof (cases "to_id < task_count s \<and> to_id < MAX_TASKS \<and> ipc_state (ipcx s to_id) = ReplyBlocked
    \<and> receiver_id (ipcx s to_id) = task_id (sched s r)")
  case False
  then have "snd (reply (Some r) to_id msg len s) = s"
    by (auto simp: reply_def get_task_by_id_def)
  then show ?thesis using inv by simp
next
  case True
  from inv obtain L where l: "lines L s" and ok: "ready_ok s" and pip: "pip s" and sl: "asleep s"
    by (auto simp: ipc_inv_def)
  let ?t = "transfer (clamp_len len (max_len (ipcx s to_id))) (reply_buf (ipcx s to_id)) msg s"
  let ?s2 = "set_sleep to_id 0 (upd_ipc to_id (\<lambda>x. x\<lparr>msg_len := fst ?t, ipc_state := IpcReady,
      ipc_status := Ok, waiting_endpoint := None\<rparr>) (snd ?t))"
  let ?s3 = "set_task_state (task_id (sched ?s2 to_id)) Ready ?s2"
  have eq: "snd (reply (Some r) to_id msg len s) = recalculate_receiver_priority (Some r) ?s3"
    using True by (simp add: reply_def get_task_by_id_def split_beta Let_def)
  have "lines L ?s3" by (rule lines_same [OF l]) (use True in \<open>auto simp: ipc_simps wait_key_def\<close>)
  moreover have "ready_ok ?s3" by (intro set_task_state_ok ready_ok_view [OF ok]) (simp add: ipc_simps)
  moreover have "pip ?s3" by (rule pip_weaken [OF pip]) (auto simp: ipc_simps split: if_splits)
  moreover have "asleep ?s3"
    using sl ok_facts(2) [OF ok, of to_id] True
    unfolding asleep_def ipc_waiting_def by (auto simp: ipc_simps)
  ultimately have "ipc_inv ?s3" by (auto simp: ipc_inv_def)
  then have "ipc_inv (recalculate_receiver_priority (Some r) ?s3)"
    by (rule recalculate_inv) (use r in \<open>simp add: ipc_simps\<close>)
  then show ?thesis unfolding eq by (simp add: ipc_simps)
qed

section \<open>Cancellation\<close>

lemma relink_fields [ipc_simps]:
  "scheduled_as s (relink f s')  = scheduled_as s s'" "waits_as s (relink f s') = waits_as s s'"
  "waits_as s (set_send_queue e q s') = waits_as s s'" "waits_as s (set_recv_queue e q s') = waits_as s s'"
  "waits_as s s"
  by (simp_all add: scheduled_as_def waits_as_def wait_key_def ipc_simps relink_frame)

lemma cancel_removes:
  assumes l: "lines L s" and home: "\<And>e'. queued (ipc_state (ipcx s t)) \<Longrightarrow> waiting_endpoint (ipcx s t) = Some e' \<Longrightarrow> e' = e"
  shows "\<exists>s4. cancel_waiter e (Some t) reason s =
       Some (if ipc_state (ipcx s t) = ReplyBlocked \<and> receiver_id (ipcx s t) < MAX_TASKS
             then recalculate_receiver_priority (get_task_by_id (receiver_id (ipcx s t)) (wake_with t reason s4))
                    (wake_with t reason s4)
             else wake_with t reason s4)
     \<and> scheduled_as s s4 \<and> waits_as s s4
     \<and> (\<forall>k e. queued k \<longrightarrow> wq_rep (line_of k (endpoints s4 e)) (bn s4) (remove1 t (L k e)))"
proof -
  have out: "t \<notin> set (L k e')" if "queued k" "(k, e') \<noteq> (ipc_state (ipcx s t), e)" for k e'
    using that home [of e'] linesD(2) [OF l that(1), of e'] by (auto simp: wait_key_def)
  obtain q1 f1 where r1: "wq_remove (send_queue (endpoints s e)) (Some t) s = Some (t \<in> set (L Sending e), q1, relink f1 s)"
    and w1: "wq_rep q1 f1 (remove1 t (L Sending e))" "\<And>x. x \<notin> set (L Sending e) \<Longrightarrow> f1 x = bn s x"
      "t \<notin> set (L Sending e) \<Longrightarrow> q1 = send_queue (endpoints s e) \<and> f1 = bn s"
    using remove_refines [of "send_queue (endpoints s e)" s "L Sending e" t] linesD(1) [OF l, of Sending e] by auto
  let ?s2 = "set_send_queue e q1 (relink f1 s)"
  have dis: "x \<notin> set (L Sending e)" if "x \<in> set (L k e')" "(k, e') \<noteq> (Sending, e)" "queued k" for x k e'
    using that linesD(2) [OF l, of k e'] linesD(2) [OF l, of Sending e] by auto
  have rep2: "wq_rep (recv_queue (endpoints ?s2 e)) (bn ?s2) (L Receiving e)"
    using linesD(1) [OF l, of Receiving e] wq_rep_cong [of "L Receiving e" f1 "bn s"] w1(2) dis [of _ Receiving e]
    by (simp add: ipc_simps relink_frame)
  obtain q2 f2 where r2: "wq_remove (recv_queue (endpoints ?s2 e)) (Some t) ?s2
      = Some (t \<in> set (L Receiving e), q2, relink f2 ?s2)"
    and w2: "wq_rep q2 f2 (remove1 t (L Receiving e))" "\<And>x. x \<notin> set (L Receiving e) \<Longrightarrow> f2 x = f1 x"
      "t \<notin> set (L Receiving e) \<Longrightarrow> f2 = f1"
    using remove_refines [OF rep2, of t] by (auto simp: ipc_simps)
  let ?s4 = "set_recv_queue e q2 (relink f2 ?s2)"
  have same: "receiver_id (ipcx ?s4 t) = receiver_id (ipcx s t)" "ipc_state (ipcx ?s4 t) = ipc_state (ipcx s t)"
    by (simp_all add: ipc_simps relink_frame)
  have eq: "cancel_waiter e (Some t) reason s =
       Some (if ipc_state (ipcx s t) = ReplyBlocked \<and> receiver_id (ipcx s t) < MAX_TASKS
             then recalculate_receiver_priority (get_task_by_id (receiver_id (ipcx s t)) (wake_with t reason ?s4))
                    (wake_with t reason ?s4)
             else wake_with t reason ?s4)"
    unfolding cancel_waiter_def option.case r1 Option.bind.simps prod.case Let_def r2 same ..
  have "wq_rep (line_of k (endpoints ?s4 e')) (bn ?s4) (remove1 t (L k e'))" if k: "queued k" for k e'
  proof -
    have dis2: "x \<notin> set (L Receiving e)" if "x \<in> set (L k e')" "(k, e') \<noteq> (Receiving, e)" for x
      using that k linesD(2) [OF l, of k e'] linesD(2) [OF l, of Receiving e] by auto
    consider "(k, e') = (Sending, e)" | "(k, e') = (Receiving, e)"
      | "(k, e') \<noteq> (Sending, e)" "(k, e') \<noteq> (Receiving, e)" by blast
    then show ?thesis
    proof cases
      case 1
      then have "f2 x = f1 x" if "x \<in> set (remove1 t (L Sending e))" for x
        using that dis2 [of x] w2(2) set_remove1_subset [of t "L Sending e"] by auto
      then have "wq_rep q1 f2 (remove1 t (L Sending e))"
        using w1(1) wq_rep_cong [of "remove1 t (L Sending e)" f2 f1] by blast
      then show ?thesis using 1 by (simp add: ipc_simps relink_frame)
    next
      case 2
      then show ?thesis using w2(1) by (simp add: ipc_simps)
    next
      case 3
      have "t \<notin> set (L k e')"
        using out [OF k, of e'] 3 k by (auto simp: queued_def)
      moreover have "wq_rep (line_of k (endpoints s e')) f2 (L k e')"
        using linesD(1) [OF l k, of e'] w1(2) w2(2) dis [OF _ 3(1) k] dis2 [OF _ 3(2)]
          wq_rep_cong [of "L k e'" f2 "bn s"] by auto
      moreover have "line_of k (endpoints ?s4 e') = line_of k (endpoints s e')"
        using 3 k by (auto simp: ipc_simps relink_frame line_of_def queued_def)
      ultimately show ?thesis by (simp add: ipc_simps remove1_idem)
    qed
  qed
  then show ?thesis using eq by (intro exI [of _ ?s4]) (simp add: ipc_simps)
qed

lemma cancel_waiter_inv:
  assumes inv: "ipc_inv s" and t: "t < task_count s"
    and home: "\<And>e'. queued (ipc_state (ipcx s t)) \<Longrightarrow> waiting_endpoint (ipcx s t) = Some e' \<Longrightarrow> e' = e"
  shows "\<exists>s'. cancel_waiter e (Some t) reason s = Some s' \<and> ipc_inv s' \<and> task_count s' = task_count s
     \<and> ipc_state (ipcx s' t) = IpcReady \<and> ipc_status (ipcx s' t) = reason \<and> waiting_endpoint (ipcx s' t) = None
     \<and> sched_state (sched s' t) = Ready \<and> sleep_ticks (sched s' t) = 0
     \<and> (\<forall>j. j \<noteq> t \<longrightarrow> wait_key s' j = wait_key s j \<and> ipc_status (ipcx s' j) = ipc_status (ipcx s j)
            \<and> sched_state (sched s' j) = sched_state (sched s j)
            \<and> sleep_ticks (sched s' j) = sleep_ticks (sched s j))"
proof -
  from inv obtain L where l: "lines L s" and ok: "ready_ok s" by (auto simp: ipc_inv_def)
  obtain s4 where eq: "cancel_waiter e (Some t) reason s =
       Some (if ipc_state (ipcx s t) = ReplyBlocked \<and> receiver_id (ipcx s t) < MAX_TASKS
             then recalculate_receiver_priority (get_task_by_id (receiver_id (ipcx s t)) (wake_with t reason s4))
                    (wake_with t reason s4)
             else wake_with t reason s4)"
    and s4: "scheduled_as s s4" "waits_as s s4"
      "\<And>k e. queued k \<Longrightarrow> wq_rep (line_of k (endpoints s4 e)) (bn s4) (remove1 t (L k e))"
    using cancel_removes [OF l home] by blast
  note d = scheduled_asD [OF s4(1)] and v = waits_asD [OF s4(2)] and id = ok_facts(1,2) [OF ok t]
  have w: "ipc_inv (wake_with t reason s4)" using wake_inv [OF inv l t s4] by blast
  then have "ipc_inv (recalculate_receiver_priority (get_task_by_id i (wake_with t reason s4)) (wake_with t reason s4))" for i
    by (rule recalculate_inv) (rule get_task_by_id_lt)
  then show ?thesis unfolding eq option.inject using w t id v
    by (auto simp: ipc_simps d wait_key_def)
qed

end
