(* ===== verification/Ipc_Teardown.thy ===== *)
theory Ipc_Teardown
  imports Ipc_Operations
begin

text \<open>
  Tearing an endpoint down and timing waiters out: \<open>cancel_all\<close> and the two tick handlers
  return from every state that satisfies the endpoint invariant, and keep it. After
  \<open>cancel_all\<close> no task waits for the endpoint any more.
\<close>

section \<open>Progress of a cancellation\<close>

text \<open>
  Each task is either as before or, if it waited for the endpoint, released with the reason.
\<close>

definition released :: "ipc_status \<Rightarrow> kernel \<Rightarrow> nat \<Rightarrow> bool" where
  "released reason s t \<longleftrightarrow> ipc_state (ipcx s t) = IpcReady \<and> waiting_endpoint (ipcx s t) = None
     \<and> ipc_status (ipcx s t) = reason \<and> sched_state (sched s t) = Ready"

definition progress :: "nat \<Rightarrow> ipc_status \<Rightarrow> kernel \<Rightarrow> kernel \<Rightarrow> bool" where
  "progress e reason s s' \<longleftrightarrow> task_count s' = task_count s \<and> (\<forall>t < task_count s.
     (wait_key s' t = wait_key s t \<and> ipc_status (ipcx s' t) = ipc_status (ipcx s t)
        \<and> sched_state (sched s' t) = sched_state (sched s t))
     \<or> (waiting_endpoint (ipcx s t) = Some e \<and> released reason s' t))"

lemma progress_refl [simp]: "progress e reason s s"
  by (simp add: progress_def)

lemma progress_trans:
  assumes "progress e reason s s'" "progress e reason s' s''"
  shows "progress e reason s s''"
proof -
  have "(wait_key s'' t = wait_key s t \<and> ipc_status (ipcx s'' t) = ipc_status (ipcx s t)
        \<and> sched_state (sched s'' t) = sched_state (sched s t))
     \<or> (waiting_endpoint (ipcx s t) = Some e \<and> released reason s'' t)" if "t < task_count s" for t
    using assms that by (fastforce simp: progress_def released_def wait_key_def)
  then show ?thesis using assms by (simp add: progress_def)
qed

lemma wake_progress:
  assumes "ready_ok s" "t < task_count s" "waiting_endpoint (ipcx s t) = Some e"
    and s4: "scheduled_as s s4" "waits_as s s4"
  shows "progress e reason s (wake_with t reason s4)"
proof -
  note v = waits_asD [OF s4(2)] and d = scheduled_asD [OF s4(1)] and id = ok_facts(1,2) [OF assms(1,2)]
  have "released reason (wake_with t reason s4) t"
    using id assms(2) by (simp add: released_def ipc_simps d)
  moreover have "wait_key (wake_with t reason s4) j = wait_key s j
      \<and> ipc_status (ipcx (wake_with t reason s4) j) = ipc_status (ipcx s j)
      \<and> sched_state (sched (wake_with t reason s4) j) = sched_state (sched s j)" if "j \<noteq> t" for j
    using that id v by (simp add: wait_key_def ipc_simps d)
  ultimately show ?thesis using assms(3) unfolding progress_def by (metis d(2) wake_with_fields(7))
qed

lemma recalculate_progress:
  "progress e reason s (recalculate_receiver_priority rp s') = progress e reason s s'"
  by (simp add: progress_def released_def ipc_simps wait_key_def)

section \<open>Draining the queues\<close>

lemma set_bnext_done: "bn s t = None \<Longrightarrow> set_bnext t None s = s"
  using relink_self [of s] by (simp add: set_bnext_relink fun_upd_idem)

definition set_line :: "ipc_state \<Rightarrow> nat \<Rightarrow> wait_queue \<Rightarrow> kernel \<Rightarrow> kernel" where
  "set_line k e q s = (if k = Sending then set_send_queue e q s else set_recv_queue e q s)"

lemma set_line_fields [ipc_simps]:
  "bn (set_line k e q s) = bn s" "scheduled_as s0 (set_line k e q s) = scheduled_as s0 s"
  "waits_as s0 (set_line k e q s) = waits_as s0 s"
  by (simp_all add: set_line_def ipc_simps)

lemma line_of_set_line:
  "queued k \<Longrightarrow> queued j \<Longrightarrow> line_of j (endpoints (set_line k e q s) e') =
     (if (j, e') = (k, e) then q else line_of j (endpoints s e'))"
  by (auto simp: set_line_def line_of_def ipc_simps queued_def)

text \<open>Taking the head of a line off its queue.\<close>

lemma pop_line:
  assumes l: "lines L s" and k: "queued k" and hd: "L k e = t # xs"
  shows "\<exists>q f. let s4 = set_line k e q (relink f s) in
     wq_dequeue (line_of k (endpoints s e)) s = (Some t, q, relink f s) \<and> set_bnext t None s4 = s4
     \<and> scheduled_as s s4 \<and> waits_as s s4
     \<and> (\<forall>j e'. queued j \<longrightarrow> wq_rep (line_of j (endpoints s4 e')) (bn s4) (remove1 t (L j e')))"
    and "t < task_count s" "waiting_endpoint (ipcx s t) = Some e"
    and "wq_head (line_of k (endpoints s e)) = Some t"
proof -
  have "t \<in> set (L k e)" by (simp add: hd)
  then have key: "wait_key s t = (k, Some e)" and t: "t < task_count s" unfolding linesD(2) [OF l k] by simp_all
  then show "t < task_count s" "waiting_endpoint (ipcx s t) = Some e" by (simp_all add: wait_key_def)
  show "wq_head (line_of k (endpoints s e)) = Some t"
    using linesD(1) [OF l k, of e, unfolded hd] by (simp add: wq_rep_def)
  let ?f = "(bn s)(t := None)"
  obtain q where d: "wq_dequeue (line_of k (endpoints s e)) s = (Some t, q, relink ?f s)" and w: "wq_rep q ?f xs"
    using dequeue_refines [OF linesD(1) [OF l k, of e, unfolded hd]] by blast
  let ?s4 = "set_line k e q (relink ?f s)"
  have bn4: "bn ?s4 = ?f" by (simp add: ipc_simps)
  have "wq_rep (line_of j (endpoints ?s4 e')) (bn ?s4) (remove1 t (L j e'))" if j: "queued j" for j e'
  proof (cases "(j, e') = (k, e)")
    case False
    have t: "t \<notin> set (L j e')" unfolding linesD(2) [OF l j] using False key by auto
    then have "wq_rep (line_of j (endpoints s e')) ?f (L j e')"
      using linesD(1) [OF l j, of e'] wq_rep_cong [of "L j e'" ?f "bn s"] by (metis fun_upd_apply)
    then show ?thesis
      unfolding bn4 line_of_set_line [OF k j] remove1_idem [OF t] if_not_P [OF False] relink_frame .
  next
    case True
    then show ?thesis unfolding bn4 line_of_set_line [OF k j] using w hd by simp
  qed
  moreover have "set_bnext t None ?s4 = ?s4" by (rule set_bnext_done) (simp add: bn4)
  ultimately show "\<exists>q f. let s4 = set_line k e q (relink f s) in
     wq_dequeue (line_of k (endpoints s e)) s = (Some t, q, relink f s) \<and> set_bnext t None s4 = s4
     \<and> scheduled_as s s4 \<and> waits_as s s4
     \<and> (\<forall>j e'. queued j \<longrightarrow> wq_rep (line_of j (endpoints s4 e')) (bn s4) (remove1 t (L j e')))"
    using d by (intro exI [of _ q] exI [of _ ?f]) (simp add: Let_def ipc_simps)
qed

text \<open>One round of a drain loop.\<close>

lemma drain_round:
  assumes inv: "ipc_inv s" and l: "lines L s" and k: "queued k" and hd: "t # xs = L k e"
  shows "\<exists>q f. let s4 = set_line k e q (relink f s); s5 = wake_with t reason s4 in
     wq_dequeue (line_of k (endpoints s e)) s = (Some t, q, relink f s) \<and> set_bnext t None s4 = s4
     \<and> ipc_inv s5 \<and> lines (\<lambda>k e. remove1 t (L k e)) s5 \<and> progress e reason s s5 \<and> t < task_count s5"
proof -
  note p = pop_line [OF l k hd [symmetric]]
  from p(1) obtain q f where d: "wq_dequeue (line_of k (endpoints s e)) s = (Some t, q, relink f s)"
    and s4: "set_bnext t None (set_line k e q (relink f s)) = set_line k e q (relink f s)"
      "scheduled_as s (set_line k e q (relink f s))" "waits_as s (set_line k e q (relink f s))"
      "\<And>j e'. queued j \<Longrightarrow> wq_rep (line_of j (endpoints (set_line k e q (relink f s)) e'))
         (bn (set_line k e q (relink f s))) (remove1 t (L j e'))"
    unfolding Let_def by blast
  have ok: "ready_ok s" using inv by (simp add: ipc_inv_def)
  note w = wake_inv [OF inv l p(2) s4(2-4)] and g = wake_progress [OF ok p(2,3) s4(2,3)]
  have "t < task_count (wake_with t reason (set_line k e q (relink f s)))"
    using g [of reason] p(2) by (simp add: progress_def)
  then show ?thesis using d s4(1) w g unfolding Let_def by blast
qed

lemma drain_send_inv:
  assumes "ipc_inv s" "lines L s"
  shows "\<exists>s' L'. drain_send e reason s = Some s' \<and> ipc_inv s' \<and> lines L' s' \<and> L' Sending e = []
     \<and> (\<forall>k. L k e = [] \<longrightarrow> L' k e = []) \<and> progress e reason s s'"
  using assms
proof (induction "L Sending e" arbitrary: s L)
  case Nil
  then have "wq_head (send_queue (endpoints s e)) = None"
    using linesD(1) [OF Nil(3), of Sending e] by (simp add: wq_rep_def)
  then show ?case using Nil by (subst drain_send.simps) auto
next
  case (Cons t xs)
  from drain_round [OF Cons.prems queued_simps(1) Cons.hyps(2), of reason] obtain q f where
    d: "wq_dequeue (send_queue (endpoints s e)) s = (Some t, q, relink f s)"
      "set_bnext t None (set_send_queue e q (relink f s)) = set_send_queue e q (relink f s)"
    and w: "ipc_inv (wake_with t reason (set_send_queue e q (relink f s)))"
      "lines (\<lambda>k e. remove1 t (L k e)) (wake_with t reason (set_send_queue e q (relink f s)))"
      "progress e reason s (wake_with t reason (set_send_queue e q (relink f s)))"
    by (auto simp: Let_def set_line_def)
  have "wq_head (send_queue (endpoints s e)) = Some t"
    using pop_line(4) [OF Cons.prems(2) queued_simps(1) Cons.hyps(2) [symmetric]] by simp
  then have step: "drain_send e reason s = drain_send e reason (wake_with t reason (set_send_queue e q (relink f s)))"
    by (subst drain_send.simps) (simp add: d)
  have "xs = (\<lambda>k e. remove1 t (L k e)) Sending e" unfolding Cons.hyps(2) [symmetric] by simp
  from Cons.hyps(1) [OF this w(1,2)] show ?case
    unfolding step using progress_trans [OF w(3)] by (metis remove1.simps(1))
qed

lemma drain_recv_inv:
  assumes "ipc_inv s" "lines L s"
  shows "\<exists>s' L'. drain_recv e reason s = Some s' \<and> ipc_inv s' \<and> lines L' s' \<and> L' Receiving e = []
     \<and> (\<forall>k. L k e = [] \<longrightarrow> L' k e = []) \<and> progress e reason s s'"
  using assms
proof (induction "L Receiving e" arbitrary: s L)
  case Nil
  then have "wq_head (recv_queue (endpoints s e)) = None"
    using linesD(1) [OF Nil(3), of Receiving e] by (simp add: wq_rep_def)
  then show ?case using Nil by (subst drain_recv.simps) auto
next
  case (Cons t xs)
  from drain_round [OF Cons.prems queued_simps(2) Cons.hyps(2), of reason] obtain q f where
    d: "wq_dequeue (recv_queue (endpoints s e)) s = (Some t, q, relink f s)"
      "set_bnext t None (set_recv_queue e q (relink f s)) = set_recv_queue e q (relink f s)"
    and w: "ipc_inv (wake_with t reason (set_recv_queue e q (relink f s)))"
      "lines (\<lambda>k e. remove1 t (L k e)) (wake_with t reason (set_recv_queue e q (relink f s)))"
      "progress e reason s (wake_with t reason (set_recv_queue e q (relink f s)))"
      "t < task_count (wake_with t reason (set_recv_queue e q (relink f s)))"
    by (auto simp: Let_def set_line_def)
  let ?s6 = "recalculate_receiver_priority (Some t) (wake_with t reason (set_recv_queue e q (relink f s)))"
  have w6: "ipc_inv ?s6" "lines (\<lambda>k e. remove1 t (L k e)) ?s6" "progress e reason s ?s6"
    using w recalculate_inv [OF w(1), of "Some t"] by (simp_all only: recalculate_lines recalculate_progress) auto
  have "wq_head (recv_queue (endpoints s e)) = Some t"
    using pop_line(4) [OF Cons.prems(2) queued_simps(2) Cons.hyps(2) [symmetric]] by simp
  then have step: "drain_recv e reason s = drain_recv e reason ?s6"
    by (subst drain_recv.simps) (simp add: d)
  have "xs = (\<lambda>k e. remove1 t (L k e)) Receiving e" unfolding Cons.hyps(2) [symmetric] by simp
  from Cons.hyps(1) [OF this w6(1,2)] show ?case
    unfolding step using progress_trans [OF w6(3)] by (metis remove1.simps(1))
qed

section \<open>The remaining waiters\<close>

lemma cancel_reply_waiter_inv:
  fixes reason :: ipc_status
  assumes inv: "ipc_inv s" and l: "lines L s" and empty: "L Sending e = []" "L Receiving e = []"
    and i: "i < task_count s"
  defines "s' \<equiv> cancel_reply_waiter e reason s i"
  shows "ipc_inv s' \<and> lines (\<lambda>k e. remove1 i (L k e)) s' \<and> progress e reason s s'
     \<and> waiting_endpoint (ipcx s' i) \<noteq> Some e \<or> ipc_inv s' \<and> s' = s \<and> waiting_endpoint (ipcx s i) \<noteq> Some e"
proof (cases "waiting_endpoint (ipcx s i) = Some e")
  case False
  then show ?thesis using inv i by (simp add: s'_def cancel_reply_waiter_def get_task_def)
next
  case True
  let ?s4 = "set_bnext i None s"
  let ?s5 = "wake_with i reason ?s4"
  have s': "s' = (if receiver_id (ipcx s i) < MAX_TASKS
      then recalculate_receiver_priority (get_task_by_id (receiver_id (ipcx s i)) ?s5) ?s5 else ?s5)"
    using True i by (simp add: s'_def cancel_reply_waiter_def get_task_def Let_def)
  have v: "scheduled_as s ?s4" "waits_as s ?s4" by (simp_all add: set_bnext_relink ipc_simps)
  have out: "i \<notin> set (L k e')" if "queued k" for k e'
  proof
    assume "i \<in> set (L k e')"
    moreover from this have "e' = e" using True unfolding linesD(2) [OF l that] by (simp add: wait_key_def)
    ultimately show False using empty that by (auto simp: queued_def)
  qed
  have rep: "wq_rep (line_of k (endpoints ?s4 e')) (bn ?s4) (remove1 i (L k e'))" if "queued k" for k e'
  proof -
    have "wq_rep (line_of k (endpoints s e')) ((bn s)(i := None)) (L k e')"
      using linesD(1) [OF l that, of e'] wq_rep_cong [of "L k e'" "(bn s)(i := None)" "bn s"] out [OF that]
      by (metis fun_upd_apply)
    then show ?thesis using out [OF that] by (simp add: set_bnext_relink relink_frame remove1_idem)
  qed
  note w = wake_inv [OF inv l i v rep]
  have p: "progress e reason s ?s5" using wake_progress [OF _ i True v] inv by (simp add: ipc_inv_def)
  have "ipc_inv s'" using w recalculate_inv [of ?s5] get_task_by_id_lt by (auto simp: s')
  moreover have "lines (\<lambda>k e. remove1 i (L k e)) s'" using w by (auto simp: s' recalculate_lines)
  moreover have "progress e reason s s'" using p by (auto simp: s' recalculate_progress)
  moreover have "waiting_endpoint (ipcx s' i) \<noteq> Some e" by (auto simp: s' ipc_simps)
  ultimately show ?thesis by blast
qed

lemma cancel_scan_inv:
  assumes "ipc_inv s" "lines L s" "L Sending e = []" "L Receiving e = []" "n \<le> task_count s"
  shows "let s' = foldl (cancel_reply_waiter e reason) s [0..<n]
     in ipc_inv s' \<and> (\<exists>L'. lines L' s' \<and> L' Sending e = [] \<and> L' Receiving e = []) \<and> progress e reason s s'
        \<and> (\<forall>t < n. waiting_endpoint (ipcx s' t) \<noteq> Some e)"
  using assms(5)
proof (induction n)
  case 0
  then show ?case using assms by auto
next
  case (Suc n)
  let ?s = "foldl (cancel_reply_waiter e reason) s [0..<n]"
  from Suc obtain L' where i: "ipc_inv ?s" "lines L' ?s" "L' Sending e = []" "L' Receiving e = []"
    and p: "progress e reason s ?s" and d: "\<forall>t < n. waiting_endpoint (ipcx ?s t) \<noteq> Some e"
    by (auto simp: Let_def)
  have n: "n < task_count ?s" using Suc.prems p by (simp add: progress_def)
  let ?s' = "cancel_reply_waiter e reason ?s n"
  note c = cancel_reply_waiter_inv [OF i n, of reason]
  have p': "progress e reason ?s ?s'" using c by auto
  have L: "\<exists>L'. lines L' ?s' \<and> L' Sending e = [] \<and> L' Receiving e = []"
    using c i by (metis remove1.simps(1))
  have "waiting_endpoint (ipcx ?s' t) \<noteq> Some e" if "t < Suc n" for t
  proof (cases "t = n")
    case False
    then have "t < task_count ?s" "waiting_endpoint (ipcx ?s t) \<noteq> Some e" using that n d by auto
    then show ?thesis using p' by (auto simp: progress_def wait_key_def)
  qed (use c in auto)
  then show ?case using c L progress_trans [OF p p'] by (auto simp: Let_def)
qed

lemma cancel_all_inv:
  assumes inv: "ipc_inv s"
  shows "\<exists>s'. cancel_all e reason s = Some s' \<and> ipc_inv s' \<and> progress e reason s s'
     \<and> (\<forall>t < task_count s. waiting_endpoint (ipcx s' t) \<noteq> Some e)
     \<and> wq_head (send_queue (endpoints s' e)) = None \<and> wq_head (recv_queue (endpoints s' e)) = None"
proof -
  from inv obtain L where l: "lines L s" by (auto simp: ipc_inv_def)
  from drain_send_inv [OF inv l, of e reason] obtain s1 L1 where
    1: "drain_send e reason s = Some s1" "ipc_inv s1" "lines L1 s1" "L1 Sending e = []" "progress e reason s s1"
    by blast
  from drain_recv_inv [OF 1(2,3), of e reason] obtain s2 L2 where
    2: "drain_recv e reason s1 = Some s2" "ipc_inv s2" "lines L2 s2" "L2 Receiving e = []"
      "\<forall>k. L1 k e = [] \<longrightarrow> L2 k e = []" "progress e reason s1 s2" by blast
  let ?s' = "foldl (cancel_reply_waiter e reason) s2 [0..<task_count s2]"
  from cancel_scan_inv [OF 2(2,3) _ 2(4) order_refl, of reason] 1(4) 2(5)
  obtain L3 where 3: "ipc_inv ?s'" "lines L3 ?s'" "L3 Sending e = []" "L3 Receiving e = []"
    "progress e reason s2 ?s'" "\<forall>t < task_count s2. waiting_endpoint (ipcx ?s' t) \<noteq> Some e"
    by (auto simp: Let_def)
  have "wq_head (send_queue (endpoints ?s' e)) = None" "wq_head (recv_queue (endpoints ?s' e)) = None"
    using linesD(1) [OF 3(2), of Sending e] linesD(1) [OF 3(2), of Receiving e] 3(3,4)
    by (simp_all add: wq_rep_def)
  moreover have "progress e reason s ?s'" using 1(5) 2(6) 3(5) progress_trans by blast
  moreover have "task_count s2 = task_count s" using 1(5) 2(6) by (simp add: progress_def)
  ultimately show ?thesis using 1 2 3 by (simp add: cancel_all_def)
qed

section \<open>Ticks\<close>

lemma set_sleep_inv: "ipc_inv (set_sleep i n s) = ipc_inv s"
proof -
  have "ready_ok (set_sleep i n s) = ready_ok s" by (rule ready_inv_view) (simp add: ipc_simps)
  then show ?thesis
    by (simp add: ipc_inv_def lines_def pip_def asleep_def ipc_waiting_def wait_key_def ipc_simps)
qed

lemma set_state_inv:
  assumes "ipc_inv s" "\<not> ipc_waiting s i \<or> st \<noteq> Ready \<and> st \<noteq> Sleeping"
  shows "ipc_inv (set_task_state i st s)"
  using assms unfolding ipc_inv_def
  by (auto simp: set_task_state_ok lines_def pip_def asleep_def ipc_waiting_def wait_key_def ipc_simps)

text \<open>What one task's share of a tick leaves alone: everything the next tick reads of the others.\<close>

definition undisturbed :: "nat \<Rightarrow> kernel \<Rightarrow> kernel \<Rightarrow> bool" where
  "undisturbed i s s' \<longleftrightarrow> (\<forall>j. j \<noteq> i \<longrightarrow> wait_key s' j = wait_key s j
     \<and> ipc_status (ipcx s' j) = ipc_status (ipcx s j) \<and> sched_state (sched s' j) = sched_state (sched s j)
     \<and> sleep_ticks (sched s' j) = sleep_ticks (sched s j))"

lemma expire_inv:
  assumes inv: "ipc_inv s" and i: "i < task_count s"
  shows "\<exists>s'. expire i s = Some s' \<and> ipc_inv s' \<and> task_count s' = task_count s \<and> released Timeout s' i
     \<and> undisturbed i s s'"
proof (cases "waiting_endpoint (ipcx s i)")
  case (Some e)
  then show ?thesis using cancel_waiter_inv [OF inv i, of e Timeout] by (auto simp: expire_def released_def undisturbed_def)
next
  case None
  from inv obtain L where l: "lines L s" and ok: "ready_ok s" and pip: "pip s" and sl: "asleep s"
    by (auto simp: ipc_inv_def)
  let ?s' = "upd_ipc i (\<lambda>r. r\<lparr>ipc_state := IpcReady, ipc_status := Timeout\<rparr>) s"
  have "lines L ?s'" by (rule lines_same [OF l]) (use None in \<open>auto simp: ipc_simps wait_key_def\<close>)
  moreover have "ready_ok ?s'" using ok by (rule ready_ok_view) (simp add: ipc_simps)
  moreover have "pip ?s'" by (rule pip_weaken [OF pip]) (auto simp: ipc_simps split: if_splits)
  moreover have "asleep ?s'" using sl unfolding asleep_def ipc_waiting_def by (auto simp: ipc_simps)
  ultimately have "ipc_inv ?s'" by (auto simp: ipc_inv_def)
  then have "ipc_inv (set_task_state i Ready ?s')"
    by (rule set_state_inv) (simp add: ipc_waiting_def ipc_simps)
  then show ?thesis using None i ok_facts(1) [OF ok i] 
    by (simp add: expire_def released_def undisturbed_def wait_key_def ipc_simps)
qed

lemma tick_task_inv:
  assumes inv: "ipc_inv s" and i: "i < task_count s"
  shows "\<exists>s'. tick_task i s = Some s' \<and> ipc_inv s' \<and> task_count s' = task_count s \<and> undisturbed i s s'"
proof -
  have e: "\<exists>s'. expire i (set_sleep i n s) = Some s' \<and> ipc_inv s' \<and> task_count s' = task_count s
      \<and> undisturbed i s s'" for n
    using expire_inv [of "set_sleep i n s" i] inv i
    by (auto simp: set_sleep_inv ipc_simps undisturbed_def wait_key_def)
  have u: "undisturbed i s (set_sleep i n s)" "undisturbed i s (set_task_state i st (set_sleep i n s))"
    "undisturbed i s (set_task_state i st s)" "undisturbed i s s" for n st
    by (simp_all add: undisturbed_def wait_key_def ipc_simps)
  have w: "\<not> ipc_waiting s i" if "sched_state (sched s i) = Sleeping"
    using inv i that by (auto simp: ipc_inv_def asleep_def)
  have r: "ipc_inv (set_task_state i Ready (set_sleep i n s))" "ipc_inv (set_task_state i Ready s)"
    if "sched_state (sched s i) = Sleeping" for n
    using w [OF that] inv by (auto intro!: set_state_inv simp: set_sleep_inv ipc_waiting_def ipc_simps)
  show ?thesis
    using inv e r u set_state_inv [OF inv, of i Terminated]
    by (auto simp: tick_task_def Let_def set_sleep_inv ipc_simps)
qed

lemma compensate_task_inv:
  assumes inv: "ipc_inv s" and i: "i < task_count s"
  shows "\<exists>s'. compensate_task k i s = Some s' \<and> ipc_inv s' \<and> task_count s' = task_count s"
proof -
  have e: "\<exists>s'. expire i (set_sleep i n s) = Some s' \<and> ipc_inv s' \<and> task_count s' = task_count s" for n
    using expire_inv [of "set_sleep i n s" i] inv i by (auto simp: set_sleep_inv ipc_simps)
  have r: "ipc_inv (set_task_state i Ready (set_sleep i n s))" if "sched_state (sched s i) = Sleeping" for n
  proof -
    have "\<not> ipc_waiting s i" using that inv i by (auto simp: ipc_inv_def asleep_def)
    then show ?thesis using inv by (auto intro!: set_state_inv simp: set_sleep_inv ipc_waiting_def ipc_simps)
  qed
  show ?thesis using inv e r by (auto simp: compensate_task_def set_sleep_inv ipc_simps)
qed

lemma for_tasks_returns:
  assumes "\<And>i s. i \<in> set is \<Longrightarrow> P s \<Longrightarrow> \<exists>s'. f i s = Some s' \<and> P s'" "P s"
  shows "\<exists>s'. for_tasks f is s = Some s' \<and> P s'"
  using assms
proof (induction "is" arbitrary: s)
  case (Cons i "is")
  then obtain s1 where "f i s = Some s1" "P s1" by (metis list.set_intros(1))
  with Cons.IH [of s1] Cons.prems(1) show ?case by auto
qed simp

lemma tick_update_inv:
  assumes "ipc_inv s"
  shows "\<exists>s'. tick_update s = Some s' \<and> ipc_inv s' \<and> task_count s' = task_count s"
  unfolding tick_update_def
  by (rule for_tasks_returns) (use tick_task_inv assms in fastforce)+

lemma compensate_ticks_inv:
  assumes "ipc_inv s"
  shows "\<exists>s'. compensate_ticks k s = Some s' \<and> ipc_inv s' \<and> task_count s' = task_count s"
  unfolding compensate_ticks_def
  by (rule for_tasks_returns) (use compensate_task_inv assms in fastforce)+

section \<open>Tickless idle\<close>

text \<open>
  While no wait expires, time passes the same way whether it is counted tick by tick or made
  up for at once: it is taken off every running wait.
\<close>

definition running_wait :: "kernel \<Rightarrow> nat \<Rightarrow> bool" where
  "running_wait s i \<longleftrightarrow> (sched_state (sched s i) = Sleeping \<or> ipc_waiting s i) \<and> sleep_ticks (sched s i) > 0"

definition elapse :: "nat \<Rightarrow> u32 \<Rightarrow> kernel \<Rightarrow> kernel" where
  "elapse n k s = s\<lparr>tasks := (\<lambda>i. if i < n \<and> running_wait s i
     then scheduler_update (\<lambda>r. r\<lparr>sleep_ticks := sleep_ticks r - k\<rparr>) (tasks s i) else tasks s i)\<rparr>"

definition no_expiry :: "u32 \<Rightarrow> kernel \<Rightarrow> bool" where
  "no_expiry k s \<longleftrightarrow> (\<forall>i < task_count s. \<not> canary_broken s i
     \<and> (sched_state (sched s i) = Sleeping \<longrightarrow> sleep_ticks (sched s i) > 0)
     \<and> (running_wait s i \<longrightarrow> k < sleep_ticks (sched s i)))"

lemma elapse_fields:
  "tasks (elapse n k s) n = tasks s n" "ipcx (elapse n k s) i = ipcx s i" "mem (elapse n k s) = mem s"
  "task (tasks (elapse n k s) i) = task (tasks s i)" "task_count (elapse n k s) = task_count s"
  "sched_state (sched (elapse n k s) i) = sched_state (sched s i)"
  "sleep_ticks (sched (elapse n k s) i) =
     (if i < n \<and> running_wait s i then sleep_ticks (sched s i) - k else sleep_ticks (sched s i))"
  by (simp_all add: elapse_def)

lemma elapse_Suc:
  "elapse (Suc n) k s = (if running_wait s n then set_sleep n (sleep_ticks (sched s n) - k) (elapse n k s)
     else elapse n k s)"
  by (auto simp: elapse_def set_sleep_def upd_defs fun_eq_iff less_Suc_eq intro!: kernel.equality)

lemma for_tasks_append: "for_tasks f (xs @ ys) s = Option.bind (for_tasks f xs s) (for_tasks f ys)"
proof (induction xs arbitrary: s)
  case (Cons i xs)
  then show ?case by (cases "f i s") simp_all
qed simp

lemma for_tasks_elapse:
  assumes "\<And>i. i < n \<Longrightarrow> f i (elapse i k s) = Some (elapse (Suc i) k s)"
  shows "for_tasks f [0..<n] s = Some (elapse n k s)"
  using assms by (induction n) (simp_all add: for_tasks_append, simp add: elapse_def)

lemma tick_update_elapse:
  assumes "no_expiry 1 s"
  shows "tick_update s = Some (elapse (task_count s) 1 s)"
  unfolding tick_update_def
proof (rule for_tasks_elapse)
  fix i assume "i < task_count s"
  with assms have c: "\<not> canary_broken s i" "sched_state (sched s i) = Sleeping \<longrightarrow> sleep_ticks (sched s i) > 0"
    "running_wait s i \<longrightarrow> 1 < sleep_ticks (sched s i)" by (auto simp: no_expiry_def)
  have "\<not> canary_broken (elapse i 1 s) i" using c(1) by (simp add: canary_broken_def elapse_fields)
  moreover have "sleep_ticks (sched s i) - 1 \<noteq> 0" if "running_wait s i" using c(3) that by auto
  ultimately show "tick_task i (elapse i 1 s) = Some (elapse (Suc i) 1 s)"
    using c(2) by (auto simp: tick_task_def Let_def elapse_Suc elapse_fields ipc_simps running_wait_def ipc_waiting_def)
qed

lemma compensate_elapse:
  assumes "no_expiry k s"
  shows "compensate_ticks k s = Some (elapse (task_count s) k s)"
  unfolding compensate_ticks_def
proof (rule for_tasks_elapse)
  fix i assume "i < task_count s"
  with assms have "running_wait s i \<longrightarrow> k < sleep_ticks (sched s i)" by (auto simp: no_expiry_def)
  then show "compensate_task k i (elapse i k s) = Some (elapse (Suc i) k s)"
    by (auto simp: compensate_task_def elapse_Suc elapse_fields running_wait_def ipc_waiting_def)
qed

fun ticks :: "nat \<Rightarrow> kernel \<Rightarrow> kernel option" where
  "ticks 0 s = Some s"
| "ticks (Suc n) s = do { s1 \<leftarrow> tick_update s; ticks n s1 }"

lemma elapse_elapse:
  assumes "no_expiry a s"
  shows "elapse (task_count s) b (elapse (task_count s) a s) = elapse (task_count s) (a + b) s"
proof -
  have r: "running_wait (elapse (task_count s) a s) i = running_wait s i" if "i < task_count s" for i
    using assms that by (auto simp: no_expiry_def running_wait_def ipc_waiting_def elapse_fields word_gt_0)
  show ?thesis unfolding elapse_def [of _ b] elapse_def [of _ "a + b"]
    by (rule kernel.equality) (auto simp: fun_eq_iff r, auto simp: elapse_def algebra_simps)
qed

lemma no_expiry_step:
  assumes "no_expiry (1 + of_nat k) s" "Suc k < 2 ^ 32"
  shows "no_expiry 1 s" "no_expiry (of_nat k) (elapse (task_count s) 1 s)"
proof -
  have w: "1 < x" "of_nat k < x - 1" if "1 + of_nat k < x" for x :: u32
  proof -
    have "unat (1 + of_nat k :: u32) = Suc k"
      using assms(2) by (simp flip: of_nat_Suc add: unat_of_nat take_bit_nat_eq_self)
    then have "Suc k < unat x" using that by (simp add: word_less_nat_alt)
    then have x: "of_nat (unat x) = x" "unat x = Suc (unat x - 1)" "k < unat x - 1" by simp_all
    have "unat (x - 1) = unat x - 1" using x by (intro unat_minus_one) auto
    then show "of_nat k < x - 1" using x(3) assms(2)
      by (simp add: word_less_nat_alt unat_of_nat take_bit_nat_eq_self)
    show "1 < x" using \<open>Suc k < unat x\<close> by (simp add: word_less_nat_alt)
  qed
  show "no_expiry 1 s" using assms(1) w(1) by (auto simp: no_expiry_def)
  then have r: "running_wait (elapse (task_count s) 1 s) i = running_wait s i" if "i < task_count s" for i
    using that by (auto simp: no_expiry_def running_wait_def ipc_waiting_def elapse_fields word_gt_0)
  show "no_expiry (of_nat k) (elapse (task_count s) 1 s)"
    unfolding no_expiry_def elapse_fields
  proof (intro allI impI conjI)
    fix i assume i: "i < task_count s"
    note n = assms(1) [unfolded no_expiry_def, rule_format, OF i]
    show "\<not> canary_broken (elapse (task_count s) 1 s) i" using n by (simp add: canary_broken_def elapse_fields)
    show "0 < (if i < task_count s \<and> running_wait s i then sleep_ticks (sched s i) - 1 else sleep_ticks (sched s i))"
      if "sched_state (sched s i) = Sleeping"
    proof -
      have "running_wait s i" using n that by (simp add: running_wait_def)
      then show ?thesis using i n w(2) [of "sleep_ticks (sched s i)"] by (auto simp: word_gt_0)
    qed
    show "of_nat k < (if i < task_count s \<and> running_wait s i then sleep_ticks (sched s i) - 1 else sleep_ticks (sched s i))"
      if "running_wait (elapse (task_count s) 1 s) i"
      using that r [OF i] i n w(2) by simp
  qed
qed

lemma ticks_elapse:
  assumes "no_expiry (of_nat k) s" "k < 2 ^ 32"
  shows "ticks k s = Some (elapse (task_count s) (of_nat k) s)"
  using assms
proof (induction k arbitrary: s)
  case 0
  then show ?case by (auto simp: elapse_def fun_eq_iff intro!: kernel.equality)
next
  case (Suc k)
  then have "no_expiry (1 + of_nat k) s" by simp
  note n = no_expiry_step [OF this Suc.prems(2)]
  let ?s1 = "elapse (task_count s) 1 s"
  have "ticks k ?s1 = Some (elapse (task_count s) (of_nat k) ?s1)"
    using Suc.IH [OF n(2)] Suc.prems(2) by (simp add: elapse_fields)
  then show ?case using tick_update_elapse [OF n(1)] elapse_elapse [OF n(1)] by simp
qed

end
