(* ===== verification/Ipc_Props.thy ===== *)
theory Ipc_Props
  imports Ipc_Teardown
begin

text \<open>
  Properties of the endpoints: totality and safety of every request, a complete remote call,
  the order of priorities along a chain of waiting clients, the teardown of an endpoint, time
  passing during tickless idle, and the revival of a terminated waiter by its own timeout.
\<close>

section \<open>Requests\<close>

datatype ipc_request =
    Do_call nat nat u32 u32 u32 u32 u32 u32
  | Do_receive nat nat u32 u32 u32 u32
  | Do_reply nat nat u32 u32
  | Do_cancel nat nat ipc_status
  | Do_cancel_all nat ipc_status
  | Do_tick
  | Do_compensate u32

fun exec :: "ipc_request \<Rightarrow> kernel \<Rightarrow> kernel option" where
  "exec (Do_call e a msg len rb mx timeout badge) s =
     map_option snd (call e (Some a) msg len rb mx timeout badge s)"
| "exec (Do_receive e r buf cap timeout filt) s = map_option snd (receive e (Some r) buf cap timeout filt s)"
| "exec (Do_reply r i msg len) s = Some (snd (reply (Some r) i msg len s))"
| "exec (Do_cancel e t reason) s = cancel_waiter e (Some t) reason s"
| "exec (Do_cancel_all e reason) s = cancel_all e reason s"
| "exec Do_tick s = tick_update s"
| "exec (Do_compensate k) s = compensate_ticks k s"

text \<open>
  Who may ask for what: calls and receives are made by a task that is not itself waiting, and a
  queued waiter is cancelled at the endpoint it waits at.
\<close>

fun enabled :: "ipc_request \<Rightarrow> kernel \<Rightarrow> bool" where
  "enabled (Do_call e a msg len rb mx timeout badge) s \<longleftrightarrow> a < task_count s \<and> \<not> ipc_waiting s a"
| "enabled (Do_receive e r buf cap timeout filt) s \<longleftrightarrow> r < task_count s \<and> \<not> ipc_waiting s r"
| "enabled (Do_reply r i msg len) s \<longleftrightarrow> r < task_count s"
| "enabled (Do_cancel e t reason) s \<longleftrightarrow> t < task_count s
     \<and> (queued (ipc_state (ipcx s t)) \<longrightarrow> waiting_endpoint (ipcx s t) = Some e)"
| "enabled (Do_cancel_all e reason) s \<longleftrightarrow> True"
| "enabled Do_tick s \<longleftrightarrow> True"
| "enabled (Do_compensate k) s \<longleftrightarrow> True"

lemma exec_inv:
  assumes inv: "ipc_inv s" and en: "enabled r s"
  shows "returns (exec r s) (\<lambda>s'. ipc_inv s' \<and> task_count s' = task_count s)"
proof (cases r)
  case (Do_call e a msg len rb mx timeout badge)
  then show ?thesis using call_inv [OF inv, of a e msg len rb mx timeout badge] en by auto
next
  case (Do_receive e t buf cap timeout filt)
  then show ?thesis using receive_inv [OF inv, of t e buf cap timeout filt] en by auto
next
  case (Do_reply t i msg len)
  then show ?thesis using reply_inv [OF inv, of t i msg len] en by auto
next
  case (Do_cancel e t reason)
  then show ?thesis using cancel_waiter_inv [OF inv, of t e reason] en by auto
next
  case (Do_cancel_all e reason)
  then show ?thesis using cancel_all_inv [OF inv, of e reason] by (auto simp: progress_def)
next
  case Do_tick
  then show ?thesis using tick_update_inv [OF inv] by auto
next
  case (Do_compensate k)
  then show ?thesis using compensate_ticks_inv [OF inv, of k] by auto
qed

fun run :: "ipc_request list \<Rightarrow> kernel \<Rightarrow> kernel option" where
  "run [] s = Some s"
| "run (r # rs) s = (if enabled r s then Option.bind (exec r s) (run rs) else Some s)"

lemma run_inv:
  assumes "ipc_inv s"
  shows "returns (run rs s) ipc_inv"
  using assms
proof (induction rs arbitrary: s)
  case (Cons r rs)
  show ?case
  proof (cases "enabled r s")
    case True
    then obtain s' where "exec r s = Some s'" "ipc_inv s'" using exec_inv [OF Cons.prems] by blast
    then show ?thesis using Cons.IH True by simp
  qed (simp add: Cons.prems)
qed simp

text \<open>Two tasks that wait for nothing satisfy the invariant.\<close>

lemma create_task_more:
  fixes entry stk sz priv :: u32 and pw srd :: u8 and prio :: nat
  assumes i: "free_index s = Some i"
  defines "s' \<equiv> snd (create_task entry stk sz prio pw priv srd s)"
  shows "endpoints s' = endpoints s"
    "base_priority (sched s' t) = (if t = i then prio else base_priority (sched s t))"
    "sleep_ticks (sched s' t) = (if t = i then 0 else sleep_ticks (sched s t))"
  unfolding s'_def create_task_def i option.case Let_def case_prod_beta
  by (simp_all add: kernel_simps) (simp_all add: upd_defs new_tcb_def Let_def empty_tcb_def)

lemma two_tasks_more:
  "endpoints two_tasks e = \<lparr>send_queue = \<lparr>wq_head = None, wq_tail = None\<rparr>,
    recv_queue = \<lparr>wq_head = None, wq_tail = None\<rparr>\<rparr>"
  "base_priority (sched two_tasks 0) = 0" "base_priority (sched two_tasks (Suc 0)) = 8"
  "sleep_ticks (sched two_tasks 0) = 0" "sleep_ticks (sched two_tasks (Suc 0)) = 0"
proof -
  note v = sched_view_eqD [OF sched_view_start]
  show "endpoints two_tasks e = \<lparr>send_queue = \<lparr>wq_head = None, wq_tail = None\<rparr>,
      recv_queue = \<lparr>wq_head = None, wq_tail = None\<rparr>\<rparr>"
  proof -
    have "endpoints (init reset_state) e = \<lparr>send_queue = \<lparr>wq_head = None, wq_tail = None\<rparr>,
      recv_queue = \<lparr>wq_head = None, wq_tail = None\<rparr>\<rparr>" by (simp add: init_def init_links_def reset_state_def)
    then show ?thesis by (simp add: two_tasks_def start_fields create_task_more [OF second_task_free]
        create_task_more [OF first_task_free])
  qed
  show "base_priority (sched two_tasks 0) = 0" "base_priority (sched two_tasks (Suc 0)) = 8"
    unfolding two_tasks_def v
    by (simp_all add: create_task_more [OF second_task_free] create_task_more [OF first_task_free])
  have "sleep_ticks (sched (start s) t) = sleep_ticks (sched s t)" for s t
    by (simp add: start_def Let_def kernel_simps)
  then show "sleep_ticks (sched two_tasks 0) = 0" "sleep_ticks (sched two_tasks (Suc 0)) = 0"
    unfolding two_tasks_def
    by (simp_all add: create_task_more [OF second_task_free] create_task_more [OF first_task_free])
qed

lemma two_tasks_idle: "t < 2 \<Longrightarrow> ipcx two_tasks t = ipc empty_tcb"
  using two_tasks_ipc(1,2) by (auto simp: less_2_cases_iff)

lemma two_tasks_ipc_inv: "ipc_inv two_tasks"
proof -
  have "lines (\<lambda>_ _. []) two_tasks"
    unfolding lines_def by (auto simp: wq_rep_def line_of_def two_tasks_more two_tasks_facts wait_key_def
        two_tasks_idle two_tasks_ipc)
  moreover have "pip two_tasks"
    by (auto simp: pip_def two_tasks_facts two_tasks_more two_tasks_idle two_tasks_ipc less_2_cases_iff)
  moreover have "asleep two_tasks"
    by (auto simp: asleep_def ipc_waiting_def two_tasks_facts two_tasks_idle two_tasks_ipc)
  ultimately show ?thesis using two_tasks_ok by (auto simp: ipc_inv_def sched_ok_def)
qed

text \<open>A task waits for the reply of another, directly or through a chain.\<close>

inductive awaits :: "kernel \<Rightarrow> nat \<Rightarrow> nat \<Rightarrow> bool" for s where
  direct: "t < task_count s \<Longrightarrow> ipc_state (ipcx s t) = ReplyBlocked \<Longrightarrow> r = receiver_id (ipcx s t)
    \<Longrightarrow> r < task_count s \<Longrightarrow> awaits s t r"
| chain: "awaits s t r \<Longrightarrow> awaits s r u \<Longrightarrow> awaits s t u"

section \<open>The three steps of a remote call\<close>

lemma single_line: "distinct xs \<Longrightarrow> set xs = {r} \<Longrightarrow> xs = [r]"
  by (cases xs; cases "tl xs") auto

lemma receive_waits:
  assumes inv: "ipc_inv s" and r: "r < task_count s" "\<not> ipc_waiting s r"
    and none: "\<And>t. t < task_count s \<Longrightarrow> wait_key s t \<noteq> (Sending, Some e)" and tm: "timeout \<noteq> IPC_NONBLOCK"
  shows "\<exists>s1. receive e (Some r) buf cap timeout filt s = Some (Ok, s1) \<and> ipc_inv s1 \<and> task_count s1 = task_count s
     \<and> mem s1 = mem s \<and> msg_buf (ipcx s1 r) = buf \<and> max_len (ipcx s1 r) = cap \<and> label_filter (ipcx s1 r) = filt
     \<and> (\<forall>x. wait_key s1 x = (if x = r then (Receiving, Some e) else wait_key s x)
          \<and> receiver_id (ipcx s1 x) = receiver_id (ipcx s x) \<and> tprio s1 x = tprio s x
          \<and> base_priority (sched s1 x) = base_priority (sched s x)
          \<and> sched_state (sched s1 x) = (if x = r then Blocked_On_Notify else sched_state (sched s x)))"
proof -
  from inv obtain L where l: "lines L s" and ok: "ready_ok s" by (auto simp: ipc_inv_def)
  have rs: "ipc_state (ipcx s r) = IpcReady" using r by (simp add: not_waiting)
  have "set (L Sending e) = {}" unfolding linesD(2) [OF l queued_simps(1)] using none by auto
  then have n: "find (offers filt s) (L Sending e) = None" by simp
  from receive_no_sender(2) [OF l n rs r(1) tm, of buf cap] obtain q f where
    eq: "receive e (Some r) buf cap timeout filt s = Some (Ok, set_task_state (task_id (sched s r)) Blocked_On_Notify
      (set_recv_queue e q (relink f (set_sleep r (wait_ticks timeout) (upd_ipc r (\<lambda>x. x\<lparr>ipc_state := Receiving,
              waiting_endpoint := Some e\<rparr>) (receive_setup r buf cap filt s))))))" (is "_ = Some (Ok, ?s1)")
    unfolding Let_def by blast
  have "ipc_inv ?s1" using receive_inv [OF inv r, of e buf cap timeout filt] unfolding eq by simp
  then show ?thesis
    using eq r(1) ok_facts(1,2) [OF ok r(1)]
    by (intro exI [of _ ?s1]) (simp add: ipc_simps relink_frame wait_key_def)
qed

lemma call_meets:
  assumes inv: "ipc_inv s" and a: "a < task_count s" "\<not> ipc_waiting s a"
    and r: "r < task_count s" "wait_key s r = (Receiving, Some e)" "admits (header_type msg len s) s r"
    and only: "\<And>t. t < task_count s \<Longrightarrow> wait_key s t = (Receiving, Some e) \<Longrightarrow> t = r"
    and tm: "timeout \<noteq> IPC_NONBLOCK"
  defines "t \<equiv> transfer (clamp_len len (max_len (ipcx s r))) (msg_buf (ipcx s r)) msg s"
  shows "\<exists>s2. call e (Some a) msg len rb mx timeout badge s = Some (Ok, s2) \<and> ipc_inv s2
     \<and> task_count s2 = task_count s \<and> mem s2 = mem (snd t)
     \<and> msg_len (ipcx s2 r) = fst t \<and> sender_id (ipcx s2 r) = a \<and> ipc_badge (ipcx s2 r) = badge
     \<and> msg_type (ipcx s2 r) = header_type msg len s \<and> ipc_status (ipcx s2 r) = Ok
     \<and> reply_buf (ipcx s2 a) = rb \<and> max_len (ipcx s2 a) = mx \<and> tprio s2 r = max (tprio s r) (tprio s a)
     \<and> (\<forall>x. wait_key s2 x = (if x = a then (ReplyBlocked, Some e) else if x = r then (IpcReady, None) else wait_key s x)
          \<and> receiver_id (ipcx s2 x) = (if x = a then r else receiver_id (ipcx s x))
          \<and> base_priority (sched s2 x) = base_priority (sched s x)
          \<and> (x \<noteq> r \<longrightarrow> tprio s2 x = tprio s x)
          \<and> sched_state (sched s2 x) =
              (if x = r then Ready else if x = a then Blocked_On_Notify else sched_state (sched s x)))"
proof -
  from inv obtain L where l: "lines L s" and ok: "ready_ok s" by (auto simp: ipc_inv_def)
  have as: "ipc_state (ipcx s a) = IpcReady" using a by (simp add: not_waiting)
  have "distinct (L Receiving e)" using linesD(1) [OF l, of Receiving e] by (simp add: wq_rep_def)
  moreover have "set (L Receiving e) = {r}" 
    unfolding linesD(2) [OF l queued_simps(2)] by (rule set_eqI) (use r(1,2) only in blast)
  ultimately have "L Receiving e = [r]" by (rule single_line)
  then have find: "find (admits (header_type msg len s) s) (L Receiving e) = Some r" using r(3) by simp
  note c = call_receiver [OF l find as a(1)]
  from c(6) obtain q f where
    eq: "call e (Some a) msg len rb mx timeout badge s = Some (Ok, call_met a r e timeout
      (meet a r msg len badge (header_type msg len s) (set_recv_queue e q (relink f (call_setup a msg len rb mx badge s)))))"
    (is "_ = Some (Ok, call_met a r e timeout (meet _ _ _ _ _ _ ?s4))") by blast
  let ?s7 = "meet a r msg len badge (header_type msg len s) ?s4"
  let ?s8 = "set_task_state (task_id (sched ?s7 a)) Blocked_On_Notify (set_sleep a (wait_ticks timeout)
            (upd_ipc a (\<lambda>x. x\<lparr>ipc_state := ReplyBlocked, waiting_endpoint := Some e\<rparr>) ?s7))"
  let ?s2 = "call_met a r e timeout ?s7"
  have s2: "?s2 = set_task_state (task_id (sched ?s7 r)) Ready (inherit_from a r ?s8)"
    using tm by (simp add: call_met_def)
  have "ready_ok ?s8"
    by (intro set_task_state_ok ready_ok_view [OF ok]) (simp add: ipc_simps relink_frame)
  note ih = inherit_from_prio [OF this, of r a]
  have inv2: "ipc_inv ?s2" using call_inv [OF inv a, of e msg len rb mx timeout badge] unfolding eq by simp
  have s4: "wait_key ?s4 x = wait_key s x" "receiver_id (ipcx ?s4 x) = receiver_id (ipcx s x)"
    "sched ?s4 x = sched s x" "reply_buf (ipcx ?s4 a) = rb" "max_len (ipcx ?s4 a) = mx" for x
    by (simp_all add: wait_key_def ipc_simps relink_frame) (simp_all add: relink_def ipc_simps)
  have t4: "transfer (clamp_len len (max_len (ipcx ?s4 r))) (msg_buf (ipcx ?s4 r)) msg ?s4
      = (fst t, ?s4\<lparr>mem := mem (snd t)\<rparr>)"
    using c(3) by (simp add: t_def transfer_def ipc_simps relink_frame)
  have m7: "mem ?s7 = mem (snd t)" unfolding meet_def t4 by (simp add: Let_def ipc_simps)
  have r7: "ipcx ?s7 r = (ipcx ?s4 r)\<lparr>msg_len := fst t, sender_id := a, ipc_badge := badge,
      msg_type := header_type msg len s, ipc_state := IpcReady, ipc_status := Ok, waiting_endpoint := None\<rparr>"
    unfolding meet_fields(1) [OF c(3)] t4 fst_conv s4(3) ok_facts(2) [OF ok a(1)] ..
  have a7: "ipcx ?s7 a = (ipcx ?s4 a)\<lparr>receiver_id := r\<rparr>"
    unfolding meet_fields(2) [OF c(3)] s4(3) ok_facts(2) [OF ok r(1)] ..
  have k7: "wait_key ?s7 x = (if x = r then (IpcReady, None) else wait_key s x)"
    "receiver_id (ipcx ?s7 x) = (if x = a then r else receiver_id (ipcx s x))" for x
    unfolding meet_keys [OF c(3)] s4 ok_facts(2) [OF ok r(1)] by (rule refl)+
  have i2: "ipcx ?s2 x = (if x = a then (ipcx ?s7 a)\<lparr>ipc_state := ReplyBlocked, waiting_endpoint := Some e\<rparr>
      else ipcx ?s7 x)" for x by (simp add: s2 ipc_simps)
  have "wait_key ?s2 x = (if x = a then (ReplyBlocked, Some e) else wait_key ?s7 x)"
    "receiver_id (ipcx ?s2 x) = receiver_id (ipcx ?s7 x)" for x by (simp_all add: wait_key_def i2)
  note k2 = this [unfolded k7]
  have tp: "tprio ?s2 x = (if x = r then max (tprio s r) (tprio s a) else tprio s x)" for x
    unfolding s2 set_task_state_fields using ih [of x] r(1) by (simp add: ipc_simps relink_frame)
  have st: "sched_state (sched ?s2 x) = (if x = r then Ready else if x = a then Blocked_On_Notify else sched_state (sched s x))"
    "base_priority (sched ?s2 x) = base_priority (sched s x)" for x
    unfolding s2 using ok_facts(1,2) [OF ok a(1)] ok_facts(1,2) [OF ok r(1)] a(1) r(1) by (simp_all add: ipc_simps relink_frame)
  have "task_count ?s2 = task_count s" "mem ?s2 = mem (snd t)" unfolding s2 by (simp_all add: ipc_simps relink_frame m7)
  moreover have "msg_len (ipcx ?s2 r) = fst t \<and> sender_id (ipcx ?s2 r) = a \<and> ipc_badge (ipcx ?s2 r) = badge
     \<and> msg_type (ipcx ?s2 r) = header_type msg len s \<and> ipc_status (ipcx ?s2 r) = Ok"
    unfolding i2 r7 using c(3) by simp
  moreover have "reply_buf (ipcx ?s2 a) = rb \<and> max_len (ipcx ?s2 a) = mx" unfolding i2 a7 using s4(4,5) by simp
  ultimately show ?thesis using eq inv2 k2 tp st c(3) by (intro exI [of _ ?s2]) simp
qed

text \<open>The priority a server keeps: its own, or that of the clients that still wait for it.\<close>

definition owed_priority :: "nat \<Rightarrow> nat set \<Rightarrow> kernel \<Rightarrow> nat" where
  "owed_priority r done s = Max (insert (base_priority (sched s r))
     {tprio s x | x. x < task_count s \<and> x \<notin> done \<and> ipc_state (ipcx s x) = ReplyBlocked \<and> receiver_id (ipcx s x) = r})"

lemma reply_answers:
  fixes msg len :: u32
  assumes inv: "ipc_inv s" and r: "r < task_count s" and a: "a < task_count s"
    and blocked: "ipc_state (ipcx s a) = ReplyBlocked" "receiver_id (ipcx s a) = r"
  defines "t \<equiv> transfer (clamp_len len (max_len (ipcx s a))) (reply_buf (ipcx s a)) msg s"
  shows "\<exists>s3. reply (Some r) a msg len s = (Ok, s3) \<and> ipc_inv s3 \<and> task_count s3 = task_count s
     \<and> mem s3 = mem (snd t) \<and> msg_len (ipcx s3 a) = fst t \<and> released Ok s3 a
     \<and> tprio s3 r = owed_priority r {a} s
     \<and> (\<forall>x. x \<noteq> a \<longrightarrow> ipcx s3 x = ipcx s x \<and> sched_state (sched s3 x) = sched_state (sched s x))
     \<and> (\<forall>x. x \<noteq> r \<longrightarrow> tprio s3 x = tprio s x)"
proof -
  have ok: "ready_ok s" using inv by (simp add: ipc_inv_def)
  let ?s2 = "set_sleep a 0 (upd_ipc a (\<lambda>x. x\<lparr>msg_len := fst t, ipc_state := IpcReady,
      ipc_status := Ok, waiting_endpoint := None\<rparr>) (snd t))"
  let ?s3 = "set_task_state (task_id (sched ?s2 a)) Ready ?s2"
  note ida = ok_facts(1,2) [OF ok a] and idr = ok_facts(1,2) [OF ok r]
  have t: "tasks (snd t) = tasks s" "task_count (snd t) = task_count s" "sched_view (snd t) = sched_view s"
    unfolding t_def by (simp_all add: ipc_simps)
  have ok3: "ready_ok ?s3" by (intro set_task_state_ok ready_ok_view [OF ok]) (simp add: ipc_simps t)
  have r3: "r < task_count ?s3" using r by (simp add: ipc_simps t)
  let ?p = "inherited_priority r ?s3"
  let ?s' = "set_task_priority r ?p ?s3"
  have "reply (Some r) a msg len s = (Ok, recalculate_receiver_priority (Some r) ?s3)"
    using blocked a ida idr unfolding t_def by (simp add: reply_def get_task_by_id_def split_beta Let_def)
  then have eq: "reply (Some r) a msg len s = (Ok, ?s')" unfolding recalculate_eq [OF ok3 r3] .
  have inv': "ipc_inv ?s'" using reply_inv [OF inv r, of a msg len] unfolding eq by simp
  have f: "ipcx ?s' x = (if x = a then (ipcx s a)\<lparr>msg_len := fst t, ipc_state := IpcReady,
      ipc_status := Ok, waiting_endpoint := None\<rparr> else ipcx s x)"
    "sched_state (sched ?s' x) = (if x = a then Ready else sched_state (sched s x))"
    "tprio ?s' x = (if x = r then ?p else tprio s x)" "task_count ?s' = task_count s" "mem ?s' = mem (snd t)" for x
    using ida idr a r by (simp_all add: ipc_simps t)
  have f3: "ipc_state (ipcx ?s3 x) = (if x = a then IpcReady else ipc_state (ipcx s x))"
    "receiver_id (ipcx ?s3 x) = receiver_id (ipcx s x)" "tprio ?s3 x = tprio s x"
    "base_priority (sched ?s3 x) = base_priority (sched s x)" "task_count ?s3 = task_count s" for x
    by (simp_all add: ipc_simps t)
  note sp = inherited_priority_spec [OF ok3 r3, unfolded f3]
  let ?A = "{tprio s x | x. x < task_count s \<and> x \<notin> {a} \<and> ipc_state (ipcx s x) = ReplyBlocked \<and> receiver_id (ipcx s x) = r}"
  have fin: "finite ?A" by (rule finite_subset [of _ "tprio s ` {..<task_count s}"]) auto
  have "Max (insert (base_priority (sched s r)) ?A) = ?p"
  proof (rule Max_eqI)
    show "finite (insert (base_priority (sched s r)) ?A)" using fin by simp
    show "y \<le> ?p" if "y \<in> insert (base_priority (sched s r)) ?A" for y using that sp(1,2) by auto
    show "?p \<in> insert (base_priority (sched s r)) ?A" using sp(3) by (auto split: if_splits)
  qed
  then have "tprio ?s' r = owed_priority r {a} s" unfolding f(3) owed_priority_def by simp
  then show ?thesis using eq inv' f by (intro exI [of _ ?s']) (simp add: released_def)
qed

section \<open>Messages\<close>

text \<open>Two buffers of \<open>n\<close> bytes without a common byte.\<close>

definition apart :: "nat \<Rightarrow> u32 \<Rightarrow> u32 \<Rightarrow> bool" where
  "apart n d a \<longleftrightarrow> (\<forall>i < n. \<forall>j < n. d + of_nat i \<noteq> a + of_nat j)"

lemma apart_gap:
  assumes "unat d + n \<le> unat a \<or> unat a + n \<le> unat d" "unat d + n < 2 ^ 32" "unat a + n < 2 ^ 32"
  shows "apart n d a"
  unfolding apart_def
proof (intro allI impI notI)
  fix i j assume ij: "i < n" "j < n" and eq: "d + of_nat i = a + of_nat j"
  have "unat (d + of_nat i) = unat d + i" "unat (a + of_nat j) = unat a + j"
    using ij assms(2,3) by (simp_all add: unat_word_ariths unat_of_nat take_bit_nat_def)
  with eq have "unat d + i = unat a + j" by simp
  then show False using ij assms(1) by linarith
qed

lemma copy_bytes_other:
  "(\<And>j. j < n \<Longrightarrow> x \<noteq> d + of_nat j) \<Longrightarrow> copy_bytes n d a m x = m x"
proof (induction n arbitrary: d a m)
  case (Suc n)
  have "x \<noteq> d" using Suc.prems [of 0] by simp
  moreover have "x \<noteq> d + 1 + of_nat j" if "j < n" for j
    using Suc.prems [of "Suc j"] that by (simp add: algebra_simps)
  ultimately show ?case using Suc.IH [of "d + 1"] by simp
qed simp

lemma copy_bytes_reads:
  assumes "apart n d a" "n \<le> 2 ^ 32" "i < n"
  shows "copy_bytes n d a m (d + of_nat i) = m (a + of_nat i)"
  using assms
proof (induction n arbitrary: d a m i)
  case (Suc n)
  show ?case
  proof (cases i)
    case 0
    have "d \<noteq> d + 1 + of_nat j" if "j < n" for j
    proof
      assume "d = d + 1 + of_nat j"
      then have "of_nat (Suc j) = (0 :: u32)" by (simp add: algebra_simps)
      then have "2 ^ 32 dvd Suc j"
        using word_of_nat_eq_0_iff [where 'a = 32, of "Suc j"] by (simp del: of_nat_Suc)
      then show False using that Suc.prems(2) by (auto dest: dvd_imp_le)
    qed
    then show ?thesis using 0 copy_bytes_other [of n d "d + 1"] by simp
  next
    case (Suc j)
    have ap: "apart n (d + 1) (a + 1)"
      unfolding apart_def
    proof (intro allI impI)
      fix k l assume "k < n" "l < n"
      then show "d + 1 + of_nat k \<noteq> a + 1 + of_nat l"
        using Suc.prems(1) [unfolded apart_def, rule_format, of "Suc k" "Suc l"] by (simp add: algebra_simps)
    qed
    have "copy_bytes n (d + 1) (a + 1) (m(d := m a)) (d + 1 + of_nat j) = (m(d := m a)) (a + 1 + of_nat j)"
      using Suc.IH [OF ap, of j] Suc.prems Suc by simp
    moreover have "d \<noteq> a + of_nat (Suc j)"
      using Suc.prems(1) [unfolded apart_def, rule_format, of 0 "Suc j"] Suc.prems(3) Suc by simp
    ultimately show ?thesis using Suc by (simp add: algebra_simps)
  qed
qed simp

lemma transfer_delivers:
  assumes "0 < min len cap" "min len cap \<le> MAX_IPC_MSG_SIZE" "dst \<noteq> 0" "src \<noteq> 0" "apart (unat (min len cap)) dst src"
  shows "fst (transfer (clamp_len len cap) dst src s) = min len cap"
    "\<And>i. i < unat (min len cap) \<Longrightarrow>
       mem (snd (transfer (clamp_len len cap) dst src s)) (dst + of_nat i) = mem s (src + of_nat i)"
proof -
  have c: "clamp_len len cap = min len cap"
    using assms(2) by (cases "len < cap") (auto simp: clamp_len_def Let_def min_def split: if_splits)
  show "fst (transfer (clamp_len len cap) dst src s) = min len cap"
    unfolding c transfer_def using assms(1,3,4) by simp
  show "mem (snd (transfer (clamp_len len cap) dst src s)) (dst + of_nat i) = mem s (src + of_nat i)"
    if "i < unat (min len cap)" for i
  proof -
    have "unat (min len cap) < 2 ^ LENGTH(32)" by (rule unsigned_less)
    then show ?thesis
      unfolding c transfer_def using assms(1,3,4) copy_bytes_reads [OF assms(5) _ that] by simp
  qed
qed

section \<open>Properties\<close>

text \<open>
  C7: from a state in which the endpoint queues, the states of the waiting tasks and the
  inherited priorities agree, every sequence of admissible requests (calls, receives, replies,
  cancellations, endpoint teardown, ticks and tick compensation) runs to completion and ends in
  such a state: no queue walk diverges, no task stands in a queue it does not wait at or in two
  queues, no waiting task is runnable, and no server runs below a client it owes a reply.
\<close>

theorem ipc_requests_keep_invariant:
  assumes "ipc_inv s"
  shows "returns (run rs s) ipc_inv"
  using assms by (rule run_inv)

theorem ipc_requests_keep_invariant_witness:
  "returns (run [Do_receive 0 1 0x2000 64 IPC_TIMEOUT_INFINITE 0, Do_call 0 0 0x3000 16 0x4000 16 5 7, Do_tick,
     Do_reply 1 0 0x5000 8, Do_cancel_all 0 ReceiverDead] two_tasks) ipc_inv"
  by (rule ipc_requests_keep_invariant [OF two_tasks_ipc_inv])

text \<open>
  C21: a remote call runs to completion. A server that receives on an idle endpoint blocks; a
  client that then calls blocks, wakes the server at no less than its own priority, and the
  server finds the message bytes, the length, the client's identity and the badge; its reply
  copies the answer back, makes the client ready with status Ok, and takes the server back to
  the priority it owed to its other clients.
\<close>

theorem remote_call_completes:
  assumes inv: "ipc_inv s" and a: "a < task_count s" "\<not> ipc_waiting s a"
    and r: "r < task_count s" "\<not> ipc_waiting s r" "a \<noteq> r"
    and idle: "\<And>t. t < task_count s \<Longrightarrow> waiting_endpoint (ipcx s t) \<noteq> Some e"
    and blocking: "t1 \<noteq> IPC_NONBLOCK" "t2 \<noteq> IPC_NONBLOCK"
    and request: "0 < min len cap" "min len cap \<le> MAX_IPC_MSG_SIZE" "buf \<noteq> 0" "msg \<noteq> 0"
      "apart (unat (min len cap)) buf msg"
    and answer: "0 < min rlen mx" "min rlen mx \<le> MAX_IPC_MSG_SIZE" "rb \<noteq> 0" "rmsg \<noteq> 0"
      "apart (unat (min rlen mx)) rb rmsg"
  shows "\<exists>s1 s2 s3. receive e (Some r) buf cap t1 0 s = Some (Ok, s1)
     \<and> call e (Some a) msg len rb mx t2 badge s1 = Some (Ok, s2)
     \<and> reply (Some r) a rmsg rlen s2 = (Ok, s3)
     \<and> sched_state (sched s1 r) = Blocked_On_Notify
     \<and> sched_state (sched s2 a) = Blocked_On_Notify \<and> sched_state (sched s2 r) = Ready
     \<and> tprio s2 r = max (tprio s r) (tprio s a)
     \<and> (\<forall>i < unat (min len cap). mem s2 (buf + of_nat i) = mem s (msg + of_nat i))
     \<and> msg_len (ipcx s2 r) = min len cap \<and> sender_id (ipcx s2 r) = a \<and> ipc_badge (ipcx s2 r) = badge
     \<and> (\<forall>i < unat (min rlen mx). mem s3 (rb + of_nat i) = mem s2 (rmsg + of_nat i))
     \<and> msg_len (ipcx s3 a) = min rlen mx \<and> released Ok s3 a
     \<and> tprio s3 r = owed_priority r {} s \<and> ipc_inv s3"
proof -
  have idle': "wait_key s t \<noteq> (k, Some e)" if "t < task_count s" for t k
    using idle [OF that] by (auto simp: wait_key_def)
  obtain s1 where 1: "receive e (Some r) buf cap t1 0 s = Some (Ok, s1)" "ipc_inv s1" "task_count s1 = task_count s"
      "mem s1 = mem s" "msg_buf (ipcx s1 r) = buf" "max_len (ipcx s1 r) = cap" "label_filter (ipcx s1 r) = 0"
    and f1: "\<And>x. wait_key s1 x = (if x = r then (Receiving, Some e) else wait_key s x)"
      "\<And>x. receiver_id (ipcx s1 x) = receiver_id (ipcx s x)" "\<And>x. tprio s1 x = tprio s x"
      "\<And>x. base_priority (sched s1 x) = base_priority (sched s x)"
      "\<And>x. sched_state (sched s1 x) = (if x = r then Blocked_On_Notify else sched_state (sched s x))"
    using receive_waits [OF inv r(1,2) idle' blocking(1), of buf cap 0] by blast
  have a1: "\<not> ipc_waiting s1 a" "a < task_count s1" and r1: "r < task_count s1" "wait_key s1 r = (Receiving, Some e)"
    using a r f1(1) [of a] 1(3) f1(1) [of r] by (auto simp: ipc_waiting_def wait_key_def)
  have ad: "admits (header_type msg len s1) s1 r" using 1(7) by (simp add: admits_def)
  have only: "t = r" if "t < task_count s1" "wait_key s1 t = (Receiving, Some e)" for t
    using that f1(1) [of t] idle' 1(3) by (auto split: if_splits)
  let ?t = "transfer (clamp_len len cap) buf msg s1"
  obtain s2 where 2: "call e (Some a) msg len rb mx t2 badge s1 = Some (Ok, s2)" "ipc_inv s2"
      "task_count s2 = task_count s1" "mem s2 = mem (snd ?t)" "msg_len (ipcx s2 r) = fst ?t" "sender_id (ipcx s2 r) = a"
      "ipc_badge (ipcx s2 r) = badge" "reply_buf (ipcx s2 a) = rb" "max_len (ipcx s2 a) = mx"
      "tprio s2 r = max (tprio s1 r) (tprio s1 a)"
    and f2: "\<And>x. wait_key s2 x = (if x = a then (ReplyBlocked, Some e) else if x = r then (IpcReady, None) else wait_key s1 x)"
      "\<And>x. receiver_id (ipcx s2 x) = (if x = a then r else receiver_id (ipcx s1 x))"
      "\<And>x. base_priority (sched s2 x) = base_priority (sched s1 x)" "\<And>x. x \<noteq> r \<Longrightarrow> tprio s2 x = tprio s1 x"
      "\<And>x. sched_state (sched s2 x) =
              (if x = r then Ready else if x = a then Blocked_On_Notify else sched_state (sched s1 x))"
    using call_meets [OF 1(2) a1(2,1) r1 ad only blocking(2), of rb mx badge] unfolding 1(5,6) by blast
  have b2: "ipc_state (ipcx s2 a) = ReplyBlocked" "receiver_id (ipcx s2 a) = r" "a < task_count s2" "r < task_count s2"
    using f2(1) [of a] f2(2) [of a] a1 r1 2(3) by (simp_all add: wait_key_def)
  let ?u = "transfer (clamp_len rlen mx) rb rmsg s2"
  obtain s3 where 3: "reply (Some r) a rmsg rlen s2 = (Ok, s3)" "ipc_inv s3" "mem s3 = mem (snd ?u)"
      "msg_len (ipcx s3 a) = fst ?u" "released Ok s3 a" "tprio s3 r = owed_priority r {a} s2"
    using reply_answers [OF 2(2) b2(4,3,1,2), of rmsg rlen] unfolding 2(8,9) by blast
  have "x < task_count s2 \<and> x \<notin> {a} \<and> ipc_state (ipcx s2 x) = ReplyBlocked \<and> receiver_id (ipcx s2 x) = r \<longleftrightarrow>
      x < task_count s \<and> x \<notin> {} \<and> ipc_state (ipcx s x) = ReplyBlocked \<and> receiver_id (ipcx s x) = r" for x
    using f1(1) [of x] f1(2) [of x] f2(1) [of x] f2(2) [of x] a(2) r(2) 1(3) 2(3)
    by (auto simp: wait_key_def ipc_waiting_def split: if_splits)
  moreover have "tprio s2 x = tprio s x" if "ipc_state (ipcx s x) = ReplyBlocked" for x
    using f2(4) [of x] f1(3) [of x] r(2) that by (auto simp: ipc_waiting_def)
  ultimately have o: "owed_priority r {a} s2 = owed_priority r {} s"
    unfolding owed_priority_def f2(3) f1(4) by (metis (no_types, lifting))
  show ?thesis
    using 1 2 3 o f1(3,5) f2(5) r(3) transfer_delivers [OF request, where s = s1]
      transfer_delivers [OF answer, where s = s2]
    by (intro exI [of _ s1] exI [of _ s2] exI [of _ s3]) simp
qed

theorem remote_call_completes_witness:
  "\<exists>s1 s2 s3. receive 3 (Some 1) 0x2000 64 IPC_TIMEOUT_INFINITE 0 two_tasks = Some (Ok, s1)
     \<and> call 3 (Some 0) 0x3000 16 0x4000 32 IPC_TIMEOUT_INFINITE 7 s1 = Some (Ok, s2)
     \<and> reply (Some 1) 0 0x5000 8 s2 = (Ok, s3) \<and> ipc_badge (ipcx s2 1) = 7 \<and> released Ok s3 0
     \<and> mem s2 0x2001 = mem two_tasks 0x3001 \<and> mem s3 0x4007 = mem s2 0x5007"
proof -
  have t: "\<And>t. t < task_count two_tasks \<Longrightarrow> waiting_endpoint (ipcx two_tasks t) \<noteq> Some 3"
    by (simp add: two_tasks_facts two_tasks_idle two_tasks_ipc)
  have w: "\<not> ipc_waiting two_tasks t" if "t < 2" for t
    using that by (simp add: ipc_waiting_def two_tasks_idle two_tasks_ipc)
  have ap: "apart (unat (min 16 (64 :: u32))) 0x2000 0x3000" "apart (unat (min 8 (32 :: u32))) 0x4000 0x5000"
    by (rule apart_gap; simp add: min_def)+
  from remote_call_completes [OF two_tasks_ipc_inv _ w _ w _ t _ _ _ _ _ _ ap(1) _ _ _ _ ap(2),
      of 0 1 IPC_TIMEOUT_INFINITE IPC_TIMEOUT_INFINITE 7]
  obtain s1 s2 s3 where s: "receive 3 (Some 1) 0x2000 64 IPC_TIMEOUT_INFINITE 0 two_tasks = Some (Ok, s1)"
     "call 3 (Some 0) 0x3000 16 0x4000 32 IPC_TIMEOUT_INFINITE 7 s1 = Some (Ok, s2)"
     "reply (Some 1) 0 0x5000 8 s2 = (Ok, s3)" "ipc_badge (ipcx s2 1) = 7" "released Ok s3 0"
     and m: "\<forall>i < 16. mem s2 (0x2000 + of_nat i) = mem two_tasks (0x3000 + of_nat i)"
       "\<forall>i < 8. mem s3 (0x4000 + of_nat i) = mem s2 (0x5000 + of_nat i)"
    by (simp add: two_tasks_facts IPC_TIMEOUT_INFINITE_def IPC_NONBLOCK_def MAX_IPC_MSG_SIZE_def min_def) blast
  from s m(1) [rule_format, of 1] m(2) [rule_format, of 7]
  show ?thesis by (intro exI [of _ s1] exI [of _ s2] exI [of _ s3]) simp
qed

text \<open>
  C13: priorities along chains of waiting clients. If a task waits for the reply of a second one,
  which may itself wait for the reply of a third, and so on, the last one, the one that can run,
  has at least the priority of the first: a high-priority client is never held up by a server
  of lower priority.
\<close>

theorem awaited_server_not_below_client:
  assumes "ipc_inv s" and "run rs s = Some s'" and "awaits s' t r"
  shows "tprio s' t \<le> tprio s' r"
proof -
  have "returns (run rs s) ipc_inv" using assms(1) by (rule run_inv)
  with assms(2) have "pip s'" by (auto simp: ipc_inv_def)
  from assms(3) this show ?thesis
    by (induction rule: awaits.induct) (auto simp: pip_def)
qed

text \<open>A server of priority 0 that has taken the call of a client of priority 8.\<close>

lemma two_tasks_served:
  "\<exists>s'. run [Do_receive 3 0 0x2000 64 IPC_TIMEOUT_INFINITE 0,
       Do_call 3 1 0x3000 16 0x4000 32 IPC_TIMEOUT_INFINITE 7] two_tasks = Some s'
     \<and> ipc_inv s' \<and> task_count s' = 2 \<and> ipc_state (ipcx s' 1) = ReplyBlocked \<and> receiver_id (ipcx s' 1) = 0
     \<and> waiting_endpoint (ipcx s' 1) = Some 3"
proof -
  have w: "\<not> ipc_waiting two_tasks t" "wait_key two_tasks t = (IpcReady, None)" if "t < 2" for t
    using that by (simp_all add: ipc_waiting_def wait_key_def two_tasks_idle two_tasks_ipc)
  have nb: "IPC_TIMEOUT_INFINITE \<noteq> IPC_NONBLOCK" by (simp add: IPC_TIMEOUT_INFINITE_def IPC_NONBLOCK_def)
  obtain s1 where 1: "receive 3 (Some 0) 0x2000 64 IPC_TIMEOUT_INFINITE 0 two_tasks = Some (Ok, s1)" "ipc_inv s1"
      "task_count s1 = 2" "label_filter (ipcx s1 0) = 0"
    and f1: "\<And>x. wait_key s1 x = (if x = 0 then (Receiving, Some 3) else wait_key two_tasks x)"
    using receive_waits [OF two_tasks_ipc_inv, of 0 3 IPC_TIMEOUT_INFINITE "0x2000" 64 0] w nb
    by (auto simp: two_tasks_facts)
  have w1: "\<not> ipc_waiting s1 1" using f1 [of 1] w(2) [of 1] by (simp add: ipc_waiting_def wait_key_def)
  have only: "t = 0" if "t < task_count s1" "wait_key s1 t = (Receiving, Some 3)" for t
    using that f1 [of t] w(2) [of t] 1(3) by (auto split: if_splits)
  have ad: "admits (header_type 0x3000 16 s1) s1 0" using 1(4) by (simp add: admits_def)
  obtain s2 where 2: "call 3 (Some 1) 0x3000 16 0x4000 32 IPC_TIMEOUT_INFINITE 7 s1 = Some (Ok, s2)" "ipc_inv s2"
      "task_count s2 = 2" "wait_key s2 1 = (ReplyBlocked, Some 3)" "receiver_id (ipcx s2 1) = 0"
  proof -
    have lt: "1 < task_count s1" "0 < task_count s1" "wait_key s1 0 = (Receiving, Some 3)" using 1(3) f1 by simp_all
    have "\<exists>s2. call 3 (Some 1) 0x3000 16 0x4000 32 IPC_TIMEOUT_INFINITE 7 s1 = Some (Ok, s2) \<and> ipc_inv s2
        \<and> task_count s2 = task_count s1 \<and> (\<forall>x. wait_key s2 x = (if x = 1 then (ReplyBlocked, Some 3)
             else if x = 0 then (IpcReady, None) else wait_key s1 x)
          \<and> receiver_id (ipcx s2 x) = (if x = 1 then 0 else receiver_id (ipcx s1 x)))"
      using call_meets [OF 1(2) lt(1) w1 lt(2,3) ad _ nb, of "0x4000" 32 7] only by blast
    then show ?thesis using 1(3) by (auto intro!: that)
  qed
  show ?thesis using 1 2 w w1 by (intro exI [of _ s2]) (simp add: two_tasks_facts wait_key_def)
qed

theorem awaited_server_not_below_client_witness:
  "\<exists>s'. run [Do_receive 3 0 0x2000 64 IPC_TIMEOUT_INFINITE 0,
       Do_call 3 1 0x3000 16 0x4000 32 IPC_TIMEOUT_INFINITE 7] two_tasks = Some s'
     \<and> awaits s' 1 0 \<and> tprio s' 1 \<le> tprio s' 0"
proof -
  obtain s' where s': "run [Do_receive 3 0 0x2000 64 IPC_TIMEOUT_INFINITE 0,
       Do_call 3 1 0x3000 16 0x4000 32 IPC_TIMEOUT_INFINITE 7] two_tasks = Some s'" "task_count s' = 2"
     "ipc_state (ipcx s' 1) = ReplyBlocked" "receiver_id (ipcx s' 1) = 0" using two_tasks_served by blast
  have "awaits s' 1 0" by (rule awaits.direct) (use s' in simp_all)
  then show ?thesis using s'(1) awaited_server_not_below_client [OF two_tasks_ipc_inv s'(1)] by blast
qed

text \<open>
  C22: tearing an endpoint down. \<open>cancel_all\<close> returns; afterwards both queues are empty and no
  task refers to the endpoint any more; every task that waited for it, to send, to receive or
  for a reply, is ready with the reason as its status, and the waits and states of all other tasks
  are untouched; priorities of servers may drop.
\<close>

theorem cancel_all_leaves_no_waiter:
  assumes "ipc_inv s"
  shows "\<exists>s'. cancel_all e reason s = Some s' \<and> ipc_inv s'
     \<and> wq_head (send_queue (endpoints s' e)) = None \<and> wq_head (recv_queue (endpoints s' e)) = None
     \<and> (\<forall>t < task_count s. waiting_endpoint (ipcx s' t) \<noteq> Some e
          \<and> (if waiting_endpoint (ipcx s t) = Some e then released reason s' t
             else wait_key s' t = wait_key s t \<and> sched_state (sched s' t) = sched_state (sched s t)))"
proof -
  obtain s' where s': "cancel_all e reason s = Some s'" "ipc_inv s'" "progress e reason s s'"
    "\<forall>t < task_count s. waiting_endpoint (ipcx s' t) \<noteq> Some e"
    "wq_head (send_queue (endpoints s' e)) = None" "wq_head (recv_queue (endpoints s' e)) = None"
    using cancel_all_inv [OF assms] by blast
  have "if waiting_endpoint (ipcx s t) = Some e then released reason s' t
      else wait_key s' t = wait_key s t \<and> sched_state (sched s' t) = sched_state (sched s t)"
    if "t < task_count s" for t
    using s'(3,4) that by (auto simp: progress_def wait_key_def)
  then show ?thesis using s' by blast
qed

theorem cancel_all_leaves_no_waiter_witness:
  "\<exists>s s'. ipc_inv s \<and> waiting_endpoint (ipcx s 1) = Some 3 \<and> cancel_all 3 ReceiverDead s = Some s'
     \<and> released ReceiverDead s' 1"
proof -
  obtain s where s: "ipc_inv s" "task_count s = 2" "waiting_endpoint (ipcx s 1) = Some 3"
    using two_tasks_served by blast
  from cancel_all_leaves_no_waiter [OF s(1), of 3 ReceiverDead] s(2,3)
  obtain s' where "cancel_all 3 ReceiverDead s = Some s'" "released ReceiverDead s' 1" by force
  then show ?thesis using s by blast
qed

text \<open>
  C30: tickless idle. When no wait runs out within the skipped ticks, no task sleeps with no ticks
  left and no live task has a broken stack canary, making up for fewer than 2 to the 32 skipped ticks
  at once leaves exactly the state that taking them one by one would have left.
\<close>

theorem compensation_equals_ticks:
  assumes "no_expiry (of_nat k) s" "k < 2 ^ 32"
  shows "compensate_ticks (of_nat k) s = ticks k s"
  using compensate_elapse [OF assms(1)] ticks_elapse [OF assms] by simp

theorem compensation_equals_ticks_witness:
  "let s = set_sleep 1 9 (upd_sched 1 (\<lambda>r. r\<lparr>sched_state := Sleeping\<rparr>) (reset_state\<lparr>task_count := 2\<rparr>))
   in compensate_ticks 5 s = ticks 5 s \<and> running_wait s 1"
proof -
  let ?s = "set_sleep 1 9 (upd_sched 1 (\<lambda>r. r\<lparr>sched_state := Sleeping\<rparr>) (reset_state\<lparr>task_count := 2\<rparr>))"
  have "no_expiry (of_nat 5) ?s"
    by (auto simp: no_expiry_def canary_broken_def running_wait_def ipc_waiting_def set_sleep_def upd_defs
        reset_state_def empty_tcb_def)
  moreover have "running_wait ?s 1" by (simp add: running_wait_def set_sleep_def upd_defs)
  ultimately show ?thesis using compensation_equals_ticks [of 5 ?s] by simp
qed

text \<open>
  Why broken canaries are excluded: a tick terminates the task, the compensation leaves it as it is
  until the next tick.
\<close>

definition overrun_task :: kernel where
  "overrun_task = upd_task 0 (\<lambda>r. r\<lparr>stack_canary_ptr := 4\<rparr>) 
     (upd_sched 0 (\<lambda>r. r\<lparr>sched_state := Suspended\<rparr>) (reset_state\<lparr>task_count := 1, mem := (\<lambda>_. 0)\<rparr>))"

lemma overrun_fields: "sched_state (sched overrun_task 0) = Suspended" "\<not> ipc_waiting overrun_task 0" "task_count overrun_task = 1"
    "stack_canary_ptr (task (tasks overrun_task 0)) = 4" "mem overrun_task = (\<lambda>_. 0)"
    by (simp_all add: overrun_task_def upd_defs reset_state_def ipc_waiting_def empty_tcb_def)

lemma compensation_skips_canary:
  "compensate_ticks k overrun_task = Some overrun_task"
  "map_option (\<lambda>s'. sched_state (sched s' 0)) (tick_update overrun_task) = Some Terminated"
proof -
  have "canary_broken overrun_task 0"
    by (simp add: canary_broken_def overrun_fields load_word_def STACK_CANARY_def)
  then have "tick_update overrun_task = Some (set_task_state 0 Terminated overrun_task)"
    by (simp add: tick_update_def tick_task_def overrun_fields)
  then show "map_option (\<lambda>s'. sched_state (sched s' 0)) (tick_update overrun_task) = Some Terminated"
    by (simp add: ipc_simps overrun_fields)
  show "compensate_ticks k overrun_task = Some overrun_task"
    by (simp add: compensate_ticks_def compensate_task_def overrun_fields)
qed

text \<open>
  C35: a task that was terminated while it waited at an endpoint with a timeout comes back to
  life: the tick on which its timeout runs out makes it ready again, whatever the reason it was
  terminated for, because the tick handler looks at the wait state of terminated tasks too.
\<close>

theorem timeout_revives_terminated_task:
  assumes inv: "ipc_inv s" and t: "t < task_count s" and dead: "sched_state (sched s t) = Terminated"
    and waiting: "ipc_waiting s t" "sleep_ticks (sched s t) = 1"
  shows "returns (tick_update s) (\<lambda>s'. sched_state (sched s' t) = Ready \<and> ready_ok s')"
proof -
  let ?P = "\<lambda>s'. ipc_inv s' \<and> task_count s' = task_count s"
  let ?A = "\<lambda>s'. ?P s' \<and> wait_key s' t = wait_key s t \<and> sched_state (sched s' t) = Terminated \<and> sleep_ticks (sched s' t) = 1"
  let ?B = "\<lambda>s'. ?P s' \<and> sched_state (sched s' t) = Ready"
  have step: "\<exists>s''. tick_task i s' = Some s'' \<and> ?A s''" if "i \<in> set [0..<t]" "?A s'" for i s'
    using tick_task_inv [of s' i] that t by (auto simp: undisturbed_def)
  obtain s1 where s1: "for_tasks tick_task [0..<t] s = Some s1" "?A s1"
    using for_tasks_returns [of "[0..<t]" ?A tick_task s] step inv dead waiting(2) by blast
  have "\<not> canary_broken s1 t" "ipc_waiting s1 t" using s1(2) waiting(1)
    by (auto simp: canary_broken_def ipc_waiting_def wait_key_def)
  then have "tick_task t s1 = expire t (set_sleep t 0 s1)" using s1(2) by (simp add: tick_task_def ipc_simps)
  then obtain s2 where s2: "tick_task t s1 = Some s2" "?B s2"
    using expire_inv [of "set_sleep t 0 s1" t] s1(2) t by (auto simp: set_sleep_inv ipc_simps released_def)
  have step: "\<exists>s''. tick_task i s' = Some s'' \<and> ?B s''" if "i \<in> set [Suc t..<task_count s]" "?B s'" for i s'
    using tick_task_inv [of s' i] that t by (auto simp: undisturbed_def)
  obtain s3 where s3: "for_tasks tick_task [Suc t..<task_count s] s2 = Some s3" "?B s3"
    using for_tasks_returns [of "[Suc t..<task_count s]" ?B tick_task s2] step s2(2) by blast
  have "[0..<task_count s] = [0..<t] @ t # [Suc t..<task_count s]"
    using t upt_add_eq_append [of 0 t "task_count s - t"] by (simp add: upt_conv_Cons)
  then have "tick_update s = Some s3" using s1(1) s2(1) s3(1) by (simp add: tick_update_def for_tasks_append)
  then show ?thesis using s3(2) by (simp add: ipc_inv_def)
qed

theorem timeout_revives_terminated_task_witness:
  "\<exists>s. sched_state (sched s 1) = Terminated \<and> returns (tick_update s) (\<lambda>s'. sched_state (sched s' 1) = Ready)"
proof -
  obtain s where s: "ipc_inv s" "task_count s = 2" "ipc_state (ipcx s 1) = ReplyBlocked" using two_tasks_served by blast
  let ?s = "set_sleep 1 1 (set_task_state 1 Terminated s)"
  have "ipc_inv ?s" using set_state_inv [OF s(1), of 1 Terminated] by (simp add: set_sleep_inv)
  moreover have "1 < task_count ?s" "sched_state (sched ?s 1) = Terminated" "ipc_waiting ?s 1" "sleep_ticks (sched ?s 1) = 1"
    using s by (simp_all add: ipc_waiting_def ipc_simps)
  ultimately show ?thesis using timeout_revives_terminated_task [of ?s 1] by (intro exI [of _ ?s]) auto
qed

end
