(* ===== verification/CSpace.thy ===== *)
theory CSpace
  imports Ipc_Props
begin

text \<open>
  Kernel objects and capabilities of \<open>kernel/core/kernel_object.hpp\<close> and
  \<open>kernel/core/cspace.cpp\<close>: reference counts, the sixteen capability slots of a task with
  their occupancy bitmap, and the operations insert, look up, delete, derive, mint, grant and
  revoke. Deleting a capability can destroy its object, which tears an endpoint down or frees a
  task; operations return None when that does not return.
\<close>

section \<open>Reference counts\<close>

definition retain :: "kobj \<Rightarrow> kernel \<Rightarrow> kernel" where
  "retain ob s = s\<lparr>ref_count := (ref_count s)(ob := ref_count s ob + 1)\<rparr>"

definition destroy :: "kobj \<Rightarrow> kernel \<Rightarrow> kernel option" where
  "destroy ob s =
     (case ob of
        KTask i \<Rightarrow> Some (free_task (Some i) s)
      | KEndpoint e \<Rightarrow> cancel_all e ReceiverDead s
      | KMemory _ \<Rightarrow> Some s
      | KDevice _ \<Rightarrow> Some s)"

definition release :: "kobj \<Rightarrow> kernel \<Rightarrow> kernel option" where
  "release ob s =
     (if ref_count s ob > 0
      then let s1 = s\<lparr>ref_count := (ref_count s)(ob := ref_count s ob - 1)\<rparr>
           in if ref_count s1 ob = 0 then destroy ob s1 else Some s1
      else Some s)"

section \<open>Capability slots\<close>

definition CAP_RIGHT_READ :: u32 where "CAP_RIGHT_READ = 1"
definition CAP_RIGHT_WRITE :: u32 where "CAP_RIGHT_WRITE = 2"
definition CAP_RIGHT_GRANT :: u32 where "CAP_RIGHT_GRANT = 4"

abbreviation cap_at :: "kernel \<Rightarrow> nat \<Rightarrow> nat \<Rightarrow> capability" where
  "cap_at s t j \<equiv> cspace (secx s t) j"

definition set_occupied :: "nat \<Rightarrow> nat \<Rightarrow> bool \<Rightarrow> kernel \<Rightarrow> kernel" where
  "set_occupied t j b = upd_sec t (\<lambda>r. r\<lparr>occupied_mask :=
     (if b then occupied_mask r OR bit_of j else occupied_mask r AND NOT (bit_of j))\<rparr>)"

definition set_cap :: "nat \<Rightarrow> nat \<Rightarrow> capability \<Rightarrow> kernel \<Rightarrow> kernel" where
  "set_cap t j c = upd_sec t (\<lambda>r. r\<lparr>cspace := (cspace r)(j := c)\<rparr>)"

definition clear_cap :: "nat \<Rightarrow> nat \<Rightarrow> kernel \<Rightarrow> kernel" where
  "clear_cap t j s = set_cap t j ((cap_at s t j)\<lparr>cap_type := CapNull, cap_object := None\<rparr>) s"

definition is_valid_slot :: "nat \<Rightarrow> bool" where
  "is_valid_slot slot \<longleftrightarrow> slot < MAX_CSPACE_SLOTS"

definition is_slot_occupied :: "nat option \<Rightarrow> nat \<Rightarrow> kernel \<Rightarrow> bool" where
  "is_slot_occupied tp slot s =
     (case tp of None \<Rightarrow> False
      | Some t \<Rightarrow> is_valid_slot slot \<and> occupied_mask (secx s t) AND bit_of slot \<noteq> 0)"

definition get_occupied_mask :: "nat option \<Rightarrow> kernel \<Rightarrow> u16" where
  "get_occupied_mask tp s = (case tp of None \<Rightarrow> 0 | Some t \<Rightarrow> occupied_mask (secx s t))"

definition cap_alloc_slot :: "nat option \<Rightarrow> kernel \<Rightarrow> int" where
  "cap_alloc_slot tp s =
     (case tp of None \<Rightarrow> -1
      | Some t \<Rightarrow>
          let free_mask = (NOT (ucast (occupied_mask (secx s t)) :: u32)) AND (bit_of MAX_CSPACE_SLOTS - 1)
          in if free_mask = 0 then -1 else find_lowest_bit free_mask)"

text \<open>A capability to an endpoint its holder waits at is not dropped silently: the wait ends.\<close>

definition cancel_if_waiting :: "nat \<Rightarrow> capability \<Rightarrow> kernel \<Rightarrow> kernel option" where
  "cancel_if_waiting t c s =
     (if cap_type c = CapEndpoint
      then (case cap_object c of
              Some (KEndpoint e) \<Rightarrow>
                if waiting_endpoint (ipcx s t) = Some e then cancel_waiter e (Some t) NoPermission s else Some s
            | _ \<Rightarrow> Some s)
      else Some s)"

definition cap_delete :: "nat option \<Rightarrow> nat \<Rightarrow> kernel \<Rightarrow> (bool \<times> kernel) option" where
  "cap_delete tp slot s =
     (case tp of
        None \<Rightarrow> Some (False, s)
      | Some t \<Rightarrow>
          if \<not> is_valid_slot slot then Some (False, s)
          else
            let c = cap_at s t slot in
            do { s2 \<leftarrow> (case cap_object c of
                          Some ob \<Rightarrow> if cap_type c \<noteq> CapNull
                                      then do { s1 \<leftarrow> cancel_if_waiting t c s; release ob s1 } else Some s
                        | None \<Rightarrow> Some s);
                 Some (True, set_occupied t slot False (clear_cap t slot s2)) })"

definition cap_insert :: "nat option \<Rightarrow> nat \<Rightarrow> capability \<Rightarrow> kernel \<Rightarrow> (bool \<times> kernel) option" where
  "cap_insert tp slot c s =
     (case tp of
        None \<Rightarrow> Some (False, s)
      | Some t \<Rightarrow>
          if \<not> is_valid_slot slot \<or> cap_type c = CapNull then Some (False, s)
          else do { (_, s1) \<leftarrow> cap_delete (Some t) slot s;
                    let s2 = set_cap t slot c s1;
                    let s3 = (case cap_object c of Some ob \<Rightarrow> retain ob s2 | None \<Rightarrow> s2);
                    Some (True, set_occupied t slot True s3) })"

definition cap_lookup :: "nat option \<Rightarrow> nat \<Rightarrow> kernel \<Rightarrow> (nat \<times> nat) option \<times> kernel" where
  "cap_lookup tp slot s =
     (case tp of
        None \<Rightarrow> (None, s)
      | Some t \<Rightarrow>
          if \<not> is_valid_slot slot then (None, s)
          else if cap_type (cap_at s t slot) = CapNull then (None, set_occupied t slot False s)
          else (Some (t, slot), set_occupied t slot True s))"

text \<open>The requested rights, and whether they are within given rights.\<close>

definition requested :: "u32 \<Rightarrow> cap_rights" where
  "requested rights = \<lparr>cr_read = (rights AND CAP_RIGHT_READ \<noteq> 0), cr_write = (rights AND CAP_RIGHT_WRITE \<noteq> 0),
     cr_grant = (rights AND CAP_RIGHT_GRANT \<noteq> 0)\<rparr>"

definition escalates :: "cap_rights \<Rightarrow> cap_rights \<Rightarrow> bool" where
  "escalates req held \<longleftrightarrow> (cr_read req \<and> \<not> cr_read held) \<or> (cr_write req \<and> \<not> cr_write held)
     \<or> (cr_grant req \<and> \<not> cr_grant held)"

text \<open>
  What derive, mint and grant share: the destination slot is deleted, then takes type and object
  of the source slot as it is after the deletion.
\<close>

definition copy_cap :: "nat \<Rightarrow> nat \<Rightarrow> nat \<Rightarrow> nat \<Rightarrow> cap_rights \<Rightarrow> u32 \<Rightarrow> kernel \<Rightarrow> (bool \<times> kernel) option" where
  "copy_cap t src t' dst req badge s =
     do { (_, s1) \<leftarrow> cap_delete (Some t') dst s;
          let c = cap_at s1 t src;
          let s2 = set_cap t' dst \<lparr>cap_type = cap_type c, cap_rights = req, cap_badge = badge,
                     cap_object = cap_object c\<rparr> s1;
          let s3 = (case cap_object c of Some ob \<Rightarrow> retain ob s2 | None \<Rightarrow> s2);
          Some (True, set_occupied t' dst True s3) }"

definition cap_derive_internal ::
  "nat option \<Rightarrow> nat \<Rightarrow> nat \<Rightarrow> u32 \<Rightarrow> u32 \<Rightarrow> kernel \<Rightarrow> (bool \<times> kernel) option" where
  "cap_derive_internal tp src dst rights badge s =
     (case tp of
        None \<Rightarrow> Some (False, s)
      | Some t \<Rightarrow>
          if \<not> is_valid_slot src \<or> \<not> is_valid_slot dst then Some (False, s)
          else if cap_type (cap_at s t src) = CapNull then Some (False, s)
          else if escalates (requested rights) (cap_rights (cap_at s t src)) then Some (False, s)
          else copy_cap t src t dst (requested rights) badge s)"

definition cap_derive :: "nat option \<Rightarrow> nat \<Rightarrow> nat \<Rightarrow> u32 \<Rightarrow> kernel \<Rightarrow> (bool \<times> kernel) option" where
  "cap_derive tp src dst rights s =
     (case tp of
        None \<Rightarrow> Some (False, s)
      | Some t \<Rightarrow>
          if \<not> is_valid_slot src then Some (False, s)
          else cap_derive_internal tp src dst rights (cap_badge (cap_at s t src)) s)"

definition cap_mint :: "nat option \<Rightarrow> nat \<Rightarrow> nat \<Rightarrow> u32 \<Rightarrow> u32 \<Rightarrow> kernel \<Rightarrow> (bool \<times> kernel) option" where
  "cap_mint tp src dst rights badge s = cap_derive_internal tp src dst rights badge s"

definition cap_grant ::
  "nat option \<Rightarrow> nat option \<Rightarrow> nat \<Rightarrow> nat \<Rightarrow> u32 \<Rightarrow> u32 \<Rightarrow> kernel \<Rightarrow> (bool \<times> kernel) option" where
  "cap_grant sp dp src dst rights badge s =
     (case (sp, dp) of
        (Some t, Some t') \<Rightarrow>
          if \<not> is_valid_slot src \<or> \<not> is_valid_slot dst then Some (False, s)
          else if cap_type (cap_at s t src) = CapNull then Some (False, s)
          else if escalates (requested rights) (cap_rights (cap_at s t src)) then Some (False, s)
          else copy_cap t src t' dst (requested rights) badge s
      | _ \<Rightarrow> Some (False, s))"

section \<open>Revocation\<close>

definition sync_mask :: "nat \<Rightarrow> kernel \<Rightarrow> kernel" where
  "sync_mask t s = foldl (\<lambda>s j. set_occupied t j (cap_type (cap_at s t j) \<noteq> CapNull) s) s [0..<MAX_CSPACE_SLOTS]"

definition revoke_slot :: "nat \<Rightarrow> kobj \<Rightarrow> nat \<Rightarrow> kernel \<Rightarrow> kernel option" where
  "revoke_slot t target j s =
     (if cap_object (cap_at s t j) = Some target
      then do { s1 \<leftarrow> cancel_if_waiting t (cap_at s t j) s;
                s2 \<leftarrow> release target s1;
                Some (set_occupied t j False (clear_cap t j s2)) }
      else Some s)"

text \<open>The scan takes the lowest bit of the mask until the mask is empty.\<close>

lemma clear_lowest_less:
  assumes "w \<noteq> (0 :: u32)"
  shows "unat (w AND NOT (bit_of (nat (find_lowest_bit w)))) < unat w"
proof -
  obtain n where n: "find_lowest_bit w = int n" "bit w n" using find_lowest_bit_obtain [OF assms] by metis
  let ?m = "w AND NOT (bit_of n)"
  have ne: "?m \<noteq> w" using n(2) by (metis bit_and_not_bit_of)
  have "?m \<le> w" by (rule word_and_le2)
  then have "?m < w" using ne by (rule le_neq_trans)
  then show ?thesis using n(1) by (simp add: word_less_nat_alt del: push_bit_of_1)
qed

function revoke_scan :: "nat \<Rightarrow> kobj \<Rightarrow> u32 \<Rightarrow> kernel \<Rightarrow> kernel option" where
  "revoke_scan t target mask_bits s =
     (if mask_bits = 0 then Some s
      else let j = nat (find_lowest_bit mask_bits)
           in do { s1 \<leftarrow> revoke_slot t target j s;
                   revoke_scan t target (mask_bits AND NOT (bit_of j)) s1 })"
  by pat_completeness auto
termination
  by (relation "measure (\<lambda>(_, _, m, _). unat m)") (use clear_lowest_less in auto)

declare revoke_scan.simps [simp del]

definition revoke_task :: "nat \<Rightarrow> nat \<Rightarrow> kobj \<Rightarrow> nat \<Rightarrow> kernel \<Rightarrow> kernel option" where
  "revoke_task holder slot target i s =
     (case get_task (int i) s of
        None \<Rightarrow> Some s
      | Some t \<Rightarrow>
          let s1 = sync_mask t s;
              m = ucast (occupied_mask (secx s1 t)) :: u32;
              m' = (if t = holder then m AND NOT (bit_of slot) else m)
          in if m' = 0 then Some s1 else revoke_scan t target m' s1)"

definition cap_revoke :: "nat option \<Rightarrow> nat \<Rightarrow> kernel \<Rightarrow> (bool \<times> kernel) option" where
  "cap_revoke tp slot s =
     (case tp of
        None \<Rightarrow> Some (False, s)
      | Some t \<Rightarrow>
          if \<not> is_valid_slot slot then Some (False, s)
          else (case cap_lookup tp slot s of
                  (None, s1) \<Rightarrow> Some (False, s1)
                | (Some _, s1) \<Rightarrow>
                    (case cap_object (cap_at s1 t slot) of
                       None \<Rightarrow> Some (False, s1)
                     | Some target \<Rightarrow>
                         do { s2 \<leftarrow> for_tasks (revoke_task t slot target) [0..<task_count s1] s1;
                              Some (True, s2) })))"

section \<open>What destroying an object leaves alone\<close>

text \<open>Endpoint teardown and task release touch no capability and no reference count.\<close>

definition caps_same :: "kernel \<Rightarrow> kernel \<Rightarrow> bool" where
  "caps_same s s' \<longleftrightarrow> (\<forall>t. secx s' t = secx s t) \<and> ref_count s' = ref_count s \<and> task_count s' = task_count s"

lemma caps_sameD:
  assumes "caps_same s s'"
  shows "secx s' t = secx s t" "ref_count s' = ref_count s" "task_count s' = task_count s"
  using assms by (simp_all add: caps_same_def)

lemma caps_same_refl [simp]: "caps_same s s"
  by (simp add: caps_same_def)

lemma caps_same_trans [trans]: "caps_same s s' \<Longrightarrow> caps_same s' s'' \<Longrightarrow> caps_same s s''"
  by (simp add: caps_same_def)

lemma caps_same_steps [ipc_simps]:
  "caps_same s (upd_ipc i f s') = caps_same s s'" "caps_same s (set_sleep i n s') = caps_same s s'"
  "caps_same s (set_task_state i st s') = caps_same s s'"
  "caps_same s (set_task_priority i p s') = caps_same s s'"
  "caps_same s (relink g s') = caps_same s s'" "caps_same s (set_bnext i v s') = caps_same s s'"
  "caps_same s (set_send_queue e q s') = caps_same s s'"
  "caps_same s (set_recv_queue e q s') = caps_same s s'"
  by (auto simp: caps_same_def ipc_simps relink_frame set_sleep_def set_task_state_def set_task_priority_def
      Let_def kernel_simps set_send_queue_def set_recv_queue_def set_bnext_def)

lemma caps_same_wake [ipc_simps]: "caps_same s (wake_with t reason s') = caps_same s s'"
  by (simp add: wake_with_def Let_def ipc_simps)

lemma caps_same_recalculate [ipc_simps]:
  "caps_same s (recalculate_receiver_priority rp s') = caps_same s s'"
  by (simp add: recalculate_receiver_priority_def ipc_simps split: option.split)

lemma wq_remove_caps:
  "wq_remove q tp s = Some (b, q', s') \<Longrightarrow> caps_same s s'"
  by (auto simp: wq_remove_def Let_def ipc_simps split: option.splits if_splits Option.bind_splits)

lemma cancel_waiter_caps:
  assumes "cancel_waiter e tp reason s = Some s'"
  shows "caps_same s s'"
proof (cases tp)
  case (Some t)
  with assms obtain b1 q1 s1 b2 q2 s3 where
    r: "wq_remove (send_queue (endpoints s e)) (Some t) s = Some (b1, q1, s1)"
      "wq_remove (recv_queue (endpoints (set_send_queue e q1 s1) e)) (Some t) (set_send_queue e q1 s1) = Some (b2, q2, s3)"
    and s': "caps_same s3 s'"
    by (auto simp: cancel_waiter_def Let_def caps_same_steps caps_same_wake caps_same_recalculate
        split: Option.bind_splits if_splits)
  have "caps_same s1 s3" using wq_remove_caps [OF r(2)] by (simp add: caps_same_def ipc_simps set_send_queue_def)
  then have "caps_same s s3" using wq_remove_caps [OF r(1)] caps_same_trans by blast
  then show ?thesis using s' by (rule caps_same_trans)
qed (use assms in \<open>simp add: cancel_waiter_def\<close>)

lemma wq_dequeue_caps: "wq_dequeue q s = (tp, q', s') \<Longrightarrow> caps_same s s'"
  by (auto simp: wq_dequeue_def Let_def ipc_simps split: option.splits)


lemma drain_send_caps:
  assumes "drain_send e reason s = Some s'" shows "caps_same s s'"
  using _ assms
proof (rule drain_send.raw_induct)
  fix f e reason s s'
  assume IH: "\<And>e reason s s'. f e reason s = Some s' \<Longrightarrow> caps_same s s'"
    and step: "(if wq_head (send_queue (endpoints s e)) = None then Some s
      else let (tp, q, s1) = wq_dequeue (send_queue (endpoints s e)) s; s2 = set_send_queue e q s1
        in f e reason (case tp of None \<Rightarrow> s2 | Some t \<Rightarrow> wake_with t reason (set_bnext t None s2))) = Some s'"
  obtain tp q s1 where d: "wq_dequeue (send_queue (endpoints s e)) s = (tp, q, s1)" by (metis prod_cases3)
  have "caps_same s s1" by (rule wq_dequeue_caps [OF d])
  then have c: "caps_same s (case tp of None \<Rightarrow> set_send_queue e q s1
      | Some t \<Rightarrow> wake_with t reason (set_bnext t None (set_send_queue e q s1)))"
    by (simp add: ipc_simps split: option.split)
  show "caps_same s s'"
    using step IH d c caps_same_trans by (auto simp: Let_def split: if_splits)
qed

lemma drain_recv_caps:
  assumes "drain_recv e reason s = Some s'" shows "caps_same s s'"
  using _ assms
proof (rule drain_recv.raw_induct)
  fix f e reason s s'
  assume IH: "\<And>e reason s s'. f e reason s = Some s' \<Longrightarrow> caps_same s s'"
    and step: "(if wq_head (recv_queue (endpoints s e)) = None then Some s
      else let (tp, q, s1) = wq_dequeue (recv_queue (endpoints s e)) s; s2 = set_recv_queue e q s1
        in f e reason (case tp of None \<Rightarrow> s2
             | Some t \<Rightarrow> recalculate_receiver_priority (Some t) (wake_with t reason (set_bnext t None s2)))) = Some s'"
  obtain tp q s1 where d: "wq_dequeue (recv_queue (endpoints s e)) s = (tp, q, s1)" by (metis prod_cases3)
  have "caps_same s s1" by (rule wq_dequeue_caps [OF d])
  then have c: "caps_same s (case tp of None \<Rightarrow> set_recv_queue e q s1
      | Some t \<Rightarrow> recalculate_receiver_priority (Some t)
          (wake_with t reason (set_bnext t None (set_recv_queue e q s1))))"
    by (simp add: ipc_simps split: option.split)
  show "caps_same s s'"
    using step IH d c caps_same_trans by (auto simp: Let_def split: if_splits)
qed

lemma cancel_reply_waiter_caps: "caps_same s (cancel_reply_waiter e reason s i)"
  by (auto simp: cancel_reply_waiter_def Let_def ipc_simps split: option.split)

lemma cancel_all_caps:
  assumes "cancel_all e reason s = Some s'" shows "caps_same s s'"
proof -
  from assms obtain s1 s2 where r: "drain_send e reason s = Some s1" "drain_recv e reason s1 = Some s2"
    and s': "s' = foldl (cancel_reply_waiter e reason) s2 [0..<task_count s2]"
    by (auto simp: cancel_all_def split: Option.bind_splits)
  have "caps_same s2 (foldl (cancel_reply_waiter e reason) s2 xs)" for xs
    by (induction xs rule: rev_induct) (auto intro: caps_same_trans cancel_reply_waiter_caps)
  then show ?thesis
    using drain_send_caps [OF r(1)] drain_recv_caps [OF r(2)] s' by (auto intro: caps_same_trans)
qed

lemma free_task_caps: "caps_same s (free_task (Some i) s)"
  by (simp add: caps_same_def free_task_def Let_def kernel_simps split: option.split)

lemma destroy_caps: "destroy ob s = Some s' \<Longrightarrow> caps_same s s'"
  by (cases ob) (auto simp: destroy_def cancel_all_caps free_task_caps)

lemma cancel_if_waiting_caps: "cancel_if_waiting t c s = Some s' \<Longrightarrow> caps_same s s'"
  by (auto simp: cancel_if_waiting_def cancel_waiter_caps split: if_splits option.splits kobj.splits)

section \<open>The books\<close>

text \<open>
  The slots that hold a capability to an object. The count of an object is the references the
  kernel itself keeps (\<open>own\<close>) plus its holders; the bitmap marks the slots in use; an unused slot
  has no object; a capability to a task names a task of the table.
\<close>

definition holders :: "kernel \<Rightarrow> kobj \<Rightarrow> (nat \<times> nat) set" where
  "holders s ob = {(t, j). t < task_count s \<and> j < MAX_CSPACE_SLOTS \<and> cap_object (cap_at s t j) = Some ob}"

definition slot_ok :: "kernel \<Rightarrow> nat \<Rightarrow> nat \<Rightarrow> bool" where
  "slot_ok s t j \<longleftrightarrow> (bit (occupied_mask (secx s t)) j \<longleftrightarrow> cap_type (cap_at s t j) \<noteq> CapNull)
     \<and> (cap_type (cap_at s t j) = CapNull \<longrightarrow> cap_object (cap_at s t j) = None)
     \<and> (\<forall>k. cap_object (cap_at s t j) = Some (KTask k) \<longrightarrow> k < task_count s)"

definition books :: "(kobj \<Rightarrow> nat) \<Rightarrow> kernel \<Rightarrow> bool" where
  "books own s \<longleftrightarrow> task_count s \<le> MAX_TASKS
     \<and> (\<forall>t < task_count s. \<forall>j < MAX_CSPACE_SLOTS. slot_ok s t j)
     \<and> (\<forall>ob. own ob < 2 ^ 31 \<and> unat (ref_count s ob) = own ob + card (holders s ob))"

lemma holders_finite: "finite (holders s ob)"
  by (rule finite_subset [of _ "{..<task_count s} \<times> {..<MAX_CSPACE_SLOTS}"]) (auto simp: holders_def)

lemma holders_bound:
  assumes "task_count s \<le> MAX_TASKS" shows "card (holders s ob) \<le> 256"
proof -
  have "card (holders s ob) \<le> card ({..<MAX_TASKS} \<times> {..<MAX_CSPACE_SLOTS})"
    by (rule card_mono) (use assms in \<open>auto simp: holders_def\<close>)
  then show ?thesis by simp
qed

lemma booksD:
  assumes "books own s"
  shows "task_count s \<le> MAX_TASKS" "t < task_count s \<Longrightarrow> j < MAX_CSPACE_SLOTS \<Longrightarrow> slot_ok s t j"
    "unat (ref_count s ob) = own ob + card (holders s ob)" "own ob < 2 ^ 31" "unat (ref_count s ob) < 2 ^ 31 + 257"
proof -
  show n: "task_count s \<le> MAX_TASKS" "t < task_count s \<Longrightarrow> j < MAX_CSPACE_SLOTS \<Longrightarrow> slot_ok s t j"
    "unat (ref_count s ob) = own ob + card (holders s ob)" "own ob < 2 ^ 31" using assms by (auto simp: books_def)
  show "unat (ref_count s ob) < 2 ^ 31 + 257" using n(3,4) holders_bound [OF n(1), of ob] by simp
qed

text \<open>The security fields after the writes of an operation.\<close>

lemma sec_writes:
  "cap_at (set_occupied t j b s) t' j' = cap_at s t' j'"
  "cap_at (set_cap t j c s) t' j' = (if t' = t \<and> j' = j then c else cap_at s t' j')"
  "occupied_mask (secx (set_cap t j c s) t') = occupied_mask (secx s t')"
  "cap_at (clear_cap t j s) t' j' = (if t' = t \<and> j' = j then (cap_at s t j)\<lparr>cap_type := CapNull, cap_object := None\<rparr>
     else cap_at s t' j')"
  "occupied_mask (secx (clear_cap t j s) t') = occupied_mask (secx s t')"
  "cap_at (retain ob s) t' j' = cap_at s t' j'" "occupied_mask (secx (retain ob s) t') = occupied_mask (secx s t')"
  "ref_count (set_occupied t j b s) = ref_count s" "ref_count (set_cap t j c s) = ref_count s"
  "ref_count (clear_cap t j s) = ref_count s" "ref_count (retain ob s) = (ref_count s)(ob := ref_count s ob + 1)"
  "task_count (set_occupied t j b s) = task_count s" "task_count (set_cap t j c s) = task_count s"
  "task_count (clear_cap t j s) = task_count s" "task_count (retain ob s) = task_count s"
  by (simp_all add: set_occupied_def set_cap_def clear_cap_def retain_def kernel_simps)

lemma occupied_write:
  "k < 16 \<Longrightarrow> bit (occupied_mask (secx (set_occupied t j b s) t')) k \<longleftrightarrow>
     (if t' = t \<and> k = j then b else bit (occupied_mask (secx s t')) k)"
  by (auto simp: set_occupied_def kernel_simps bitmap_simps)

lemma ipc_inv_cong:
  assumes "sched_view s' = sched_view s" "\<And>j. sched s' j = sched s j" "\<And>j. ipcx s' j = ipcx s j"
    "endpoints s' = endpoints s" "task_count s' = task_count s"
  shows "ipc_inv s' = ipc_inv s"
  using assms ready_inv_view(3) [OF assms(1)]
  by (simp add: ipc_inv_def lines_def pip_def asleep_def ipc_waiting_def wait_key_def bn_def)

lemma sec_writes_inv:
  "ipc_inv (set_occupied t j b s) = ipc_inv s" "ipc_inv (set_cap t j c s) = ipc_inv s"
  "ipc_inv (clear_cap t j s) = ipc_inv s" "ipc_inv (retain ob s) = ipc_inv s"
  "ipc_inv (s\<lparr>ref_count := rc\<rparr>) = ipc_inv s"
  by (rule ipc_inv_cong;
      simp add: set_occupied_def set_cap_def clear_cap_def retain_def view_simps kernel_simps)+

section \<open>Releasing an object\<close>

lemma free_task_inv:
  assumes inv: "ipc_inv s" and i: "i < task_count s"
  shows "ipc_inv (free_task (Some i) s)"
proof -
  have ok: "ready_ok s" using inv by (simp add: ipc_inv_def)
  define s1 where "s1 = (case vasp (memory (tasks s i)) of None \<Rightarrow> s
    | Some v \<Rightarrow> upd_memory i (\<lambda>r. r\<lparr>vasp := None, pgdir_base := 0\<rparr>) (log_event (DeleteVasp v) s))"
  have v: "sched_view s1 = sched_view s" by (simp add: s1_def view_simps split: option.split)
  have f: "sched s1 j = sched s j" "ipcx s1 j = ipcx s j" "endpoints s1 = endpoints s" "task_count s1 = task_count s" for j
    by (auto simp: s1_def kernel_simps split: option.split)
  have inv1: "ipc_inv s1" using inv ipc_inv_cong [OF v f] by simp
  have "upd_sched i (\<lambda>r. r\<lparr>sched_state := Unallocated\<rparr>) s1 = s1" if "sched_state (sched s1 i) = Unallocated"
    using that by (auto simp: upd_defs fun_eq_iff intro!: kernel.equality)
  then have "free_task (Some i) s = set_task_state i Unallocated s1"
    using i ok_facts(1,2) [OF ok i] unfolding free_task_def option.case s1_def [symmetric]
    by (auto simp: set_task_state_def Let_def f)
  then show ?thesis using set_state_inv [OF inv1, of i Unallocated] by simp
qed

lemma destroy_inv:
  assumes "ipc_inv s" "\<And>k. ob = KTask k \<Longrightarrow> k < task_count s"
  shows "\<exists>s'. destroy ob s = Some s' \<and> ipc_inv s' \<and> caps_same s s'"
proof (cases ob)
  case (KTask k)
  then show ?thesis using assms free_task_inv free_task_caps by (simp add: destroy_def)
next
  case (KEndpoint e)
  obtain s' where "cancel_all e ReceiverDead s = Some s'" "ipc_inv s'" using cancel_all_inv [OF assms(1)] by blast
  then show ?thesis using KEndpoint cancel_all_caps by (simp add: destroy_def)
qed (use assms in \<open>simp_all add: destroy_def\<close>)

lemma release_inv:
  assumes inv: "ipc_inv s" and ob: "\<And>k. ob = KTask k \<Longrightarrow> k < task_count s" and pos: "0 < ref_count s ob"
  shows "\<exists>s'. release ob s = Some s' \<and> ipc_inv s' \<and> (\<forall>t. secx s' t = secx s t) \<and> task_count s' = task_count s
     \<and> ref_count s' = (ref_count s)(ob := ref_count s ob - 1)"
proof -
  let ?s1 = "s\<lparr>ref_count := (ref_count s)(ob := ref_count s ob - 1)\<rparr>"
  have i1: "ipc_inv ?s1" using inv by (simp add: sec_writes_inv)
  obtain s' where "destroy ob ?s1 = Some s'" "ipc_inv s'" "caps_same ?s1 s'"
    using destroy_inv [OF i1] ob by auto
  then show ?thesis using pos i1 by (auto simp: release_def Let_def caps_same_def)
qed

text \<open>A capability to the endpoint its holder waits at.\<close>

definition awaited :: "kernel \<Rightarrow> nat \<Rightarrow> capability \<Rightarrow> bool" where
  "awaited s t c \<longleftrightarrow> cap_type c = CapEndpoint
     \<and> (\<exists>e. cap_object c = Some (KEndpoint e) \<and> waiting_endpoint (ipcx s t) = Some e)"

text \<open>The waits of the tasks in a set end for lack of permission; all other waits go on.\<close>

definition same_wait :: "kernel \<Rightarrow> kernel \<Rightarrow> nat \<Rightarrow> bool" where
  "same_wait s s' u \<longleftrightarrow> wait_key s' u = wait_key s u \<and> ipc_status (ipcx s' u) = ipc_status (ipcx s u)
     \<and> sched_state (sched s' u) = sched_state (sched s u)"

definition waits_cut :: "nat set \<Rightarrow> kernel \<Rightarrow> kernel \<Rightarrow> bool" where
  "waits_cut U s s' \<longleftrightarrow> (\<forall>u < task_count s. if u \<in> U then released NoPermission s' u else same_wait s s' u)"

lemma cancel_if_waiting_inv:
  assumes inv: "ipc_inv s" and t: "t < task_count s"
  shows "\<exists>s'. cancel_if_waiting t c s = Some s' \<and> ipc_inv s' \<and> caps_same s s'
     \<and> waits_cut {u. u = t \<and> awaited s t c} s s'"
proof (cases "awaited s t c")
  case True
  then obtain e where e: "cap_type c = CapEndpoint" "cap_object c = Some (KEndpoint e)" "waiting_endpoint (ipcx s t) = Some e"
    by (auto simp: awaited_def)
  obtain s' where s': "cancel_waiter e (Some t) NoPermission s = Some s'" "ipc_inv s'" "released NoPermission s' t"
      "\<And>j. j \<noteq> t \<Longrightarrow> same_wait s s' j"
    using cancel_waiter_inv [OF inv t, of e NoPermission] e(3) by (auto simp: released_def same_wait_def)
  have "waits_cut {u. u = t \<and> awaited s t c} s s'" using True s'(3,4) by (simp add: waits_cut_def)
  then show ?thesis using e s'(1,2) cancel_waiter_caps [OF s'(1)] by (simp add: cancel_if_waiting_def)
next
  case False
  then have "cancel_if_waiting t c s = Some s"
    by (auto simp: cancel_if_waiting_def awaited_def split: option.split kobj.split)
  then show ?thesis using inv False by (simp add: waits_cut_def same_wait_def caps_same_def)
qed

section \<open>Every operation keeps the books\<close>

lemma holders_write:
  assumes "t < task_count s" "j < MAX_CSPACE_SLOTS" "task_count s' = task_count s"
    and "\<And>t' j'. cap_object (cap_at s' t' j') = (if t' = t \<and> j' = j then x else cap_object (cap_at s t' j'))"
  shows "holders s' ob = (holders s ob - {(t, j)}) \<union> (if x = Some ob then {(t, j)} else {})"
  using assms by (auto simp: holders_def split: if_splits)

lemma unat_dec: "0 < w \<Longrightarrow> unat (w - 1) = unat w - 1" for w :: u32
  by (rule unat_minus_one) auto

lemma unat_inc: "unat w < 2 ^ 31 + 257 \<Longrightarrow> unat (w + 1) = Suc (unat w)" for w :: u32
  by (simp add: unat_word_ariths)

lemma books_drop:
  assumes b: "books own s" and t: "t < task_count s" and j: "j < MAX_CSPACE_SLOTS"
    and s2: "\<And>t. secx s2 t = secx s t" "task_count s2 = task_count s"
    and rc: "ref_count s2 = (case cap_object (cap_at s t j) of None \<Rightarrow> ref_count s
        | Some ob \<Rightarrow> (ref_count s)(ob := ref_count s ob - 1))"
  shows "books own (set_occupied t j False (clear_cap t j s2))" (is "books own ?s3")
proof -
  note d = booksD [OF b]
  have cap: "cap_at ?s3 t' j' = (if t' = t \<and> j' = j then (cap_at s t j)\<lparr>cap_type := CapNull, cap_object := None\<rparr>
      else cap_at s t' j')" for t' j' by (simp add: sec_writes s2)
  have occ: "bit (occupied_mask (secx ?s3 t')) k \<longleftrightarrow> \<not> (t' = t \<and> k = j) \<and> bit (occupied_mask (secx s t')) k"
    if "k < 16" for t' k using that by (simp add: occupied_write sec_writes s2)
  have cnt: "task_count ?s3 = task_count s" by (simp add: sec_writes s2)
  have h: "holders ?s3 ob = holders s ob - {(t, j)}" for ob
    using holders_write [OF t j cnt, where x = None] by (simp add: cap)
  have "slot_ok ?s3 t' j'" if "t' < task_count s" "j' < MAX_CSPACE_SLOTS" for t' j'
    using d(2) [OF that] that(2) unfolding slot_ok_def cap cnt by (auto simp: occ)
  moreover have "unat (ref_count ?s3 ob) = own ob + card (holders ?s3 ob)" for ob
  proof (cases "cap_object (cap_at s t j) = Some ob")
    case True
    then have m: "(t, j) \<in> holders s ob" using t j by (simp add: holders_def)
    then have "card (holders s ob) = Suc (card (holders ?s3 ob))"
      unfolding h using card_Suc_Diff1 [OF holders_finite m] by simp
    moreover from this d(3) [of ob] have "0 < ref_count s ob" by (auto simp: word_less_nat_alt)
    ultimately show ?thesis using d(3) [of ob] True rc unat_dec [of "ref_count s ob"] by (simp add: sec_writes)
  next
    case False
    then have "(t, j) \<notin> holders s ob" by (simp add: holders_def)
    moreover have "ref_count s2 ob = ref_count s ob" using False rc by (auto split: option.splits)
    ultimately show ?thesis using d(3) [of ob] by (simp add: sec_writes h)
  qed
  ultimately show ?thesis using d(1,4) cnt by (simp add: books_def)
qed

lemma books_fill:
  assumes b: "books own s" and t: "t < task_count s" and j: "j < MAX_CSPACE_SLOTS"
    and empty: "cap_object (cap_at s t j) = None" and c: "cap_type c \<noteq> CapNull"
      "\<And>k. cap_object c = Some (KTask k) \<Longrightarrow> k < task_count s"
  shows "books own (set_occupied t j True
    (case cap_object c of Some ob \<Rightarrow> retain ob (set_cap t j c s) | None \<Rightarrow> set_cap t j c s))" (is "books own ?s3")
proof -
  note d = booksD [OF b]
  have cap: "cap_at ?s3 t' j' = (if t' = t \<and> j' = j then c else cap_at s t' j')" for t' j'
    by (simp add: sec_writes split: option.split)
  have occ: "bit (occupied_mask (secx ?s3 t')) k \<longleftrightarrow> (t' = t \<and> k = j) \<or> bit (occupied_mask (secx s t')) k"
    if "k < 16" for t' k using that by (auto simp: occupied_write sec_writes split: option.split)
  have cnt: "task_count ?s3 = task_count s" by (simp add: sec_writes split: option.split)
  have rc: "ref_count ?s3 ob = (if cap_object c = Some ob then ref_count s ob + 1 else ref_count s ob)" for ob
    by (simp add: sec_writes split: option.split)
  have out: "(t, j) \<notin> holders s ob" for ob using empty by (simp add: holders_def)
  then have h: "holders ?s3 ob = (if cap_object c = Some ob then insert (t, j) (holders s ob) else holders s ob)" for ob
    using holders_write [OF t j cnt, where x = "cap_object c"] by (simp add: cap)
  have "slot_ok ?s3 t' j'" if "t' < task_count s" "j' < MAX_CSPACE_SLOTS" for t' j'
    using d(2) [OF that] that(2) c unfolding slot_ok_def cap cnt by (auto simp: occ)
  moreover have "unat (ref_count ?s3 ob) = own ob + card (holders ?s3 ob)" for ob
    using d(3) [of ob] d(5) [of ob] out [of ob] holders_finite [of s ob] by (simp add: rc h unat_inc)
  ultimately show ?thesis using d(1,4) cnt by (simp add: books_def)
qed

lemma ref_pos:
  assumes "books own s" "t < task_count s" "j < MAX_CSPACE_SLOTS" "cap_object (cap_at s t j) = Some ob"
  shows "0 < ref_count s ob"
proof -
  have "(t, j) \<in> holders s ob" using assms by (simp add: holders_def)
  then have "0 < card (holders s ob)" using holders_finite card_gt_0_iff by blast
  then show ?thesis using booksD(3) [OF assms(1), of ob] by (auto simp: word_less_nat_alt)
qed

text \<open>Ending the wait and dropping the reference of one slot.\<close>

lemma release_shared:
  assumes "1 < unat (ref_count s ob)"
  shows "release ob s = Some (s\<lparr>ref_count := (ref_count s)(ob := ref_count s ob - 1)\<rparr>)"
proof -
  have "0 < ref_count s ob" using assms by (simp add: word_less_nat_alt)
  moreover from this assms have "ref_count s ob - 1 \<noteq> 0" using unat_dec [of "ref_count s ob"] by (auto simp: unat_eq_0 [symmetric])
  ultimately show ?thesis by (simp add: release_def Let_def)
qed

lemma drop_slot:
  assumes inv: "ipc_inv s" and b: "books own s" and t: "t < task_count s" and j: "j < MAX_CSPACE_SLOTS"
    and ob: "cap_object (cap_at s t j) = Some ob"
  shows "\<exists>s1 s2. cancel_if_waiting t (cap_at s t j) s = Some s1 \<and> release ob s1 = Some s2
     \<and> ipc_inv (set_occupied t j False (clear_cap t j s2)) \<and> books own (set_occupied t j False (clear_cap t j s2))
     \<and> (\<forall>t. secx s2 t = secx s t) \<and> task_count s2 = task_count s
     \<and> (1 < unat (ref_count s ob) \<longrightarrow>
          waits_cut {u. u = t \<and> awaited s t (cap_at s t j)} s (set_occupied t j False (clear_cap t j s2)))"
proof -
  obtain s1 where s1: "cancel_if_waiting t (cap_at s t j) s = Some s1" "ipc_inv s1" "caps_same s s1"
      and cut: "waits_cut {u. u = t \<and> awaited s t (cap_at s t j)} s s1"
    using cancel_if_waiting_inv [OF inv t] by blast
  note c = caps_sameD [OF s1(3)]
  have "k < task_count s1" if "ob = KTask k" for k
    using booksD(2) [OF b t j] ob that by (simp add: slot_ok_def c)
  moreover have "0 < ref_count s1 ob" using ref_pos [OF b t j ob] by (simp add: c)
  ultimately obtain s2 where s2: "release ob s1 = Some s2" "ipc_inv s2" "\<forall>t. secx s2 t = secx s1 t"
    "task_count s2 = task_count s1" "ref_count s2 = (ref_count s1)(ob := ref_count s1 ob - 1)"
    using release_inv [OF s1(2), of ob] by blast
  have "books own (set_occupied t j False (clear_cap t j s2))"
    by (rule books_drop [OF b t j]) (use s2 c ob in simp_all)
  moreover have "waits_cut {u. u = t \<and> awaited s t (cap_at s t j)} s (set_occupied t j False (clear_cap t j s2))"
    if "1 < unat (ref_count s ob)"
  proof -
    have "s2 = s1\<lparr>ref_count := (ref_count s1)(ob := ref_count s1 ob - 1)\<rparr>"
      using release_shared [of s1 ob] that c s2(1) by simp
    then have "ipcx (set_occupied t j False (clear_cap t j s2)) u = ipcx s1 u"
        "sched (set_occupied t j False (clear_cap t j s2)) u = sched s1 u" for u
      by (simp_all add: set_occupied_def clear_cap_def set_cap_def upd_defs)
    then show ?thesis using cut unfolding waits_cut_def released_def same_wait_def wait_key_def by simp
  qed
  ultimately show ?thesis using s1 s2 c by (auto simp: sec_writes_inv)
qed

lemma cap_delete_inv:
  assumes inv: "ipc_inv s" and b: "books own s" and t: "t < task_count s"
  shows "\<exists>r s'. cap_delete (Some t) j s = Some (r, s') \<and> ipc_inv s' \<and> books own s' \<and> task_count s' = task_count s
     \<and> (j < MAX_CSPACE_SLOTS \<longrightarrow> cap_object (cap_at s' t j) = None \<and> cap_type (cap_at s' t j) = CapNull)
     \<and> (\<forall>t' j'. (t', j') \<noteq> (t, j) \<longrightarrow> cap_at s' t' j' = cap_at s t' j')"
proof (cases "j < MAX_CSPACE_SLOTS")
  case False
  then show ?thesis using assms by (auto simp: cap_delete_def is_valid_slot_def)
next
  case j: True
  show ?thesis
  proof (cases "cap_object (cap_at s t j)")
    case None
    have "books own (set_occupied t j False (clear_cap t j s))"
      by (rule books_drop [OF b t j]) (use None in simp_all)
    then show ?thesis using None inv j by (auto simp: cap_delete_def is_valid_slot_def sec_writes_inv sec_writes)
  next
    case (Some ob)
    then have "cap_type (cap_at s t j) \<noteq> CapNull" using booksD(2) [OF b t j] by (auto simp: slot_ok_def)
    with drop_slot [OF inv b t j Some] Some j show ?thesis
      by (auto simp: cap_delete_def is_valid_slot_def Let_def sec_writes)
  qed
qed

lemma copy_cap_inv:
  assumes inv: "ipc_inv s" and b: "books own s" and t: "t < task_count s" "t' < task_count s"
    and j: "src < MAX_CSPACE_SLOTS" "dst < MAX_CSPACE_SLOTS" and ne: "(t, src) \<noteq> (t', dst)"
    and c: "cap_type (cap_at s t src) \<noteq> CapNull"
  shows "\<exists>s'. copy_cap t src t' dst req badge s = Some (True, s') \<and> ipc_inv s' \<and> books own s'
     \<and> task_count s' = task_count s
     \<and> (\<forall>u k. cap_at s' u k = (if u = t' \<and> k = dst then \<lparr>cap_type = cap_type (cap_at s t src), cap_rights = req,
          cap_badge = badge, cap_object = cap_object (cap_at s t src)\<rparr> else cap_at s u k))"
proof -
  obtain r s1 where d: "cap_delete (Some t') dst s = Some (r, s1)" "ipc_inv s1" "books own s1" "task_count s1 = task_count s"
      "cap_object (cap_at s1 t' dst) = None"
    and o: "\<And>u k. (u, k) \<noteq> (t', dst) \<Longrightarrow> cap_at s1 u k = cap_at s u k"
    using cap_delete_inv [OF inv b t(2), of dst] j(2) by blast
  have src: "cap_at s1 t src = cap_at s t src" using o ne by blast
  let ?c = "\<lparr>cap_type = cap_type (cap_at s t src), cap_rights = req, cap_badge = badge,
      cap_object = cap_object (cap_at s t src)\<rparr>"
  let ?s' = "set_occupied t' dst True (case cap_object ?c of Some ob \<Rightarrow> retain ob (set_cap t' dst ?c s1)
      | None \<Rightarrow> set_cap t' dst ?c s1)"
  have "books own ?s'"
    by (rule books_fill [OF d(3) _ j(2) d(5)])
      (use t d(4) c booksD(2) [OF b t(1) j(1)] in \<open>auto simp: slot_ok_def\<close>)
  moreover have "copy_cap t src t' dst req badge s = Some (True, ?s')"
    unfolding copy_cap_def d(1) by (simp add: src Let_def split: option.split)
  moreover have "ipc_inv ?s'" using d(2) by (simp add: sec_writes_inv split: option.split)
  moreover have "task_count ?s' = task_count s" using d(4) by (simp add: sec_writes split: option.split)
  moreover have "cap_at ?s' u k = (if u = t' \<and> k = dst then ?c else cap_at s u k)" for u k
    using o [of u k] by (auto simp: sec_writes split: option.split)
  ultimately show ?thesis by blast
qed

lemma cap_insert_inv:
  assumes inv: "ipc_inv s" and b: "books own s" and t: "t < task_count s"
    and c: "\<And>k. cap_object c = Some (KTask k) \<Longrightarrow> k < task_count s"
  shows "\<exists>r s'. cap_insert (Some t) j c s = Some (r, s') \<and> ipc_inv s' \<and> books own s' \<and> task_count s' = task_count s"
proof (cases "\<not> is_valid_slot j \<or> cap_type c = CapNull")
  case True
  then show ?thesis using assms by (auto simp: cap_insert_def)
next
  case False
  then have j: "j < MAX_CSPACE_SLOTS" by (simp add: is_valid_slot_def)
  obtain r s1 where d: "cap_delete (Some t) j s = Some (r, s1)" "ipc_inv s1" "books own s1"
      "task_count s1 = task_count s" "cap_object (cap_at s1 t j) = None"
    using cap_delete_inv [OF inv b t, of j] j by blast
  let ?s' = "set_occupied t j True (case cap_object c of Some ob \<Rightarrow> retain ob (set_cap t j c s1)
      | None \<Rightarrow> set_cap t j c s1)"
  have "books own ?s'" by (rule books_fill [OF d(3) _ j d(5)]) (use t d(4) c False in auto)
  moreover have "cap_insert (Some t) j c s = Some (True, ?s')" using False d(1) by (simp add: cap_insert_def Let_def)
  moreover have "ipc_inv ?s'" using d(2) by (simp add: sec_writes_inv split: option.split)
  moreover have "task_count ?s' = task_count s" using d(4) by (simp add: sec_writes split: option.split)
  ultimately show ?thesis by blast
qed

text \<open>Writing an occupancy bit that is right already changes nothing.\<close>

lemma set_occupied_id:
  assumes "j < 16" "bit (occupied_mask (secx s t)) j \<longleftrightarrow> b"
  shows "set_occupied t j b s = s"
proof -
  have "(if b then occupied_mask (secx s t) OR bit_of j else occupied_mask (secx s t) AND NOT (bit_of j))
      = occupied_mask (secx s t)"
    using assms by (auto intro!: bit_word_eqI simp: bitmap_simps)
  then have "security_update (\<lambda>r. r\<lparr>occupied_mask := (if b then occupied_mask r OR bit_of j
      else occupied_mask r AND NOT (bit_of j))\<rparr>) (tasks s t) = tasks s t" (is "?x = _")
    by (intro tcb.equality security_context.equality) (simp_all del: push_bit_of_1)
  then have "(tasks s)(t := ?x) = tasks s" by (intro fun_upd_idem) (rule sym)
  then show ?thesis by (simp only: set_occupied_def upd_sec_def upd_tcb_def) simp
qed

lemma cap_lookup_books:
  assumes b: "books own s" and t: "t < task_count s"
  shows "cap_lookup (Some t) j s =
    (if j < MAX_CSPACE_SLOTS \<and> cap_type (cap_at s t j) \<noteq> CapNull then Some (t, j) else None, s)"
proof (cases "j < MAX_CSPACE_SLOTS")
  case True
  then show ?thesis using booksD(2) [OF b t True]
    by (auto simp: cap_lookup_def is_valid_slot_def slot_ok_def set_occupied_id)
qed (simp add: cap_lookup_def is_valid_slot_def)

lemma sync_mask_books:
  assumes b: "books own s" and t: "t < task_count s"
  shows "sync_mask t s = s"
proof -
  have "foldl (\<lambda>s j. set_occupied t j (cap_type (cap_at s t j) \<noteq> CapNull) s) s js = s"
    if "set js \<subseteq> {..<MAX_CSPACE_SLOTS}" for js
    using that
  proof (induction js)
    case (Cons j js)
    then have "set_occupied t j (cap_type (cap_at s t j) \<noteq> CapNull) s = s"
      using booksD(2) [OF b t, of j] by (intro set_occupied_id) (auto simp: slot_ok_def)
    then show ?case using Cons by simp
  qed simp
  then show ?thesis by (simp add: sync_mask_def atLeast0LessThan)
qed

text \<open>
  The slots of a region that hold the target are cleared, the others are kept; a task that waits at
  the target through a cleared slot is released, and the waits of all other tasks go on.
\<close>

definition cut_off :: "(nat \<times> nat) set \<Rightarrow> kobj \<Rightarrow> kernel \<Rightarrow> nat set" where
  "cut_off R target s = {u. \<exists>k. (u, k) \<in> R \<and> cap_object (cap_at s u k) = Some target \<and> awaited s u (cap_at s u k)}"

definition revoked :: "(nat \<times> nat) set \<Rightarrow> kobj \<Rightarrow> kernel \<Rightarrow> kernel \<Rightarrow> bool" where
  "revoked R target s s' \<longleftrightarrow> task_count s' = task_count s
     \<and> (\<forall>u k. cap_at s' u k = (if (u, k) \<in> R \<and> cap_object (cap_at s u k) = Some target
            then (cap_at s u k)\<lparr>cap_type := CapNull, cap_object := None\<rparr> else cap_at s u k))
     \<and> waits_cut (cut_off R target s) s s'"

lemma revokedD:
  assumes "revoked R x s s'"
  shows "task_count s' = task_count s" "waits_cut (cut_off R x s) s s'"
    "cap_at s' u k = (if (u, k) \<in> R \<and> cap_object (cap_at s u k) = Some x
       then (cap_at s u k)\<lparr>cap_type := CapNull, cap_object := None\<rparr> else cap_at s u k)"
  using assms by (simp_all only: revoked_def)

lemma revoked_trans:
  assumes a: "revoked R x s s1" and b: "revoked R' x s1 s2" and R: "R \<union> R' = R''"
  shows "revoked R'' x s s2"
proof -
  note a' = revokedD [OF a] and b' = revokedD [OF b]
  have "if u \<in> cut_off R'' x s then released NoPermission s2 u else same_wait s s2 u" if u: "u < task_count s" for u
  proof (cases "u \<in> cut_off R x s")
    case True
    then have r: "released NoPermission s1 u" using a'(2) u by (simp add: waits_cut_def)
    then have "u \<notin> cut_off R' x s1" by (auto simp: cut_off_def awaited_def released_def)
    then have "same_wait s1 s2 u" using b'(2) u a'(1) by (simp add: waits_cut_def)
    moreover have "u \<in> cut_off R'' x s" using True R by (auto simp: cut_off_def)
    ultimately show ?thesis using r by (auto simp: released_def same_wait_def wait_key_def)
  next
    case False
    then have w: "same_wait s s1 u" using a'(2) u by (simp add: waits_cut_def)
    then have aw: "awaited s1 u c = awaited s u c" for c by (auto simp: awaited_def same_wait_def wait_key_def)
    have "u \<in> cut_off R' x s1 \<longleftrightarrow> u \<in> cut_off R'' x s"
      using False by (auto simp: cut_off_def aw a'(3) R [symmetric])
    then show ?thesis using b'(2) u a'(1) w by (auto simp: waits_cut_def same_wait_def split: if_splits)
  qed
  moreover have "cap_at s2 u k = (if (u, k) \<in> R'' \<and> cap_object (cap_at s u k) = Some x
      then (cap_at s u k)\<lparr>cap_type := CapNull, cap_object := None\<rparr> else cap_at s u k)" for u k
    by (auto simp: b'(3) a'(3) R [symmetric])
  ultimately show ?thesis using a'(1) b'(1) by (simp add: revoked_def waits_cut_def)
qed

lemma revoked_refl:
  assumes "\<And>u k. (u, k) \<in> R \<Longrightarrow> cap_object (cap_at s u k) \<noteq> Some x" shows "revoked R x s s"
  using assms by (auto simp: revoked_def waits_cut_def same_wait_def cut_off_def)

lemma revoked_cong:
  assumes "revoked R x s s'" "\<And>u k. cap_object (cap_at s u k) = Some x \<Longrightarrow> (u, k) \<in> R \<longleftrightarrow> (u, k) \<in> R'"
  shows "revoked R' x s s'"
proof -
  have e: "((u, k) \<in> R \<and> cap_object (cap_at s u k) = Some x) = ((u, k) \<in> R' \<and> cap_object (cap_at s u k) = Some x)" for u k
    using assms(2) [of u k] by blast
  then have "cut_off R x s = cut_off R' x s" unfolding cut_off_def by blast
  then show ?thesis using assms(1) e unfolding revoked_def by simp
qed

lemma revoked_kept:
  assumes "revoked R x s s'" "cap_object (cap_at s' t j) \<noteq> None" shows "cap_at s' t j = cap_at s t j"
  using revokedD(3) [OF assms(1), of t j] assms(2) by (auto split: if_splits)

text \<open>A slot outside the region keeps a reference, so that the object is not destroyed.\<close>

lemma holder_kept: "p \<in> holders s x \<Longrightarrow> revoked R x s s' \<Longrightarrow> p \<notin> R \<Longrightarrow> p \<in> holders s' x"
  using revokedD(1,3) [of R x s s'] by (cases p) (simp add: holders_def)

lemma revoke_slot_inv:
  assumes inv: "ipc_inv s" and b: "books own s" and t: "t < task_count s" and j: "j < MAX_CSPACE_SLOTS"
    and p: "p \<in> holders s x" "p \<noteq> (t, j)"
  shows "\<exists>s'. revoke_slot t x j s = Some s' \<and> ipc_inv s' \<and> books own s' \<and> revoked {(t, j)} x s s'"
proof (cases "cap_object (cap_at s t j) = Some x")
  case True
  have "{p, (t, j)} \<subseteq> holders s x" using p(1) True t j by (simp add: holders_def)
  then have "card {p, (t, j)} \<le> card (holders s x)" by (rule card_mono [OF holders_finite])
  then have "1 < unat (ref_count s x)" using p(2) booksD(3) [OF b, of x] by simp
  moreover have "cut_off {(t, j)} x s = {u. u = t \<and> awaited s t (cap_at s t j)}" using True by (auto simp: cut_off_def)
  ultimately show ?thesis using drop_slot [OF inv b t j True] True by (auto simp: revoke_slot_def revoked_def sec_writes)
next
  case False
  then show ?thesis using inv b by (auto simp: revoke_slot_def intro!: revoked_refl)
qed

lemma revoke_scan_inv:
  assumes "ipc_inv s" "books own s" "t < task_count s" "\<And>j. bit m j \<Longrightarrow> j < MAX_CSPACE_SLOTS"
    "p \<in> holders s x" "\<And>j. bit m j \<Longrightarrow> p \<noteq> (t, j)"
  shows "\<exists>s'. revoke_scan t x m s = Some s' \<and> ipc_inv s' \<and> books own s' \<and> revoked {(t, j) | j. bit m j} x s s'"
  using assms
proof (induction t x m s rule: revoke_scan.induct)
  case (1 t x m s)
  show ?case
  proof (cases "m = 0")
    case True
    then show ?thesis using 1 by (auto simp: revoke_scan.simps intro: revoked_refl)
  next
    case False
    then obtain j where j: "find_lowest_bit m = int j" "bit m j" using find_lowest_bit_obtain by metis
    obtain s1 where s1: "revoke_slot t x j s = Some s1" "ipc_inv s1" "books own s1" "revoked {(t, j)} x s s1"
      using revoke_slot_inv [OF 1(2,3,4) 1(5) [OF j(2)] 1(6) 1(7) [OF j(2)]] by blast
    have k1: "p \<in> holders s1 x" by (rule holder_kept [OF 1(6) s1(4)]) (use 1(7) [OF j(2)] in simp)
    have bits: "bit (m AND NOT (bit_of j)) k \<longleftrightarrow> bit m k \<and> k \<noteq> j" for k by (rule bit_and_not_bit_of)
    have "\<exists>s'. revoke_scan t x (m AND NOT (bit_of j)) s1 = Some s' \<and> ipc_inv s' \<and> books own s'
        \<and> revoked {(t, k) | k. bit (m AND NOT (bit_of j)) k} x s1 s'"
      by (rule 1(1) [OF False, of "nat (find_lowest_bit m)", simplified j(1) nat_int, OF refl s1(1)])
        (use s1 k1 1(4,5,7) bits revokedD(1) [OF s1(4)] in auto)
    then obtain s' where s': "revoke_scan t x (m AND NOT (bit_of j)) s1 = Some s'" "ipc_inv s'" "books own s'"
        "revoked {(t, k) | k. bit (m AND NOT (bit_of j)) k} x s1 s'" by blast
    have "revoked {(t, j) | j. bit m j} x s s'"
      by (rule revoked_trans [OF s1(4) s'(4)]) (use j(2) in \<open>auto simp: bits simp del: push_bit_of_1\<close>)
    moreover have "revoke_scan t x m s = Some s'"
      using False s1(1) s'(1) j(1) by (subst revoke_scan.simps) (simp add: Let_def del: push_bit_of_1)
    ultimately show ?thesis using s' by blast
  qed
qed

lemma revoke_task_inv:
  assumes inv: "ipc_inv s" and b: "books own s" and i: "i < task_count s" and p: "(h, sl) \<in> holders s x"
  shows "\<exists>s'. revoke_task h sl x i s = Some s' \<and> ipc_inv s' \<and> books own s'
     \<and> revoked ({i} \<times> {..<MAX_CSPACE_SLOTS} - {(h, sl)}) x s s'"
proof -
  let ?m = "ucast (occupied_mask (secx s i)) :: u32"
  let ?m' = "if i = h then ?m AND NOT (bit_of sl) else ?m"
  have lt: "j < MAX_CSPACE_SLOTS" if "bit ?m' j" for j
    using that bit_imp_le_length [of "occupied_mask (secx s i)" j]
    by (auto simp: bit_and_not_bit_of bit_unsigned_iff split: if_splits simp del: push_bit_of_1)
  have out: "(h, sl) \<noteq> (i, j)" if "bit ?m' j" for j using that by (auto simp: bit_and_not_bit_of simp del: push_bit_of_1)
  obtain s' where s': "revoke_scan i x ?m' s = Some s'" "ipc_inv s'" "books own s'"
      "revoked {(i, j) | j. bit ?m' j} x s s'"
    using revoke_scan_inv [OF inv b i, of ?m' "(h, sl)" x] lt p out by blast
  have "bit (occupied_mask (secx s i)) j" if "cap_object (cap_at s i j) = Some x" "j < MAX_CSPACE_SLOTS" for j
    using booksD(2) [OF b i that(2)] that(1) by (auto simp: slot_ok_def)
  then have bits: "bit ?m' j \<longleftrightarrow> (i, j) \<noteq> (h, sl)" if "cap_object (cap_at s i j) = Some x" "j < MAX_CSPACE_SLOTS" for j
    using that by (auto simp: bit_and_not_bit_of bit_unsigned_iff simp del: push_bit_of_1)
  have "revoked ({i} \<times> {..<MAX_CSPACE_SLOTS} - {(h, sl)}) x s s'"
  proof (rule revoked_cong [OF s'(4)])
    fix u k assume "cap_object (cap_at s u k) = Some x"
    then show "(u, k) \<in> {(i, j) | j. bit ?m' j} \<longleftrightarrow> (u, k) \<in> {i} \<times> {..<MAX_CSPACE_SLOTS} - {(h, sl)}"
      using bits [of k] lt [of k] by blast
  qed
  moreover have "revoke_task h sl x i s = revoke_scan i x ?m' s"
  proof -
    have "get_task (int i) s = Some i" using i by (simp add: get_task_def)
    moreover have "(if m = 0 then Some s else revoke_scan i x m s) = revoke_scan i x m s" for m
      by (simp add: revoke_scan.simps)
    ultimately show ?thesis by (simp only: revoke_task_def option.case Let_def sync_mask_books [OF b i])
  qed
  ultimately show ?thesis using s' by auto
qed

lemma revoke_tasks_inv:
  assumes "ipc_inv s" "books own s" "n \<le> task_count s" "(h, sl) \<in> holders s x"
  shows "\<exists>s'. for_tasks (revoke_task h sl x) [0..<n] s = Some s' \<and> ipc_inv s' \<and> books own s'
     \<and> revoked ({..<n} \<times> {..<MAX_CSPACE_SLOTS} - {(h, sl)}) x s s'"
  using assms(3)
proof (induction n)
  case 0
  then show ?case using assms by (auto intro: revoked_refl)
next
  case (Suc n)
  then obtain s1 where s1: "for_tasks (revoke_task h sl x) [0..<n] s = Some s1" "ipc_inv s1" "books own s1"
      "revoked ({..<n} \<times> {..<MAX_CSPACE_SLOTS} - {(h, sl)}) x s s1" by auto
  then have "n < task_count s1" using Suc.prems revokedD(1) [OF s1(4)] by simp
  moreover have "(h, sl) \<in> holders s1 x" by (rule holder_kept [OF assms(4) s1(4)]) simp
  ultimately obtain s2 where s2: "revoke_task h sl x n s1 = Some s2" "ipc_inv s2" "books own s2"
      "revoked ({n} \<times> {..<MAX_CSPACE_SLOTS} - {(h, sl)}) x s1 s2"
    using revoke_task_inv [OF s1(2,3)] by blast
  have "revoked ({..<Suc n} \<times> {..<MAX_CSPACE_SLOTS} - {(h, sl)}) x s s2"
    by (rule revoked_trans [OF s1(4) s2(4)]) auto
  then show ?case using s1(1) s2 by (simp add: for_tasks_append)
qed

lemma cap_revoke_inv:
  assumes inv: "ipc_inv s" and b: "books own s" and t: "t < task_count s"
  shows "\<exists>r s'. cap_revoke (Some t) j s = Some (r, s') \<and> ipc_inv s' \<and> books own s'
     \<and> (if j < MAX_CSPACE_SLOTS \<and> cap_object (cap_at s t j) \<noteq> None
        then r \<and> revoked ({..<task_count s} \<times> {..<MAX_CSPACE_SLOTS} - {(t, j)}) (the (cap_object (cap_at s t j))) s s'
        else \<not> r \<and> s' = s)"
proof (cases "j < MAX_CSPACE_SLOTS \<and> cap_object (cap_at s t j) \<noteq> None")
  case False
  then show ?thesis using inv b
    by (auto simp: cap_revoke_def is_valid_slot_def cap_lookup_books [OF b t])
next
  case True
  then obtain x where x: "cap_object (cap_at s t j) = Some x" by blast
  have "cap_type (cap_at s t j) \<noteq> CapNull" using booksD(2) [OF b t] True by (auto simp: slot_ok_def)
  then have "cap_revoke (Some t) j s =
      do { s2 \<leftarrow> for_tasks (revoke_task t j x) [0..<task_count s] s; Some (True, s2) }"
    using True x by (simp add: cap_revoke_def is_valid_slot_def cap_lookup_books [OF b t])
  moreover have "(t, j) \<in> holders s x" using True x t by (simp add: holders_def)
  ultimately show ?thesis using revoke_tasks_inv [OF inv b order_refl, of t j x] True x by auto
qed

section \<open>Sequences of capability operations\<close>

datatype cap_op =
    Insert nat nat capability
  | Delete nat nat
  | Lookup nat nat
  | Derive nat nat nat u32
  | Mint nat nat nat u32 u32
  | Grant nat nat nat nat u32 u32
  | Revoke nat nat

fun exec_cap :: "cap_op \<Rightarrow> kernel \<Rightarrow> kernel option" where
  "exec_cap (Insert t j c) s = map_option snd (cap_insert (Some t) j c s)"
| "exec_cap (Delete t j) s = map_option snd (cap_delete (Some t) j s)"
| "exec_cap (Lookup t j) s = Some (snd (cap_lookup (Some t) j s))"
| "exec_cap (Derive t src dst r) s = map_option snd (cap_derive (Some t) src dst r s)"
| "exec_cap (Mint t src dst r badge) s = map_option snd (cap_mint (Some t) src dst r badge s)"
| "exec_cap (Grant t t' src dst r badge) s = map_option snd (cap_grant (Some t) (Some t') src dst r badge s)"
| "exec_cap (Revoke t j) s = map_option snd (cap_revoke (Some t) j s)"

fun exec_caps :: "cap_op list \<Rightarrow> kernel \<Rightarrow> kernel option" where
  "exec_caps [] s = Some s"
| "exec_caps (x # xs) s = do { s1 \<leftarrow> exec_cap x s; exec_caps xs s1 }"

text \<open>
  The tasks exist, and the source slot is not the destination slot: copying a slot onto itself is
  the one case in which the operations do not keep the invariant.
\<close>

fun cap_op_ok :: "nat \<Rightarrow> cap_op \<Rightarrow> bool" where
  "cap_op_ok n (Insert t j c) \<longleftrightarrow> t < n \<and> (case cap_object c of Some (KTask k) \<Rightarrow> k < n | _ \<Rightarrow> True)"
| "cap_op_ok n (Delete t j) \<longleftrightarrow> t < n"
| "cap_op_ok n (Lookup t j) \<longleftrightarrow> t < n"
| "cap_op_ok n (Derive t src dst r) \<longleftrightarrow> t < n \<and> src \<noteq> dst"
| "cap_op_ok n (Mint t src dst r badge) \<longleftrightarrow> t < n \<and> src \<noteq> dst"
| "cap_op_ok n (Grant t t' src dst r badge) \<longleftrightarrow> t < n \<and> t' < n \<and> (t, src) \<noteq> (t', dst)"
| "cap_op_ok n (Revoke t j) \<longleftrightarrow> t < n"

fun is_insert :: "cap_op \<Rightarrow> bool" where
  "is_insert (Insert t j c) \<longleftrightarrow> True"
| "is_insert _ \<longleftrightarrow> False"

text \<open>Some slot of some task holds an object with at least given rights.\<close>

definition authority :: "kernel \<Rightarrow> kobj \<Rightarrow> cap_rights \<Rightarrow> bool" where
  "authority s ob r \<longleftrightarrow> (\<exists>t < task_count s. \<exists>j < MAX_CSPACE_SLOTS.
     cap_object (cap_at s t j) = Some ob \<and> \<not> escalates r (cap_rights (cap_at s t j)))"

lemma escalates_trans: "\<not> escalates r r' \<Longrightarrow> \<not> escalates r' r'' \<Longrightarrow> \<not> escalates r r''"
  by (auto simp: escalates_def)

lemma escalates_refl [simp]: "\<not> escalates r r"
  by (auto simp: escalates_def)

lemma authority_mono:
  assumes "task_count s' = task_count s"
    and "\<And>t j ob. t < task_count s \<Longrightarrow> j < MAX_CSPACE_SLOTS \<Longrightarrow> cap_object (cap_at s' t j) = Some ob \<Longrightarrow>
      \<exists>u < task_count s. \<exists>k < MAX_CSPACE_SLOTS. cap_object (cap_at s u k) = Some ob
        \<and> \<not> escalates (cap_rights (cap_at s' t j)) (cap_rights (cap_at s u k))"
  shows "authority s' ob r \<Longrightarrow> authority s ob r"
proof -
  assume "authority s' ob r"
  then obtain t j where t: "t < task_count s" "j < MAX_CSPACE_SLOTS" "cap_object (cap_at s' t j) = Some ob"
      "\<not> escalates r (cap_rights (cap_at s' t j))" unfolding authority_def assms(1) by blast
  obtain u k where "u < task_count s" "k < MAX_CSPACE_SLOTS" "cap_object (cap_at s u k) = Some ob"
      "\<not> escalates (cap_rights (cap_at s' t j)) (cap_rights (cap_at s u k))" using assms(2) [OF t(1-3)] by blast
  then show "authority s ob r" unfolding authority_def using escalates_trans [OF t(4)] by blast
qed

lemma authority_kept:
  assumes "task_count s' = task_count s"
    and "\<And>t j. cap_object (cap_at s' t j) \<noteq> None \<Longrightarrow> cap_at s' t j = cap_at s t j"
  shows "authority s' ob r \<Longrightarrow> authority s ob r"
proof (rule authority_mono [OF assms(1)])
  fix t j ob assume a: "t < task_count s" "j < MAX_CSPACE_SLOTS" "cap_object (cap_at s' t j) = Some ob"
  then have "cap_at s' t j = cap_at s t j" using assms(2) [of t j] by simp
  then show "\<exists>u < task_count s. \<exists>k < MAX_CSPACE_SLOTS. cap_object (cap_at s u k) = Some ob
      \<and> \<not> escalates (cap_rights (cap_at s' t j)) (cap_rights (cap_at s u k))"
    using a by (intro exI [of _ t] conjI exI [of _ j]) auto
qed

text \<open>What one operation promises.\<close>

definition cap_step :: "(kobj \<Rightarrow> nat) \<Rightarrow> bool \<Rightarrow> kernel \<Rightarrow> kernel \<Rightarrow> bool" where
  "cap_step own ins s s' \<longleftrightarrow> ipc_inv s' \<and> books own s' \<and> task_count s' = task_count s
     \<and> (\<not> ins \<longrightarrow> (\<forall>ob r. authority s' ob r \<longrightarrow> authority s ob r))"

lemma copy_step:
  assumes "ipc_inv s" "books own s" "t < task_count s" "t' < task_count s" "(t, src) \<noteq> (t', dst)"
    and "src < MAX_CSPACE_SLOTS" "dst < MAX_CSPACE_SLOTS"
    and "cap_type (cap_at s t src) \<noteq> CapNull" "\<not> escalates req (cap_rights (cap_at s t src))"
  shows "\<exists>s'. map_option snd (copy_cap t src t' dst req badge s) = Some s' \<and> cap_step own False s s'"
proof -
  obtain s' where s': "copy_cap t src t' dst req badge s = Some (True, s')" "ipc_inv s'" "books own s'"
      "task_count s' = task_count s"
    and c: "\<And>u k. cap_at s' u k = (if u = t' \<and> k = dst then \<lparr>cap_type = cap_type (cap_at s t src),
          cap_rights = req, cap_badge = badge, cap_object = cap_object (cap_at s t src)\<rparr> else cap_at s u k)"
    using copy_cap_inv [OF assms(1-4,6,7,5,8), of req badge] by blast
  have "authority s ob r" if "authority s' ob r" for ob r
    using that
  proof (rule authority_mono [OF s'(4), rotated])
    fix u k ob assume u: "u < task_count s" "k < MAX_CSPACE_SLOTS" "cap_object (cap_at s' u k) = Some ob"
    show "\<exists>u' < task_count s. \<exists>k' < MAX_CSPACE_SLOTS. cap_object (cap_at s u' k') = Some ob
        \<and> \<not> escalates (cap_rights (cap_at s' u k)) (cap_rights (cap_at s u' k'))"
    proof (cases "u = t' \<and> k = dst")
      case True
      then show ?thesis using u(3) assms(3,6,9) by (intro exI [of _ t] conjI exI [of _ src]) (auto simp: c)
    next
      case False
      then have "cap_at s' u k = cap_at s u k" by (simp only: c if_False)
      then show ?thesis using u by (intro exI [of _ u] conjI exI [of _ k]) auto
    qed
  qed
  then show ?thesis using s' by (auto simp: cap_step_def)
qed

lemma exec_cap_step:
  assumes inv: "ipc_inv s" and b: "books own s" and ok: "cap_op_ok (task_count s) x"
  shows "\<exists>s'. exec_cap x s = Some s' \<and> cap_step own (is_insert x) s s'"
proof -
  have id: "cap_step own i s s" for i using inv b by (simp add: cap_step_def)
  show ?thesis
  proof (cases x)
    case (Insert t j c)
    have "k < task_count s" if "cap_object c = Some (KTask k)" for k using ok Insert that by simp
    then show ?thesis using cap_insert_inv [OF inv b, of t c j] ok Insert by (auto simp: cap_step_def)
  next
    case (Delete t j)
    then have t: "t < task_count s" using ok by simp
    obtain r s' where d: "cap_delete (Some t) j s = Some (r, s')" "ipc_inv s'" "books own s'" "task_count s' = task_count s"
        "j < MAX_CSPACE_SLOTS \<longrightarrow> cap_object (cap_at s' t j) = None"
        "\<forall>t' j'. (t', j') \<noteq> (t, j) \<longrightarrow> cap_at s' t' j' = cap_at s t' j'"
      using cap_delete_inv [OF inv b t, of j] by blast
    have "authority s ob r" if "authority s' ob r" for ob r
      using that d(4-6) unfolding authority_def by (metis option.distinct(1) prod.inject)
    then show ?thesis using d Delete by (auto simp: cap_step_def)
  next
    case (Lookup t j)
    then show ?thesis using ok id by (simp add: cap_lookup_books [OF b])
  next
    case (Derive t src dst r)
    then show ?thesis using ok id copy_step [OF inv b, of t t src dst "requested r"]
      by (auto simp: cap_derive_def cap_derive_internal_def is_valid_slot_def)
  next
    case (Mint t src dst r badge)
    then show ?thesis using ok id copy_step [OF inv b, of t t src dst "requested r"]
      by (auto simp: cap_mint_def cap_derive_internal_def is_valid_slot_def)
  next
    case (Grant t t' src dst r badge)
    then show ?thesis using ok id copy_step [OF inv b, of t t' src dst "requested r"]
      by (auto simp: cap_grant_def is_valid_slot_def)
  next
    case (Revoke t j)
    then have t: "t < task_count s" using ok by simp
    obtain r s' where r: "cap_revoke (Some t) j s = Some (r, s')" "ipc_inv s'" "books own s'"
      "s' = s \<or> (\<exists>R x. revoked R x s s')"
      using cap_revoke_inv [OF inv b t, of j] by (auto split: if_splits)
    have "task_count s' = task_count s" using r(4) by (auto simp: revoked_def)
    moreover have "authority s ob q" if "authority s' ob q" for ob q
      using that by (rule authority_kept [OF calculation, rotated]) (use r(4) revoked_kept in blast)
    ultimately show ?thesis using r(1-3) Revoke by (auto simp: cap_step_def)
  qed
qed

lemma exec_caps_steps:
  assumes "ipc_inv s" "books own s" "\<forall>x \<in> set xs. cap_op_ok (task_count s) x"
  shows "\<exists>s'. exec_caps xs s = Some s' \<and> cap_step own (\<exists>x \<in> set xs. is_insert x) s s'"
  using assms
proof (induction xs arbitrary: s)
  case Nil
  then show ?case by (simp add: cap_step_def)
next
  case (Cons x xs)
  obtain s1 where s1: "exec_cap x s = Some s1" "cap_step own (is_insert x) s s1"
    using exec_cap_step [OF Cons.prems(1,2)] Cons.prems(3) by auto
  then have "\<exists>s'. exec_caps xs s1 = Some s' \<and> cap_step own (\<exists>x \<in> set xs. is_insert x) s1 s'"
    using Cons.prems(3) by (intro Cons.IH) (auto simp: cap_step_def)
  then show ?case using s1 by (auto simp: cap_step_def)
qed

end
