(* ===== verification/CSpace_Props.thy ===== *)
theory CSpace_Props
  imports CSpace
begin

text \<open>
  Properties of the capability operations: reference counts and occupancy bits stay exact,
  authority is never created, revocation is complete, and the one slot pair for which derive
  loses the capability.
\<close>

section \<open>An example state\<close>

lemma create_task_ref:
  fixes entry stk sz priv :: u32 and pw srd :: u8 and prio :: nat
  assumes i: "free_index s = Some i"
  shows "ref_count (snd (create_task entry stk sz prio pw priv srd s)) = (ref_count s)(KTask i := 1)"
  unfolding create_task_def i option.case Let_def case_prod_beta by (simp add: kernel_simps upd_tcb_def)

lemma two_tasks_caps:
  "t < 2 \<Longrightarrow> secx two_tasks t = security empty_tcb" "ref_count two_tasks = (\<lambda>_. 1)"
proof -
  show "t < 2 \<Longrightarrow> secx two_tasks t = security empty_tcb"
    by (auto simp: less_2_cases_iff two_tasks_def start_fields create_task_fields [OF second_task_free]
        create_task_fields [OF first_task_free])
  have "ref_count (start s) = ref_count s" for s by (simp add: start_def Let_def kernel_simps)
  moreover have "ref_count (init reset_state) = (\<lambda>_. 1)" by (simp add: init_def reset_state_def)
  ultimately show "ref_count two_tasks = (\<lambda>_. 1)"
    by (simp add: two_tasks_def create_task_ref [OF second_task_free] create_task_ref [OF first_task_free] fun_eq_iff)
qed

lemma two_tasks_books: "books (\<lambda>_. 1) two_tasks"
proof -
  have "cap_at two_tasks t j = null_capability" if "t < 2" for t j
    using two_tasks_caps(1) [OF that] by (simp add: empty_tcb_def)
  then have "holders two_tasks ob = {}" for ob by (auto simp: holders_def two_tasks_facts null_capability_def)
  then show ?thesis by (auto simp: books_def slot_ok_def two_tasks_facts two_tasks_caps empty_tcb_def null_capability_def)
qed

abbreviation full_rights :: cap_rights where
  "full_rights \<equiv> \<lparr>cr_read = True, cr_write = True, cr_grant = True\<rparr>"

abbreviation endpoint_cap :: capability where
  "endpoint_cap \<equiv> \<lparr>cap_type = CapEndpoint, cap_rights = full_rights, cap_badge = 0, cap_object = Some (KEndpoint 5)\<rparr>"

abbreviation shared_endpoint :: "cap_op list" where
  "shared_endpoint \<equiv> [Insert 0 2 endpoint_cap, Derive 0 2 3 CAP_RIGHT_READ, Grant 0 1 2 7 CAP_RIGHT_WRITE 9]"

section \<open>Properties\<close>

text \<open>
  C17: every sequence of capability operations on existing tasks, in which no derive, mint or grant
  has the same slot as source and destination, returns and keeps the books. In the result each
  occupancy bit says whether its slot holds a capability, and each reference count is exactly the
  references held outside capability spaces plus the number of slots that hold the object; the
  IPC invariant still holds although deletions end waits and destroy endpoints and tasks.
\<close>
theorem capability_operations_keep_books:
  assumes "ipc_inv s" "books own s" "\<forall>x \<in> set xs. cap_op_ok (task_count s) x"
  shows "returns (exec_caps xs s) (\<lambda>s'. ipc_inv s' \<and> books own s')"
  using exec_caps_steps [OF assms] by (auto simp: returns_def cap_step_def)

theorem capability_operations_keep_books_witness:
  "returns (exec_caps (shared_endpoint @ [Revoke 0 2, Delete 0 2]) two_tasks) (\<lambda>s'. ipc_inv s' \<and> books (\<lambda>_. 1) s')"
  by (rule capability_operations_keep_books [OF two_tasks_ipc_inv two_tasks_books]) (simp add: two_tasks_facts)

text \<open>
  C4: derive, mint, grant, delete, look-up and revoke never create authority. Whatever object and
  rights some slot holds after a sequence of them, some slot held before. Copies of a slot onto itself
  are left out of the sequences.
\<close>
theorem no_authority_amplification:
  assumes "ipc_inv s" "books own s" "\<forall>x \<in> set xs. cap_op_ok (task_count s) x \<and> \<not> is_insert x"
  shows "returns (exec_caps xs s) (\<lambda>s'. \<forall>ob r. authority s' ob r \<longrightarrow> authority s ob r)"
  using exec_caps_steps [OF assms(1,2), of xs] assms(3) by (auto simp: returns_def cap_step_def)

text \<open>One task holds a capability that only allows reading; copies cannot gain more.\<close>

abbreviation reader_cap :: capability where
  "reader_cap \<equiv> endpoint_cap\<lparr>cap_rights := \<lparr>cr_read = True, cr_write = False, cr_grant = False\<rparr>\<rparr>"

lemma inserted:
  assumes "cap_type c \<noteq> CapNull" "cap_object c = Some (KEndpoint e)"
  obtains r s where "cap_insert (Some 0) 2 c two_tasks = Some (r, s)" "ipc_inv s" "books (\<lambda>_. 1) s" "task_count s = 2"
    "cap_at s 0 2 = c" "\<And>t j. t < 2 \<Longrightarrow> (t, j) \<noteq> (0, 2) \<Longrightarrow> cap_at s t j = null_capability"
proof -
  obtain r s where s: "cap_insert (Some 0) 2 c two_tasks = Some (r, s)" "ipc_inv s" "books (\<lambda>_. 1) s" "task_count s = 2"
    using cap_insert_inv [OF two_tasks_ipc_inv two_tasks_books, of 0 c 2] assms by (auto simp: two_tasks_facts)
  obtain q s1 where d: "cap_delete (Some 0) 2 two_tasks = Some (q, s1)" "\<And>t j. (t, j) \<noteq> (0, 2) \<Longrightarrow> cap_at s1 t j = cap_at two_tasks t j"
    using cap_delete_inv [OF two_tasks_ipc_inv two_tasks_books, of 0 2] by (auto simp: two_tasks_facts)
  have e: "s = set_occupied 0 2 True (retain (KEndpoint e) (set_cap 0 2 c s1))"
    using s(1) d(1) assms by (simp add: cap_insert_def is_valid_slot_def Let_def)
  have "cap_at s t j = null_capability" if "t < 2" "(t, j) \<noteq> (0, 2)" for t j
    using d(2) [OF that(2)] two_tasks_caps(1) [OF that(1)] that(2) by (auto simp: e sec_writes empty_tcb_def)
  moreover have "cap_at s 0 2 = c" by (simp add: e sec_writes)
  ultimately show thesis by (intro that [OF s])
qed

theorem no_authority_amplification_witness:
  "\<exists>s. authority s (KEndpoint 5) (requested 1)
     \<and> returns (exec_caps [Mint 0 2 3 7 1, Mint 0 2 3 1 1, Grant 0 1 2 7 3 9, Grant 0 1 3 7 1 9] s)
         (\<lambda>s'. \<not> authority s' (KEndpoint 5) full_rights)"
proof -
  obtain r s where s: "ipc_inv s" "books (\<lambda>_. 1) s" "task_count s = 2" "cap_at s 0 2 = reader_cap"
      "\<And>t j. t < 2 \<Longrightarrow> (t, j) \<noteq> (0, 2) \<Longrightarrow> cap_at s t j = null_capability"
    by (rule inserted [of reader_cap 5]) auto
  have "authority s (KEndpoint 5) (requested 1)"
    unfolding authority_def using s(3,4)
    by (intro exI [of _ 0] conjI exI [of _ 2]) (simp_all add: escalates_def requested_def CAP_RIGHT_WRITE_def CAP_RIGHT_GRANT_def)
  moreover have "\<not> authority s (KEndpoint 5) full_rights"
  proof
    assume "authority s (KEndpoint 5) full_rights"
    then obtain t j where "t < 2" "cap_object (cap_at s t j) = Some (KEndpoint 5)" "\<not> escalates full_rights (cap_rights (cap_at s t j))"
      using s(3) by (auto simp: authority_def)
    then show False using s(4) s(5) [of t j] by (cases "(t, j) = (0, 2)") (auto simp: escalates_def null_capability_def)
  qed
  moreover have "returns (exec_caps [Mint 0 2 3 7 1, Mint 0 2 3 1 1, Grant 0 1 2 7 3 9, Grant 0 1 3 7 1 9] s)
      (\<lambda>s'. \<forall>ob r. authority s' ob r \<longrightarrow> authority s ob r)"
    by (rule no_authority_amplification [OF s(1,2)]) (simp add: s(3))
  ultimately show ?thesis by (intro exI [of _ s]) (auto simp: returns_def split: option.splits)
qed

text \<open>
  C31: revocation is complete and exact. Revoking through a slot returns true and leaves that slot
  as the only holder of the object in the whole system; every capability to another object is
  untouched, and the reference count drops to the outside references plus one. Exactly the tasks that
  waited at the object, an endpoint, through a revoked slot are released, ready and with status
  \<open>NoPermission\<close>; the waits and states of all other tasks are as before.
\<close>
theorem cap_revoke_leaves_one_holder:
  assumes inv: "ipc_inv s" and b: "books own s" and t: "t < task_count s" and j: "j < MAX_CSPACE_SLOTS"
    and ob: "cap_object (cap_at s t j) = Some ob"
  shows "returns (cap_revoke (Some t) j s) (\<lambda>(r, s'). r \<and> holders s' ob = {(t, j)} \<and> cap_at s' t j = cap_at s t j
     \<and> (\<forall>u k. cap_object (cap_at s u k) \<noteq> Some ob \<longrightarrow> cap_at s' u k = cap_at s u k)
     \<and> unat (ref_count s' ob) = own ob + 1
     \<and> (\<forall>u < task_count s. if \<exists>k. (u, k) \<in> holders s ob - {(t, j)} \<and> awaited s u (cap_at s u k)
           then released NoPermission s' u else same_wait s s' u))"
proof -
  obtain r s' where s': "cap_revoke (Some t) j s = Some (r, s')" "ipc_inv s'" "books own s'" r
      and rev: "revoked ({..<task_count s} \<times> {..<MAX_CSPACE_SLOTS} - {(t, j)}) ob s s'"
    using cap_revoke_inv [OF inv b t, of j] j ob by auto
  have cap: "cap_at s' u k = (if (u, k) \<in> {..<task_count s} \<times> {..<MAX_CSPACE_SLOTS} - {(t, j)}
        \<and> cap_object (cap_at s u k) = Some ob
      then (cap_at s u k)\<lparr>cap_type := CapNull, cap_object := None\<rparr> else cap_at s u k)" for u k
    by (rule revokedD(3) [OF rev])
  have kept: "cap_at s' t j = cap_at s t j" by (simp only: cap) simp
  have "holders s' ob = {(t, j)}"
  proof (rule set_eqI)
    fix x :: "nat \<times> nat"
    obtain u k where x: "x = (u, k)" by (cases x)
    show "x \<in> holders s' ob \<longleftrightarrow> x \<in> {(t, j)}"
    proof (cases "(u, k) = (t, j)")
      case True
      then show ?thesis using x kept ob t j revokedD(1) [OF rev] by (simp add: holders_def)
    next
      case False
      show ?thesis using x False cap [of u k] revokedD(1) [OF rev] by (auto simp: holders_def split: if_splits)
    qed
  qed
  moreover from this have "unat (ref_count s' ob) = own ob + 1" using booksD(3) [OF s'(3), of ob] by simp
  moreover have "cap_at s' u k = cap_at s u k" if "cap_object (cap_at s u k) \<noteq> Some ob" for u k
    using that by (simp only: cap) simp
  moreover have "if \<exists>k. (u, k) \<in> holders s ob - {(t, j)} \<and> awaited s u (cap_at s u k)
      then released NoPermission s' u else same_wait s s' u" if u: "u < task_count s" for u
  proof -
    have "u \<in> cut_off ({..<task_count s} \<times> {..<MAX_CSPACE_SLOTS} - {(t, j)}) ob s
        \<longleftrightarrow> (\<exists>k. (u, k) \<in> holders s ob - {(t, j)} \<and> awaited s u (cap_at s u k))"
      using u by (auto simp: cut_off_def holders_def)
    then show ?thesis using revokedD(2) [OF rev] u unfolding waits_cut_def by simp
  qed
  ultimately show ?thesis using s' kept by (simp add: returns_def)
qed

theorem cap_revoke_leaves_one_holder_witness:
  "\<exists>s. {(0, 2), (1, 7)} \<subseteq> holders s (KEndpoint 5)
     \<and> returns (cap_revoke (Some 0) 2 s) (\<lambda>(r, s'). r \<and> holders s' (KEndpoint 5) = {(0, 2)})"
proof -
  obtain r s where s: "ipc_inv s" "books (\<lambda>_. 1) s" "task_count s = 2" "cap_at s 0 2 = endpoint_cap"
    by (rule inserted [of endpoint_cap 5]) auto
  obtain s1 where s1: "ipc_inv s1" "books (\<lambda>_. 1) s1" "task_count s1 = 2"
      "\<And>u k. cap_at s1 u k = (if u = 1 \<and> k = 7 then \<lparr>cap_type = CapEndpoint, cap_rights = full_rights, cap_badge = 9,
         cap_object = Some (KEndpoint 5)\<rparr> else cap_at s u k)"
    using copy_cap_inv [OF s(1,2), of 0 1 2 7 full_rights 9] s(3,4) by auto
  have c: "cap_object (cap_at s1 0 2) = Some (KEndpoint 5)" using s(4) by (simp add: s1(4))
  have "returns (cap_revoke (Some 0) 2 s1) (\<lambda>(r, s'). r \<and> holders s' (KEndpoint 5) = {(0, 2)})"
    using cap_revoke_leaves_one_holder [OF s1(1,2) _ _ c] s1(3) by (auto simp: returns_def split: option.splits)
  moreover have "{(0, 2), (1, 7)} \<subseteq> holders s1 (KEndpoint 5)" using c s1(3) by (simp add: holders_def s1(4))
  ultimately show ?thesis by blast
qed

text \<open>
  Deriving a capability into its own slot loses it. When source and destination slot are the
  same the operation still reports success, but the deletion of the destination has already
  released the object and cleared the source: the slot is left marked occupied, of type Null and
  with no object.
\<close>
theorem derive_onto_itself_loses_capability:
  assumes inv: "ipc_inv s" and b: "books own s" and t: "t < task_count s" and j: "j < MAX_CSPACE_SLOTS"
    and c: "cap_type (cap_at s t j) \<noteq> CapNull" "\<not> escalates (requested r) (cap_rights (cap_at s t j))"
  shows "returns (cap_derive (Some t) j j r s) (\<lambda>(ok, s'). ok \<and> is_slot_occupied (Some t) j s'
     \<and> cap_type (cap_at s' t j) = CapNull \<and> cap_object (cap_at s' t j) = None \<and> (t, j) \<notin> holders s' ob)"
proof -
  obtain q s1 where d: "cap_delete (Some t) j s = Some (q, s1)"
      "cap_object (cap_at s1 t j) = None" "cap_type (cap_at s1 t j) = CapNull"
    using cap_delete_inv [OF inv b t, of j] j by blast
  let ?s' = "set_occupied t j True (set_cap t j \<lparr>cap_type = CapNull, cap_rights = requested r,
      cap_badge = cap_badge (cap_at s t j), cap_object = None\<rparr> s1)"
  have "cap_derive (Some t) j j r s = Some (True, ?s')"
    using c j d by (simp add: cap_derive_def cap_derive_internal_def is_valid_slot_def copy_cap_def Let_def)
  moreover have "bit (occupied_mask (secx ?s' t)) j" using j by (simp add: occupied_write)
  then have "occupied_mask (secx ?s' t) AND bit_of j \<noteq> 0"
    by (simp only: and_bit_of_eq_0 not_not)
  ultimately show ?thesis using j
    by (simp add: returns_def is_slot_occupied_def is_valid_slot_def sec_writes holders_def del: push_bit_of_1)
qed

theorem derive_onto_itself_loses_capability_witness:
  "\<exists>s. cap_object (cap_at s 0 2) = Some (KEndpoint 5)
     \<and> returns (cap_derive (Some 0) 2 2 CAP_RIGHT_READ s) (\<lambda>(ok, s'). ok \<and> cap_object (cap_at s' 0 2) = None)"
proof -
  obtain r s where s: "cap_insert (Some 0) 2 endpoint_cap two_tasks = Some (r, s)" "ipc_inv s" "books (\<lambda>_. 1) s"
      "task_count s = 2"
    using cap_insert_inv [OF two_tasks_ipc_inv two_tasks_books, of 0 endpoint_cap 2] by (auto simp: two_tasks_facts)
  have c: "cap_at s 0 2 = endpoint_cap"
    using s(1) by (auto simp: cap_insert_def is_valid_slot_def sec_writes split: Option.bind_splits)
  have "returns (cap_derive (Some 0) 2 2 CAP_RIGHT_READ s) (\<lambda>(ok, s'). ok \<and> cap_object (cap_at s' 0 2) = None)"
    using derive_onto_itself_loses_capability [OF s(2,3), of 0 2 CAP_RIGHT_READ "KEndpoint 5"] s(4) c
    by (auto simp: returns_def escalates_def split: option.splits)
  then show ?thesis using c by (intro exI [of _ s]) simp
qed

end
