(* ===== verification/Mutex.thy ===== *)
theory Mutex
  imports Ipc_Props
begin

text \<open>
  The mutex of \<open>kernel/core/mutex.hpp\<close>: recursive locks with priority inheritance, priority
  ceilings, timeouts and deadlock detection. A lock that has to wait is a loop around the
  scheduler; \<open>lock_enter\<close> is the part before the loop, \<open>lock_retry\<close> one pass of its body, and
  the scheduler runs other tasks between the passes. Loops along the list of held mutexes are
  partial functions whose value None means that they do not return.
\<close>

abbreviation mtx :: "kernel \<Rightarrow> nat \<Rightarrow> mutex" where
  "mtx s m \<equiv> mutexes s m"

definition upd_mutex :: "nat \<Rightarrow> (mutex \<Rightarrow> mutex) \<Rightarrow> kernel \<Rightarrow> kernel" where
  "upd_mutex m f s = s\<lparr>mutexes := (mutexes s)(m := f (mtx s m))\<rparr>"

abbreviation waits_on :: "kernel \<Rightarrow> nat \<Rightarrow> nat option" where
  "waits_on s t \<equiv> waiting_on_mutex (sched s t)"

section \<open>Private operations\<close>

definition get_highest_waiter :: "nat \<Rightarrow> kernel \<Rightarrow> nat" where
  "get_highest_waiter m s =
     foldl (\<lambda>mx i. if bit (wait_mask (mtx s m)) i
                   then (case get_task_by_id i s of
                           Some t \<Rightarrow> if current_priority (sched s t) > mx then current_priority (sched s t) else mx
                         | None \<Rightarrow> mx)
                   else mx) 0 [0..<MAX_TASKS]"

text \<open>The chain of owners, for at most \<open>n\<close> more steps.\<close>

fun deadlock_chain :: "nat \<Rightarrow> nat \<Rightarrow> nat option \<Rightarrow> kernel \<Rightarrow> bool" where
  "deadlock_chain 0 t p s = False"
| "deadlock_chain (Suc n) t p s =
     (case p of
        None \<Rightarrow> False
      | Some c \<Rightarrow> if c = t then True
                  else (case waits_on s c of
                          Some m \<Rightarrow> deadlock_chain n t (owner (mtx s m)) s
                        | None \<Rightarrow> False))"

definition check_deadlock :: "nat \<Rightarrow> nat \<Rightarrow> kernel \<Rightarrow> bool" where
  "check_deadlock t m s = deadlock_chain MAX_TASKS t (owner (mtx s m)) s"

fun propagate :: "nat \<Rightarrow> nat \<Rightarrow> nat \<Rightarrow> kernel \<Rightarrow> kernel" where
  "propagate 0 first t s = s"
| "propagate (Suc n) first t s =
     (case waits_on s t of
        None \<Rightarrow> s
      | Some m \<Rightarrow>
          (case owner (mtx s m) of
             None \<Rightarrow> s
           | Some ow \<Rightarrow>
               if ow = first then s
               else if current_priority (sched s t) > current_priority (sched s ow)
               then propagate n first ow (set_task_priority (task_id (sched s ow)) (current_priority (sched s t)) s)
               else s))"

definition propagate_priority :: "nat \<Rightarrow> kernel \<Rightarrow> kernel" where
  "propagate_priority first s = propagate MAX_TASKS first first s"

text \<open>The inner loop over the mutexes a task holds.\<close>

partial_function (option) held_priority :: "kernel \<Rightarrow> nat option \<Rightarrow> nat \<Rightarrow> nat option" where
  "held_priority s p mx =
     (case p of
        None \<Rightarrow> Some mx
      | Some m \<Rightarrow>
          let mx1 = (if ceiling_prio (mtx s m) > mx then ceiling_prio (mtx s m) else mx);
              hw = get_highest_waiter m s;
              mx2 = (if hw > mx1 then hw else mx1)
          in held_priority s (next_held (mtx s m)) mx2)"

fun recalculate_chain :: "nat \<Rightarrow> nat option \<Rightarrow> kernel \<Rightarrow> kernel option" where
  "recalculate_chain 0 p s = Some s"
| "recalculate_chain (Suc n) p s =
     (case p of
        None \<Rightarrow> Some s
      | Some t \<Rightarrow>
          do { mx \<leftarrow> held_priority s (held_mutexes (sched s t)) (base_priority (sched s t));
               if mx \<noteq> current_priority (sched s t)
               then (let s1 = set_task_priority (task_id (sched s t)) mx s
                     in case waits_on s1 t of
                          Some m \<Rightarrow> (case owner (mtx s1 m) of
                                       Some ow \<Rightarrow> recalculate_chain n (Some ow) s1
                                     | None \<Rightarrow> Some s1)
                        | None \<Rightarrow> Some s1)
               else Some s })"

definition recalculate_priority_chain :: "nat \<Rightarrow> kernel \<Rightarrow> kernel option" where
  "recalculate_priority_chain first s = recalculate_chain MAX_TASKS (Some first) s"

text \<open>One pass over the waiters: the best one so far, and the mask without those that do not wait.\<close>

definition wake_pass :: "nat \<Rightarrow> kernel \<Rightarrow> nat option \<times> nat \<times> u32" where
  "wake_pass m s =
     foldl (\<lambda>(best, bp, msk) i.
        if bit msk i
        then (case get_task_by_id i s of
                Some t \<Rightarrow>
                  if sched_state (sched s t) = Suspended \<or> sched_state (sched s t) = Sleeping
                  then (if best = None \<or> current_priority (sched s t) > bp
                        then (Some i, current_priority (sched s t), msk) else (best, bp, msk))
                  else (best, bp, msk AND NOT (bit_of i))
              | None \<Rightarrow> (best, bp, msk AND NOT (bit_of i)))
        else (best, bp, msk)) (None, 0, wait_mask (mtx s m)) [0..<MAX_TASKS]"

definition wake_highest_waiter :: "nat \<Rightarrow> kernel \<Rightarrow> kernel" where
  "wake_highest_waiter m s =
     (if wait_mask (mtx s m) = 0 then s
      else case wake_pass m s of
             (None, _, msk) \<Rightarrow> upd_mutex m (\<lambda>r. r\<lparr>wait_mask := msk\<rparr>) s
           | (Some best, _, msk) \<Rightarrow>
               set_task_state best Ready (upd_mutex m (\<lambda>r. r\<lparr>wait_mask := msk AND NOT (bit_of best)\<rparr>) s))"

section \<open>Locking\<close>

definition set_ceiling :: "nat \<Rightarrow> nat \<Rightarrow> kernel \<Rightarrow> kernel" where
  "set_ceiling m ceiling = upd_mutex m (\<lambda>r. r\<lparr>ceiling_prio := ceiling\<rparr>)"

datatype lock_result = Locked | Refused | Waits

text \<open>Taking a free mutex: the new owner links it into its list and is raised to the ceiling.\<close>

definition take_mutex :: "nat \<Rightarrow> nat option \<Rightarrow> kernel \<Rightarrow> kernel" where
  "take_mutex m cur s =
     (let s1 = upd_mutex m (\<lambda>r. r\<lparr>locked := True, owner := cur, recursive_count := 1\<rparr>) s
      in case cur of
           None \<Rightarrow> s1
         | Some t \<Rightarrow>
             let s2 = upd_mutex m (\<lambda>r. r\<lparr>next_held := held_mutexes (sched s1 t)\<rparr>) s1;
                 s3 = upd_sched t (\<lambda>r. r\<lparr>held_mutexes := Some m\<rparr>) s2
             in if ceiling_prio (mtx s3 m) > current_priority (sched s3 t)
                then set_task_priority (task_id (sched s3 t)) (ceiling_prio (mtx s3 m)) s3 else s3)"

definition lock_enter :: "nat \<Rightarrow> kernel \<Rightarrow> lock_result \<times> kernel" where
  "lock_enter m s =
     (let cur = current_tcb s
      in if \<not> locked (mtx s m) then (Locked, take_mutex m cur s)
         else if owner (mtx s m) \<noteq> None \<and> owner (mtx s m) = cur
         then (Locked, upd_mutex m (\<lambda>r. r\<lparr>recursive_count := recursive_count r + 1\<rparr>) s)
         else case cur of
           None \<Rightarrow> (Refused, s)
         | Some t \<Rightarrow>
             if check_deadlock t m s then (Refused, upd_task t (\<lambda>r. r\<lparr>errno_val := 35\<rparr>) s)
             else
               let wait_prio = current_priority (sched s t);
                   s1 = upd_sched t (\<lambda>r. r\<lparr>waiting_on_mutex := Some m\<rparr>) s;
                   s2 = upd_mutex m (\<lambda>r. r\<lparr>wait_mask := wait_mask r OR bit_of (task_id (sched s1 t))\<rparr>) s1
               in (Waits, case owner (mtx s2 m) of
                            Some ow \<Rightarrow> if wait_prio > current_priority (sched s2 ow)
                                       then propagate_priority t s2 else s2
                          | None \<Rightarrow> s2))"

text \<open>Leaving the waiting line.\<close>

definition stop_waiting :: "nat \<Rightarrow> nat \<Rightarrow> kernel \<Rightarrow> kernel" where
  "stop_waiting m t s =
     upd_sched t (\<lambda>r. r\<lparr>waiting_on_mutex := None\<rparr>)
       (upd_mutex m (\<lambda>r. r\<lparr>wait_mask := wait_mask r AND NOT (bit_of (task_id (sched s t)))\<rparr>) s)"

text \<open>One pass of the loop; \<open>Waits\<close> means that the scheduler is called before the next pass.\<close>

definition lock_retry :: "nat \<Rightarrow> u32 \<Rightarrow> u32 \<Rightarrow> nat \<Rightarrow> kernel \<Rightarrow> (lock_result \<times> kernel) option" where
  "lock_retry m start_tick timeout_ticks t s =
     (if \<not> locked (mtx s m) then Some (Locked, take_mutex m (Some t) (stop_waiting m t s))
      else if owner (mtx s m) = Some t
      then Some (Locked, upd_mutex m (\<lambda>r. r\<lparr>recursive_count := recursive_count r + 1\<rparr>) (stop_waiting m t s))
      else
        let elapsed = current_tick s - start_tick
        in if timeout_ticks \<noteq> 0xFFFFFFFF \<and> elapsed \<ge> timeout_ticks
           then (let s1 = stop_waiting m t s
                 in case owner (mtx s1 m) of
                      Some ow \<Rightarrow> do { s2 \<leftarrow> recalculate_priority_chain ow s1; Some (Refused, s2) }
                    | None \<Rightarrow> Some (Refused, s1))
           else (let s1 = upd_mutex m (\<lambda>r. r\<lparr>wait_mask := wait_mask r OR bit_of (task_id (sched s t))\<rparr>) s
                 in if timeout_ticks \<noteq> 0xFFFFFFFF
                    then Some (Waits, set_task_state (task_id (sched s t)) Sleeping
                                (upd_sched t (\<lambda>r. r\<lparr>sleep_ticks := timeout_ticks - elapsed\<rparr>) s1))
                    else Some (Waits, set_task_state (task_id (sched s t)) Suspended s1)))"

section \<open>Unlocking\<close>

text \<open>The pointer to a link that the removal loop advances: the list head of a task or a link field.\<close>

datatype held_link = HeldHead nat | HeldNext nat

fun read_link :: "held_link \<Rightarrow> kernel \<Rightarrow> nat option" where
  "read_link (HeldHead t) s = held_mutexes (sched s t)"
| "read_link (HeldNext m) s = next_held (mtx s m)"

fun store_link :: "held_link \<Rightarrow> nat option \<Rightarrow> kernel \<Rightarrow> kernel" where
  "store_link (HeldHead t) v s = upd_sched t (\<lambda>r. r\<lparr>held_mutexes := v\<rparr>) s"
| "store_link (HeldNext m) v s = upd_mutex m (\<lambda>r. r\<lparr>next_held := v\<rparr>) s"

partial_function (option) unlink_held :: "nat \<Rightarrow> held_link \<Rightarrow> kernel \<Rightarrow> kernel option" where
  "unlink_held m lnk s =
     (case read_link lnk s of
        None \<Rightarrow> Some s
      | Some x \<Rightarrow> if x = m then Some (store_link lnk (next_held (mtx s m)) s)
                  else unlink_held m (HeldNext x) s)"

text \<open>Giving the mutex up: out of the owner's list, priority recalculated, best waiter woken.\<close>

definition give_up :: "nat \<Rightarrow> nat option \<Rightarrow> (mutex \<Rightarrow> mutex) \<Rightarrow> kernel \<Rightarrow> kernel option" where
  "give_up m own reset s =
     do { s1 \<leftarrow> (case own of Some t \<Rightarrow> unlink_held m (HeldHead t) s | None \<Rightarrow> Some s);
          let s2 = upd_mutex m (\<lambda>r. reset (r\<lparr>next_held := None, owner := None, locked := False\<rparr>)) s1;
          s3 \<leftarrow> (case own of Some t \<Rightarrow> recalculate_priority_chain t s2 | None \<Rightarrow> Some s2);
          Some (wake_highest_waiter m s3) }"

text \<open>The flag of the result tells whether the scheduler is called afterwards.\<close>

definition unlock :: "nat \<Rightarrow> kernel \<Rightarrow> (bool \<times> kernel) option" where
  "unlock m s =
     (if locked (mtx s m) \<and> owner (mtx s m) = current_tcb s
      then let s1 = upd_mutex m (\<lambda>r. r\<lparr>recursive_count := recursive_count r - 1\<rparr>) s
           in if recursive_count (mtx s1 m) = 0
              then do { s2 \<leftarrow> give_up m (owner (mtx s1 m)) id s1; Some (True, s2) }
              else Some (False, s1)
      else Some (False, s))"

definition force_unlock :: "nat \<Rightarrow> nat option \<Rightarrow> kernel \<Rightarrow> kernel option" where
  "force_unlock m target_owner s =
     (if locked (mtx s m) \<and> owner (mtx s m) = target_owner
      then give_up m target_owner (\<lambda>r. r\<lparr>recursive_count := 0\<rparr>) s
      else Some s)"

section \<open>Frames\<close>

named_theorems mutex_simps \<open>projections relevant to mutexes\<close>

lemma upd_mutex_fields [mutex_simps]:
  "tasks (upd_mutex m f s) = tasks s" "task_count (upd_mutex m f s) = task_count s"
  "mtx (upd_mutex m f s) k = (if k = m then f (mtx s m) else mtx s k)"
  "current_tcb (upd_mutex m f s) = current_tcb s" "current_tick (upd_mutex m f s) = current_tick s"
  "sched_view (upd_mutex m f s) = sched_view s"
  by (simp_all add: upd_mutex_def view_simps)

lemma set_task_fields [mutex_simps]:
  "mutexes (set_task_priority i p s) = mutexes s" "mutexes (set_task_state i st s) = mutexes s"
  "waits_on (set_task_priority i p s) j = waits_on s j" "waits_on (set_task_state i st s) j = waits_on s j"
  "held_mutexes (sched (set_task_priority i p s) j) = held_mutexes (sched s j)"
  "held_mutexes (sched (set_task_state i st s) j) = held_mutexes (sched s j)"
  "current_tcb (set_task_priority i p s) = current_tcb s" "current_tcb (set_task_state i st s) = current_tcb s"
  by (auto simp: set_task_state_def set_task_priority_def Let_def kernel_simps)

text \<open>Two states that differ in priorities and ready queues only, as far as mutexes see them.\<close>

definition mutex_same :: "kernel \<Rightarrow> kernel \<Rightarrow> bool" where
  "mutex_same s s' \<longleftrightarrow> mutexes s' = mutexes s \<and> task_count s' = task_count s \<and> current_tcb s' = current_tcb s
     \<and> (\<forall>j. waits_on s' j = waits_on s j \<and> held_mutexes (sched s' j) = held_mutexes (sched s j)
          \<and> sched_state (sched s' j) = sched_state (sched s j) \<and> task_id (sched s' j) = task_id (sched s j)
          \<and> base_priority (sched s' j) = base_priority (sched s j))"

lemma mutex_sameD:
  assumes "mutex_same s s'"
  shows "mutexes s' = mutexes s" "task_count s' = task_count s" "current_tcb s' = current_tcb s"
    "waits_on s' j = waits_on s j" "held_mutexes (sched s' j) = held_mutexes (sched s j)"
    "sched_state (sched s' j) = sched_state (sched s j)" "task_id (sched s' j) = task_id (sched s j)"
    "base_priority (sched s' j) = base_priority (sched s j)"
  using assms by (simp_all add: mutex_same_def)

lemma mutex_same_refl [simp]: "mutex_same s s"
  by (simp add: mutex_same_def)

lemma mutex_same_trans [trans]: "mutex_same s s' \<Longrightarrow> mutex_same s' s'' \<Longrightarrow> mutex_same s s''"
  by (simp add: mutex_same_def)

lemma mutex_same_priority: "mutex_same s (set_task_priority i p s)"
  by (simp add: mutex_same_def mutex_simps ipc_simps)

lemma propagate_same:
  "ready_ok s \<Longrightarrow> t < task_count s \<Longrightarrow> (\<And>m u. owner (mtx s m) = Some u \<Longrightarrow> u < task_count s) \<Longrightarrow>
   mutex_same s (propagate n f t s) \<and> ready_ok (propagate n f t s)"
proof (induction n arbitrary: t s)
  case (Suc n)
  have "mutex_same s (propagate n f ow s1) \<and> ready_ok (propagate n f ow s1)"
    if "owner (mtx s m) = Some ow" and eq: "s1 = set_task_priority i (tprio s t) s" for m ow i s1
  proof -
    have "ready_ok s1" unfolding eq using Suc.prems(1,2) rq.inv_levels rq.inv_prio by blast
    moreover have same: "mutex_same s s1" unfolding eq by (rule mutex_same_priority)
    ultimately have "mutex_same s1 (propagate n f ow s1) \<and> ready_ok (propagate n f ow s1)"
      using Suc.prems(3) that(1) by (intro Suc.IH) (auto simp: mutex_sameD [OF same])
    then show ?thesis using mutex_same_trans [OF same] by blast
  qed
  then show ?case using Suc.prems by (auto split: option.split)
qed simp

section \<open>The list of held mutexes\<close>

definition nh :: "kernel \<Rightarrow> nat \<Rightarrow> nat option" where
  "nh s m = next_held (mtx s m)"

lemma get_highest_waiter_level:
  assumes "ready_ok s" shows "get_highest_waiter m s < NUM_PRIORITIES"
proof -
  have "foldl (\<lambda>mx i. if bit (wait_mask (mtx s m)) i
      then (case get_task_by_id i s of
              Some t \<Rightarrow> if current_priority (sched s t) > mx then current_priority (sched s t) else mx
            | None \<Rightarrow> mx)
      else mx) mx is < NUM_PRIORITIES" if "mx < NUM_PRIORITIES" for mx "is"
    using that
  proof (induction "is" arbitrary: mx)
    case (Cons i "is")
    show ?case unfolding foldl_Cons
      by (rule Cons.IH) (use Cons.prems rq.inv_levels [OF assms] get_task_by_id_lt in \<open>auto split: option.split\<close>)
  qed simp
  then show ?thesis by (simp add: get_highest_waiter_def)
qed

text \<open>What the inner loop computes along a list.\<close>

definition held_max :: "kernel \<Rightarrow> nat list \<Rightarrow> nat \<Rightarrow> nat" where
  "held_max s ms mx = foldl (\<lambda>mx m. max (get_highest_waiter m s) (max (ceiling_prio (mtx s m)) mx)) mx ms"

lemma held_priority_list:
  "lseg (nh s) p ms None \<Longrightarrow> held_priority s p mx = Some (held_max s ms mx)"
proof (induction ms arbitrary: p mx)
  case Nil
  then show ?case by (simp add: held_priority.simps held_max_def)
next
  case (Cons m ms)
  then have p: "p = Some m" "lseg (nh s) (next_held (mtx s m)) ms None" by (auto simp: nh_def [symmetric])
  let ?mx1 = "if ceiling_prio (mtx s m) > mx then ceiling_prio (mtx s m) else mx"
  have "held_priority s p mx = held_priority s (next_held (mtx s m))
      (if get_highest_waiter m s > ?mx1 then get_highest_waiter m s else ?mx1)"
    by (subst held_priority.simps) (simp add: p(1) Let_def)
  also have "\<dots> = Some (held_max s ms (if get_highest_waiter m s > ?mx1 then get_highest_waiter m s else ?mx1))"
    by (rule Cons.IH [OF p(2)])
  also have "(if get_highest_waiter m s > ?mx1 then get_highest_waiter m s else ?mx1)
      = max (get_highest_waiter m s) (max (ceiling_prio (mtx s m)) mx)" by auto
  finally show ?case by (simp add: held_max_def)
qed

lemma held_max_level:
  assumes "ready_ok s" "\<And>m. ceiling_prio (mtx s m) < NUM_PRIORITIES"
  shows "mx < NUM_PRIORITIES \<Longrightarrow> held_max s ms mx < NUM_PRIORITIES"
proof (induction ms arbitrary: mx)
  case (Cons m ms)
  then show ?case using assms(2) [of m] get_highest_waiter_level [OF assms(1), of m]
    by (simp add: held_max_def)
qed (simp add: held_max_def)

definition held_rep :: "(nat \<Rightarrow> nat list) \<Rightarrow> kernel \<Rightarrow> bool" where
  "held_rep H s \<longleftrightarrow> (\<forall>t < task_count s. distinct (H t) \<and> lseg (nh s) (held_mutexes (sched s t)) (H t) None
     \<and> (\<forall>m. m \<in> set (H t) \<longleftrightarrow> owner (mtx s m) = Some t))"

lemma held_rep_same: "mutex_same s s' \<Longrightarrow> held_rep H s' = held_rep H s"
  unfolding held_rep_def by (simp add: mutex_sameD nh_def [abs_def])

lemma recalculate_chain_same:
  assumes "ready_ok s" "held_rep H s" "\<And>m. ceiling_prio (mtx s m) < NUM_PRIORITIES"
    "\<And>m u. owner (mtx s m) = Some u \<Longrightarrow> u < task_count s" "t < task_count s"
  shows "\<exists>s'. recalculate_chain n (Some t) s = Some s' \<and> mutex_same s s' \<and> ready_ok s'"
  using assms
proof (induction n arbitrary: t s)
  case (Suc n)
  define mx where "mx = held_max s (H t) (base_priority (sched s t))"
  have "base_priority (sched s t) < NUM_PRIORITIES" using rq.inv_levels [OF Suc.prems(1,5)] by simp
  then have lvl: "mx < NUM_PRIORITIES" unfolding mx_def using held_max_level [OF Suc.prems(1,3)] by blast
  have hp: "held_priority s (held_mutexes (sched s t)) (base_priority (sched s t)) = Some mx"
    using held_priority_list Suc.prems(2,5) by (simp add: held_rep_def mx_def)
  define s1 where "s1 = set_task_priority (task_id (sched s t)) mx s"
  have same: "mutex_same s s1" unfolding s1_def by (rule mutex_same_priority)
  have ok1: "ready_ok s1" unfolding s1_def using Suc.prems(1) lvl rq.inv_prio by blast
  have rec: "\<exists>s'. recalculate_chain n (Some ow) s1 = Some s' \<and> mutex_same s s' \<and> ready_ok s'"
    if "owner (mtx s m) = Some ow" for m ow
  proof -
    have "\<exists>s'. recalculate_chain n (Some ow) s1 = Some s' \<and> mutex_same s1 s' \<and> ready_ok s'"
      by (rule Suc.IH [OF ok1])
        (use Suc.prems that in \<open>simp_all add: held_rep_same [OF same] mutex_sameD(1,2) [OF same]\<close>)
    then show ?thesis using mutex_same_trans [OF same] by blast
  qed
  show ?case
  proof (cases "mx = current_priority (sched s t)")
    case True
    then show ?thesis using hp Suc.prems(1) by simp
  next
    case False
    have "recalculate_chain (Suc n) (Some t) s =
        (case waits_on s t of Some m \<Rightarrow> (case owner (mtx s m) of Some ow \<Rightarrow> recalculate_chain n (Some ow) s1
            | None \<Rightarrow> Some s1) | None \<Rightarrow> Some s1)"
      using hp False by (simp add: s1_def [symmetric] mutex_sameD(1,4) [OF same] split: option.split)
    then show ?thesis using rec same ok1 by (auto split: option.split)
  qed
qed simp

text \<open>Removing a mutex from a list writes one link, the one that points to it.\<close>

lemma unlink_held_list:
  assumes "lseg (nh s) (read_link lnk s) xs None" "distinct xs" "m \<in> set xs" "lnk \<notin> HeldNext ` set xs"
  shows "\<exists>lnk' s'. lnk' \<in> insert lnk (HeldNext ` set xs) \<and> s' = store_link lnk' (next_held (mtx s m)) s
     \<and> unlink_held m lnk s = Some s' \<and> lseg (nh s') (read_link lnk s') (remove1 m xs) None"
  using assms
proof (induction xs arbitrary: lnk)
  case (Cons x xs)
  then have x: "read_link lnk s = Some x" "lseg (nh s) (nh s x) xs None" "x \<notin> set xs" by auto
  have other: "lseg (nh (store_link l v s)) p ys None = lseg (nh s) p ys None" if "l \<notin> HeldNext ` set ys" for l v p ys
    using that by (intro lseg_cong) (cases l; auto simp: nh_def mutex_simps kernel_simps)
  have rd: "read_link lnk (store_link lnk v s) = v" for v
    by (cases lnk) (simp_all add: mutex_simps kernel_simps)
  show ?case
  proof (cases "x = m")
    case True
    let ?s' = "store_link lnk (next_held (mtx s m)) s"
    have "unlink_held m lnk s = Some ?s'" using x(1) True by (simp add: unlink_held.simps)
    moreover have "lseg (nh ?s') (read_link lnk ?s') (remove1 m (x # xs)) None"
      using x(2) True Cons.prems(4) by (simp add: other rd) (simp add: nh_def)
    ultimately show ?thesis by blast
  next
    case False
    have "\<exists>lnk' s'. lnk' \<in> insert (HeldNext x) (HeldNext ` set xs) \<and> s' = store_link lnk' (next_held (mtx s m)) s
      \<and> unlink_held m (HeldNext x) s = Some s' \<and> lseg (nh s') (read_link (HeldNext x) s') (remove1 m xs) None"
      using Cons.prems x False by (intro Cons.IH) (auto simp: nh_def)
    then obtain lnk' s' where l: "lnk' \<in> insert (HeldNext x) (HeldNext ` set xs)"
        "s' = store_link lnk' (next_held (mtx s m)) s" "unlink_held m (HeldNext x) s = Some s'"
        "lseg (nh s') (read_link (HeldNext x) s') (remove1 m xs) None" by blast
    have ne: "lnk \<noteq> lnk'" using l(1) Cons.prems(4) by auto
    have "read_link lnk s' = Some x"
      using x(1) ne unfolding l(2) by (cases lnk; cases lnk') (auto simp: mutex_simps kernel_simps)
    moreover have "unlink_held m lnk s = Some s'" using x(1) False l(3) by (subst unlink_held.simps) simp
    moreover have "lseg (nh s') (Some x) (remove1 m (x # xs)) None"
      using l(4) False by (simp add: nh_def [of s' x])
    moreover have "lnk' \<in> insert lnk (HeldNext ` set (x # xs))" using l(1) by auto
    ultimately show ?thesis using l(2) by metis
  qed
qed simp

section \<open>Waking the best waiter\<close>

abbreviation blocked :: "kernel \<Rightarrow> nat \<Rightarrow> bool" where
  "blocked s t \<equiv> sched_state (sched s t) = Suspended \<or> sched_state (sched s t) = Sleeping"

text \<open>The waiters of a mask that can be woken.\<close>

definition sleepers :: "u32 \<Rightarrow> kernel \<Rightarrow> nat set" where
  "sleepers w s = {t. t < task_count s \<and> bit w t \<and> blocked s t}"

definition wake_fold :: "kernel \<Rightarrow> u32 \<Rightarrow> nat \<Rightarrow> nat option \<times> nat \<times> u32" where
  "wake_fold s w n =
     foldl (\<lambda>(best, bp, msk) i.
        if bit msk i
        then (case get_task_by_id i s of
                Some t \<Rightarrow>
                  if sched_state (sched s t) = Suspended \<or> sched_state (sched s t) = Sleeping
                  then (if best = None \<or> current_priority (sched s t) > bp
                        then (Some i, current_priority (sched s t), msk) else (best, bp, msk))
                  else (best, bp, msk AND NOT (bit_of i))
              | None \<Rightarrow> (best, bp, msk AND NOT (bit_of i)))
        else (best, bp, msk)) (None, 0, w) [0..<n]"

lemma wake_fold_spec:
  assumes "wake_fold s w n = (best, bp, msk)"
  shows "bit msk i \<longleftrightarrow> bit w i \<and> (i < n \<longrightarrow> i \<in> sleepers w s)"
    "case best of None \<Rightarrow> \<forall>i < n. i \<notin> sleepers w s
     | Some b \<Rightarrow> b < n \<and> b \<in> sleepers w s \<and> bp = tprio s b \<and> (\<forall>i < n. i \<in> sleepers w s \<longrightarrow> tprio s i \<le> tprio s b)"
  using assms
proof (induction n arbitrary: best bp msk i)
  case 0
  { case 1 then show ?case by (simp add: wake_fold_def)
  next case 2 then show ?case by (auto simp: wake_fold_def) }
next
  case (Suc n)
  obtain best0 bp0 msk0 where 0: "wake_fold s w n = (best0, bp0, msk0)" by (cases "wake_fold s w n")
  note IH = Suc.IH [OF 0]
  have upt: "[0..<Suc n] = [0..<n] @ [n]" by simp
  have step: "wake_fold s w (Suc n) =
      (if n \<in> sleepers w s then (if best0 = None \<or> tprio s n > bp0 then (Some n, tprio s n, msk0) else (best0, bp0, msk0))
       else (best0, bp0, msk0 AND NOT (bit_of n)))"
  proof -
    have "\<not> bit w n \<Longrightarrow> msk0 AND NOT (bit_of n) = msk0"
      using IH(1) [of n] by (intro bit_word_eqI) (auto simp: bit_and_not_bit_of simp del: push_bit_of_1)
    then show ?thesis using IH(1) [of n] 0
      unfolding wake_fold_def upt foldl_append
      by (simp add: sleepers_def get_task_by_id_def del: push_bit_of_1 upt_Suc)
  qed
  { case 1
    then show ?case using IH(1) [of i] unfolding step
      by (auto simp: bit_and_not_bit_of less_Suc_eq simp del: push_bit_of_1 split: if_splits)
  next
    case 2
    then show ?case using IH(2) unfolding step
      by (auto simp: less_Suc_eq simp del: push_bit_of_1 split: if_splits option.splits)
  }
qed

lemma wake_highest_waiter_spec:
  fixes m s
  assumes ok: "ready_ok s"
  defines "s' \<equiv> wake_highest_waiter m s" and "w \<equiv> wait_mask (mtx s m)"
  shows "ready_ok s'" "task_count s' = task_count s" "current_tcb s' = current_tcb s"
    "mutexes s' = (mutexes s)(m := (mtx s m)\<lparr>wait_mask := wait_mask (mtx s' m)\<rparr>)"
    "waits_on s' t = waits_on s t" "held_mutexes (sched s' t) = held_mutexes (sched s t)"
    "task_id (sched s' t) = task_id (sched s t)" "tprio s' t = tprio s t"
    "t < task_count s \<Longrightarrow> bit (wait_mask (mtx s' m)) t \<longleftrightarrow> t \<in> sleepers w s' "
    "if sleepers w s = {} then \<forall>t. sched_state (sched s' t) = sched_state (sched s t)
     else \<exists>b. b \<in> sleepers w s \<and> (\<forall>i \<in> sleepers w s. tprio s i \<le> tprio s b)
       \<and> (\<forall>t. sched_state (sched s' t) = (if t = b then Ready else sched_state (sched s t)))"
proof -
  obtain best bp msk where p: "wake_fold s w MAX_TASKS = (best, bp, msk)" by (cases "wake_fold s w MAX_TASKS")
  have pass: "wake_pass m s = (best, bp, msk)" using p unfolding wake_pass_def wake_fold_def w_def .
  note spec = wake_fold_spec [OF p]
  have lt: "t < MAX_TASKS" if "t \<in> sleepers w s" for t using that ok_facts(1) [OF ok] by (simp add: sleepers_def)
  have none: "best = None \<longleftrightarrow> sleepers w s = {}" using spec(2) lt by (auto split: option.splits)
  have bits: "bit msk t \<longleftrightarrow> t \<in> sleepers w s" if "t < task_count s" for t
    using spec(1) [of t] ok_facts(1) [OF ok that] by (auto simp: sleepers_def)
  define s1 where "s1 = upd_mutex m (\<lambda>r. r\<lparr>wait_mask := (case best of None \<Rightarrow> msk | Some b \<Rightarrow> msk AND NOT (bit_of b))\<rparr>) s"
  have s': "s' = (case best of None \<Rightarrow> s1 | Some b \<Rightarrow> set_task_state b Ready s1)"
  proof (cases "w = 0")
    case True
    then have "sleepers w s = {}" by (simp add: sleepers_def)
    then have "best = None" using none by simp
    moreover have "msk = 0" using spec(1) True by (intro bit_word_eqI) simp
    moreover have "(mtx s m)\<lparr>wait_mask := 0\<rparr> = mtx s m" using True by (intro mutex.equality) (simp_all add: w_def)
    ultimately have "s1 = s" "best = None" by (simp_all add: s1_def upd_mutex_def fun_upd_idem)
    then show ?thesis using True by (simp add: s'_def wake_highest_waiter_def w_def)
  next
    case False
    then show ?thesis by (auto simp: s'_def wake_highest_waiter_def w_def pass s1_def split: option.split)
  qed
  have ok1: "ready_ok s1" using ok rq.inv_view by (auto simp: s1_def mutex_simps)
  show "ready_ok s'" using s' ok1 rq.inv_state by (simp split: option.split)
  note f = s' s1_def mutex_simps ipc_simps
  show "task_count s' = task_count s" "current_tcb s' = current_tcb s" "waits_on s' t = waits_on s t"
    "held_mutexes (sched s' t) = held_mutexes (sched s t)" "task_id (sched s' t) = task_id (sched s t)"
    "tprio s' t = tprio s t"
    by (simp_all add: f split: option.split)
  show "mutexes s' = (mutexes s)(m := (mtx s m)\<lparr>wait_mask := wait_mask (mtx s' m)\<rparr>)"
    by (auto simp: f fun_eq_iff split: option.split)
  have st: "sched_state (sched s' t) = (if best = Some t then Ready else sched_state (sched s t))" for t
  proof (cases best)
    case (Some b)
    then have "b \<in> sleepers w s" using spec(2) by simp
    then have "b < task_count s" "b < 16" using lt [of b] by (simp_all add: sleepers_def)
    then show ?thesis using Some by (simp add: f)
  qed (simp add: f)
  have tc: "task_count s' = task_count s" by (simp add: f split: option.split)
  have sl: "sleepers w s' = sleepers w s - set_option best"
    unfolding sleepers_def by (auto simp: st tc split: if_splits)
  have wm: "wait_mask (mtx s' m) = (case best of None \<Rightarrow> msk | Some b \<Rightarrow> msk AND NOT (bit_of b))"
    by (simp add: f split: option.split)
  show "bit (wait_mask (mtx s' m)) t \<longleftrightarrow> t \<in> sleepers w s'" if "t < task_count s"
    unfolding wm sl using bits [OF that] by (auto simp: bit_and_not_bit_of simp del: push_bit_of_1 split: option.splits)
  show "if sleepers w s = {} then \<forall>t. sched_state (sched s' t) = sched_state (sched s t)
     else \<exists>b. b \<in> sleepers w s \<and> (\<forall>i \<in> sleepers w s. tprio s i \<le> tprio s b)
       \<and> (\<forall>t. sched_state (sched s' t) = (if t = b then Ready else sched_state (sched s t)))"
  proof (cases best)
    case None
    then show ?thesis using none by (simp add: st)
  next
    case (Some b)
    then show ?thesis using none spec(2) lt by (auto simp: st intro!: exI [of _ b])
  qed
qed

end
