(* ===== verification/Mutex_Props.thy ===== *)
theory Mutex_Props
  imports Mutex
begin

text \<open>
  Properties of the mutex under every interleaving of lock attempts, retries, unlocks and
  scheduler activity: ownership and the lists of held mutexes agree, the wait-for graph stays
  acyclic, no waiter of a free mutex is forgotten, and all operations return.
\<close>

section \<open>The invariant\<close>

definition mutex_wf :: "kernel \<Rightarrow> bool" where
  "mutex_wf s \<longleftrightarrow> ready_ok s \<and> (\<exists>H. held_rep H s)
     \<and> (\<forall>m. (locked (mtx s m) \<longleftrightarrow> owner (mtx s m) \<noteq> None)
          \<and> (\<forall>t. owner (mtx s m) = Some t \<longrightarrow> t < task_count s) \<and> ceiling_prio (mtx s m) < NUM_PRIORITIES)"

text \<open>The wait-for graph: a task waits on a mutex that another one owns.\<close>

definition waits_for :: "kernel \<Rightarrow> (nat \<times> nat) set" where
  "waits_for s = {(t, u). t < task_count s \<and> (\<exists>m. waits_on s t = Some m \<and> owner (mtx s m) = Some u)}"

text \<open>
  Mask bits belong to waiters and sleeping waiters have their bit. Outside a set of mutexes that
  an operation is working on, a free mutex forgets no sleeper: one of its waiters is ready.
\<close>

definition waiters_ok :: "nat set \<Rightarrow> kernel \<Rightarrow> bool" where
  "waiters_ok M s \<longleftrightarrow>
     (\<forall>m. \<forall>t < task_count s. bit (wait_mask (mtx s m)) t \<longrightarrow> waits_on s t = Some m)
     \<and> (\<forall>m. \<forall>t < task_count s. waits_on s t = Some m \<and> blocked s t \<longrightarrow> bit (wait_mask (mtx s m)) t)
     \<and> (\<forall>m. \<forall>t < task_count s. m \<notin> M \<and> waits_on s t = Some m \<and> blocked s t \<and> \<not> locked (mtx s m) \<longrightarrow>
          (\<exists>u < task_count s. waits_on s u = Some m \<and> sched_state (sched s u) = Ready))"

definition mutex_inv_but :: "nat set \<Rightarrow> kernel \<Rightarrow> bool" where
  "mutex_inv_but M s \<longleftrightarrow> mutex_wf s \<and> acyclic (waits_for s) \<and> waiters_ok M s"

abbreviation mutex_inv :: "kernel \<Rightarrow> bool" where
  "mutex_inv s \<equiv> mutex_inv_but {} s"

definition running :: "kernel \<Rightarrow> nat \<Rightarrow> bool" where
  "running s t \<longleftrightarrow> current_tcb s = Some t \<and> t < task_count s \<and> sched_state (sched s t) = Ready"

lemma mutex_wfD:
  assumes "mutex_wf s"
  shows "ready_ok s" "locked (mtx s m) \<longleftrightarrow> owner (mtx s m) \<noteq> None"
    "owner (mtx s m) = Some t \<Longrightarrow> t < task_count s" "ceiling_prio (mtx s m) < NUM_PRIORITIES"
  using assms by (auto simp: mutex_wf_def)

lemma waiters_okD:
  assumes "waiters_ok M s" "t < task_count s"
  shows "bit (wait_mask (mtx s m)) t \<Longrightarrow> waits_on s t = Some m"
    "waits_on s t = Some m \<Longrightarrow> blocked s t \<Longrightarrow> bit (wait_mask (mtx s m)) t"
    "waits_on s t = Some m \<Longrightarrow> blocked s t \<Longrightarrow> \<not> locked (mtx s m) \<Longrightarrow>
       m \<notin> M \<Longrightarrow> \<exists>u < task_count s. waits_on s u = Some m \<and> sched_state (sched s u) = Ready"
  using assms unfolding waiters_ok_def by blast+

lemma mutex_inv_same:
  assumes "mutex_same s s'" "ready_ok s'" "mutex_inv_but M s" shows "mutex_inv_but M s'"
proof -
  note same = mutex_sameD [OF assms(1)]
  have "waits_for s' = waits_for s" by (simp only: waits_for_def same)
  moreover have "waiters_ok M s' = waiters_ok M s" by (simp only: waiters_ok_def same)
  moreover have "mutex_wf s \<longrightarrow> mutex_wf s'"
    using assms(2) by (simp only: mutex_wf_def held_rep_same [OF assms(1)] same) blast
  ultimately show ?thesis using assms(3) by (simp add: mutex_inv_but_def)
qed

section \<open>Acyclic graphs\<close>

text \<open>New edges into a node without successors close no cycle.\<close>

lemma acyclic_into_sink:
  assumes "acyclic r" "r' \<subseteq> r \<union> UNIV \<times> {t}" "t \<notin> Domain r'"
  shows "acyclic r'"
proof (rule acyclicI, intro allI notI)
  fix x assume x: "(x, x) \<in> r'\<^sup>+"
  have "(x, y) \<in> r\<^sup>+ \<or> y = t" if "(x, y) \<in> r'\<^sup>+" for y
    using that
  proof (induction rule: trancl_induct)
    case (base y)
    then show ?case using assms(2) by auto
  next
    case (step y z)
    then have "y \<noteq> t" using assms(3) by auto
    then have "(x, y) \<in> r\<^sup>+" using step by simp
    moreover have "(y, z) \<in> r \<or> z = t" using step(2) assms(2) by auto
    ultimately show ?case by auto
  qed
  from this [OF x] show False
  proof
    assume "(x, x) \<in> r\<^sup>+"
    then show False using assms(1) by (simp add: acyclic_def)
  next
    assume "x = t"
    then obtain z where "(t, z) \<in> r'" using x by (auto dest: tranclD)
    then show False using assms(3) by blast
  qed
qed

text \<open>The bounded walk along the owners finds every path: the bound is the number of tasks.\<close>

lemma deadlock_chain_finds:
  "(u, t) \<in> waits_for s ^^ k \<Longrightarrow> k < n \<Longrightarrow> deadlock_chain n t (Some u) s"
proof (induction k arbitrary: u n)
  case 0
  then show ?case by (cases n) auto
next
  case (Suc k)
  then obtain n' where n: "n = Suc n'" "k < n'" by (cases n) auto
  from Suc.prems(1) obtain x where x: "(u, x) \<in> waits_for s" "(x, t) \<in> waits_for s ^^ k"
    by (meson relpow_Suc_E2)
  then obtain m where "waits_on s u = Some m" "owner (mtx s m) = Some x" by (auto simp: waits_for_def)
  then show ?case using Suc.IH [OF x(2) n(2)] n(1) by simp
qed

lemma check_deadlock_complete:
  assumes "task_count s \<le> MAX_TASKS" "t < task_count s" "waits_on s t = None"
    "\<not> check_deadlock t m s" "owner (mtx s m) = Some u"
  shows "(u, t) \<notin> (waits_for s)\<^sup>*"
proof
  assume path: "(u, t) \<in> (waits_for s)\<^sup>*"
  have sub: "waits_for s \<subseteq> (\<lambda>x. (x, the (owner (mtx s (the (waits_on s x)))))) ` ({..<task_count s} - {t})"
    using assms(3) by (force simp: waits_for_def)
  then have fin: "finite (waits_for s)" by (rule finite_subset) simp
  have "card (waits_for s) \<le> card ({..<task_count s} - {t})"
    by (rule order_trans [OF card_mono [OF _ sub] card_image_le]) simp_all
  also have "\<dots> < MAX_TASKS" using assms(1,2) by simp
  finally have c: "card (waits_for s) < MAX_TASKS" .
  obtain k where "k \<le> card (waits_for s)" "(u, t) \<in> waits_for s ^^ k"
    using path unfolding rtrancl_finite_eq_relpow [OF fin] by auto
  then have "check_deadlock t m s"
    using deadlock_chain_finds [where n = MAX_TASKS and k = k] c assms(5) by (simp only: check_deadlock_def)
  then show False using assms(4) by simp
qed

section \<open>Taking and leaving\<close>

lemma waiters_okI:
  assumes "\<And>m t. t < task_count s \<Longrightarrow> bit (wait_mask (mtx s m)) t \<Longrightarrow> waits_on s t = Some m"
    and "\<And>m t. t < task_count s \<Longrightarrow> waits_on s t = Some m \<Longrightarrow> blocked s t \<Longrightarrow> bit (wait_mask (mtx s m)) t"
    and "\<And>m t. t < task_count s \<Longrightarrow> m \<notin> M \<Longrightarrow> waits_on s t = Some m \<Longrightarrow> blocked s t \<Longrightarrow> \<not> locked (mtx s m) \<Longrightarrow>
      \<exists>u < task_count s. waits_on s u = Some m \<and> sched_state (sched s u) = Ready"
  shows "waiters_ok M s"
  unfolding waiters_ok_def using assms by blast

lemma waiters_ok_mono: "waiters_ok M s \<Longrightarrow> M \<subseteq> M' \<Longrightarrow> waiters_ok M' s"
  unfolding waiters_ok_def by blast

lemma mutex_inv_mono: "mutex_inv_but M s \<Longrightarrow> M \<subseteq> M' \<Longrightarrow> mutex_inv_but M' s"
  unfolding mutex_inv_but_def using waiters_ok_mono by blast

lemma mutex_inv_locked: "mutex_inv_but {m} s \<Longrightarrow> locked (mtx s m) \<Longrightarrow> mutex_inv s"
proof -
  assume inv: "mutex_inv_but {m} s" and lk: "locked (mtx s m)"
  then have w: "waiters_ok {m} s" by (simp add: mutex_inv_but_def)
  have "waiters_ok {} s"
  proof (rule waiters_okI)
    fix k t assume a: "t < task_count s" "waits_on s t = Some k" "blocked s t" "\<not> locked (mtx s k)"
    then have "k \<notin> {m}" using lk by auto
    then show "\<exists>u < task_count s. waits_on s u = Some k \<and> sched_state (sched s u) = Ready"
      using waiters_okD(3) [OF w a] by blast
  qed (use waiters_okD(1,2) [OF w] in blast)+
  then show ?thesis using inv by (simp add: mutex_inv_but_def)
qed

lemma waits_forD: "(t, u) \<in> waits_for s \<Longrightarrow> \<exists>m. t < task_count s \<and> waits_on s t = Some m \<and> owner (mtx s m) = Some u"
  by (simp add: waits_for_def)

text \<open>A free mutex is in no list.\<close>

lemma take_mutex_inv:
  assumes inv: "mutex_inv_but {m} s" and t: "t < task_count s" "waits_on s t = None" and free: "\<not> locked (mtx s m)"
  shows "mutex_inv (take_mutex m (Some t) s)" "task_count (take_mutex m (Some t) s) = task_count s"
proof -
  define s3 where "s3 = upd_sched t (\<lambda>r. r\<lparr>held_mutexes := Some m\<rparr>)
    (upd_mutex m (\<lambda>r. r\<lparr>next_held := held_mutexes (sched s t)\<rparr>)
      (upd_mutex m (\<lambda>r. r\<lparr>locked := True, owner := Some t, recursive_count := 1\<rparr>) s))"
  have op: "take_mutex m (Some t) s = (if ceiling_prio (mtx s3 m) > current_priority (sched s3 t)
      then set_task_priority (task_id (sched s3 t)) (ceiling_prio (mtx s3 m)) s3 else s3)"
    by (simp add: take_mutex_def s3_def Let_def mutex_simps)
  have wf: "mutex_wf s" and ac: "acyclic (waits_for s)" and w: "waiters_ok {m} s" using inv by (simp_all add: mutex_inv_but_def)
  note d = mutex_wfD [OF wf]
  have none: "owner (mtx s m) = None" using d(2) [of m] free by simp
  have f: "task_count s3 = task_count s" "waits_on s3 j = waits_on s j" "sched_state (sched s3 j) = sched_state (sched s j)"
    "wait_mask (mtx s3 k) = wait_mask (mtx s k)" "locked (mtx s3 k) = (k = m \<or> locked (mtx s k))"
    "owner (mtx s3 k) = (if k = m then Some t else owner (mtx s k))"
    "ceiling_prio (mtx s3 k) = ceiling_prio (mtx s k)"
    "next_held (mtx s3 k) = (if k = m then held_mutexes (sched s t) else next_held (mtx s k))"
    "held_mutexes (sched s3 j) = (if j = t then Some m else held_mutexes (sched s j))" for j k
    by (simp_all add: s3_def kernel_simps mutex_simps)
  have ok: "ready_ok s3" using d(1) rq.inv_view by (auto simp: s3_def mutex_simps view_simps)
  obtain H where H: "held_rep H s" using wf by (auto simp: mutex_wf_def)
  have out: "m \<notin> set (H j)" if "j < task_count s" for j using H that none by (auto simp: held_rep_def)
  have nh: "nh s3 = (nh s)(m := held_mutexes (sched s t))" by (auto simp: nh_def f fun_eq_iff)
  have "held_rep (H(t := m # H t)) s3"
    using H out unfolding held_rep_def by (auto simp: f nh)
  then have wf3: "mutex_wf s3" using ok d t by (auto simp: mutex_wf_def f)
  have "acyclic (waits_for s3)"
    by (rule acyclic_into_sink [OF ac, of _ t]) (use t none in \<open>auto simp: waits_for_def f split: if_splits\<close>)
  moreover have "waiters_ok {} s3"
    by (rule waiters_okI; unfold f) (use waiters_okD [OF w] in blast)+
  ultimately have "mutex_inv s3" using wf3 by (simp add: mutex_inv_but_def)
  then have "mutex_inv (set_task_priority i (ceiling_prio (mtx s3 m)) s3)" for i
    by (rule mutex_inv_same [OF mutex_same_priority _, rotated]) (use ok rq.inv_prio d(4) [of m] f(7) in simp)
  then show "mutex_inv (take_mutex m (Some t) s)" unfolding op using \<open>mutex_inv s3\<close> by simp
  show "task_count (take_mutex m (Some t) s) = task_count s" unfolding op by (simp add: f ipc_simps)
qed

lemma stop_waiting_fields [mutex_simps]:
  "task_count (stop_waiting m t s) = task_count s"
  "waits_on (stop_waiting m t s) j = (if j = t then None else waits_on s j)"
  "sched_state (sched (stop_waiting m t s) j) = sched_state (sched s j)"
  "held_mutexes (sched (stop_waiting m t s) j) = held_mutexes (sched s j)"
  "mtx (stop_waiting m t s) k = (if k = m
     then (mtx s m)\<lparr>wait_mask := wait_mask (mtx s m) AND NOT (bit_of (task_id (sched s t)))\<rparr> else mtx s k)"
  "sched_view (stop_waiting m t s) = sched_view s"
  by (simp_all add: stop_waiting_def kernel_simps mutex_simps view_simps)

lemma stop_waiting_inv:
  assumes inv: "mutex_inv s" and t: "t < task_count s" "waits_on s t = Some m"
  shows "mutex_inv_but {m} (stop_waiting m t s)"
proof -
  have wf: "mutex_wf s" and ac: "acyclic (waits_for s)" and w: "waiters_ok {} s" using inv by (simp_all add: mutex_inv_but_def)
  note d = mutex_wfD [OF wf]
  let ?s = "stop_waiting m t s"
  have ok: "ready_ok ?s" using d(1) rq.inv_view by (auto simp: mutex_simps)
  have own: "owner (mtx ?s k) = owner (mtx s k)" "locked (mtx ?s k) = locked (mtx s k)"
    "ceiling_prio (mtx ?s k) = ceiling_prio (mtx s k)" "next_held (mtx ?s k) = next_held (mtx s k)" for k
    by (simp_all add: mutex_simps)
  have id: "task_id (sched s t) = t" using ok_facts(2) [OF d(1) t(1)] .
  have mask_s: "bit (wait_mask (mtx ?s k)) j \<longleftrightarrow> bit (wait_mask (mtx s k)) j \<and> \<not> (k = m \<and> j = t)" for k j
    by (auto simp: mutex_simps bit_and_not_bit_of id simp del: push_bit_of_1)
  have "held_rep H ?s = held_rep H s" for H
    by (simp only: held_rep_def own stop_waiting_fields(1,4) nh_def [abs_def])
  then have "mutex_wf ?s" using wf ok by (simp only: mutex_wf_def own stop_waiting_fields(1)) blast
  moreover have "acyclic (waits_for ?s)"
    by (rule acyclic_subset [OF ac]) (auto simp: waits_for_def own stop_waiting_fields(1,2) split: if_splits)
  moreover have "waiters_ok {m} ?s"
  proof (rule waiters_okI)
    fix k j assume j: "j < task_count ?s" "bit (wait_mask (mtx ?s k)) j"
    then have "waits_on s j = Some k" using waiters_okD(1) [OF w] by (simp add: mask_s stop_waiting_fields(1-3))
    then show "waits_on ?s j = Some k" using j t(2) by (auto simp: mask_s stop_waiting_fields(1-3))
  next
    fix k j assume "j < task_count ?s" "waits_on ?s j = Some k" "blocked ?s j"
    then show "bit (wait_mask (mtx ?s k)) j"
      using waiters_okD(2) [OF w, of j k] by (simp add: mask_s stop_waiting_fields(1-3) split: if_splits)
  next
    fix k j assume a: "j < task_count ?s" "k \<notin> {m}" "waits_on ?s j = Some k" "blocked ?s j" "\<not> locked (mtx ?s k)"
    then obtain u where u: "u < task_count s" "waits_on s u = Some k" "sched_state (sched s u) = Ready"
      using waiters_okD(3) [OF w, of j k] by (auto simp: own stop_waiting_fields(1-3) split: if_splits)
    then have "u \<noteq> t" using t(2) a(2) by auto
    then show "\<exists>u < task_count ?s. waits_on ?s u = Some k \<and> sched_state (sched ?s u) = Ready"
      using u by (auto simp: stop_waiting_fields(1-3))
  qed
  ultimately show ?thesis by (simp add: mutex_inv_but_def)
qed

section \<open>Giving up\<close>

lemma store_link_fields [mutex_simps]:
  "task_count (store_link l v s) = task_count s" "waits_on (store_link l v s) j = waits_on s j"
  "sched_state (sched (store_link l v s) j) = sched_state (sched s j)"
  "task_id (sched (store_link l v s) j) = task_id (sched s j)"
  "tprio (store_link l v s) j = tprio s j" "base_priority (sched (store_link l v s) j) = base_priority (sched s j)"
  "ipcx (store_link l v s) j = ipcx s j"
  "owner (mtx (store_link l v s) k) = owner (mtx s k)" "locked (mtx (store_link l v s) k) = locked (mtx s k)"
  "wait_mask (mtx (store_link l v s) k) = wait_mask (mtx s k)"
  "ceiling_prio (mtx (store_link l v s) k) = ceiling_prio (mtx s k)"
  "sched_view (store_link l v s) = sched_view s"
  by (cases l; simp add: kernel_simps mutex_simps view_simps)+

text \<open>The state between the release and the recalculation.\<close>

definition freed :: "nat \<Rightarrow> kernel \<Rightarrow> kernel \<Rightarrow> bool" where
  "freed m s s' \<longleftrightarrow> task_count s' = task_count s \<and> sched_view s' = sched_view s
     \<and> (\<forall>j. waits_on s' j = waits_on s j \<and> sched_state (sched s' j) = sched_state (sched s j)
          \<and> task_id (sched s' j) = task_id (sched s j) \<and> tprio s' j = tprio s j
          \<and> base_priority (sched s' j) = base_priority (sched s j) \<and> ipcx s' j = ipcx s j)
     \<and> (\<forall>k. owner (mtx s' k) = (if k = m then None else owner (mtx s k))
          \<and> (locked (mtx s' k) \<longleftrightarrow> k \<noteq> m \<and> locked (mtx s k))
          \<and> wait_mask (mtx s' k) = wait_mask (mtx s k) \<and> ceiling_prio (mtx s' k) = ceiling_prio (mtx s k))"

lemma freedD:
  assumes "freed m s s'"
  shows "task_count s' = task_count s" "sched_view s' = sched_view s" "waits_on s' j = waits_on s j"
    "sched_state (sched s' j) = sched_state (sched s j)" "task_id (sched s' j) = task_id (sched s j)"
    "tprio s' j = tprio s j" "base_priority (sched s' j) = base_priority (sched s j)" "ipcx s' j = ipcx s j"
    "owner (mtx s' k) = (if k = m then None else owner (mtx s k))"
    "locked (mtx s' k) \<longleftrightarrow> k \<noteq> m \<and> locked (mtx s k)" "wait_mask (mtx s' k) = wait_mask (mtx s k)"
    "ceiling_prio (mtx s' k) = ceiling_prio (mtx s k)"
  using assms unfolding freed_def by blast+

definition resets :: "(mutex \<Rightarrow> mutex) \<Rightarrow> bool" where
  "resets f \<longleftrightarrow> f = id \<or> f = (\<lambda>r. r\<lparr>recursive_count := 0\<rparr>)"

lemma release_held:
  assumes H: "held_rep H s" and t: "t < task_count s" and own: "owner (mtx s m) = Some t" and f: "resets f"
  shows "\<exists>s1 s2. unlink_held m (HeldHead t) s = Some s1
     \<and> s2 = upd_mutex m (\<lambda>r. f (r\<lparr>next_held := None, owner := None, locked := False\<rparr>)) s1
     \<and> held_rep (H(t := remove1 m (H t))) s2 \<and> freed m s s2"
proof -
  have Ht: "distinct (H t)" "lseg (nh s) (held_mutexes (sched s t)) (H t) None" "m \<in> set (H t)"
    using H t own by (auto simp: held_rep_def)
  obtain l s1 where l: "l \<in> insert (HeldHead t) (HeldNext ` set (H t))" "s1 = store_link l (next_held (mtx s m)) s"
      "unlink_held m (HeldHead t) s = Some s1" "lseg (nh s1) (held_mutexes (sched s1 t)) (remove1 m (H t)) None"
    using unlink_held_list [of s "HeldHead t" "H t" m] Ht by auto
  define s2 where "s2 = upd_mutex m (\<lambda>r. f (r\<lparr>next_held := None, owner := None, locked := False\<rparr>)) s1"
  have fr: "freed m s s2"
    using f by (auto simp: freed_def s2_def l(2) resets_def kernel_simps mutex_simps)
  note g = freedD [OF fr]
  have n2: "nh s2 = (nh s1)(m := None)" using f by (auto simp: nh_def s2_def resets_def mutex_simps fun_eq_iff)
  have h2: "held_mutexes (sched s2 j) = held_mutexes (sched s1 j)" for j by (simp add: s2_def mutex_simps)
  have dis: "set (H j) \<inter> set (H t) = {}" if "j < task_count s" "j \<noteq> t" for j
    using H that t by (auto simp: held_rep_def)
  have "lseg (nh s2) (held_mutexes (sched s2 j)) ((H(t := remove1 m (H t))) j) None" if j: "j < task_count s" for j
  proof (cases "j = t")
    case True
    then show ?thesis using l(4) Ht(1) by (simp add: n2 h2)
  next
    case False
    have "held_mutexes (sched s1 j) = held_mutexes (sched s j)"
      using l(1) False by (auto simp: l(2) kernel_simps mutex_simps)
    moreover have "nh s1 x = nh s x" if "x \<in> set (H j)" for x
      using l(1) dis [OF j False] that by (auto simp: l(2) nh_def kernel_simps mutex_simps)
    moreover have "m \<notin> set (H j)" using dis [OF j False] Ht(3) by auto
    moreover have "lseg (nh s) (held_mutexes (sched s j)) (H j) None" using H j by (auto simp: held_rep_def)
    ultimately show ?thesis using False lseg_cong [of "H j" "nh s1" "nh s"] by (simp add: n2 h2)
  qed
  moreover have "distinct ((H(t := remove1 m (H t))) j)" if "j < task_count s" for j
    using H that by (auto simp: held_rep_def)
  moreover have "k \<in> set ((H(t := remove1 m (H t))) j) \<longleftrightarrow> owner (mtx s2 k) = Some j" if "j < task_count s" for j k
    using H that own Ht(1) by (auto simp: held_rep_def g(9))
  ultimately have "held_rep (H(t := remove1 m (H t))) s2" unfolding held_rep_def g(1) by blast
  then show ?thesis using l(3) fr s2_def by blast
qed

lemma freed_inv:
  assumes inv: "mutex_inv s" and H: "held_rep H s2" and fr: "freed m s s2"
  shows "mutex_inv_but {m} s2"
proof -
  have wf: "mutex_wf s" and ac: "acyclic (waits_for s)" and w: "waiters_ok {} s" using inv by (simp_all add: mutex_inv_but_def)
  note d = mutex_wfD [OF wf] and g = freedD [OF fr]
  have "ready_ok s2" using d(1) g(2) rq.inv_view by blast
  then have "mutex_wf s2" using H d(2-4) unfolding mutex_wf_def by (auto simp: g(1,9,10,12))
  moreover have "acyclic (waits_for s2)"
    by (rule acyclic_subset [OF ac]) (auto simp: waits_for_def g(1,3,9) split: if_splits)
  moreover have "waiters_ok {m} s2"
    by (rule waiters_okI; unfold g) (use waiters_okD [OF w] in blast)+
  ultimately show ?thesis by (simp add: mutex_inv_but_def)
qed

text \<open>Waking the best waiter repairs what the release left open.\<close>

lemma wake_waiter_inv:
  assumes inv: "mutex_inv_but {m} s" shows "mutex_inv (wake_highest_waiter m s)"
proof -
  have wf: "mutex_wf s" and ac: "acyclic (waits_for s)" and w: "waiters_ok {m} s" using inv by (simp_all add: mutex_inv_but_def)
  note d = mutex_wfD [OF wf]
  define s' where "s' = wake_highest_waiter m s"
  note wk = wake_highest_waiter_spec [OF d(1), where m = m, folded s'_def]
  have fld: "owner (mtx s' k) = owner (mtx s k)" "locked (mtx s' k) = locked (mtx s k)"
    "ceiling_prio (mtx s' k) = ceiling_prio (mtx s k)" "next_held (mtx s' k) = next_held (mtx s k)"
    "k \<noteq> m \<Longrightarrow> wait_mask (mtx s' k) = wait_mask (mtx s k)" for k
    using fun_cong [OF wk(4), of k] by (auto split: if_splits)
  have "held_rep H s' = held_rep H s" for H
    by (simp only: held_rep_def nh_def [abs_def] fld wk(2,6))
  then have "mutex_wf s'" using wf wk(1) by (simp only: mutex_wf_def fld wk(2)) blast
  moreover have "waits_for s' = waits_for s" by (simp only: waits_for_def fld wk(2,5))
  moreover have "waiters_ok {} s'"
  proof (rule waiters_okI)
    fix k t assume t: "t < task_count s'" "bit (wait_mask (mtx s' k)) t"
    then have "bit (wait_mask (mtx s k)) t"
      using wk(9) [of t] fld(5) [of k] by (cases "k = m") (auto simp: wk(2) sleepers_def)
    then show "waits_on s' t = Some k" using waiters_okD(1) [OF w] t(1) by (simp add: wk(2,5))
  next
    fix k t assume t: "t < task_count s'" "waits_on s' t = Some k" "blocked s' t"
    have "sched_state (sched s' t) = Ready \<or> sched_state (sched s' t) = sched_state (sched s t)"
      using wk(10) by (auto split: if_splits)
    then have "blocked s t" using t(3) by auto
    then have b: "bit (wait_mask (mtx s k)) t" using waiters_okD(2) [OF w, of t k] t(1,2) by (simp add: wk(2,5))
    then show "bit (wait_mask (mtx s' k)) t"
      using wk(9) [of t] fld(5) [of k] t by (cases "k = m") (auto simp: wk(2) sleepers_def)
  next
    fix k t assume t: "t < task_count s'" "waits_on s' t = Some k" "blocked s' t" "\<not> locked (mtx s' k)"
    have st: "sched_state (sched s' t) = Ready \<or> sched_state (sched s' t) = sched_state (sched s t)" for t
      using wk(10) by (auto split: if_splits)
    have bl: "blocked s t" using t(3) st [of t] by auto
    show "\<exists>u < task_count s'. waits_on s' u = Some k \<and> sched_state (sched s' u) = Ready"
    proof (cases "k = m")
      case True
      have "bit (wait_mask (mtx s m)) t" using waiters_okD(2) [OF w, of t k] t(1,2) bl True by (simp add: wk(2,5))
      then have "t \<in> sleepers (wait_mask (mtx s m)) s" using t(1) bl by (simp add: sleepers_def wk(2))
      then obtain b where b: "b \<in> sleepers (wait_mask (mtx s m)) s" "sched_state (sched s' b) = Ready"
        using wk(10) by (auto split: if_splits)
      then have "b < task_count s" "waits_on s b = Some m" using waiters_okD(1) [OF w] by (auto simp: sleepers_def)
      then show ?thesis using b(2) True by (auto simp: wk(2,5))
    next
      case False
      then obtain u where "u < task_count s" "waits_on s u = Some k" "sched_state (sched s u) = Ready"
        using waiters_okD(3) [OF w, of t k] t bl by (auto simp: wk(2,5) fld)
      then show ?thesis using st [of u] by (intro exI [of _ u]) (auto simp: wk(2,5))
    qed
  qed
  ultimately show ?thesis using ac by (simp add: mutex_inv_but_def s'_def [symmetric])
qed

lemma recalculate_inv_but:
  assumes inv: "mutex_inv_but M s" and t: "t < task_count s"
  shows "\<exists>s'. recalculate_priority_chain t s = Some s' \<and> mutex_inv_but M s' \<and> mutex_same s s'"
proof -
  have wf: "mutex_wf s" using inv by (simp add: mutex_inv_but_def)
  then obtain H where "held_rep H s" by (auto simp: mutex_wf_def)
  then obtain s' where "recalculate_priority_chain t s = Some s'" "mutex_same s s'" "ready_ok s'"
    using recalculate_chain_same [of s H t MAX_TASKS] mutex_wfD [OF wf] t
    by (auto simp: recalculate_priority_chain_def simp del: recalculate_chain.simps MAX_TASKS_def)
  then show ?thesis using mutex_inv_same inv by blast
qed

lemma mutex_give_up_inv:
  assumes inv: "mutex_inv s" and own: "owner (mtx s m) = Some t" and f: "resets f"
  shows "\<exists>s'. give_up m (Some t) f s = Some s' \<and> mutex_inv s' \<and> task_count s' = task_count s"
proof -
  have wf: "mutex_wf s" using inv by (simp add: mutex_inv_but_def)
  then obtain H where H: "held_rep H s" by (auto simp: mutex_wf_def)
  have t: "t < task_count s" using mutex_wfD(3) [OF wf own] .
  obtain s1 s2 where s2: "unlink_held m (HeldHead t) s = Some s1"
      "s2 = upd_mutex m (\<lambda>r. f (r\<lparr>next_held := None, owner := None, locked := False\<rparr>)) s1"
      "held_rep (H(t := remove1 m (H t))) s2" "freed m s s2"
    using release_held [OF H t own f] by blast
  have n: "task_count s2 = task_count s" using freedD(1) [OF s2(4)] .
  have "mutex_inv_but {m} s2" by (rule freed_inv [OF inv s2(3,4)])
  then obtain s3 where s3: "recalculate_priority_chain t s2 = Some s3" "mutex_inv_but {m} s3" "mutex_same s2 s3"
    using recalculate_inv_but [of "{m}" s2 t] t n by auto
  have "give_up m (Some t) f s = Some (wake_highest_waiter m s3)"
    using s2(1) s3(1) by (simp add: give_up_def s2(2) Let_def)
  moreover have "task_count (wake_highest_waiter m s3) = task_count s3"
    using wake_highest_waiter_spec(2) s3(2) by (simp add: mutex_inv_but_def mutex_wf_def)
  ultimately show ?thesis using wake_waiter_inv [OF s3(2)] mutex_sameD(2) [OF s3(3)] n by simp
qed

section \<open>Waiting\<close>

text \<open>Registering a waiter: field and mask bit; the owner is not reachable from the waiter's own tasks.\<close>

lemma register_inv:
  assumes inv: "mutex_inv s" and t: "t < task_count s" "waits_on s t = None" "sched_state (sched s t) = Ready"
    and lk: "locked (mtx s m)" and dl: "\<not> check_deadlock t m s"
  defines "s2 \<equiv> upd_mutex m (\<lambda>r. r\<lparr>wait_mask := wait_mask r OR bit_of t\<rparr>)
    (upd_sched t (\<lambda>r. r\<lparr>waiting_on_mutex := Some m\<rparr>) s)"
  shows "mutex_inv s2"
proof -
  have wf: "mutex_wf s" and ac: "acyclic (waits_for s)" and w: "waiters_ok {} s" using inv by (simp_all add: mutex_inv_but_def)
  note d = mutex_wfD [OF wf]
  have t16: "t < 16" using ok_facts(1) [OF d(1) t(1)] by simp
  have f: "task_count s2 = task_count s" "waits_on s2 j = (if j = t then Some m else waits_on s j)"
    "sched_state (sched s2 j) = sched_state (sched s j)" "held_mutexes (sched s2 j) = held_mutexes (sched s j)"
    "owner (mtx s2 k) = owner (mtx s k)" "locked (mtx s2 k) = locked (mtx s k)"
    "ceiling_prio (mtx s2 k) = ceiling_prio (mtx s k)" "next_held (mtx s2 k) = next_held (mtx s k)" for j k
    by (simp_all add: s2_def kernel_simps mutex_simps)
  have bits: "bit (wait_mask (mtx s2 k)) j \<longleftrightarrow> bit (wait_mask (mtx s k)) j \<or> (k = m \<and> j = t)" for k j
    using t16 by (auto simp: s2_def mutex_simps kernel_simps bit_or_bit_of simp del: push_bit_of_1)
  have "ready_ok s2" using d(1) rq.inv_view by (auto simp: s2_def mutex_simps view_simps)
  moreover have "held_rep H s2 = held_rep H s" for H by (simp only: held_rep_def nh_def [abs_def] f)
  ultimately have "mutex_wf s2" using wf by (simp only: mutex_wf_def f) blast
  moreover have "acyclic (waits_for s2)"
  proof -
    obtain u where u: "owner (mtx s m) = Some u" using d(2) [of m] lk by auto
    have n: "task_count s \<le> MAX_TASKS"
      using ok_facts(1) [OF d(1), of "task_count s - 1"] t(1) by (cases "task_count s") auto
    have "waits_for s2 = insert (t, u) (waits_for s)" using t u by (auto simp: waits_for_def f split: if_splits)
    moreover have "(u, t) \<notin> (waits_for s)\<^sup>*" by (rule check_deadlock_complete [OF n t(1,2) dl u])
    ultimately show ?thesis using ac by (simp add: acyclic_insert)
  qed
  moreover have "waiters_ok {} s2"
  proof (rule waiters_okI)
    fix k j assume j: "j < task_count s2" "bit (wait_mask (mtx s2 k)) j"
    show "waits_on s2 j = Some k"
    proof (cases "k = m \<and> j = t")
      case False
      then have "waits_on s j = Some k" using j waiters_okD(1) [OF w, of j k] by (auto simp: bits f(1))
      then show ?thesis using t(2) by (auto simp: f(2))
    qed (simp add: f(2))
  next
    fix k j assume "j < task_count s2" "waits_on s2 j = Some k" "blocked s2 j"
    then show "bit (wait_mask (mtx s2 k)) j"
      using waiters_okD(2) [OF w, of j k] t(3) by (auto simp: bits f(1-3) split: if_splits)
  next
    fix k j assume a: "j < task_count s2" "waits_on s2 j = Some k" "blocked s2 j" "\<not> locked (mtx s2 k)"
    then have "j \<noteq> t" using t(3) by (auto simp: f(3))
    then obtain u where "u < task_count s" "waits_on s u = Some k" "sched_state (sched s u) = Ready"
      using waiters_okD(3) [OF w, of j k] a by (auto simp: f(1-3,6))
    then show "\<exists>u < task_count s2. waits_on s2 u = Some k \<and> sched_state (sched s2 u) = Ready"
      using t(2) by (intro exI [of _ u]) (auto simp: f(1-3))
  qed
  ultimately show ?thesis by (simp add: mutex_inv_but_def)
qed

text \<open>Writes to the recursion count and to the error number do not matter.\<close>

lemma recursion_inv: "mutex_inv_but M (upd_mutex m (\<lambda>r. r\<lparr>recursive_count := f r\<rparr>) s) = mutex_inv_but M s"
proof -
  let ?s = "upd_mutex m (\<lambda>r. r\<lparr>recursive_count := f r\<rparr>) s"
  have g: "owner (mtx ?s k) = owner (mtx s k)" "locked (mtx ?s k) = locked (mtx s k)"
    "ceiling_prio (mtx ?s k) = ceiling_prio (mtx s k)" "next_held (mtx ?s k) = next_held (mtx s k)"
    "wait_mask (mtx ?s k) = wait_mask (mtx s k)" "tasks ?s = tasks s" "task_count ?s = task_count s" for k
    by (simp_all add: mutex_simps)
  have "ready_ok ?s = ready_ok s" using ready_inv_view(3) [of ?s s] by (simp add: mutex_simps)
  then show ?thesis
    by (simp only: mutex_inv_but_def mutex_wf_def held_rep_def nh_def [abs_def] waits_for_def waiters_ok_def g)
qed

lemma mutex_inv_cong:
  assumes "mutexes s' = mutexes s" "\<And>j. waits_on s' j = waits_on s j"
    "\<And>j. held_mutexes (sched s' j) = held_mutexes (sched s j)"
    "\<And>j. sched_state (sched s' j) = sched_state (sched s j)"
    "task_count s' = task_count s" "sched_view s' = sched_view s"
  shows "mutex_inv_but M s' = mutex_inv_but M s"
proof -
  have "ready_ok s' = ready_ok s" by (rule ready_inv_view(3) [OF assms(6)])
  then show ?thesis
    by (simp only: mutex_inv_but_def mutex_wf_def held_rep_def nh_def [abs_def] waits_for_def waiters_ok_def assms(1-5))
qed

lemma lock_enter_inv:
  assumes inv: "mutex_inv s" and t: "running s t" "waits_on s t = None"
  shows "mutex_inv (snd (lock_enter m s))"
proof -
  have r: "current_tcb s = Some t" "t < task_count s" "sched_state (sched s t) = Ready"
    using t(1) by (simp_all add: running_def)
  have wf: "mutex_wf s" using inv by (simp add: mutex_inv_but_def)
  note d = mutex_wfD [OF wf]
  have id: "task_id (sched s t) = t" by (rule ok_facts(2) [OF d(1) r(2)])
  have weak: "mutex_inv_but {m} s" by (rule mutex_inv_mono [OF inv]) simp
  consider "\<not> locked (mtx s m)" | "locked (mtx s m)" "owner (mtx s m) = Some t"
    | "locked (mtx s m)" "owner (mtx s m) \<noteq> Some t" "check_deadlock t m s"
    | "locked (mtx s m)" "owner (mtx s m) \<noteq> Some t" "\<not> check_deadlock t m s" by blast
  then show ?thesis
  proof cases
    case 1
    then show ?thesis using take_mutex_inv(1) [OF weak r(2) t(2)] by (simp add: lock_enter_def r)
  next
    case 2
    then show ?thesis using inv by (simp add: lock_enter_def r recursion_inv)
  next
    case 3
    have "mutex_inv (upd_task t f s) = mutex_inv s" for f
      by (rule mutex_inv_cong) (simp_all add: kernel_simps view_simps)
    then show ?thesis using 3 inv by (auto simp: lock_enter_def r)
  next
    case 4
    define s2 where "s2 = upd_mutex m (\<lambda>r. r\<lparr>wait_mask := wait_mask r OR bit_of t\<rparr>)
      (upd_sched t (\<lambda>r. r\<lparr>waiting_on_mutex := Some m\<rparr>) s)"
    have i2: "mutex_inv s2" unfolding s2_def by (rule register_inv [OF inv r(2) t(2) r(3) 4(1,3)])
    have e: "mutex_inv (propagate_priority t s2)"
    proof -
      have wf2: "mutex_wf s2" using i2 by (simp add: mutex_inv_but_def)
      have "t < task_count s2" using r(2) by (simp add: s2_def kernel_simps mutex_simps)
      then have "mutex_same s2 (propagate_priority t s2)" "ready_ok (propagate_priority t s2)"
        using propagate_same [of s2 t MAX_TASKS t] mutex_wfD(1,3) [OF wf2]
        by (auto simp: propagate_priority_def simp del: propagate.simps MAX_TASKS_def)
      then show ?thesis using mutex_inv_same i2 by blast
    qed
    have "snd (lock_enter m s) = (case owner (mtx s2 m) of
        Some ow \<Rightarrow> if current_priority (sched s t) > current_priority (sched s2 ow) then propagate_priority t s2 else s2
      | None \<Rightarrow> s2)"
    proof -
      have idE: "task_id (sched (upd_sched t (\<lambda>r. r\<lparr>waiting_on_mutex := Some m\<rparr>) s) t) = t" by (simp add: id kernel_simps)
      show ?thesis using 4 unfolding lock_enter_def Let_def s2_def r option.case idE by simp
    qed
    then show ?thesis using i2 e by (simp split: option.split)
  qed
qed

lemma block_inv:
  assumes inv: "mutex_inv s" and t: "t < task_count s" "waits_on s t = Some m" "sched_state (sched s t) = Ready"
    and lk: "locked (mtx s m)" and st: "st = Sleeping \<or> st = Suspended"
  shows "mutex_inv (set_task_state t st (upd_mutex m (\<lambda>r. r\<lparr>wait_mask := wait_mask r OR bit_of t\<rparr>) s))"
proof -
  define s' where "s' = set_task_state t st (upd_mutex m (\<lambda>r. r\<lparr>wait_mask := wait_mask r OR bit_of t\<rparr>) s)"
  have wf: "mutex_wf s" and ac: "acyclic (waits_for s)" and w: "waiters_ok {} s" using inv by (simp_all add: mutex_inv_but_def)
  note d = mutex_wfD [OF wf]
  have t16: "t < 16" using ok_facts(1) [OF d(1) t(1)] by simp
  have f: "task_count s' = task_count s" "waits_on s' j = waits_on s j"
    "sched_state (sched s' j) = (if j = t then st else sched_state (sched s j))"
    "held_mutexes (sched s' j) = held_mutexes (sched s j)"
    "owner (mtx s' k) = owner (mtx s k)" "locked (mtx s' k) = locked (mtx s k)"
    "ceiling_prio (mtx s' k) = ceiling_prio (mtx s k)" "next_held (mtx s' k) = next_held (mtx s k)" for j k
    using t(1) t16 by (simp_all add: s'_def kernel_simps mutex_simps ipc_simps)
  have bits: "bit (wait_mask (mtx s' k)) j \<longleftrightarrow> bit (wait_mask (mtx s k)) j \<or> (k = m \<and> j = t)" for k j
    using t16 by (auto simp: s'_def mutex_simps kernel_simps bit_or_bit_of simp del: push_bit_of_1)
  have "ready_ok s'" unfolding s'_def by (rule rq.inv_state, rule rq.inv_view [OF d(1)]) (simp add: mutex_simps)
  moreover have "held_rep H s' = held_rep H s" for H by (simp only: held_rep_def nh_def [abs_def] f)
  ultimately have "mutex_wf s'" using wf by (simp only: mutex_wf_def f) blast
  moreover have "waits_for s' = waits_for s" by (simp only: waits_for_def f)
  moreover have "waiters_ok {} s'"
  proof (rule waiters_okI)
    fix k j assume j: "j < task_count s'" "bit (wait_mask (mtx s' k)) j"
    then show "waits_on s' j = Some k" unfolding bits f using waiters_okD(1) [OF w, of j k] t(2) by blast
  next
    fix k j assume "j < task_count s'" "waits_on s' j = Some k" "blocked s' j"
    then show "bit (wait_mask (mtx s' k)) j" unfolding bits f
      using waiters_okD(2) [OF w, of j k] t(2) by (auto split: if_splits)
  next
    fix k j assume a: "j < task_count s'" "waits_on s' j = Some k" "blocked s' j" "\<not> locked (mtx s' k)"
    then have km: "k \<noteq> m" using lk by (auto simp: f(6))
    then have "j \<noteq> t" using a(2) t(2) by (auto simp: f(2))
    then obtain u where u: "u < task_count s" "waits_on s u = Some k" "sched_state (sched s u) = Ready"
      using waiters_okD(3) [OF w, of j k] a by (auto simp: f(1-3,6))
    then have "u \<noteq> t" using km t(2) by auto
    then show "\<exists>u < task_count s'. waits_on s' u = Some k \<and> sched_state (sched s' u) = Ready"
      using u by (intro exI [of _ u]) (simp only: f if_False simp_thms)
  qed
  ultimately show ?thesis using ac by (simp add: mutex_inv_but_def s'_def [symmetric] del: push_bit_of_1)
qed

lemma lock_retry_inv:
  assumes inv: "mutex_inv s" and t: "running s t" "waits_on s t = Some m"
  shows "\<exists>r s'. lock_retry m st tmo t s = Some (r, s') \<and> mutex_inv s'"
proof -
  have r: "current_tcb s = Some t" "t < task_count s" "sched_state (sched s t) = Ready"
    using t(1) by (simp_all add: running_def)
  have wf: "mutex_wf s" using inv by (simp add: mutex_inv_but_def)
  note d = mutex_wfD [OF wf]
  have id: "task_id (sched s t) = t" by (rule ok_facts(2) [OF d(1) r(2)])
  define s1 where "s1 = stop_waiting m t s"
  have i1: "mutex_inv_but {m} s1" unfolding s1_def by (rule stop_waiting_inv [OF inv r(2) t(2)])
  have f1: "task_count s1 = task_count s" "waits_on s1 t = None" "locked (mtx s1 m) = locked (mtx s m)"
    "owner (mtx s1 m) = owner (mtx s m)" by (simp_all add: s1_def mutex_simps)
  have full: "mutex_inv s1" if "locked (mtx s m)" using mutex_inv_locked [OF i1] that f1(3) by simp
  show ?thesis
  proof (cases "locked (mtx s m)")
    case False
    then show ?thesis using take_mutex_inv(1) [OF i1] f1 r(2) by (simp add: lock_retry_def s1_def [symmetric])
  next
    case lk: True
    then obtain u where u: "owner (mtx s m) = Some u" using d(2) [of m] by auto
    show ?thesis
    proof (cases "u = t")
      case True
      then show ?thesis using lk u full by (simp add: lock_retry_def s1_def [symmetric] recursion_inv)
    next
      case ne: False
      show ?thesis
      proof (cases "tmo \<noteq> 0xFFFFFFFF \<and> current_tick s - st \<ge> tmo")
        case True
        obtain s2 where "recalculate_priority_chain u s1 = Some s2" "mutex_inv s2"
          using recalculate_inv_but [OF full [OF lk], of u] d(3) [OF u] f1(1) by auto
        then show ?thesis using lk u ne True f1(4) by (simp add: lock_retry_def s1_def [symmetric])
      next
        case False
        let ?s1 = "upd_mutex m (\<lambda>r. r\<lparr>wait_mask := wait_mask r OR bit_of t\<rparr>) s"
        let ?u = "upd_sched t (\<lambda>r. r\<lparr>sleep_ticks := tmo - (current_tick s - st)\<rparr>)"
        have i: "mutex_inv (?u s)"
          using inv by (subst mutex_inv_cong [where s = s]) (simp_all add: kernel_simps view_simps)
        have comm: "?u ?s1 = upd_mutex m (\<lambda>r. r\<lparr>wait_mask := wait_mask r OR bit_of t\<rparr>) (?u s)"
          by (simp add: upd_mutex_def upd_sched_def upd_tcb_def)
        have "mutex_inv (set_task_state t Sleeping (?u ?s1))" unfolding comm
          by (rule block_inv [OF i]) (use r t lk in \<open>simp_all add: kernel_simps\<close>)
        moreover have "mutex_inv (set_task_state t Suspended ?s1)" by (rule block_inv [OF inv r(2) t(2) r(3) lk]) simp
        ultimately show ?thesis using lk u ne False
          by (auto simp: lock_retry_def id Let_def simp del: push_bit_of_1)
      qed
    qed
  qed
qed

lemma unlock_inv:
  assumes inv: "mutex_inv s" and t: "running s t"
  shows "\<exists>r s'. unlock m s = Some (r, s') \<and> mutex_inv s'"
proof (cases "locked (mtx s m) \<and> owner (mtx s m) = current_tcb s")
  case False
  then show ?thesis using inv by (auto simp: unlock_def)
next
  case True
  let ?s1 = "upd_mutex m (\<lambda>r. r\<lparr>recursive_count := recursive_count r - 1\<rparr>) s"
  have own: "owner (mtx ?s1 m) = Some t" using True t by (simp add: running_def mutex_simps)
  have "mutex_inv ?s1" using inv by (simp add: recursion_inv)
  then have "\<exists>s'. give_up m (Some t) id ?s1 = Some s' \<and> mutex_inv s'"
    using mutex_give_up_inv [OF _ own, of id] by (auto simp: resets_def)
  then show ?thesis using True own \<open>mutex_inv ?s1\<close> by (auto simp: unlock_def Let_def)
qed

lemma force_unlock_inv:
  assumes inv: "mutex_inv s"
  shows "\<exists>s'. force_unlock m tgt s = Some s' \<and> mutex_inv s'"
proof (cases "locked (mtx s m) \<and> owner (mtx s m) = tgt")
  case False
  then show ?thesis using inv by (auto simp: force_unlock_def)
next
  case True
  then obtain t where "owner (mtx s m) = Some t" "tgt = Some t"
    using inv by (auto simp: mutex_inv_but_def dest: mutex_wfD(2) [where m = m])
  then show ?thesis using True mutex_give_up_inv [OF inv, of m t "\<lambda>r. r\<lparr>recursive_count := 0\<rparr>"]
    by (auto simp: force_unlock_def resets_def)
qed

section \<open>Interleavings\<close>

text \<open>
  What can happen between two looks at the mutexes: the running task enters a lock, makes one
  more pass of its waiting loop, or unlocks; a lock is broken; a ceiling is set; the scheduler
  switches to a ready task; a tick or a signal makes a task ready; a task that waits for no mutex
  blocks elsewhere, terminates or otherwise changes its state; time passes.
\<close>

inductive mutex_step :: "kernel \<Rightarrow> kernel \<Rightarrow> bool" where
  enter: "running s t \<Longrightarrow> waits_on s t = None \<Longrightarrow> mutex_step s (snd (lock_enter m s))"
| retry: "running s t \<Longrightarrow> waits_on s t = Some m \<Longrightarrow> lock_retry m from_tick tmo t s = Some (r, s') \<Longrightarrow> mutex_step s s'"
| leave: "running s t \<Longrightarrow> waits_on s t = None \<Longrightarrow> unlock m s = Some (r, s') \<Longrightarrow> mutex_step s s'"
| break: "force_unlock m tgt s = Some s' \<Longrightarrow> mutex_step s s'"
| ceiling: "c < NUM_PRIORITIES \<Longrightarrow> mutex_step s (set_ceiling m c s)"
| switch: "t < task_count s \<Longrightarrow> sched_state (sched s t) = Ready \<Longrightarrow> mutex_step s (s\<lparr>current_tcb := Some t\<rparr>)"
| wake: "mutex_step s (set_task_state t Ready s)"
| settle: "waits_on s t = None \<Longrightarrow> mutex_step s (set_task_state t st s)"
| pass: "mutex_step s (s\<lparr>current_tick := n\<rparr>)"

lemma mutex_set_state_inv:
  assumes inv: "mutex_inv s" and ok: "st = Ready \<or> waits_on s t = None" shows "mutex_inv (set_task_state t st s)"
proof -
  have wf: "mutex_wf s" and ac: "acyclic (waits_for s)" and w: "waiters_ok {} s" using inv by (simp_all add: mutex_inv_but_def)
  define s' where "s' = set_task_state t st s"
  have f: "task_count s' = task_count s" "waits_on s' j = waits_on s j" "mutexes s' = mutexes s"
    "held_mutexes (sched s' j) = held_mutexes (sched s j)" for j by (simp_all add: s'_def ipc_simps mutex_simps)
  have st: "sched_state (sched s' j) = Ready \<or> sched_state (sched s' j) = sched_state (sched s j)"
    if "waits_on s j \<noteq> None" for j using that ok by (auto simp: s'_def ipc_simps)
  have "ready_ok s'" unfolding s'_def by (rule rq.inv_state [OF mutex_wfD(1) [OF wf]])
  moreover have "held_rep H s' = held_rep H s" for H by (simp only: held_rep_def nh_def [abs_def] f)
  ultimately have "mutex_wf s'" using wf by (simp only: mutex_wf_def f) blast
  moreover have "waits_for s' = waits_for s" by (simp only: waits_for_def f)
  moreover have "waiters_ok {} s'"
  proof (rule waiters_okI; unfold f)
    fix k j assume "j < task_count s" "bit (wait_mask (mtx s k)) j"
    then show "waits_on s j = Some k" by (rule waiters_okD(1) [OF w])
  next
    fix k j assume "j < task_count s" "waits_on s j = Some k" "blocked s' j"
    then show "bit (wait_mask (mtx s k)) j" using waiters_okD(2) [OF w, of j k] st [of j] by auto
  next
    fix k j assume a: "j < task_count s" "waits_on s j = Some k" "blocked s' j" "\<not> locked (mtx s k)"
    then have "blocked s j" using st [of j] by auto
    then obtain u where "u < task_count s" "waits_on s u = Some k" "sched_state (sched s u) = Ready"
      using waiters_okD(3) [OF w a(1,2) _ a(4)] by blast
    then show "\<exists>u < task_count s. waits_on s u = Some k \<and> sched_state (sched s' u) = Ready"
      using st [of u] by (intro exI [of _ u]) auto
  qed
  ultimately show ?thesis using ac by (simp add: mutex_inv_but_def s'_def)
qed

lemma set_ceiling_inv:
  assumes "mutex_inv s" "c < NUM_PRIORITIES" shows "mutex_inv (set_ceiling m c s)"
proof -
  let ?s = "set_ceiling m c s"
  have g: "owner (mtx ?s k) = owner (mtx s k)" "locked (mtx ?s k) = locked (mtx s k)"
    "next_held (mtx ?s k) = next_held (mtx s k)" "wait_mask (mtx ?s k) = wait_mask (mtx s k)"
    "tasks ?s = tasks s" "task_count ?s = task_count s"
    "ceiling_prio (mtx ?s k) = (if k = m then c else ceiling_prio (mtx s k))" for k
    by (simp_all add: set_ceiling_def mutex_simps)
  have "ready_ok ?s = ready_ok s" using ready_inv_view(3) [of ?s s] by (simp add: set_ceiling_def mutex_simps)
  then have "mutex_wf s \<longrightarrow> mutex_wf ?s"
    using assms(2) by (simp only: mutex_wf_def held_rep_def nh_def [abs_def] g) simp
  moreover have "waits_for ?s = waits_for s" "waiters_ok {} ?s = waiters_ok {} s"
    by (simp_all only: waits_for_def waiters_ok_def g)
  ultimately show ?thesis using assms(1) by (simp add: mutex_inv_but_def)
qed

lemma mutex_step_inv: "mutex_step s s' \<Longrightarrow> mutex_inv s \<Longrightarrow> mutex_inv s'"
proof (induction rule: mutex_step.induct)
  case (enter s t m)
  then show ?case using lock_enter_inv by blast
next
  case (retry s t m from_tick tmo r s')
  then show ?case using lock_retry_inv [of s t m from_tick tmo] by auto
next
  case (leave s t m r s')
  then show ?case using unlock_inv [of s t m] by auto
next
  case (break m tgt s s')
  then show ?case using force_unlock_inv [of s m tgt] by auto
next
  case (ceiling c s m)
  then show ?case using set_ceiling_inv by blast
next
  case (switch t s)
  then show ?case by (subst mutex_inv_cong [where s = s]) (simp_all add: view_simps)
next
  case (wake s t)
  then show ?case by (simp add: mutex_set_state_inv)
next
  case (settle s t st)
  then show ?case by (simp add: mutex_set_state_inv)
next
  case (pass s n)
  then show ?case by (subst mutex_inv_cong [where s = s]) (simp_all add: view_simps)
qed

lemma mutex_steps_inv: "mutex_step\<^sup>*\<^sup>* s s' \<Longrightarrow> mutex_inv s \<Longrightarrow> mutex_inv s'"
  by (induction rule: rtranclp_induct) (auto intro: mutex_step_inv)

section \<open>An example state\<close>

lemma create_task_mutex:
  fixes entry stk sz priv :: u32 and pw srd :: u8 and prio :: nat
  assumes i: "free_index s = Some i"
  defines "s' \<equiv> snd (create_task entry stk sz prio pw priv srd s)"
  shows "mutexes s' = mutexes s" "waits_on s' t = (if t = i then None else waits_on s t)"
    "held_mutexes (sched s' t) = (if t = i then None else held_mutexes (sched s t))"
  unfolding s'_def create_task_def i option.case Let_def case_prod_beta
  by (simp_all add: kernel_simps) (simp_all add: upd_defs new_tcb_def Let_def empty_tcb_def)

lemma two_tasks_mutex:
  "mutexes two_tasks m = \<lparr>locked = False, owner = None, recursive_count = 0, next_held = None, wait_mask = 0, ceiling_prio = 0\<rparr>"
  "t < 2 \<Longrightarrow> waits_on two_tasks t = None" "t < 2 \<Longrightarrow> held_mutexes (sched two_tasks t) = None"
proof -
  have st: "mutexes (start s) = mutexes s" "waits_on (start s) t = waits_on s t"
    "held_mutexes (sched (start s) t) = held_mutexes (sched s t)" for s t
    by (simp_all add: start_def Let_def kernel_simps)
  note c = create_task_mutex [OF second_task_free] create_task_mutex [OF first_task_free]
  show "mutexes two_tasks m = \<lparr>locked = False, owner = None, recursive_count = 0, next_held = None, wait_mask = 0, ceiling_prio = 0\<rparr>"
    by (simp add: two_tasks_def st c) (simp add: init_def reset_state_def)
  show "t < 2 \<Longrightarrow> waits_on two_tasks t = None" "t < 2 \<Longrightarrow> held_mutexes (sched two_tasks t) = None"
    by (auto simp: two_tasks_def st c less_2_cases_iff)
qed

lemma two_tasks_mutex_inv: "mutex_inv two_tasks"
proof -
  have "held_rep (\<lambda>_. []) two_tasks" by (simp add: held_rep_def two_tasks_facts two_tasks_mutex)
  then have "mutex_wf two_tasks"
    using two_tasks_ipc_inv by (auto simp: mutex_wf_def two_tasks_mutex ipc_inv_def)
  moreover have "acyclic (waits_for two_tasks)"
  proof -
    have "waits_for two_tasks = {}" by (auto simp: waits_for_def two_tasks_facts two_tasks_mutex)
    then show ?thesis by (simp add: acyclic_def)
  qed
  moreover have "waiters_ok {} two_tasks" by (auto simp: waiters_ok_def two_tasks_facts two_tasks_mutex)
  ultimately show ?thesis by (simp add: mutex_inv_but_def)
qed

lemma two_tasks_running: "running two_tasks 0" by (simp add: running_def two_tasks_facts)

section \<open>Properties\<close>

text \<open>
  C5: locking cannot deadlock tasks among each other. After any interleaving of lock attempts,
  retries, unlocks, broken locks and scheduler activity the wait-for graph has no cycle, a mutex
  is locked exactly when it has an owner, and the mutexes a task owns are exactly those on its
  list of held mutexes, each once.
\<close>
theorem mutex_wait_graph_acyclic:
  assumes "mutex_inv s" "mutex_step\<^sup>*\<^sup>* s s'"
  shows "acyclic (waits_for s') \<and> (\<forall>m. locked (mtx s' m) \<longleftrightarrow> owner (mtx s' m) \<noteq> None)
    \<and> (\<exists>H. \<forall>t < task_count s'. distinct (H t) \<and> lseg (nh s') (held_mutexes (sched s' t)) (H t) None
         \<and> (\<forall>m. m \<in> set (H t) \<longleftrightarrow> owner (mtx s' m) = Some t))"
proof -
  have "mutex_inv s'" by (rule mutex_steps_inv [OF assms(2,1)])
  then have wf: "mutex_wf s'" and ac: "acyclic (waits_for s')" by (simp_all add: mutex_inv_but_def)
  obtain H where H: "held_rep H s'" using wf by (auto simp: mutex_wf_def)
  have "\<forall>m. locked (mtx s' m) \<longleftrightarrow> owner (mtx s' m) \<noteq> None" using mutex_wfD(2) [OF wf] by blast
  then show ?thesis using ac H [unfolded held_rep_def] by blast
qed

theorem mutex_wait_graph_acyclic_witness:
  "acyclic (waits_for (snd (lock_enter 4 two_tasks)))"
proof -
  have "mutex_step\<^sup>*\<^sup>* two_tasks (snd (lock_enter 4 two_tasks))"
    by (rule r_into_rtranclp, rule mutex_step.enter [OF two_tasks_running]) (simp add: two_tasks_mutex)
  then show ?thesis using mutex_wait_graph_acyclic [OF two_tasks_mutex_inv] by blast
qed

text \<open>
  C16: no wake-up is lost and no operation hangs, as long as no task is created or released and none
  is terminated or suspended from outside while it waits for a mutex. After any interleaving of the
  mutex operations and scheduler activity without that, if a task sleeps on a mutex that is free, then some other waiter of that mutex is ready to take it. In every
  such state, whether or not somebody waits, breaking a lock returns, and so do the unlock and the
  retry of the running task, although they follow the lists of held mutexes and the chains of owners.
\<close>
theorem mutex_no_lost_wakeup:
  assumes "mutex_inv s" "mutex_step\<^sup>*\<^sup>* s s'"
  shows "(\<forall>x < task_count s'. \<forall>k. waits_on s' x = Some k \<and> blocked s' x \<and> \<not> locked (mtx s' k) \<longrightarrow>
        (\<exists>u < task_count s'. u \<noteq> x \<and> waits_on s' u = Some k \<and> sched_state (sched s' u) = Ready))
    \<and> (\<forall>m tgt. force_unlock m tgt s' \<noteq> None)
    \<and> (\<forall>t m. running s' t \<longrightarrow> unlock m s' \<noteq> None)
    \<and> (\<forall>t m from_tick tmo. running s' t \<and> waits_on s' t = Some m \<longrightarrow> lock_retry m from_tick tmo t s' \<noteq> None)"
proof -
  have inv: "mutex_inv s'" by (rule mutex_steps_inv [OF assms(2,1)])
  then have w: "waiters_ok {} s'" by (simp add: mutex_inv_but_def)
  have "lock_retry m from_tick tmo t s' \<noteq> None" if "running s' t" "waits_on s' t = Some m" for m from_tick tmo t
    using lock_retry_inv [OF inv that, of from_tick tmo] by auto
  moreover have "unlock m s' \<noteq> None" if "running s' t" for m t using unlock_inv [OF inv that, of m] by auto
  moreover have "force_unlock m tgt s' \<noteq> None" for m tgt using force_unlock_inv [OF inv, of m tgt] by auto
  moreover have "\<exists>u < task_count s'. u \<noteq> x \<and> waits_on s' u = Some k \<and> sched_state (sched s' u) = Ready"
    if x: "x < task_count s'" "waits_on s' x = Some k" "blocked s' x" "\<not> locked (mtx s' k)" for x k
  proof -
    obtain u where "u < task_count s'" "waits_on s' u = Some k" "sched_state (sched s' u) = Ready"
      using waiters_okD(3) [OF w x] by blast
    then show ?thesis using x(3) by (intro exI [of _ u]) auto
  qed
  ultimately show ?thesis by blast
qed

text \<open>Both tasks wait for a mutex that has just been released; one of them has been woken.\<close>

definition released_pair :: kernel where
  "released_pair = upd_mutex 4 (\<lambda>r. r\<lparr>wait_mask := 2\<rparr>) (set_task_state 1 Suspended
     (upd_sched 0 (\<lambda>r. r\<lparr>waiting_on_mutex := Some 4\<rparr>) (upd_sched 1 (\<lambda>r. r\<lparr>waiting_on_mutex := Some 4\<rparr>) two_tasks)))"

lemma released_pair_fields:
  "task_count released_pair = 2" "t < 2 \<Longrightarrow> waits_on released_pair t = Some 4"
  "t < 2 \<Longrightarrow> held_mutexes (sched released_pair t) = None"
  "sched_state (sched released_pair 0) = Ready" "sched_state (sched released_pair (Suc 0)) = Suspended"
  "mtx released_pair m = (mtx two_tasks m)\<lparr>wait_mask := (if m = 4 then 2 else 0)\<rparr>"
  by (auto simp: released_pair_def mutex_simps ipc_simps kernel_simps two_tasks_facts two_tasks_mutex less_2_cases_iff)

lemma released_pair_inv: "mutex_inv released_pair"
proof -
  have "ready_ok released_pair"
    unfolding released_pair_def
    by (rule rq.inv_view [OF rq.inv_state], rule rq.inv_view [of two_tasks])
      (use two_tasks_ipc_inv in \<open>simp_all add: ipc_inv_def mutex_simps view_simps\<close>)
  moreover have "held_rep (\<lambda>_. []) released_pair"
    by (simp add: held_rep_def released_pair_fields two_tasks_mutex)
  ultimately have "mutex_wf released_pair" by (auto simp: mutex_wf_def released_pair_fields two_tasks_mutex)
  moreover have "acyclic (waits_for released_pair)"
  proof -
    have "waits_for released_pair = {}" by (auto simp: waits_for_def released_pair_fields two_tasks_mutex)
    then show ?thesis by (simp add: acyclic_def)
  qed
  moreover have "waiters_ok {} released_pair"
  proof (rule waiters_okI)
    fix m t assume "t < task_count released_pair" "bit (wait_mask (mtx released_pair m)) t"
    then show "waits_on released_pair t = Some m" by (auto simp: released_pair_fields split: if_splits)
  next
    fix m t assume "t < task_count released_pair" "waits_on released_pair t = Some m" "blocked released_pair t"
    then show "bit (wait_mask (mtx released_pair m)) t"
      by (auto simp: released_pair_fields less_2_cases_iff bit_numeral_rec)
  next
    fix m t assume "t < task_count released_pair" "waits_on released_pair t = Some m"
    then show "\<exists>u < task_count released_pair. waits_on released_pair u = Some m \<and> sched_state (sched released_pair u) = Ready"
      by (intro exI [of _ 0]) (auto simp: released_pair_fields)
  qed
  ultimately show ?thesis by (simp add: mutex_inv_but_def)
qed

theorem mutex_no_lost_wakeup_witness:
  "blocked released_pair 1 \<and> (\<exists>u < 2. u \<noteq> 1 \<and> waits_on released_pair u = Some 4 \<and> sched_state (sched released_pair u) = Ready)
   \<and> force_unlock 4 None two_tasks \<noteq> None \<and> unlock 4 two_tasks \<noteq> None"
proof -
  have "blocked released_pair 1" "waits_on released_pair 1 = Some 4" "\<not> locked (mtx released_pair 4)"
    by (simp_all add: released_pair_fields two_tasks_mutex)
  then have "\<exists>u < 2. u \<noteq> 1 \<and> waits_on released_pair u = Some 4 \<and> sched_state (sched released_pair u) = Ready"
    using mutex_no_lost_wakeup [OF released_pair_inv rtranclp.rtrancl_refl, THEN conjunct1, rule_format, of 1 4]
    by (simp add: released_pair_fields)
  then show ?thesis using \<open>blocked released_pair 1\<close> two_tasks_running
      mutex_no_lost_wakeup [OF two_tasks_mutex_inv rtranclp.rtrancl_refl] by blast
qed

text \<open>
  Why termination of waiters is excluded: when the woken waiter is terminated before it takes the
  mutex, the mutex stays free and the other waiter sleeps on, because only an unlock wakes waiters.
\<close>

lemma terminated_waiter_loses_wakeup:
  defines "s \<equiv> set_task_state 0 Terminated released_pair"
  shows "\<not> locked (mtx s 4)" "waits_on s 1 = Some 4" "blocked s 1" "\<forall>u < task_count s. sched_state (sched s u) \<noteq> Ready"
  unfolding s_def by (simp_all add: ipc_simps mutex_simps released_pair_fields two_tasks_mutex less_2_cases_iff)

text \<open>
  C36: unlocking forgets priorities inherited through IPC. When the running server releases the only
  mutex it holds, its priority is recalculated from its base priority and its mutexes alone, so
  it ends below a client that still waits for its reply and has a priority above that base priority.
\<close>
theorem unlock_drops_ipc_priority:
  assumes inv: "mutex_inv s" and t: "running s t" "waits_on s t = None"
    and own: "owner (mtx s m) = Some t" "recursive_count (mtx s m) = 1"
    and held: "held_mutexes (sched s t) = Some m" "next_held (mtx s m) = None"
    and c: "c < task_count s" "ipc_state (ipcx s c) = ReplyBlocked" "receiver_id (ipcx s c) = t"
      "base_priority (sched s t) < tprio s c" "c \<noteq> t"
  shows "returns (unlock m s) (\<lambda>(r, s'). ipc_state (ipcx s' c) = ReplyBlocked \<and> receiver_id (ipcx s' c) = t
     \<and> tprio s' t < tprio s' c)"
proof -
  let ?s0 = "upd_mutex m (\<lambda>r. r\<lparr>recursive_count := recursive_count r - 1\<rparr>) s"
  have inv0: "mutex_inv ?s0" using inv by (simp add: recursion_inv)
  then have wf: "mutex_wf ?s0" by (simp add: mutex_inv_but_def)
  then obtain H where H: "held_rep H ?s0" by (auto simp: mutex_wf_def)
  have tt: "t < task_count ?s0" using t(1) by (simp add: running_def mutex_simps)
  have Ht: "H t = [m]"
  proof -
    have "lseg (nh ?s0) (Some m) (H t) None" using H tt held(1) by (auto simp: held_rep_def mutex_simps)
    moreover have "lseg (nh ?s0) (Some m) [m] None" using held(2) by (simp add: nh_def mutex_simps)
    ultimately show ?thesis by (rule lseg_end_unique)
  qed
  obtain s1 s2 where s2: "unlink_held m (HeldHead t) ?s0 = Some s1"
      "s2 = upd_mutex m (\<lambda>r. id (r\<lparr>next_held := None, owner := None, locked := False\<rparr>)) s1"
      "held_rep (H(t := remove1 m (H t))) s2" "freed m ?s0 s2"
    using release_held [OF H tt, of m id] own by (auto simp: resets_def mutex_simps)
  note g = freedD [OF s2(4)]
  have i2: "mutex_inv_but {m} s2" by (rule freed_inv [OF inv0 s2(3,4)])
  then have ok2: "ready_ok s2" by (simp add: mutex_inv_but_def mutex_wf_def)
  have "lseg (nh s2) (held_mutexes (sched s2 t)) ((H(t := remove1 m (H t))) t) None"
    using s2(3) tt unfolding held_rep_def g(1) by blast
  then have "held_mutexes (sched s2 t) = None" by (simp add: Ht)
  then have hp: "held_priority s2 (held_mutexes (sched s2 t)) (base_priority (sched s2 t)) = Some (base_priority (sched s t))"
    by (simp add: held_priority.simps g(7) mutex_simps)
  let ?s3 = "set_task_priority t (base_priority (sched s t)) s2"
  have id: "task_id (sched s2 t) = t" using ok_facts(2) [OF ok2] tt g(1) by simp
  have lt16: "t < MAX_TASKS" using ok_facts(1) [OF ok2] tt g(1) by simp
  have "recalculate_chain (Suc n) (Some t) s2 = Some ?s3" for n
  proof -
    have "?s3 = s2" if "base_priority (sched s t) = tprio s2 t" using that by (simp add: set_task_priority_def)
    then show ?thesis using hp id t(2) by (simp add: Let_def mutex_simps g(3))
  qed
  then have rc: "recalculate_priority_chain t s2 = Some ?s3"
    unfolding recalculate_priority_chain_def by (metis MAX_TASKS_def numeral_eq_Suc)
  have gu: "give_up m (Some t) id ?s0 = Some (wake_highest_waiter m ?s3)"
    using s2(1) rc by (simp add: give_up_def s2(2) Let_def)
  have lk: "locked (mtx s m)" using inv own(1) by (auto simp: mutex_inv_but_def dest: mutex_wfD(2) [where m = m])
  have ul: "unlock m s = Some (True, wake_highest_waiter m ?s3)"
    using lk own t(1) gu by (simp add: unlock_def running_def Let_def mutex_simps)
  have "ipcx (wake_highest_waiter m x) j = ipcx x j" "tprio (wake_highest_waiter m x) j = tprio x j" for x j
    by (simp_all add: wake_highest_waiter_def mutex_simps ipc_simps split: prod.split option.split)
  then show ?thesis using c tt lt16 unfolding ul
    by (simp add: returns_def ipc_simps mutex_simps g(1,6,8))
qed

text \<open>
  The idle server of two tasks holds one mutex and runs at the priority of a client that waits for its
  reply.
\<close>

definition lending_server :: kernel where
  "lending_server = upd_ipc 1 (\<lambda>r. r\<lparr>ipc_state := ReplyBlocked, receiver_id := 0\<rparr>)
     (set_task_priority 0 (tprio two_tasks 1) (take_mutex 4 (Some 0) two_tasks))"

lemma lending_server_inv: "mutex_inv lending_server"
proof -
  let ?s = "set_task_priority 0 (tprio two_tasks 1) (take_mutex 4 (Some 0) two_tasks)"
  have m: "mutex_inv (take_mutex 4 (Some 0) two_tasks)"
    by (rule take_mutex_inv(1) [OF mutex_inv_mono [OF two_tasks_mutex_inv]]) (simp_all add: two_tasks_facts two_tasks_mutex)
  then have "ready_ok (take_mutex 4 (Some 0) two_tasks)" by (simp add: mutex_inv_but_def mutex_wf_def)
  then have "ready_ok ?s" by (intro rq.inv_prio) (simp_all add: two_tasks_facts two_tasks_more)
  then have "mutex_inv ?s" by (rule mutex_inv_same [OF mutex_same_priority _ m])
  then show ?thesis unfolding lending_server_def
    by (subst mutex_inv_cong [where s = ?s]) (simp_all add: kernel_simps view_simps)
qed

theorem unlock_drops_ipc_priority_witness:
  "tprio lending_server 0 = tprio lending_server 1
   \<and> returns (unlock 4 lending_server) (\<lambda>(r, s'). ipc_state (ipcx s' 1) = ReplyBlocked \<and> receiver_id (ipcx s' 1) = 0
     \<and> tprio s' 0 < tprio s' 1)"
  by (rule conjI, simp add: lending_server_def take_mutex_def Let_def kernel_simps mutex_simps ipc_simps two_tasks_facts two_tasks_mutex two_tasks_more,
      rule unlock_drops_ipc_priority [OF lending_server_inv])
    (simp_all add: lending_server_def take_mutex_def Let_def running_def kernel_simps mutex_simps ipc_simps
      two_tasks_facts two_tasks_mutex two_tasks_more)

end
