(* ===== verification/Stealth.thy ===== *)
theory Stealth
  imports Prelude
begin

text \<open>
  The network identities of \<open>net/stealth_identity.hpp\<close>: the table of presets, the hardware
  address derived from a vendor prefix and two cycle-counter readings, the DHCP fingerprints, the
  decoy banners and the filter for inbound probes.
\<close>

unbundle bit_operations_syntax

datatype preset =
    NONE | APPLE_IPAD | APPLE_IPHONE | APPLE_MACBOOK | HP_LASERJET | HP_OFFICEJET | SAMSUNG_GALAXY
  | HIKVISION_CAM | XIAOMI_IOT | CISCO_SWITCH | TESLA_VEHICLE | SILENT_GHOST

record mac_oui =
  oui_prefix :: "u8 list"
  vendor :: string

record preset_config =
  oui :: mac_oui
  hostname :: "string option"
  dhcp_fingerprint :: u8
  default_ttl :: u8
  tcp_window_size :: u16
  tcp_mss :: u16
  drop_icmp_echo :: bool
  drop_discovery :: bool
  suppress_garp :: bool

definition kOuiApple :: mac_oui where
  "kOuiApple = \<lparr>oui_prefix = [0x10, 0xDD, 0xB1], vendor = ''Apple Inc.''\<rparr>"
definition kOuiApplePhone :: mac_oui where
  "kOuiApplePhone = \<lparr>oui_prefix = [0xF0, 0x18, 0x98], vendor = ''Apple Inc.''\<rparr>"
definition kOuiAppleMac :: mac_oui where
  "kOuiAppleMac = \<lparr>oui_prefix = [0x3C, 0x22, 0xFB], vendor = ''Apple Inc.''\<rparr>"
definition kOuiHpLaser :: mac_oui where
  "kOuiHpLaser = \<lparr>oui_prefix = [0x00, 0x26, 0x55], vendor = ''Hewlett Packard''\<rparr>"
definition kOuiHpOffice :: mac_oui where
  "kOuiHpOffice = \<lparr>oui_prefix = [0x00, 0x1E, 0x0B], vendor = ''Hewlett Packard''\<rparr>"
definition kOuiSamsung :: mac_oui where
  "kOuiSamsung = \<lparr>oui_prefix = [0x8C, 0xF5, 0xA3], vendor = ''Samsung Electronics''\<rparr>"
definition kOuiHikvision :: mac_oui where
  "kOuiHikvision = \<lparr>oui_prefix = [0x00, 0x18, 0xAE], vendor = ''Hikvision Digital Technology''\<rparr>"
definition kOuiXiaomi :: mac_oui where
  "kOuiXiaomi = \<lparr>oui_prefix = [0x78, 0x11, 0xDC], vendor = ''Xiaomi Communications''\<rparr>"
definition kOuiCisco :: mac_oui where
  "kOuiCisco = \<lparr>oui_prefix = [0x00, 0x00, 0x0C], vendor = ''Cisco Systems''\<rparr>"
definition kOuiTesla :: mac_oui where
  "kOuiTesla = \<lparr>oui_prefix = [0x98, 0xED, 0x5C], vendor = ''Tesla Motors''\<rparr>"
definition kOuiGhost :: mac_oui where
  "kOuiGhost = \<lparr>oui_prefix = [0x02, 0xFA, 0xCE], vendor = ''Locally Administered Ghost''\<rparr>"

fun get_preset :: "preset \<Rightarrow> preset_config" where
  "get_preset APPLE_IPAD = \<lparr>oui = kOuiApple, hostname = Some ''iPad-of-Staff'', dhcp_fingerprint = 1,
     default_ttl = 64, tcp_window_size = 65535, tcp_mss = 1460, drop_icmp_echo = False, drop_discovery = False,
     suppress_garp = False\<rparr>"
| "get_preset APPLE_IPHONE = \<lparr>oui = kOuiApplePhone, hostname = Some ''iPhone-15'', dhcp_fingerprint = 1,
     default_ttl = 64, tcp_window_size = 65535, tcp_mss = 1460, drop_icmp_echo = False, drop_discovery = False,
     suppress_garp = False\<rparr>"
| "get_preset APPLE_MACBOOK = \<lparr>oui = kOuiAppleMac, hostname = Some ''MacBook-Pro'', dhcp_fingerprint = 1,
     default_ttl = 64, tcp_window_size = 65535, tcp_mss = 1460, drop_icmp_echo = False, drop_discovery = False,
     suppress_garp = False\<rparr>"
| "get_preset HP_LASERJET = \<lparr>oui = kOuiHpLaser, hostname = Some ''HP-LaserJet-M402dn'', dhcp_fingerprint = 3,
     default_ttl = 255, tcp_window_size = 8192, tcp_mss = 1460, drop_icmp_echo = False, drop_discovery = False,
     suppress_garp = False\<rparr>"
| "get_preset HP_OFFICEJET = \<lparr>oui = kOuiHpOffice, hostname = Some ''HP-OfficeJet-Pro9010'', dhcp_fingerprint = 3,
     default_ttl = 255, tcp_window_size = 8192, tcp_mss = 1460, drop_icmp_echo = False, drop_discovery = False,
     suppress_garp = False\<rparr>"
| "get_preset SAMSUNG_GALAXY = \<lparr>oui = kOuiSamsung, hostname = Some ''Galaxy-S24'', dhcp_fingerprint = 4,
     default_ttl = 64, tcp_window_size = 65535, tcp_mss = 1460, drop_icmp_echo = False, drop_discovery = False,
     suppress_garp = False\<rparr>"
| "get_preset HIKVISION_CAM = \<lparr>oui = kOuiHikvision, hostname = Some ''HIKVISION-DS-2CD2042WD'', dhcp_fingerprint = 4,
     default_ttl = 64, tcp_window_size = 29200, tcp_mss = 1460, drop_icmp_echo = False, drop_discovery = False,
     suppress_garp = False\<rparr>"
| "get_preset XIAOMI_IOT = \<lparr>oui = kOuiXiaomi, hostname = Some ''xiaomi-smartplug-v3'', dhcp_fingerprint = 4,
     default_ttl = 64, tcp_window_size = 14600, tcp_mss = 1460, drop_icmp_echo = False, drop_discovery = False,
     suppress_garp = False\<rparr>"
| "get_preset CISCO_SWITCH = \<lparr>oui = kOuiCisco, hostname = Some ''cisco-catalyst-2960'', dhcp_fingerprint = 5,
     default_ttl = 255, tcp_window_size = 4128, tcp_mss = 1460, drop_icmp_echo = False, drop_discovery = False,
     suppress_garp = False\<rparr>"
| "get_preset TESLA_VEHICLE = \<lparr>oui = kOuiTesla, hostname = Some ''Tesla-Model3'', dhcp_fingerprint = 4,
     default_ttl = 64, tcp_window_size = 65535, tcp_mss = 1460, drop_icmp_echo = False, drop_discovery = False,
     suppress_garp = False\<rparr>"
| "get_preset SILENT_GHOST = \<lparr>oui = kOuiGhost, hostname = None, dhcp_fingerprint = 0,
     default_ttl = 64, tcp_window_size = 65535, tcp_mss = 1460, drop_icmp_echo = True, drop_discovery = True,
     suppress_garp = True\<rparr>"
| "get_preset NONE = \<lparr>oui = kOuiApple, hostname = None, dhcp_fingerprint = 0,
     default_ttl = 64, tcp_window_size = 65535, tcp_mss = 1460, drop_icmp_echo = False, drop_discovery = False,
     suppress_garp = False\<rparr>"

text \<open>The six bytes of the address for two readings of the cycle counter.\<close>

definition apply_mac_oui :: "mac_oui \<Rightarrow> u32 \<Rightarrow> u32 \<Rightarrow> u8 list" where
  "apply_mac_oui oi cycle0 cycle1 =
     (let entropy = cycle0 XOR push_bit 7 cycle1 XOR drop_bit 13 cycle0 XOR drop_bit 21 cycle1
      in [oui_prefix oi ! 0, oui_prefix oi ! 1, oui_prefix oi ! 2,
          ucast (entropy AND 0xFF) AND 0xFC, ucast (drop_bit 8 entropy AND 0xFF), ucast (drop_bit 16 entropy AND 0xFF)])"

record stealth_identity =
  active_preset :: preset
  active_config :: preset_config

definition stealth_default :: stealth_identity where
  "stealth_default = \<lparr>active_preset = NONE, active_config = get_preset NONE\<rparr>"

definition set_active_preset :: "preset \<Rightarrow> stealth_identity \<Rightarrow> stealth_identity" where
  "set_active_preset p si = si\<lparr>active_preset := p, active_config := get_preset p\<rparr>"

definition rotate_ephemeral_mac :: "u32 \<Rightarrow> u32 \<Rightarrow> stealth_identity \<Rightarrow> u8 list" where
  "rotate_ephemeral_mac cycle0 cycle1 si = apply_mac_oui (oui (active_config si)) cycle0 cycle1"

definition should_drop_inbound_probe :: "u8 \<Rightarrow> u16 \<Rightarrow> u8 \<Rightarrow> stealth_identity \<Rightarrow> bool" where
  "should_drop_inbound_probe ip_proto dport icmp_type si =
     (if ip_proto = 1 \<and> icmp_type = 8 \<and> drop_icmp_echo (active_config si) then True
      else if drop_discovery (active_config si) \<and> ip_proto = 17
              \<and> (dport = 5353 \<or> dport = 1900 \<or> dport = 5355 \<or> dport = 137) then True
      else False)"

definition kFingerprint_iOS :: "u8 list" where "kFingerprint_iOS = [1, 3, 6, 15, 42, 33, 121, 44, 46, 252]"
definition kFingerprint_Win10 :: "u8 list" where "kFingerprint_Win10 = [1, 3, 6, 15, 44, 46, 47, 31, 33, 121, 249, 43]"
definition kFingerprint_HPPrinter :: "u8 list" where "kFingerprint_HPPrinter = [1, 3, 6, 15, 44, 46]"
definition kFingerprint_LinuxIoT :: "u8 list" where "kFingerprint_LinuxIoT = [1, 3, 6, 15, 28, 33, 121, 42]"
definition kFingerprint_CiscoIOS :: "u8 list" where "kFingerprint_CiscoIOS = [1, 3, 6, 15, 67, 43]"

definition get_fingerprint_by_id :: "u8 \<Rightarrow> u8 list option" where
  "get_fingerprint_by_id fp =
     (if fp = 1 then Some kFingerprint_iOS
      else if fp = 2 then Some kFingerprint_Win10
      else if fp = 3 then Some kFingerprint_HPPrinter
      else if fp = 4 then Some kFingerprint_LinuxIoT
      else if fp = 5 then Some kFingerprint_CiscoIOS
      else None)"

definition crlf :: string where "crlf = [CHR 0x0D, CHR 0x0A]"

definition get_decoy_service_banner :: "u16 \<Rightarrow> stealth_identity \<Rightarrow> string option" where
  "get_decoy_service_banner port si =
     (case active_preset si of
        HP_LASERJET \<Rightarrow>
          if port = 9100 then Some (''HP JetDirect Ready'' @ crlf)
          else if port = 80 then Some (''HTTP/1.1 200 OK'' @ crlf @ ''Server: HP-HTTP-Server/1.0'' @ crlf)
          else None
      | HP_OFFICEJET \<Rightarrow>
          if port = 9100 then Some (''HP JetDirect Ready'' @ crlf)
          else if port = 80 then Some (''HTTP/1.1 200 OK'' @ crlf @ ''Server: HP-HTTP-Server/1.0'' @ crlf)
          else None
      | HIKVISION_CAM \<Rightarrow>
          if port = 80 \<or> port = 8000
          then Some (''HTTP/1.1 401 Unauthorized'' @ crlf @ ''Server: Hikvision-Webs'' @ crlf)
          else if port = 554 then Some (''RTSP/1.0 200 OK'' @ crlf @ ''Server: HIKVISION-RTSP/1.0'' @ crlf)
          else None
      | CISCO_SWITCH \<Rightarrow>
          if port = 23 then Some (crlf @ ''User Access Verification'' @ crlf @ crlf @ ''Password: '')
          else if port = 80 then Some (''HTTP/1.1 200 OK'' @ crlf @ ''Server: cisco-IOS'' @ crlf)
          else None
      | _ \<Rightarrow> None)"

section \<open>Properties\<close>

text \<open>The configuration always is the one of the active preset.\<close>

definition stealth_ok :: "stealth_identity \<Rightarrow> bool" where
  "stealth_ok si \<longleftrightarrow> active_config si = get_preset (active_preset si)"

lemma stealth_ok_default: "stealth_ok stealth_default"
  by (simp add: stealth_ok_def stealth_default_def)

lemma stealth_ok_set: "stealth_ok (set_active_preset p si)"
  by (simp add: stealth_ok_def set_active_preset_def)

text \<open>Only the ghost identity suppresses probes, and it suppresses all of them.\<close>

lemma probe_dropped_iff:
  assumes "stealth_ok si"
  shows "should_drop_inbound_probe proto dport typ si \<longleftrightarrow> active_preset si = SILENT_GHOST
     \<and> (proto = 1 \<and> typ = 8 \<or> proto = 17 \<and> dport \<in> {5353, 1900, 5355, 137})"
proof -
  have "drop_icmp_echo (get_preset q) \<longleftrightarrow> q = SILENT_GHOST" "drop_discovery (get_preset q) \<longleftrightarrow> q = SILENT_GHOST" for q
    by (cases q; simp)+
  then show ?thesis using assms by (auto simp: should_drop_inbound_probe_def stealth_ok_def)
qed

text \<open>Every address is that of a single station: the group bit of its first byte is clear.\<close>

lemma mac_unicast:
  "\<not> bit (apply_mac_oui (oui (get_preset p)) cycle0 cycle1 ! 0) 0" "length (apply_mac_oui oi cycle0 cycle1) = 6"
proof -
  have "\<not> bit (oui_prefix (oui (get_preset p)) ! 0) 0"
    by (cases p; simp add: kOuiApple_def kOuiApplePhone_def kOuiAppleMac_def kOuiHpLaser_def kOuiHpOffice_def
        kOuiSamsung_def kOuiHikvision_def kOuiXiaomi_def kOuiCisco_def kOuiTesla_def kOuiGhost_def)
  then show "\<not> bit (apply_mac_oui (oui (get_preset p)) cycle0 cycle1 ! 0) 0" by (simp add: apply_mac_oui_def Let_def)
  show "length (apply_mac_oui oi cycle0 cycle1) = 6" by (simp add: apply_mac_oui_def Let_def)
qed

text \<open>Every identity but the native and the silent one has a fingerprint of its own family.\<close>

lemma preset_fingerprint:
  "get_fingerprint_by_id (dhcp_fingerprint (get_preset p)) = None \<longleftrightarrow> p = NONE \<or> p = SILENT_GHOST"
  by (cases p; simp add: get_fingerprint_by_id_def)

end
