(* ===== verification/Firewall.thy ===== *)
theory Firewall
  imports Stealth
begin

text \<open>
  The packet filter of \<open>net/firewall\<close>: the rule table, the TCP connection tracker, the traffic
  shaper and the engine that applies them in order, with the probe filter of
  \<open>net/stealth_identity.hpp\<close>. A packet is its byte memory together with the length the driver
  reports; the tick counter is an argument of the operations that read it.
\<close>

unbundle bit_operations_syntax

type_synonym packet = "nat \<Rightarrow> u8"

definition be16 :: "packet \<Rightarrow> nat \<Rightarrow> u16" where
  "be16 p o1 = push_bit 8 (ucast (p o1)) OR ucast (p (o1 + 1))"

definition be32 :: "packet \<Rightarrow> nat \<Rightarrow> u32" where
  "be32 p o1 = push_bit 24 (ucast (p o1)) OR push_bit 16 (ucast (p (o1 + 1)))
     OR push_bit 8 (ucast (p (o1 + 2))) OR ucast (p (o1 + 3))"

text \<open>The length of the IP header, four times the low nibble of its first byte.\<close>

definition ihl :: "packet \<Rightarrow> nat" where
  "ihl p = unat (p 14 AND 0x0F)"

section \<open>The rule table\<close>

datatype fw_action = ACCEPT | DROP | REJECT

record fw_rule =
  enabled :: bool
  match_src_ip :: bool
  r_src_ip :: u32
  match_dst_ip :: bool
  r_dst_ip :: u32
  match_src_port :: bool
  r_src_port :: u16
  match_dst_port :: bool
  r_dst_port :: u16
  match_protocol :: bool
  r_protocol :: u8
  match_tcp_flags :: bool
  tcp_flags_mask :: u8
  tcp_flags_value :: u8
  match_interface :: bool
  r_interface :: string
  r_action :: fw_action

definition new_rule :: fw_rule where
  "new_rule = \<lparr>enabled = False, match_src_ip = False, r_src_ip = 0, match_dst_ip = False, r_dst_ip = 0,
     match_src_port = False, r_src_port = 0, match_dst_port = False, r_dst_port = 0, match_protocol = False,
     r_protocol = 0, match_tcp_flags = False, tcp_flags_mask = 0, tcp_flags_value = 0,
     match_interface = False, r_interface = [], r_action = ACCEPT\<rparr>"

definition MAX_RULES :: nat where [simp]: "MAX_RULES = 16"

definition enable_copy :: "fw_rule \<Rightarrow> fw_rule \<Rightarrow> fw_rule" where
  "enable_copy rule old = rule\<lparr>enabled := True\<rparr>"

definition add_rule :: "fw_rule \<Rightarrow> fw_rule list \<Rightarrow> bool \<times> fw_rule list" where
  "add_rule rule rs =
     (case claim_slot enabled enable_copy rule rs of
        Some (i, rs') \<Rightarrow> (True, rs')
      | None \<Rightarrow> (False, rs))"

definition enable_rule :: "int \<Rightarrow> bool \<Rightarrow> fw_rule list \<Rightarrow> bool \<times> fw_rule list" where
  "enable_rule index b rs =
     (if index \<ge> 0 \<and> index < int MAX_RULES
      then (True, rs[nat index := (rs ! nat index)\<lparr>enabled := b\<rparr>])
      else (False, rs))"

definition delete_rule :: "int \<Rightarrow> fw_rule list \<Rightarrow> bool \<times> fw_rule list" where
  "delete_rule index rs =
     (if index \<ge> 0 \<and> index < int MAX_RULES
      then (True, rs[nat index := (rs ! nat index)\<lparr>enabled := False\<rparr>])
      else (False, rs))"

text \<open>
  What the matcher reads of a packet. Nothing is returned for the packets it accepts without
  looking at the rules.
\<close>

record header =
  h_src_ip :: u32
  h_dst_ip :: u32
  h_protocol :: u8
  h_src_port :: u16
  h_dst_port :: u16
  h_tcp_flags :: u8

definition rule_header :: "packet \<Rightarrow> int \<Rightarrow> header option" where
  "rule_header p len =
     (if len < 14 then None
      else if be16 p 12 \<noteq> 0x0800 then None
      else if len < 34 then None
      else if ihl p < 5 then None
      else let n = ihl p * 4
           in if len < 14 + int n then None
              else let protocol = p 23;
                       ports = (protocol = 6 \<or> protocol = 17) \<and> len \<ge> 14 + int n + 4
                   in Some \<lparr>h_src_ip = be32 p 26, h_dst_ip = be32 p 30, h_protocol = protocol,
                        h_src_port = (if ports then be16 p (14 + n) else 0),
                        h_dst_port = (if ports then be16 p (14 + n + 2) else 0),
                        h_tcp_flags = (if protocol = 6 \<and> len \<ge> 14 + int n + 14 then p (14 + n + 13) else 0)\<rparr>)"

text \<open>Both interface names are C strings; at most eight characters are compared.\<close>

definition rule_applies :: "header \<Rightarrow> string \<Rightarrow> fw_rule \<Rightarrow> bool" where
  "rule_applies h ifc r \<longleftrightarrow>
     enabled r
     \<and> \<not> (match_interface r \<and> take 8 (r_interface r) \<noteq> take 8 ifc)
     \<and> \<not> (match_src_ip r \<and> r_src_ip r \<noteq> h_src_ip h)
     \<and> \<not> (match_dst_ip r \<and> r_dst_ip r \<noteq> h_dst_ip h)
     \<and> \<not> (match_protocol r \<and> r_protocol r \<noteq> h_protocol h)
     \<and> \<not> (match_src_port r \<and> r_src_port r \<noteq> h_src_port h)
     \<and> \<not> (match_dst_port r \<and> r_dst_port r \<noteq> h_dst_port h)
     \<and> \<not> (match_tcp_flags r \<and> h_protocol h = 6 \<and> h_tcp_flags h AND tcp_flags_mask r \<noteq> tcp_flags_value r)"

fun first_action :: "header \<Rightarrow> string \<Rightarrow> fw_rule list \<Rightarrow> fw_action" where
  "first_action h ifc [] = ACCEPT"
| "first_action h ifc (r # rs) = (if rule_applies h ifc r then r_action r else first_action h ifc rs)"

definition match_rules :: "packet \<Rightarrow> int \<Rightarrow> string \<Rightarrow> fw_rule list \<Rightarrow> fw_action" where
  "match_rules p len ifc rs =
     (case rule_header p len of None \<Rightarrow> ACCEPT | Some h \<Rightarrow> first_action h ifc rs)"

section \<open>The connection tracker\<close>

datatype tcp_state = CLOSED | SYN_SENT | SYN_RECEIVED | ESTABLISHED | FIN_WAIT

record tcp_connection =
  c_active :: bool
  c_src_ip :: u32
  c_dst_ip :: u32
  c_src_port :: u16
  c_dst_port :: u16
  c_state :: tcp_state
  c_last :: u32

definition MAX_CONNECTIONS :: nat where [simp]: "MAX_CONNECTIONS = 16"
definition TIMEOUT_TICKS :: u32 where "TIMEOUT_TICKS = 30000"

text \<open>What the tracker reads of a packet; \<open>Inl\<close> is the verdict on a packet it does not inspect.\<close>

record segment =
  s_src_ip :: u32
  s_dst_ip :: u32
  s_src_port :: u16
  s_dst_port :: u16
  s_flags :: u8

definition tcp_segment :: "packet \<Rightarrow> int \<Rightarrow> bool + segment" where
  "tcp_segment p len =
     (if len < 34 then Inl True
      else if be16 p 12 \<noteq> 0x0800 then Inl True
      else if p 23 \<noteq> 6 then Inl True
      else if ihl p < 5 then Inl False
      else let n = ihl p * 4
           in if len < 14 + int n + 14 then Inl True
              else Inr \<lparr>s_src_ip = be32 p 26, s_dst_ip = be32 p 30, s_src_port = be16 p (14 + n),
                     s_dst_port = be16 p (14 + n + 2), s_flags = p (14 + n + 13)\<rparr>)"

definition is_syn :: "segment \<Rightarrow> bool" where "is_syn g \<longleftrightarrow> s_flags g AND 0x02 \<noteq> 0"
definition is_ack :: "segment \<Rightarrow> bool" where "is_ack g \<longleftrightarrow> s_flags g AND 0x10 \<noteq> 0"
definition is_fin :: "segment \<Rightarrow> bool" where "is_fin g \<longleftrightarrow> s_flags g AND 0x01 \<noteq> 0"
definition is_rst :: "segment \<Rightarrow> bool" where "is_rst g \<longleftrightarrow> s_flags g AND 0x04 \<noteq> 0"

definition belongs :: "segment \<Rightarrow> tcp_connection \<Rightarrow> bool" where
  "belongs g c \<longleftrightarrow> c_active c \<and>
     ((c_src_ip c = s_src_ip g \<and> c_dst_ip c = s_dst_ip g \<and> c_src_port c = s_src_port g \<and> c_dst_port c = s_dst_port g)
      \<or> (c_src_ip c = s_dst_ip g \<and> c_dst_ip c = s_src_ip g \<and> c_src_port c = s_dst_port g \<and> c_dst_port c = s_src_port g))"

definition advance :: "segment \<Rightarrow> u32 \<Rightarrow> tcp_connection \<Rightarrow> tcp_connection" where
  "advance g now c =
     (let c1 = c\<lparr>c_last := now\<rparr>
      in if is_rst g then c1\<lparr>c_state := CLOSED, c_active := False\<rparr>
         else if is_fin g then c1\<lparr>c_state := FIN_WAIT\<rparr>
         else if c_state c1 = SYN_SENT \<and> is_syn g \<and> is_ack g then c1\<lparr>c_state := SYN_RECEIVED\<rparr>
         else if c_state c1 = SYN_RECEIVED \<and> is_ack g then c1\<lparr>c_state := ESTABLISHED\<rparr>
         else c1)"

definition open_connection :: "segment \<times> u32 \<Rightarrow> tcp_connection \<Rightarrow> tcp_connection" where
  "open_connection req old =
     (case req of (g, now) \<Rightarrow>
        \<lparr>c_active = True, c_src_ip = s_src_ip g, c_dst_ip = s_dst_ip g, c_src_port = s_src_port g,
         c_dst_port = s_dst_port g, c_state = SYN_SENT, c_last = now\<rparr>)"

definition track_segment :: "segment \<Rightarrow> u32 \<Rightarrow> tcp_connection list \<Rightarrow> bool \<times> tcp_connection list" where
  "track_segment g now cs =
     (case first_slot (belongs g) cs of
        Some i \<Rightarrow> (True, cs[i := advance g now (cs ! i)])
      | None \<Rightarrow>
          if is_syn g \<and> \<not> is_ack g
          then (case claim_slot c_active open_connection (g, now) cs of
                  Some (i, cs') \<Rightarrow> (True, cs')
                | None \<Rightarrow> (False, cs))
          else (False, cs))"

definition process_tcp_packet :: "packet \<Rightarrow> int \<Rightarrow> u32 \<Rightarrow> tcp_connection list \<Rightarrow> bool \<times> tcp_connection list" where
  "process_tcp_packet p len now cs =
     (case tcp_segment p len of Inl verdict \<Rightarrow> (verdict, cs) | Inr g \<Rightarrow> track_segment g now cs)"

definition inspector_tick :: "u32 \<Rightarrow> tcp_connection list \<Rightarrow> tcp_connection list" where
  "inspector_tick now =
     map (\<lambda>c. if c_active c \<and> now - c_last c > TIMEOUT_TICKS then c\<lparr>c_active := False\<rparr> else c)"

section \<open>The traffic shaper\<close>

record host_stats =
  t_active :: bool
  t_src_ip :: u32
  syn_count :: u32
  icmp_count :: u32
  port_scan_count :: u32
  last_dst_port :: u16
  t_last :: u32

definition MAX_HOSTS :: nat where [simp]: "MAX_HOSTS = 8"
definition SYN_LIMIT :: u32 where "SYN_LIMIT = 50"
definition ICMP_LIMIT :: u32 where "ICMP_LIMIT = 20"
definition PORT_SCAN_LIMIT :: u32 where "PORT_SCAN_LIMIT = 10"
definition RESET_INTERVAL :: u32 where "RESET_INTERVAL = 1000"

definition fresh_stats :: "u32 \<times> u32 \<Rightarrow> host_stats \<Rightarrow> host_stats" where
  "fresh_stats req old = \<lparr>t_active = True, t_src_ip = fst req, syn_count = 0, icmp_count = 0,
     port_scan_count = 0, last_dst_port = 0, t_last = snd req\<rparr>"

definition get_or_create_stats :: "u32 \<Rightarrow> u32 \<Rightarrow> host_stats list \<Rightarrow> (nat \<times> host_stats list) option" where
  "get_or_create_stats ip now hs =
     (case first_slot (\<lambda>h. t_active h \<and> t_src_ip h = ip) hs of
        Some i \<Rightarrow> Some (i, hs[i := (hs ! i)\<lparr>t_last := now\<rparr>])
      | None \<Rightarrow> claim_slot t_active fresh_stats (ip, now) hs)"

text \<open>Counting one packet of a host: the verdict, the new counters, and the anomaly reported.\<close>

definition count_syn :: "u16 \<Rightarrow> host_stats \<Rightarrow> bool \<times> host_stats \<times> string option" where
  "count_syn dport st =
     (let st1 = st\<lparr>syn_count := syn_count st + 1\<rparr>
      in if syn_count st1 > SYN_LIMIT then (False, st1, Some ''SYN Flood'')
         else if last_dst_port st1 \<noteq> dport
         then (let st2 = st1\<lparr>port_scan_count := port_scan_count st1 + 1, last_dst_port := dport\<rparr>
               in if port_scan_count st2 > PORT_SCAN_LIMIT then (False, st2, Some ''Port Scan'') else (True, st2, None))
         else (True, st1, None))"

definition count_packet :: "packet \<Rightarrow> int \<Rightarrow> host_stats \<Rightarrow> bool \<times> host_stats \<times> string option" where
  "count_packet p len st =
     (if p 23 = 1
      then (let st1 = st\<lparr>icmp_count := icmp_count st + 1\<rparr>
            in if icmp_count st1 > ICMP_LIMIT then (False, st1, Some ''ICMP Flood'') else (True, st1, None))
      else if p 23 = 6
      then (if ihl p < 5 then (True, st, None)
            else let n = ihl p * 4
                 in if len \<ge> 14 + int n + 14 \<and> p (14 + n + 13) AND 0x02 \<noteq> 0
                    then count_syn (be16 p (14 + n + 2)) st
                    else (True, st, None))
      else (True, st, None))"

definition shape_packet :: "packet \<Rightarrow> int \<Rightarrow> u32 \<Rightarrow> host_stats list \<Rightarrow> bool \<times> host_stats list \<times> string option" where
  "shape_packet p len now hs =
     (if len < 34 then (True, hs, None)
      else if be16 p 12 \<noteq> 0x0800 then (True, hs, None)
      else case get_or_create_stats (be32 p 26) now hs of
             None \<Rightarrow> (True, hs, None)
           | Some (i, hs1) \<Rightarrow>
               (case count_packet p len (hs1 ! i) of (verdict, st, anomaly) \<Rightarrow> (verdict, hs1[i := st], anomaly)))"

definition shaper_tick :: "u32 \<Rightarrow> host_stats list \<Rightarrow> host_stats list" where
  "shaper_tick now =
     map (\<lambda>h. if t_active h \<and> now - t_last h > RESET_INTERVAL then h\<lparr>t_active := False\<rparr> else h)"

section \<open>The engine\<close>

record firewall =
  fw_enabled :: bool
  rules :: "fw_rule list"
  connections :: "tcp_connection list"
  hosts :: "host_stats list"
  identity :: stealth_identity
  anomaly_count :: u32
  uart :: "string list"
  audit_log :: "string list"

definition report_firewall_anomaly :: "string \<Rightarrow> firewall \<Rightarrow> firewall" where
  "report_firewall_anomaly reason fw = fw\<lparr>anomaly_count := anomaly_count fw + 1,
     uart := uart fw @ [''[SECMON] firewall anomaly: '', reason, crlf]\<rparr>"

definition log_drop :: "string \<Rightarrow> firewall \<Rightarrow> firewall" where
  "log_drop reason fw = fw\<lparr>audit_log := audit_log fw @ [''[Firewall Audit] DROPPED packet (len='', reason, '')'' @ crlf]\<rparr>"

definition probe_drop :: "packet \<Rightarrow> int \<Rightarrow> stealth_identity \<Rightarrow> bool" where
  "probe_drop p len si \<longleftrightarrow>
     len \<ge> 34 \<and> be16 p 12 = 0x0800 \<and> ihl p \<ge> 5 \<and> len \<ge> 14 + int (ihl p * 4)
     \<and> (if p 23 = 1 \<and> len \<ge> 14 + int (ihl p * 4) + 1
        then should_drop_inbound_probe 1 0 (p (14 + ihl p * 4)) si
        else p 23 = 17 \<and> len \<ge> 14 + int (ihl p * 4) + 4
             \<and> should_drop_inbound_probe 17 (be16 p (14 + ihl p * 4 + 2)) 0 si)"

definition process_packet :: "packet \<Rightarrow> int \<Rightarrow> string \<Rightarrow> u32 \<Rightarrow> firewall \<Rightarrow> bool \<times> firewall" where
  "process_packet p len ifc now fw =
     (if \<not> fw_enabled fw then (True, fw)
      else if probe_drop p len (identity fw) then (False, fw)
      else case shape_packet p len now (hosts fw) of
        (pass, hs, anomaly) \<Rightarrow>
          let fw1 = (case anomaly of None \<Rightarrow> fw\<lparr>hosts := hs\<rparr>
                     | Some reason \<Rightarrow> report_firewall_anomaly reason (fw\<lparr>hosts := hs\<rparr>))
          in if \<not> pass then (False, fw1)
             else if match_rules p len ifc (rules fw1) \<noteq> ACCEPT then (False, log_drop ''Rule Drop'' fw1)
             else case process_tcp_packet p len now (connections fw1) of
               (ok, cs) \<Rightarrow>
                 let fw2 = fw1\<lparr>connections := cs\<rparr>
                 in if \<not> ok then (False, log_drop ''Stateful Drop'' fw2) else (True, fw2))"

definition fw_tick :: "u32 \<Rightarrow> firewall \<Rightarrow> firewall" where
  "fw_tick now fw =
     (if \<not> fw_enabled fw then fw
      else fw\<lparr>connections := inspector_tick now (connections fw), hosts := shaper_tick now (hosts fw)\<rparr>)"

definition fw_enable :: "bool \<Rightarrow> firewall \<Rightarrow> firewall" where
  "fw_enable b fw = fw\<lparr>fw_enabled := b\<rparr>"

section \<open>The tables are slot tables\<close>

interpretation rule_slots: slot_table enabled enable_copy
  by unfold_locales (simp add: enable_copy_def)

interpretation conn_slots: slot_table c_active open_connection
  by unfold_locales (simp add: open_connection_def split: prod.split)

interpretation host_slots: slot_table t_active fresh_stats
  by unfold_locales (simp add: fresh_stats_def)

lemma add_rule_spec:
  assumes "length rs = MAX_RULES"
  shows "fst (add_rule r rs) \<longleftrightarrow> (\<exists>x \<in> set rs. \<not> enabled x)" "length (snd (add_rule r rs)) = MAX_RULES"
    "count_slots enabled (snd (add_rule r rs)) = count_slots enabled rs + of_bool (fst (add_rule r rs))"
  using assms rule_slots.claim_full [of r rs] rule_slots.claim_Some(5) [of r rs] rule_slots.claim_counts [of r rs]
  by (auto simp: add_rule_def split: option.splits)

text \<open>A new rule decides the packets it applies to unless a rule in a lower slot does.\<close>

lemma first_action_append:
  "first_action h ifc (rs @ ss) =
     (if \<exists>r \<in> set rs. rule_applies h ifc r then first_action h ifc rs else first_action h ifc ss)"
  by (induction rs) auto

lemma add_rule_decides:
  assumes add: "claim_slot enabled enable_copy r rs = Some (i, rs')" and h: "rule_header p len = Some h"
    and ap: "rule_applies h ifc (r\<lparr>enabled := True\<rparr>)" "\<forall>j < i. \<not> rule_applies h ifc (rs ! j)"
  shows "match_rules p len ifc rs' = r_action r"
proof -
  note c = rule_slots.claim_Some [OF add]
  have "rs' = take i rs @ r\<lparr>enabled := True\<rparr> # drop (Suc i) rs"
    using c(1,3) by (simp add: upd_conv_take_nth_drop enable_copy_def)
  moreover have "\<not> (\<exists>x \<in> set (take i rs). rule_applies h ifc x)" using ap(2) by (auto simp: in_set_conv_nth)
  ultimately show ?thesis using h ap(1) by (simp add: match_rules_def first_action_append)
qed

section \<open>Reads stay within the packet\<close>

definition agree :: "int \<Rightarrow> packet \<Rightarrow> packet \<Rightarrow> bool" where
  "agree len p q \<longleftrightarrow> (\<forall>i. int i < len \<longrightarrow> p i = q i)"

lemma agreeD: "agree len p q \<Longrightarrow> int i < len \<Longrightarrow> p i = q i"
  by (simp add: agree_def)

lemma agree_be:
  assumes "agree len p q"
  shows "int i + 1 < len \<Longrightarrow> be16 p i = be16 q i" "int i + 3 < len \<Longrightarrow> be32 p i = be32 q i"
  using assms by (simp_all add: agree_def be16_def be32_def)

text \<open>The fixed part of an IPv4 packet.\<close>

lemma agree_fixed:
  assumes "agree len p q" "len \<ge> 34"
  shows "be16 p 12 = be16 q 12" "ihl p = ihl q" "p 23 = q 23" "be32 p 26 = be32 q 26" "be32 p 30 = be32 q 30"
  using assms agree_be [OF assms(1)] agreeD [OF assms(1)] by (simp_all add: ihl_def)

lemma rule_header_agree:
  assumes "agree len p q" shows "rule_header p len = rule_header q len"
proof (cases "len < 34")
  case False
  then have "len \<ge> 34" by simp
  note f = agree_fixed [OF assms this]
  have "be16 p (14 + n) = be16 q (14 + n)" "be16 p (16 + n) = be16 q (16 + n)" if "14 + int n + 4 \<le> len" for n
    using that agree_be(1) [OF assms] by simp_all
  moreover have "p (27 + n) = q (27 + n)" if "14 + int n + 14 \<le> len" for n
    using that agreeD [OF assms] by simp
  ultimately show ?thesis unfolding rule_header_def f Let_def by (simp add: add.assoc [symmetric] numeral_eq_Suc)
qed (simp add: rule_header_def)

lemma tcp_segment_agree:
  assumes "agree len p q" shows "tcp_segment p len = tcp_segment q len"
proof (cases "len < 34")
  case False
  then have "len \<ge> 34" by simp
  note f = agree_fixed [OF assms this]
  have "be16 p (14 + n) = be16 q (14 + n)" "be16 p (14 + n + 2) = be16 q (14 + n + 2)"
    "p (14 + n + 13) = q (14 + n + 13)" if "\<not> len < 14 + int n + 14" for n
    using that agree_be(1) [OF assms] agreeD [OF assms] by simp_all
  then show ?thesis unfolding tcp_segment_def f Let_def by simp
qed (simp add: tcp_segment_def)

lemma count_packet_agree:
  assumes "agree len p q" "len \<ge> 34" shows "count_packet p len st = count_packet q len st"
proof -
  have "be16 p (14 + n + 2) = be16 q (14 + n + 2)" "p (14 + n + 13) = q (14 + n + 13)" if "len \<ge> 14 + int n + 14" for n
    using that agree_be(1) [OF assms(1)] agreeD [OF assms(1)] by simp_all
  then show ?thesis unfolding count_packet_def agree_fixed [OF assms] Let_def by auto
qed

lemma shape_packet_agree:
  assumes "agree len p q" shows "shape_packet p len now hs = shape_packet q len now hs"
proof (cases "len < 34")
  case False
  then have "len \<ge> 34" by simp
  then show ?thesis unfolding shape_packet_def agree_fixed [OF assms \<open>len \<ge> 34\<close>]
    count_packet_agree [OF assms \<open>len \<ge> 34\<close>] by simp
qed (simp add: shape_packet_def)

lemma probe_drop_agree:
  assumes "agree len p q" shows "probe_drop p len si = probe_drop q len si"
proof (cases "len < 34")
  case False
  then have "len \<ge> 34" by simp
  note f = agree_fixed [OF assms this]
  have "p (14 + n) = q (14 + n)" if "len \<ge> 14 + int n + 1" for n using that agreeD [OF assms] by simp
  moreover have "be16 p (14 + n + 2) = be16 q (14 + n + 2)" if "len \<ge> 14 + int n + 4" for n
    using that agree_be(1) [OF assms] by simp
  ultimately show ?thesis unfolding probe_drop_def f by auto
qed (simp add: probe_drop_def)

section \<open>A firewall that has seen no traffic\<close>

definition empty_firewall :: firewall where
  "empty_firewall = \<lparr>fw_enabled = True, rules = replicate 16 new_rule,
     connections = replicate 16 \<lparr>c_active = False, c_src_ip = 0, c_dst_ip = 0, c_src_port = 0, c_dst_port = 0,
       c_state = CLOSED, c_last = 0\<rparr>,
     hosts = replicate 8 \<lparr>t_active = False, t_src_ip = 0, syn_count = 0, icmp_count = 0, port_scan_count = 0,
       last_dst_port = 0, t_last = 0\<rparr>,
     identity = stealth_default, anomaly_count = 0, uart = [], audit_log = []\<rparr>"

end
