(* ===== verification/Firewall_Props.thy ===== *)
theory Firewall_Props
  imports Firewall
begin

text \<open>
  Properties of the packet filter: no read leaves the packet, mid-stream TCP segments pass only
  on connections that an accepted SYN opened, the flood limits hold as long as the counters do
  not wrap, and the packets the rules never see.
\<close>

section \<open>The connection table\<close>

text \<open>Two segments of one flow, in either direction.\<close>

definition same_flow :: "segment \<Rightarrow> segment \<Rightarrow> bool" where
  "same_flow g g' \<longleftrightarrow>
     (s_src_ip g = s_src_ip g' \<and> s_dst_ip g = s_dst_ip g' \<and> s_src_port g = s_src_port g' \<and> s_dst_port g = s_dst_port g')
     \<or> (s_src_ip g = s_dst_ip g' \<and> s_dst_ip g = s_src_ip g' \<and> s_src_port g = s_dst_port g' \<and> s_dst_port g = s_src_port g')"

definition opener :: "tcp_connection \<Rightarrow> segment \<Rightarrow> bool" where
  "opener c g \<longleftrightarrow> c_src_ip c = s_src_ip g \<and> c_dst_ip c = s_dst_ip g \<and> c_src_port c = s_src_port g
     \<and> c_dst_port c = s_dst_port g"

lemma belongs_opener: "belongs g c \<Longrightarrow> opener c g' \<Longrightarrow> same_flow g g'"
  by (auto simp: belongs_def opener_def same_flow_def)

lemma advance_fields:
  "opener (advance g now c) g' = opener c g'" "c_active (advance g now c) \<Longrightarrow> c_active c"
  by (auto simp: advance_def opener_def Let_def split: if_splits)

text \<open>What one segment does to the table: old connections keep their end points, a new one opens with SYN.\<close>

lemma track_segment_spec:
  assumes "track_segment g now cs = (v, cs')"
  shows "c \<in> set cs' \<Longrightarrow> c_active c \<Longrightarrow>
      (\<exists>c0 \<in> set cs. c_active c0 \<and> (\<forall>g'. opener c g' = opener c0 g')) \<or> (v \<and> is_syn g \<and> \<not> is_ack g \<and> opener c g)"
    and "v \<Longrightarrow> is_syn g \<and> \<not> is_ack g \<or> (\<exists>c \<in> set cs. belongs g c)" and "length cs' = length cs"
proof -
  consider (old) i where "first_slot (belongs g) cs = Some i" "v" "cs' = cs[i := advance g now (cs ! i)]"
    | (new) i where "is_syn g" "\<not> is_ack g" "claim_slot c_active open_connection (g, now) cs = Some (i, cs')" "v"
    | (drop) "\<not> v" "cs' = cs"
    using assms by (auto simp: track_segment_def split: option.splits if_splits)
  note cases = this
  have upd: "x \<in> set (cs[i := y]) \<Longrightarrow> x = y \<or> x \<in> set cs" for x i y using set_update_subset_insert by fastforce
  show "(\<exists>c0 \<in> set cs. c_active c0 \<and> (\<forall>g'. opener c g' = opener c0 g')) \<or> (v \<and> is_syn g \<and> \<not> is_ack g \<and> opener c g)"
    if c: "c \<in> set cs'" "c_active c"
    using cases
  proof cases
    case (old i)
    then have "i < length cs" by (simp add: first_slot_bound)
    then show ?thesis using upd [of c i] c old(3) advance_fields by (metis nth_mem)
  next
    case (new i)
    have "c = open_connection (g, now) (cs ! i) \<or> c \<in> set cs"
      using upd c(1) unfolding conn_slots.claim_Some(3) [OF new(3)] by blast
    then show ?thesis using new c(2) by (auto simp: open_connection_def opener_def)
  next
    case drop
    then show ?thesis using c by auto
  qed
  show "is_syn g \<and> \<not> is_ack g \<or> (\<exists>c \<in> set cs. belongs g c)" if "v"
    using cases that by cases (use first_slot_None [of "belongs g" cs] in auto)
  show "length cs' = length cs" using cases by cases (auto dest: conn_slots.claim_Some(5))
qed

section \<open>Runs of the firewall\<close>

datatype fw_event = Arrive packet int string u32 | Tick u32

fun fw_step :: "fw_event \<Rightarrow> firewall \<Rightarrow> bool \<times> firewall" where
  "fw_step (Arrive p len ifc now) fw = process_packet p len ifc now fw"
| "fw_step (Tick now) fw = (True, fw_tick now fw)"

fun fw_trace :: "fw_event list \<Rightarrow> firewall \<Rightarrow> (fw_event \<times> bool) list" where
  "fw_trace [] fw = []"
| "fw_trace (e # es) fw = (e, fst (fw_step e fw)) # fw_trace es (snd (fw_step e fw))"

text \<open>An accepted SYN of the flow occurs in a history.\<close>

definition opened :: "(fw_event \<times> bool) list \<Rightarrow> (segment \<Rightarrow> bool) \<Rightarrow> bool" where
  "opened h P \<longleftrightarrow> (\<exists>p len ifc now g. (Arrive p len ifc now, True) \<in> set h \<and> tcp_segment p len = Inr g
     \<and> is_syn g \<and> \<not> is_ack g \<and> P g)"

lemma opened_mono: "opened h P \<Longrightarrow> opened (h @ h') P"
  unfolding opened_def by fastforce

lemma process_packet_spec:
  assumes "process_packet p len ifc now fw = (v, fw')" "fw_enabled fw"
  shows "fw_enabled fw'"
    and "connections fw' = connections fw \<or> process_tcp_packet p len now (connections fw) = (v, connections fw')"
    and "v \<Longrightarrow> fst (process_tcp_packet p len now (connections fw))"
  using assms
  by (auto simp: process_packet_def report_firewall_anomaly_def log_drop_def Let_def
      split: if_splits prod.splits option.splits)

text \<open>Every active connection was opened by an accepted SYN.\<close>

definition conns_from :: "(fw_event \<times> bool) list \<Rightarrow> tcp_connection list \<Rightarrow> bool" where
  "conns_from h cs \<longleftrightarrow> (\<forall>c \<in> set cs. c_active c \<longrightarrow> opened h (opener c))"

lemma fw_step_conns:
  assumes inv: "conns_from h (connections fw)" "fw_enabled fw" and step: "fw_step e fw = (v, fw')"
  shows "conns_from (h @ [(e, v)]) (connections fw') \<and> fw_enabled fw'"
proof (cases e)
  case (Tick now)
  then have fw': "fw' = fw_tick now fw" using step by simp
  have "\<exists>c0 \<in> set (connections fw). c_active c0 \<and> c = c0" if "c \<in> set (connections fw')" "c_active c" for c
    using that unfolding fw' by (auto simp: fw_tick_def inspector_tick_def split: if_splits)
  then show ?thesis using inv opened_mono by (auto simp: conns_from_def fw' fw_tick_def)
next
  case (Arrive p len ifc now)
  then have pp: "process_packet p len ifc now fw = (v, fw')" using step by simp
  note spec = process_packet_spec [OF pp inv(2)]
  have old: "opened (h @ [(e, v)]) (opener c)" if "c \<in> set (connections fw)" "c_active c" for c
    using that inv(1) opened_mono by (auto simp: conns_from_def)
  have "conns_from (h @ [(e, v)]) (connections fw')"
  proof (cases "connections fw' = connections fw")
    case True
    then show ?thesis using old by (simp add: conns_from_def)
  next
    case False
    then obtain g where g: "tcp_segment p len = Inr g" "track_segment g now (connections fw) = (v, connections fw')"
      using spec(2) by (auto simp: process_tcp_packet_def split: sum.splits)
    show ?thesis unfolding conns_from_def
    proof (intro ballI impI)
      fix c assume "c \<in> set (connections fw')" "c_active c"
      from track_segment_spec(1) [OF g(2) this] show "opened (h @ [(e, v)]) (opener c)"
      proof
        assume "\<exists>c0 \<in> set (connections fw). c_active c0 \<and> (\<forall>g'. opener c g' = opener c0 g')"
        then obtain c0 where c0: "c0 \<in> set (connections fw)" "c_active c0" "opener c = opener c0" by blast
        then show ?thesis using old by simp
      next
        assume "v \<and> is_syn g \<and> \<not> is_ack g \<and> opener c g"
        then show ?thesis using g(1) Arrive by (fastforce simp: opened_def)
      qed
    qed
  qed
  then show ?thesis using spec(1) by blast
qed

lemma fw_trace_opened:
  assumes "conns_from h (connections fw)" "fw_enabled fw" "k < length es" "es ! k = Arrive p len ifc now"
    "tcp_segment p len = Inr g" "snd (fw_trace es fw ! k)" "\<not> (is_syn g \<and> \<not> is_ack g)"
  shows "opened (h @ take k (fw_trace es fw)) (same_flow g)"
  using assms
proof (induction es arbitrary: fw h k)
  case (Cons e es)
  obtain v fw' where st: "fw_step e fw = (v, fw')" by (cases "fw_step e fw")
  note inv = fw_step_conns [OF Cons.prems(1,2) st]
  show ?case
  proof (cases k)
    case 0
    then have pp: "process_packet p len ifc now fw = (True, fw')" using Cons.prems st by simp
    have "fst (track_segment g now (connections fw))"
      using process_packet_spec(3) [OF pp Cons.prems(2)] Cons.prems(5) by (simp add: process_tcp_packet_def)
    then obtain c where c: "c \<in> set (connections fw)" "belongs g c"
      using track_segment_spec(2) [of g now "connections fw"] Cons.prems(7) by (metis prod.collapse)
    then have "opened h (opener c)" using Cons.prems(1) by (simp add: conns_from_def belongs_def)
    then have "opened h (same_flow g)" unfolding opened_def using belongs_opener [OF c(2)] by blast
    then show ?thesis using 0 by simp
  next
    case (Suc j)
    have "opened ((h @ [(e, v)]) @ take j (fw_trace es fw')) (same_flow g)"
      using inv Cons.prems(3-7) st Suc by (intro Cons.IH) auto
    then show ?thesis using Suc st by simp
  qed
qed simp

section \<open>The flood limit\<close>

datatype shaper_event = Receive packet int u32 | Age u32

fun shaper_step :: "shaper_event \<Rightarrow> host_stats list \<Rightarrow> bool \<times> host_stats list" where
  "shaper_step (Receive p len now) hs = (case shape_packet p len now hs of (v, hs', _) \<Rightarrow> (v, hs'))"
| "shaper_step (Age now) hs = (True, shaper_tick now hs)"

fun shaper_verdicts :: "shaper_event list \<Rightarrow> host_stats list \<Rightarrow> bool list" where
  "shaper_verdicts [] hs = []"
| "shaper_verdicts (e # es) hs = fst (shaper_step e hs) # shaper_verdicts es (snd (shaper_step e hs))"

fun from_host :: "u32 \<Rightarrow> shaper_event \<Rightarrow> bool" where
  "from_host ip (Receive p len now) \<longleftrightarrow> len \<ge> 34 \<and> be16 p 12 = 0x0800 \<and> be32 p 26 = ip"
| "from_host ip (Age now) \<longleftrightarrow> False"

fun ping_from :: "u32 \<Rightarrow> shaper_event \<Rightarrow> bool" where
  "ping_from ip (Receive p len now) \<longleftrightarrow> len \<ge> 34 \<and> be16 p 12 = 0x0800 \<and> be32 p 26 = ip \<and> p 23 = 1"
| "ping_from ip (Age now) \<longleftrightarrow> False"

text \<open>No clean-up finds the host idle for longer than the reset interval.\<close>

fun prompt :: "u32 \<Rightarrow> u32 \<Rightarrow> shaper_event list \<Rightarrow> bool" where
  "prompt ip seen [] \<longleftrightarrow> True"
| "prompt ip seen (Age now # es) \<longleftrightarrow> now - seen \<le> RESET_INTERVAL \<and> prompt ip seen es"
| "prompt ip seen (Receive p len now # es) \<longleftrightarrow> prompt ip (if from_host ip (Receive p len now) then now else seen) es"

definition tracked :: "u32 \<Rightarrow> nat \<Rightarrow> u32 \<Rightarrow> nat \<Rightarrow> host_stats list \<Rightarrow> bool" where
  "tracked ip i seen c hs \<longleftrightarrow> first_slot (\<lambda>h. t_active h \<and> t_src_ip h = ip) hs = Some i
     \<and> t_last (hs ! i) = seen \<and> unat (icmp_count (hs ! i)) = c"

lemma count_packet_keeps:
  assumes "count_packet p len st = (v, st', a)"
  shows "t_active st' = t_active st" "t_src_ip st' = t_src_ip st" "t_last st' = t_last st"
    "p 23 \<noteq> 1 \<Longrightarrow> icmp_count st' = icmp_count st" "p 23 = 1 \<Longrightarrow> icmp_count st' = icmp_count st + 1"
    "p 23 = 1 \<Longrightarrow> v \<longleftrightarrow> icmp_count st' \<le> ICMP_LIMIT"
  using assms by (auto simp: count_packet_def count_syn_def Let_def not_less split: if_splits)

text \<open>Writing another slot, or this one with an entry of the same host, keeps the host where it is.\<close>

lemma first_slot_update:
  assumes "first_slot P hs = Some i" "j = i \<longrightarrow> P x" "j \<noteq> i \<longrightarrow> \<not> P x"
  shows "first_slot P (hs[j := x]) = Some i"
proof -
  have i: "i < length hs" "P (hs ! i)" "\<forall>k < i. \<not> P (hs ! k)" using assms(1) by (simp_all add: first_slot_Some)
  have "\<not> P (hs[j := x] ! k)" if "k < i" for k
    using that i assms(3) by (cases "k = j") auto
  then show ?thesis using i assms(2) unfolding first_slot_Some by (cases "j = i") auto
qed

lemma tracked_other:
  assumes "tracked ip i seen c hs" "\<not> from_host ip (Receive p len now)"
  shows "tracked ip i seen c (snd (shaper_step (Receive p len now) hs))"
proof (cases "len < 34 \<or> be16 p 12 \<noteq> 0x0800")
  case True
  then show ?thesis using assms(1) by (auto simp: shape_packet_def)
next
  case False
  let ?P = "\<lambda>h. t_active h \<and> t_src_ip h = ip"
  have ne: "be32 p 26 \<noteq> ip" using assms(2) False by auto
  have i: "first_slot ?P hs = Some i" using assms(1) by (simp add: tracked_def)
  show ?thesis
  proof (cases "get_or_create_stats (be32 p 26) now hs")
    case None
    then show ?thesis using assms(1) False by (simp add: shape_packet_def)
  next
    case (Some r)
    obtain j hs1 where r: "r = (j, hs1)" by (cases r)
    have j: "j < length hs" "j \<noteq> i" "hs1 = hs[j := hs1 ! j]" "t_src_ip (hs1 ! j) = be32 p 26"
    proof -
      have "j < length hs \<and> j \<noteq> i \<and> hs1 = hs[j := hs1 ! j] \<and> t_src_ip (hs1 ! j) = be32 p 26"
      proof (cases "first_slot (\<lambda>h. t_active h \<and> t_src_ip h = be32 p 26) hs")
        case None
        then have cl: "claim_slot t_active fresh_stats (be32 p 26, now) hs = Some (j, hs1)"
          using Some r by (simp add: get_or_create_stats_def)
        note c = host_slots.claim_Some [OF cl]
        have "hs1 ! j = fresh_stats (be32 p 26, now) (hs ! j)" using c by simp
        then show ?thesis using c first_slot_holds [OF i] by (auto simp: fresh_stats_def)
      next
        case (Some k)
        then have "j = k" "hs1 = hs[j := (hs ! j)\<lparr>t_last := now\<rparr>]"
          using \<open>get_or_create_stats (be32 p 26) now hs = Some r\<close> r by (auto simp: get_or_create_stats_def)
        then show ?thesis using first_slot_bound [OF Some] first_slot_holds [OF Some] first_slot_holds [OF i] ne by auto
      qed
      then show "j < length hs" "j \<noteq> i" "hs1 = hs[j := hs1 ! j]" "t_src_ip (hs1 ! j) = be32 p 26" by blast+
    qed
    obtain v st a where st: "count_packet p len (hs1 ! j) = (v, st, a)" by (cases "count_packet p len (hs1 ! j)")
    have e: "snd (shaper_step (Receive p len now) hs) = hs[j := st]"
      using False Some r st j(3) by (simp add: shape_packet_def) (metis list_update_overwrite)
    have "\<not> ?P st" using count_packet_keeps(2) [OF st] j(4) ne by simp
    then have "first_slot ?P (hs[j := st]) = Some i" using first_slot_update [OF i] j(2) by simp
    then show ?thesis using assms(1) j(2) unfolding e tracked_def by simp
  qed
qed

lemma tracked_own:
  assumes tr: "tracked ip i seen c hs" and own: "from_host ip (Receive p len now)"
  shows "p 23 \<noteq> 1 \<Longrightarrow> tracked ip i now c (snd (shaper_step (Receive p len now) hs))"
    and "p 23 = 1 \<Longrightarrow> Suc c < 2 ^ 32 \<Longrightarrow> tracked ip i now (Suc c) (snd (shaper_step (Receive p len now) hs))
      \<and> (fst (shaper_step (Receive p len now) hs) \<longleftrightarrow> c < 20)"
proof -
  let ?P = "\<lambda>h. t_active h \<and> t_src_ip h = ip"
  have i: "first_slot ?P hs = Some i" "unat (icmp_count (hs ! i)) = c" using tr by (auto simp: tracked_def)
  have lt: "i < length hs" "?P (hs ! i)" using first_slot_bound [OF i(1)] first_slot_holds [OF i(1)] by auto
  obtain v st a where st: "count_packet p len ((hs ! i)\<lparr>t_last := now\<rparr>) = (v, st, a)"
    by (cases "count_packet p len ((hs ! i)\<lparr>t_last := now\<rparr>)")
  note k = count_packet_keeps [OF st]
  have e: "shaper_step (Receive p len now) hs = (v, hs[i := st])"
    using own i(1) lt st by (simp add: shape_packet_def get_or_create_stats_def)
  have f: "first_slot ?P (hs[i := st]) = Some i" using first_slot_update [OF i(1), of i st] lt k(1,2) by simp
  show "tracked ip i now c (snd (shaper_step (Receive p len now) hs))" if "p 23 \<noteq> 1"
    using f lt(1) i(2) k(3,4) that unfolding e tracked_def by simp
  assume p: "p 23 = 1" and c: "Suc c < 2 ^ 32"
  have ic: "unat (icmp_count st) = Suc c" using k(5) [OF p] i(2) c by (simp add: unat_word_ariths)
  then have "v \<longleftrightarrow> c < 20" using k(6) [OF p] by (auto simp: word_le_nat_alt ICMP_LIMIT_def)
  then show "tracked ip i now (Suc c) (snd (shaper_step (Receive p len now) hs))
      \<and> (fst (shaper_step (Receive p len now) hs) \<longleftrightarrow> c < 20)"
    using f lt(1) ic k(3) unfolding e tracked_def by simp
qed

lemma tracked_age:
  assumes "tracked ip i seen c hs" "now - seen \<le> RESET_INTERVAL"
  shows "tracked ip i seen c (shaper_tick now hs)"
proof -
  let ?f = "\<lambda>h. if t_active h \<and> now - t_last h > RESET_INTERVAL then h\<lparr>t_active := False\<rparr> else h"
  have i: "i < length hs" "t_active (hs ! i)" "t_src_ip (hs ! i) = ip" "t_last (hs ! i) = seen"
    "\<forall>j < i. \<not> (t_active (hs ! j) \<and> t_src_ip (hs ! j) = ip)"
    using assms(1) by (auto simp: tracked_def first_slot_Some)
  have "?f (hs ! i) = hs ! i" using assms(2) i(4) by (simp add: leD)
  moreover have "\<not> (t_active (?f (hs ! j)) \<and> t_src_ip (?f (hs ! j)) = ip)" if "j < i" for j
    using i(5) that by auto
  ultimately show ?thesis using assms(1) i unfolding tracked_def first_slot_Some shaper_tick_def by (simp add: nth_map)
qed

lemma ping_verdict:
  assumes "tracked ip i seen c hs" "prompt ip seen es" "c + length es < 2 ^ 32" "k < length es" "ping_from ip (es ! k)"
  shows "shaper_verdicts es hs ! k \<longleftrightarrow> c + length (filter (ping_from ip) (take k es)) < 20"
  using assms
proof (induction es arbitrary: hs seen c k)
  case (Cons e es)
  show ?case
  proof (cases e)
    case (Age now)
    then have tr: "tracked ip i seen c (snd (shaper_step e hs))" using tracked_age Cons.prems(1,2) by simp
    obtain j where j: "k = Suc j" using Cons.prems(5) Age by (cases k) auto
    have "shaper_verdicts es (snd (shaper_step e hs)) ! j \<longleftrightarrow> c + length (filter (ping_from ip) (take j es)) < 20"
      by (rule Cons.IH [OF tr]) (use Cons.prems j Age in auto)
    then show ?thesis using j Age by simp
  next
    case (Receive p len now)
    let ?c = "if ping_from ip e then Suc c else c" and ?l = "if from_host ip e then now else seen"
    have tr: "tracked ip i ?l ?c (snd (shaper_step e hs))"
      using tracked_own [OF Cons.prems(1), of p len now] tracked_other [OF Cons.prems(1), of p len now] Cons.prems(3)
      by (auto simp: Receive)
    show ?thesis
    proof (cases k)
      case 0
      then show ?thesis using tracked_own(2) [OF Cons.prems(1), of p len now] Cons.prems(3,5) Receive by auto
    next
      case (Suc j)
      have "shaper_verdicts es (snd (shaper_step e hs)) ! j \<longleftrightarrow> ?c + length (filter (ping_from ip) (take j es)) < 20"
        by (rule Cons.IH [OF tr]) (use Cons.prems Suc Receive in \<open>auto split: if_splits\<close>)
      then show ?thesis using Suc by simp
    qed
  qed
qed simp

section \<open>Example packets\<close>

text \<open>An IPv4 packet with given header nibble, protocol and byte 47, the flags of a TCP segment.\<close>

definition example_packet :: "u8 \<Rightarrow> u8 \<Rightarrow> u8 \<Rightarrow> packet" where
  "example_packet v proto flags i =
     (if i = 12 then 8 else if i = 14 then v else if i = 23 then proto else if i = 29 then 7 else if i = 47 then flags else 0)"

section \<open>Properties\<close>

text \<open>
  C14: the filter never reads beyond the reported length. The verdict and the whole new state of
  the engine are the same for any two byte memories that agree on the first \<open>len\<close> bytes, for
  every length, short and truncated packets and every header length included.
\<close>
theorem firewall_reads_within_packet:
  assumes "\<forall>i. int i < len \<longrightarrow> p i = q i"
  shows "process_packet p len ifc now fw = process_packet q len ifc now fw"
proof -
  have a: "agree len p q" using assms by (simp add: agree_def)
  show ?thesis
    unfolding process_packet_def probe_drop_agree [OF a] shape_packet_agree [OF a] match_rules_def
      rule_header_agree [OF a] process_tcp_packet_def tcp_segment_agree [OF a] ..
qed

theorem firewall_reads_within_packet_witness:
  "process_packet (\<lambda>i. if i < 20 then 8 else 1) 20 ''eth0'' 5 empty_firewall
     = process_packet (\<lambda>i. if i < 20 then 8 else 2) 20 ''eth0'' 5 empty_firewall"
  by (rule firewall_reads_within_packet) auto

text \<open>
  C8: mid-stream segments need a connection. In every run of packets and clean-up ticks that
  starts enabled and without tracked connections, a TCP segment that has a complete header, is
  accepted and is not an initial SYN belongs to a flow that an earlier accepted SYN opened, in one of the two directions.
\<close>
theorem accepted_segments_have_connection:
  assumes "fw_enabled fw" "\<forall>c \<in> set (connections fw). \<not> c_active c"
    and "k < length es" "es ! k = Arrive p len ifc now" "tcp_segment p len = Inr g"
    and "snd (fw_trace es fw ! k)" "\<not> (is_syn g \<and> \<not> is_ack g)"
  shows "\<exists>p' len' ifc' now' g'. (Arrive p' len' ifc' now', True) \<in> set (take k (fw_trace es fw))
    \<and> tcp_segment p' len' = Inr g' \<and> is_syn g' \<and> \<not> is_ack g' \<and> same_flow g g'"
proof -
  have "conns_from [] (connections fw)" using assms(2) by (simp add: conns_from_def)
  from fw_trace_opened [OF this assms(1,3-7)] show ?thesis by (simp add: opened_def)
qed

abbreviation handshake :: "fw_event list" where
  "handshake \<equiv> [Arrive (example_packet 0x45 6 2) 48 ''eth0'' 5, Arrive (example_packet 0x45 6 16) 48 ''eth0'' 6]"

lemma example_ihl: "ihl (example_packet 0x45 proto f) = 5" "ihl (example_packet 0x41 proto f) = 1"
  by (simp_all add: ihl_def example_packet_def)

lemma example_bytes: "example_packet v proto f 23 = proto" "example_packet v proto f 47 = f"
  by (simp_all add: example_packet_def)

lemma example_type: "be16 (example_packet v proto f) 12 = 0x0800" "be32 (example_packet v proto f) 26 = 7"
  by (simp_all add: be16_def be32_def example_packet_def)

lemma handshake_passes: "snd (fw_trace handshake empty_firewall ! 1)"
  by code_simp

theorem accepted_segments_have_connection_witness:
  "\<exists>p' len' ifc' now' g'. (Arrive p' len' ifc' now', True) \<in> set (take 1 (fw_trace handshake empty_firewall))
    \<and> tcp_segment p' len' = Inr g' \<and> is_syn g' \<and> \<not> is_ack g'"
proof -
  obtain g where g: "tcp_segment (example_packet 0x45 6 16) 48 = Inr g" "s_flags g = 16"
    by (simp add: tcp_segment_def example_ihl example_type example_bytes)
  then have "\<not> is_syn g" by (simp add: is_syn_def)
  with accepted_segments_have_connection [of empty_firewall 1 handshake "example_packet 0x45 6 16" 48 "''eth0''" 6 g]
    handshake_passes g(1)
  show ?thesis by (auto simp: empty_firewall_def)
qed

text \<open>
  the ping limit counts packets, not packets per interval. A tracked host's ping is accepted
  exactly while fewer than twenty of its pings were counted before, however far apart they are,
  as long as no clean-up finds the host idle for more than the reset interval and the counter
  does not wrap; packets of other hosts in between do not matter.
\<close>
theorem ping_limit_is_cumulative:
  assumes "tracked ip i seen c hs" "prompt ip seen es" "c + length es < 2 ^ 32" "k < length es" "ping_from ip (es ! k)"
  shows "shaper_verdicts es hs ! k \<longleftrightarrow> c + length (filter (ping_from ip) (take k es)) < 20"
  by (rule ping_verdict [OF assms])

abbreviation slow_ping :: "u32 \<Rightarrow> shaper_event list" where
  "slow_ping now \<equiv> [Receive (example_packet 0x45 1 0) 48 now, Age (now + 900)]"

theorem ping_limit_is_cumulative_witness:
  "\<not> shaper_verdicts (slow_ping 1000 @ slow_ping 1900)
     [\<lparr>t_active = True, t_src_ip = 7, syn_count = 0, icmp_count = 20, port_scan_count = 0, last_dst_port = 0, t_last = 100\<rparr>] ! 2"
proof -
  let ?hs = "[\<lparr>t_active = True, t_src_ip = 7, syn_count = 0, icmp_count = 20, port_scan_count = 0,
    last_dst_port = 0, t_last = 100\<rparr>] :: host_stats list"
  have p: "ping_from 7 (Receive (example_packet 0x45 1 0) 48 now)" for now
    by (simp add: example_type example_bytes)
  have "tracked 7 0 100 20 ?hs" by (simp add: tracked_def)
  moreover have "prompt 7 100 (slow_ping 1000 @ slow_ping 1900)" by (simp add: example_type RESET_INTERVAL_def)
  ultimately show ?thesis
    using ping_limit_is_cumulative [of 7 0 100 20 ?hs "slow_ping 1000 @ slow_ping 1900" 2] p by simp
qed

text \<open>
  C37: a short header length bypasses the rules. A UDP packet whose IP header length field is below
  five words is accepted by the enabled engine whatever rules are installed, because the rule
  matcher answers ACCEPT instead of rejecting the malformed packet.
\<close>
theorem short_header_bypasses_rules:
  assumes "len \<ge> 34" "be16 p 12 = 0x0800" "p 23 = 17" "ihl p < 5"
  shows "fst (process_packet p len ifc now fw)"
proof -
  obtain v hs a where s: "shape_packet p len now (hosts fw) = (v, hs, a)"
    by (cases "shape_packet p len now (hosts fw)")
  have v: "v" using s assms(3) by (auto simp: shape_packet_def count_packet_def split: if_splits option.splits prod.splits)
  have "\<not> probe_drop p len (identity fw)" using assms(4) by (simp add: probe_drop_def)
  moreover have "match_rules p len ifc rs = ACCEPT" for rs using assms(1,4) by (simp add: match_rules_def rule_header_def)
  moreover have "process_tcp_packet p len now cs = (True, cs)" for cs
    using assms(1,3) by (simp add: process_tcp_packet_def tcp_segment_def)
  ultimately show ?thesis using s v by (simp add: process_packet_def Let_def)
qed

theorem short_header_bypasses_rules_witness:
  "fst (process_packet (example_packet 0x41 17 0) 48 ''eth0'' 5
     (empty_firewall\<lparr>rules := [new_rule\<lparr>enabled := True, match_protocol := True, r_protocol := 17, r_action := DROP\<rparr>]\<rparr>))"
  by (rule short_header_bypasses_rules) (simp_all add: example_ihl example_type example_bytes)

end
