(* ===== verification/Rule_Parser.thy ===== *)
theory Rule_Parser
  imports Firewall
begin

text \<open>
  The command line of the firewall, \<open>net/firewall/rule_parser.cpp\<close>: numbers and addresses are
  parsed from C strings, rules are built from keywords found anywhere in the command, and the rule
  list is printed. Strings are character lists without the terminating zero; what a command prints
  is part of its result.
\<close>

section \<open>Strings\<close>

text \<open>\<open>strstr\<close>: the rest of the text from the first occurrence of a word on.\<close>

fun strstr :: "string \<Rightarrow> string \<Rightarrow> string option" where
  "strstr [] w = (if w = [] then Some [] else None)"
| "strstr (c # cs) w = (if take (length w) (c # cs) = w then Some (c # cs) else strstr cs w)"

definition starts :: "string \<Rightarrow> string \<Rightarrow> bool" where
  "starts w s \<longleftrightarrow> take (length w) s = w"

section \<open>Numbers\<close>

definition digit_value :: "char \<Rightarrow> u32 option" where
  "digit_value c =
     (let n = of_char c :: nat
      in if 48 \<le> n \<and> n \<le> 57 then Some (of_nat (n - 48))
         else if 97 \<le> n \<and> n \<le> 102 then Some (of_nat (n - 97 + 10))
         else if 65 \<le> n \<and> n \<le> 70 then Some (of_nat (n - 65 + 10))
         else None)"

fun parse_digits :: "u32 \<Rightarrow> u32 \<Rightarrow> string \<Rightarrow> u32" where
  "parse_digits base result [] = result"
| "parse_digits base result (c # cs) =
     (case digit_value c of
        None \<Rightarrow> result
      | Some d \<Rightarrow> if d \<ge> base then result else parse_digits base (result * base + d) cs)"

definition hex_prefix :: "string \<Rightarrow> bool" where
  "hex_prefix s \<longleftrightarrow> (case s of a # b # _ \<Rightarrow> a = CHR ''0'' \<and> (b = CHR ''x'' \<or> b = CHR ''X'') | _ \<Rightarrow> False)"

definition parse_uint :: "string \<Rightarrow> u32" where
  "parse_uint str =
     (let s = dropWhile (\<lambda>c. c = CHR '' '' \<or> c = CHR 0x09) str
      in if hex_prefix s then parse_digits 16 0 (drop 2 s) else parse_digits 10 0 s)"

text \<open>Four numbers separated by dots; nothing when a dot is missing.\<close>

fun parse_octets :: "nat \<Rightarrow> string \<Rightarrow> u8 list option" where
  "parse_octets 0 s = Some []"
| "parse_octets (Suc n) s =
     (let octet = ucast (parse_uint s);
          s1 = dropWhile (\<lambda>c. c \<noteq> CHR ''.'') s
      in if n = 0 then Some [octet]
         else (case s1 of
                 [] \<Rightarrow> None
               | _ # s2 \<Rightarrow> map_option (\<lambda>os. octet # os) (parse_octets n s2)))"

definition parse_ip :: "string \<Rightarrow> u32" where
  "parse_ip str =
     (let s = dropWhile (\<lambda>c. c = CHR '' '') str
      in if hex_prefix s then parse_uint s
         else if length (filter (\<lambda>c. c = CHR ''.'') s) = 3
         then (case parse_octets 4 s of
                 Some [a, b, c, d] \<Rightarrow> push_bit 24 (ucast a) OR push_bit 16 (ucast b) OR push_bit 8 (ucast c) OR ucast d
               | _ \<Rightarrow> 0)
         else parse_uint s)"

section \<open>Printing\<close>

function dec_digits :: "nat \<Rightarrow> string \<Rightarrow> string" where
  "dec_digits v buf = (if v = 0 then buf else dec_digits (v div 10) (char_of (48 + v mod 10) # buf))"
  by pat_completeness auto
termination by (relation "measure fst") auto

declare dec_digits.simps [simp del]

definition print_u32 :: "u32 \<Rightarrow> string" where
  "print_u32 v = (if v = 0 then ''0'' else dec_digits (unat v) [])"

definition print_ip :: "u32 \<Rightarrow> string" where
  "print_ip ip = print_u32 (drop_bit 24 ip AND 0xFF) @ ''.'' @ print_u32 (drop_bit 16 ip AND 0xFF) @ ''.''
     @ print_u32 (drop_bit 8 ip AND 0xFF) @ ''.'' @ print_u32 (ip AND 0xFF)"

definition show_rule :: "nat \<Rightarrow> fw_rule \<Rightarrow> string" where
  "show_rule i r =
     ''  Rule '' @ print_u32 (of_nat i) @ '': action='' @
     (case r_action r of ACCEPT \<Rightarrow> ''ACCEPT'' | DROP \<Rightarrow> ''DROP'' | REJECT \<Rightarrow> ''REJECT'') @
     (if match_protocol r then '', proto='' @ print_u32 (ucast (r_protocol r)) else []) @
     (if match_src_ip r then '', src_ip='' @ print_ip (r_src_ip r) else []) @
     (if match_dst_ip r then '', dst_ip='' @ print_ip (r_dst_ip r) else []) @
     (if match_src_port r then '', src_port='' @ print_u32 (ucast (r_src_port r)) else []) @
     (if match_dst_port r then '', dst_port='' @ print_u32 (ucast (r_dst_port r)) else []) @
     '' (active)'' @ crlf"

fun list_rules :: "nat \<Rightarrow> fw_rule list \<Rightarrow> string" where
  "list_rules i [] = []"
| "list_rules i (r # rs) = (if enabled r then show_rule i r else []) @ list_rules (Suc i) rs"

section \<open>Commands\<close>

definition parse_rule :: "string \<Rightarrow> fw_rule" where
  "parse_rule ptr =
     (let r1 = new_rule\<lparr>r_action := (if strstr ptr ''action DROP'' \<noteq> None then DROP
                                else if strstr ptr ''action REJECT'' \<noteq> None then REJECT else ACCEPT)\<rparr>;
          r2 = (if strstr ptr ''protocol TCP'' \<noteq> None then r1\<lparr>match_protocol := True, r_protocol := 6\<rparr>
                else if strstr ptr ''protocol UDP'' \<noteq> None then r1\<lparr>match_protocol := True, r_protocol := 17\<rparr>
                else if strstr ptr ''protocol ICMP'' \<noteq> None then r1\<lparr>match_protocol := True, r_protocol := 1\<rparr>
                else r1);
          r3 = (case strstr ptr ''src_ip '' of
                  Some key \<Rightarrow> r2\<lparr>match_src_ip := True, r_src_ip := parse_ip (drop 7 key)\<rparr> | None \<Rightarrow> r2);
          r4 = (case strstr ptr ''dst_ip '' of
                  Some key \<Rightarrow> r3\<lparr>match_dst_ip := True, r_dst_ip := parse_ip (drop 7 key)\<rparr> | None \<Rightarrow> r3);
          r5 = (case strstr ptr ''src_port '' of
                  Some key \<Rightarrow> r4\<lparr>match_src_port := True, r_src_port := ucast (parse_uint (drop 9 key))\<rparr> | None \<Rightarrow> r4)
      in case strstr ptr ''dst_port '' of
           Some key \<Rightarrow> r5\<lparr>match_dst_port := True, r_dst_port := ucast (parse_uint (drop 9 key))\<rparr> | None \<Rightarrow> r5)"

definition has_predicate :: "fw_rule \<Rightarrow> bool" where
  "has_predicate r \<longleftrightarrow> match_src_ip r \<or> match_dst_ip r \<or> match_src_port r \<or> match_dst_port r \<or> match_protocol r"

definition parse_command :: "string \<Rightarrow> firewall \<Rightarrow> string \<times> firewall" where
  "parse_command cmd fw =
     (if \<not> starts ''fw '' cmd then ([], fw)
      else
        let args = drop 3 cmd
        in if starts ''enable'' args then (''Firewall enabled.'' @ crlf, fw_enable True fw)
           else if starts ''disable'' args then (''Firewall disabled.'' @ crlf, fw_enable False fw)
           else if starts ''list'' args then (''Firewall rules:'' @ crlf @ list_rules 0 (rules fw), fw)
           else if starts ''delete '' args
           then (case delete_rule (sint (parse_uint (drop 7 args))) (rules fw) of
                   (ok, rs) \<Rightarrow> (if ok then ''Rule deleted.'' @ crlf else ''Failed to delete rule.'' @ crlf, fw\<lparr>rules := rs\<rparr>))
           else if starts ''add '' args
           then (let r = parse_rule (drop 4 args)
                 in if \<not> has_predicate r
                    then (''Error: rule requires at least one match predicate (src_ip, dst_ip, src_port, dst_port, protocol).'' @ crlf, fw)
                    else (case add_rule r (rules fw) of
                            (ok, rs) \<Rightarrow> (if ok then ''Rule added.'' @ crlf else ''Rule table full.'' @ crlf, fw\<lparr>rules := rs\<rparr>)))
           else (''Unknown fw command.'' @ crlf, fw))"

section \<open>Numbers survive printing and parsing\<close>

abbreviation dec_char :: "char \<Rightarrow> bool" where
  "dec_char c \<equiv> 48 \<le> (of_char c :: nat) \<and> (of_char c :: nat) \<le> 57"

lemma digit_value_dec: "d < 10 \<Longrightarrow> digit_value (char_of (48 + d :: nat)) = Some (of_nat d)"
  by (simp add: digit_value_def Let_def)

lemma dec_digits_append: "dec_digits v (buf @ rest) = dec_digits v buf @ rest"
proof (induction v buf rule: dec_digits.induct)
  case (1 v buf)
  then show ?case by (subst (1 2) dec_digits.simps) simp
qed

text \<open>The digits are decimal characters and the first is not a zero.\<close>

lemma dec_digits_chars:
  "0 < v \<Longrightarrow> \<exists>c cs. dec_digits v buf = c # cs @ buf \<and> (\<forall>x \<in> set (c # cs). dec_char x) \<and> c \<noteq> CHR ''0''"
proof (induction v buf rule: dec_digits.induct)
  case (1 v buf)
  let ?d = "char_of (48 + v mod 10) :: char"
  have d: "dec_char ?d" by simp
  show ?case
  proof (cases "v div 10 = 0")
    case True
    then have "v mod 10 = v" "v < 10" by auto
    moreover have "dec_digits v buf = ?d # buf" using 1(2) True by (subst dec_digits.simps) (simp add: dec_digits.simps)
    moreover have "?d \<noteq> CHR ''0''"
    proof
      assume "?d = CHR ''0''"
      then have "(of_char ?d :: nat) = 48" by simp
      then show False using \<open>v mod 10 = v\<close> \<open>v < 10\<close> 1(2) by simp
    qed
    ultimately show ?thesis using d by (intro exI [of _ ?d] exI [of _ "[]"]) simp
  next
    case False
    then obtain c cs where "dec_digits (v div 10) (?d # buf) = c # cs @ ?d # buf"
        "\<forall>x \<in> set (c # cs). dec_char x" "c \<noteq> CHR ''0''"
      using 1 by auto
    moreover have "dec_digits v buf = dec_digits (v div 10) (?d # buf)" using 1(2) by (subst dec_digits.simps) simp
    ultimately show ?thesis using d by (intro exI [of _ c] exI [of _ "cs @ [?d]"]) auto
  qed
qed

lemma parse_dec_digits:
  "parse_digits 10 acc (dec_digits v buf @ rest) = parse_digits 10 (acc * 10 ^ length (dec_digits v []) + of_nat v) (buf @ rest)"
proof (induction v buf arbitrary: acc rule: dec_digits.induct)
  case (1 v buf)
  show ?case
  proof (cases "v = 0")
    case True
    then show ?thesis by (simp add: dec_digits.simps)
  next
    case False
    let ?d = "char_of (48 + v mod 10) :: char"
    have e: "dec_digits v buf = dec_digits (v div 10) (?d # buf)" using False by (subst dec_digits.simps) simp
    have l: "length (dec_digits v []) = Suc (length (dec_digits (v div 10) []))"
      using False dec_digits_append [of "v div 10" "[]" "[?d]"] by (subst dec_digits.simps) simp
    have lt: "(of_nat (v mod 10) :: u32) < 10"
      by (simp add: word_less_nat_alt unat_of_nat)
    then have n: "\<not> (10 :: u32) \<le> of_nat (v mod 10)" by simp
    have v: "(of_nat v :: u32) = of_nat (v div 10) * 10 + of_nat (v mod 10)"
      by (metis (no_types, lifting) div_mult_mod_eq of_nat_add of_nat_mult of_nat_numeral)
    have s: "(acc * 10 ^ k + of_nat (v div 10)) * 10 + of_nat (v mod 10) = acc * 10 ^ Suc k + of_nat v" for k
      unfolding v by (simp add: algebra_simps)
    show ?thesis unfolding e l 1 [OF False, of acc] s [symmetric] by (simp add: digit_value_dec n)
  qed
qed


text \<open>A text that ends a decimal number.\<close>

definition ends_number :: "string \<Rightarrow> bool" where
  "ends_number rest \<longleftrightarrow> rest = [] \<or> \<not> dec_char (hd rest) \<and> hd rest \<noteq> CHR ''x'' \<and> hd rest \<noteq> CHR ''X''"

lemma ends_number_stops:
  assumes "ends_number rest"
  shows "parse_digits 10 acc rest = acc"
proof (cases rest)
  case (Cons c cs)
  let ?n = "of_char c :: nat"
  have "\<not> (48 \<le> ?n \<and> ?n \<le> 57)" using assms Cons by (simp add: ends_number_def)
  moreover have "digit_value c = Some d \<Longrightarrow> \<not> (48 \<le> ?n \<and> ?n \<le> 57) \<Longrightarrow> 10 \<le> d" for d
  proof -
    assume "digit_value c = Some d" "\<not> (48 \<le> ?n \<and> ?n \<le> 57)"
    then consider "97 \<le> ?n" "?n \<le> 102" "d = of_nat (?n - 97 + 10)"
      | "65 \<le> ?n" "?n \<le> 70" "d = of_nat (?n - 65 + 10)"
      unfolding digit_value_def Let_def by (auto split: if_splits)
    then obtain m where "d = of_nat m" "10 \<le> m" "m < 16"
    proof cases
      case 1
      then show thesis using that [of "?n - 97 + 10"] by simp
    next
      case 2
      then show thesis using that [of "?n - 65 + 10"] by simp
    qed
    then show "10 \<le> d" by (simp add: word_le_nat_alt unat_of_nat)
  qed
  ultimately show ?thesis using Cons by (auto split: option.split)
qed simp

lemma print_u32_chars: "print_u32 v = c # cs \<Longrightarrow> x \<in> set (c # cs) \<Longrightarrow> dec_char x"
  "print_u32 v = c # cs \<Longrightarrow> c = CHR ''0'' \<Longrightarrow> cs = []"
  "print_u32 v \<noteq> []"
proof -
  have *: "v \<noteq> 0 \<Longrightarrow> \<exists>c cs. print_u32 v = c # cs \<and> (\<forall>x \<in> set (c # cs). dec_char x) \<and> c \<noteq> CHR ''0''"
    using dec_digits_chars [of "unat v" "[]"] by (simp add: print_u32_def unat_gt_0)
  show "print_u32 v = c # cs \<Longrightarrow> x \<in> set (c # cs) \<Longrightarrow> dec_char x"
    using * by (cases "v = 0") (auto simp: print_u32_def)
  show "print_u32 v = c # cs \<Longrightarrow> c = CHR ''0'' \<Longrightarrow> cs = []"
    using * by (cases "v = 0") (auto simp: print_u32_def)
  show "print_u32 v \<noteq> []" using * by (cases "v = 0") (auto simp: print_u32_def)
qed

lemma print_u32_head:
  obtains c cs where "print_u32 v = c # cs" "dec_char c" "\<forall>x \<in> set cs. dec_char x" "c = CHR ''0'' \<longrightarrow> cs = []"
proof -
  obtain c cs where e: "print_u32 v = c # cs" using print_u32_chars(3) by (meson neq_Nil_conv)
  show thesis using that [OF e] print_u32_chars(1) [OF e] print_u32_chars(2) [OF e] by simp
qed

lemma print_u32_no_dot: "filter (\<lambda>c. c = CHR ''.'') (print_u32 v) = []"
  by (rule print_u32_head [of v]) (auto simp: filter_empty_conv)

lemma hex_prefix_print:
  assumes "ends_number rest"
  shows "\<not> hex_prefix (print_u32 v @ rest)"
proof (rule print_u32_head [of v])
  fix c cs
  assume "print_u32 v = c # cs" "\<forall>x \<in> set cs. dec_char x" "c = CHR ''0'' \<longrightarrow> cs = []"
  then show ?thesis using assms
    by (cases cs; cases rest) (auto simp: hex_prefix_def ends_number_def)
qed

lemma skip_blanks_print:
  "\<not> P CHR ''0'' \<Longrightarrow> (\<And>c. dec_char c \<Longrightarrow> \<not> P c) \<Longrightarrow> dropWhile P (print_u32 v @ rest) = print_u32 v @ rest"
  by (rule print_u32_head [of v]) auto

lemma parse_print:
  assumes "ends_number rest"
  shows "parse_uint (print_u32 v @ rest) = v"
proof -
  have "parse_uint (print_u32 v @ rest) = parse_digits 10 0 (print_u32 v @ rest)"
    unfolding parse_uint_def Let_def
    by (subst (1 2 3) skip_blanks_print) (auto simp: hex_prefix_print [OF assms])
  also have "\<dots> = v"
  proof (cases "v = 0")
    case True
    then show ?thesis using ends_number_stops [OF assms] digit_value_dec [of 0]
      by (simp add: print_u32_def digit_value_def Let_def)
  next
    case False
    then show ?thesis using parse_dec_digits [of 0 "unat v" "[]" rest] ends_number_stops [OF assms]
      by (simp add: print_u32_def)
  qed
  finally show ?thesis .
qed

lemma next_dot:
  "dropWhile (\<lambda>c. c \<noteq> CHR ''.'') (print_u32 v @ CHR ''.'' # rest) = CHR ''.'' # rest"
  by (rule print_u32_head [of v]) (subst dropWhile_append2, auto)

lemma ends_number_dot: "ends_number (CHR ''.'' # rest)"
  by (simp add: ends_number_def)

lemma parse_octets_print:
  assumes "ends_number rest"
  shows "parse_octets 4 (print_u32 a @ CHR ''.'' # print_u32 b @ CHR ''.'' # print_u32 c @ CHR ''.'' # print_u32 d @ rest)
         = Some [ucast a, ucast b, ucast c, ucast d]"
  by (simp add: numeral_eq_Suc next_dot parse_print ends_number_dot assms del: dropWhile.simps)


section \<open>Addresses\<close>

lemma bit_FF: "bit (0xFF :: int) n \<longleftrightarrow> n < 8"
proof -
  have "(0xFF :: int) = mask 8" by (simp add: mask_eq_exp_minus_1)
  then show ?thesis by (simp only: bit_mask_iff) auto
qed

lemma octets_join:
  fixes ip :: u32
  shows "push_bit 24 (ucast (ucast (drop_bit 24 ip AND 0xFF) :: u8)) OR push_bit 16 (ucast (ucast (drop_bit 16 ip AND 0xFF) :: u8))
    OR push_bit 8 (ucast (ucast (drop_bit 8 ip AND 0xFF) :: u8)) OR ucast (ucast (ip AND 0xFF) :: u8) = ip" (is "?l = _")
proof (rule bit_word_eqI)
  fix n
  assume "n < LENGTH(32)"
  then have "n < 8 \<or> 8 \<le> n \<and> n < 16 \<or> 16 \<le> n \<and> n < 24 \<or> 24 \<le> n \<and> n < 32" by auto
  then show "bit ?l n = bit ip n" by (elim disjE conjE) (auto simp: bit_simps bit_FF)
qed

lemma drop_blanks_print_ip: "dropWhile (\<lambda>c. c = CHR '' '') (print_ip ip @ rest) = print_ip ip @ rest"
  unfolding print_ip_def append_assoc by (rule skip_blanks_print) auto

lemma print_ip_shape:
  "print_ip ip @ rest = print_u32 (drop_bit 24 ip AND 0xFF) @ CHR ''.'' # print_u32 (drop_bit 16 ip AND 0xFF) @ CHR ''.''
     # print_u32 (drop_bit 8 ip AND 0xFF) @ CHR ''.'' # print_u32 (ip AND 0xFF) @ rest"
  by (simp add: print_ip_def)

lemma parse_ip_print:
  assumes "ends_number rest"
  shows "parse_ip (print_ip ip @ rest) = (if CHR ''.'' \<in> set rest then drop_bit 24 ip else ip)"
proof -
  have h: "\<not> hex_prefix (print_ip ip @ rest)"
    unfolding print_ip_shape by (rule hex_prefix_print) (rule ends_number_dot)
  have n: "length (filter (\<lambda>c. c = CHR ''.'') (print_ip ip @ rest)) = 3 \<longleftrightarrow> CHR ''.'' \<notin> set rest"
    unfolding print_ip_shape by (auto simp: print_u32_no_dot filter_empty_conv)
  have o: "parse_octets 4 (print_ip ip @ rest) = Some [ucast (drop_bit 24 ip AND 0xFF), ucast (drop_bit 16 ip AND 0xFF),
      ucast (drop_bit 8 ip AND 0xFF), ucast (ip AND 0xFF)]"
    unfolding print_ip_shape by (rule parse_octets_print [OF assms])
  have u: "parse_uint (print_ip ip @ rest) = drop_bit 24 ip AND 0xFF"
    unfolding print_ip_shape by (rule parse_print [OF ends_number_dot])
  have m: "drop_bit 24 ip AND 0xFF = drop_bit 24 ip"
    by (rule bit_word_eqI) (auto simp: bit_simps bit_FF dest: bit_imp_le_length)
  show ?thesis
    unfolding parse_ip_def Let_def drop_blanks_print_ip using h n octets_join [of ip, unfolded m]
    by (simp add: o u m del: length_append filter_append)
qed


lemma print_u32_avoids: "\<not> dec_char c \<Longrightarrow> c \<notin> set (print_u32 v)"
  by (rule print_u32_head [of v]) auto

lemma print_ip_avoids: "\<not> dec_char c \<Longrightarrow> c \<noteq> CHR ''.'' \<Longrightarrow> c \<notin> set (print_ip ip)"
  by (simp add: print_ip_def print_u32_avoids)

section \<open>Keywords\<close>

lemma strstr_skip: "c \<notin> set xs \<Longrightarrow> strstr (xs @ ys) (c # w) = strstr ys (c # w)"
  by (induction xs) auto

lemma strstr_print_ip:
  "\<not> dec_char c \<Longrightarrow> c \<noteq> CHR ''.'' \<Longrightarrow> strstr (print_ip ip @ ys) (c # w) = strstr ys (c # w)"
  by (rule strstr_skip) (rule print_ip_avoids)

section \<open>Properties\<close>

text \<open>C15: An address printed by the rule list is parsed back to the same address, whatever text without
  a dot follows it, as long as that text does not continue the last number.\<close>

theorem printed_address_parses_back:
  assumes "ends_number rest" and "CHR ''.'' \<notin> set rest"
  shows "parse_ip (print_ip ip @ rest) = ip"
  using parse_ip_print [OF assms(1)] assms(2) by simp

theorem printed_address_parses_back_witness:
  "print_ip 0xC0A80001 = ''192.168.0.1'' \<and> parse_ip (print_ip 0xC0A80001 @ '' action DROP'') = 0xC0A80001"
proof
  show "print_ip 0xC0A80001 = ''192.168.0.1''" by code_simp
  show "parse_ip (print_ip 0xC0A80001 @ '' action DROP'') = 0xC0A80001"
    by (rule printed_address_parses_back) (simp_all add: ends_number_def)
qed

text \<open>A rule given with a dotted source and then a dotted destination address is stored with the
  wrong source: the parser decides on the format by the dots of the whole rest of the command, finds
  six, and reads only the first number of the source. The destination is read as written.\<close>

theorem two_addresses_truncate_source:
  "parse_rule (''src_ip '' @ print_ip a @ '' dst_ip '' @ print_ip b @ '' action DROP'')
   = new_rule\<lparr>r_action := DROP, match_src_ip := True, r_src_ip := drop_bit 24 a, match_dst_ip := True, r_dst_ip := b\<rparr>"
proof -
  have "parse_ip (print_ip a @ '' dst_ip '' @ print_ip b @ '' action DROP'') = drop_bit 24 a"
    by (subst parse_ip_print) (simp_all add: ends_number_def print_ip_def)
  moreover have "parse_ip (print_ip b @ '' action DROP'') = b"
    by (subst parse_ip_print) (simp_all add: ends_number_def)
  ultimately show ?thesis
    by (simp add: parse_rule_def strstr_print_ip Let_def)
qed


definition table_shape :: "firewall \<Rightarrow> bool" where
  "table_shape fw \<longleftrightarrow> length (rules fw) = MAX_RULES \<and> (\<forall>r \<in> set (rules fw). enabled r \<longrightarrow> has_predicate r)"

lemma in_set_updateD: "x \<in> set (xs[i := v]) \<Longrightarrow> x = v \<or> x \<in> set xs"
  using set_update_subset_insert by fastforce

lemma add_rule_shape:
  assumes "has_predicate r" "\<forall>x \<in> set rs. enabled x \<longrightarrow> has_predicate x" "add_rule r rs = (ok, rs')"
  shows "length rs' = length rs" "\<forall>x \<in> set rs'. enabled x \<longrightarrow> has_predicate x"
proof -
  have "has_predicate (r\<lparr>enabled := True\<rparr>)" using assms(1) by (simp add: has_predicate_def)
  then show "length rs' = length rs" "\<forall>x \<in> set rs'. enabled x \<longrightarrow> has_predicate x"
    using assms(2,3) rule_slots.claim_Some(3) [of r rs]
    by (auto simp: add_rule_def enable_copy_def dest!: in_set_updateD split: option.splits)
qed

lemma delete_rule_shape:
  assumes "\<forall>x \<in> set rs. enabled x \<longrightarrow> has_predicate x" "delete_rule i rs = (ok, rs')"
  shows "length rs' = length rs" "\<forall>x \<in> set rs'. enabled x \<longrightarrow> has_predicate x"
proof -
  obtain j where "rs' = rs \<or> rs' = rs[j := (rs ! j)\<lparr>enabled := False\<rparr>]"
    using assms(2) by (auto simp: delete_rule_def split: if_splits)
  then have *: "x \<in> set rs' \<Longrightarrow> x \<in> set rs \<or> \<not> enabled x" and "length rs' = length rs" for x
    by (auto dest!: in_set_updateD)
  then show "length rs' = length rs" "\<forall>x \<in> set rs'. enabled x \<longrightarrow> has_predicate x"
    using assms(1) by blast+
qed

text \<open>What a command can do to the firewall.\<close>

lemma parse_command_effects:
  assumes "P fw" "\<And>b. P (fw_enable b fw)" "\<And>i. P (fw\<lparr>rules := snd (delete_rule i (rules fw))\<rparr>)"
    "\<And>r. has_predicate r \<Longrightarrow> P (fw\<lparr>rules := snd (add_rule r (rules fw))\<rparr>)"
  shows "P (snd (parse_command cmd fw))"
  unfolding parse_command_def Let_def case_prod_unfold if_distrib [of snd] snd_conv if_distrib [of P]
  using assms by presburger

text \<open>C32: Every command keeps the rule table well formed: it has its sixteen slots and every enabled
  rule tests something of the packet, so no command can install a rule that applies to all traffic.\<close>

theorem commands_keep_table_shape:
  "table_shape fw \<Longrightarrow> table_shape (snd (parse_command cmd fw))"
proof (rule parse_command_effects)
  assume ok: "table_shape fw"
  show "table_shape (fw\<lparr>rules := snd (delete_rule i (rules fw))\<rparr>)" for i
    using ok delete_rule_shape [of "rules fw" i, OF _ surjective_pairing] by (simp add: table_shape_def)
  show "table_shape (fw\<lparr>rules := snd (add_rule r (rules fw))\<rparr>)" if "has_predicate r" for r
    using ok add_rule_shape [OF that _ surjective_pairing, of "rules fw"] by (simp add: table_shape_def)
qed (simp_all add: table_shape_def fw_enable_def)

theorem commands_keep_table_shape_witness:
  "table_shape (snd (parse_command ''fw add protocol UDP action DROP'' empty_firewall))"
proof (rule commands_keep_table_shape)
  show "table_shape empty_firewall" by (simp add: table_shape_def empty_firewall_def new_rule_def)
qed

end
