(* ===== verification/Tlsf.thy ===== *)
theory Tlsf
  imports Arch_Bits
begin

text \<open>
  The kernel heap of \<open>kernel/mm/memory.hpp\<close>, a two-level segregated fit allocator. Block headers
  are a store indexed by address; a null pointer is \<open>None\<close>. Addresses and sizes are the 32-bit
  \<open>uintptr_t\<close> and \<open>size_t\<close> of the embedded targets, kept as natural numbers with the wrap-around
  written out where an operation can overflow. Interrupt guards and the cycle metrics around
  \<open>allocate\<close> do not touch the heap and are left out. \<open>FL_INDEX_MAX\<close> has the value of all boards but the
  Nucleo L031K6, which sets it to 13.
\<close>

section \<open>Data\<close>

definition wrap32 :: "nat \<Rightarrow> nat" where
  "wrap32 n = n mod 2 ^ 32"

definition sub32 :: "nat \<Rightarrow> nat \<Rightarrow> nat" where
  "sub32 m n = (m + (2 ^ 32 - n)) mod 2 ^ 32"

definition align_down8 :: "nat \<Rightarrow> nat" where
  "align_down8 n = n div 8 * 8"

record block_header =
  magic :: u32
  bsize :: nat
  requested_size :: nat
  is_free :: bool
  prev_phys :: "nat option"
  next_phys :: "nat option"
  next_free :: "nat option"
  prev_free :: "nat option"

definition TLSF_MAGIC :: u32 where "TLSF_MAGIC = 0x544C5346"
definition SL_INDEX_COUNT_LOG2 :: nat where [simp]: "SL_INDEX_COUNT_LOG2 = 4"
definition SL_INDEX_COUNT :: nat where [simp]: "SL_INDEX_COUNT = 16"
definition FL_INDEX_SHIFT :: nat where [simp]: "FL_INDEX_SHIFT = 5"
definition FL_INDEX_MAX :: nat where [simp]: "FL_INDEX_MAX = 24"
definition FL_INDEX_COUNT :: nat where [simp]: "FL_INDEX_COUNT = FL_INDEX_MAX - FL_INDEX_SHIFT + 1"
definition SMALL_BLOCK_SIZE :: nat where [simp]: "SMALL_BLOCK_SIZE = 2 ^ FL_INDEX_SHIFT"
definition BLOCK_HEADER_SIZE :: nat where [simp]: "BLOCK_HEADER_SIZE = 32"
definition SIZE_MAX :: nat where [simp]: "SIZE_MAX = 2 ^ 32 - 1"

record heap =
  fl_bitmap :: u32
  sl_bitmap :: "nat \<Rightarrow> u32"
  blocks :: "nat \<Rightarrow> nat \<Rightarrow> nat option"
  head_block :: "nat option"
  total_free_memory :: nat
  total_size :: nat
  hdr :: "nat \<Rightarrow> block_header"

definition upd_hdr :: "nat \<Rightarrow> (block_header \<Rightarrow> block_header) \<Rightarrow> heap \<Rightarrow> heap" where
  "upd_hdr b f h = h\<lparr>hdr := (hdr h)(b := f (hdr h b))\<rparr>"

definition upd_opt :: "nat option \<Rightarrow> (block_header \<Rightarrow> block_header) \<Rightarrow> heap \<Rightarrow> heap" where
  "upd_opt r f h = (case r of None \<Rightarrow> h | Some b \<Rightarrow> upd_hdr b f h)"

section \<open>Size classes\<close>

text \<open>The guards \<open>fl < 0\<close> cannot fire: a size of at least 32 has its highest bit at 5 or above.\<close>

definition mapping_insert :: "nat \<Rightarrow> nat \<times> nat" where
  "mapping_insert n =
     (if n < SMALL_BLOCK_SIZE
      then let sl = n div (SMALL_BLOCK_SIZE div SL_INDEX_COUNT)
           in (0, if sl \<ge> SL_INDEX_COUNT then SL_INDEX_COUNT - 1 else sl)
      else let msb = nat (find_highest_bit (of_nat n));
               fl = msb - FL_INDEX_SHIFT;
               sl = drop_bit (msb - SL_INDEX_COUNT_LOG2) (n XOR 2 ^ msb)
           in (if fl \<ge> FL_INDEX_COUNT then FL_INDEX_COUNT - 1 else fl,
               if sl \<ge> SL_INDEX_COUNT then SL_INDEX_COUNT - 1 else sl))"

definition mapping_search :: "nat \<Rightarrow> nat \<times> nat" where
  "mapping_search n =
     mapping_insert
       (if n \<ge> SMALL_BLOCK_SIZE
        then let msb = nat (find_highest_bit (of_nat n))
             in wrap32 (n + (2 ^ (msb - SL_INDEX_COUNT_LOG2) - 1))
        else n)"

definition search_suitable_block :: "nat \<Rightarrow> nat \<Rightarrow> heap \<Rightarrow> nat option" where
  "search_suitable_block fl sl h =
     (if fl \<ge> FL_INDEX_COUNT then None
      else
        let sl_map = sl_bitmap h fl AND push_bit sl (NOT 0)
        in if sl_map \<noteq> 0 then blocks h fl (nat (find_lowest_bit sl_map))
           else if fl + 1 \<ge> FL_INDEX_COUNT then None
           else
             let fl_map = fl_bitmap h AND push_bit (fl + 1) (NOT 0)
             in if fl_map = 0 then None
                else let fl' = nat (find_lowest_bit fl_map)
                     in blocks h fl' (nat (find_lowest_bit (sl_bitmap h fl'))))"

section \<open>Free lists\<close>

definition insert_free_block :: "nat \<Rightarrow> heap \<Rightarrow> heap" where
  "insert_free_block b h =
     (case mapping_insert (bsize (hdr h b)) of
        (fl, sl) \<Rightarrow>
          let h1 = upd_hdr b (\<lambda>x. x\<lparr>is_free := True, prev_free := None, next_free := blocks h fl sl\<rparr>) h;
              h2 = upd_opt (blocks h1 fl sl) (\<lambda>x. x\<lparr>prev_free := Some b\<rparr>) h1
          in h2\<lparr>blocks := (blocks h2)(fl := (blocks h2 fl)(sl := Some b)),
                fl_bitmap := fl_bitmap h2 OR bit_of fl,
                sl_bitmap := (sl_bitmap h2)(fl := sl_bitmap h2 fl OR bit_of sl)\<rparr>)"

definition remove_free_block :: "nat \<Rightarrow> heap \<Rightarrow> heap" where
  "remove_free_block b h =
     (case mapping_insert (bsize (hdr h b)) of
        (fl, sl) \<Rightarrow>
          let h1 = (case prev_free (hdr h b) of
                      Some p \<Rightarrow> upd_hdr p (\<lambda>x. x\<lparr>next_free := next_free (hdr h b)\<rparr>) h
                    | None \<Rightarrow> h\<lparr>blocks := (blocks h)(fl := (blocks h fl)(sl := next_free (hdr h b)))\<rparr>);
              h2 = upd_opt (next_free (hdr h1 b)) (\<lambda>x. x\<lparr>prev_free := prev_free (hdr h1 b)\<rparr>) h1;
              h3 = (if blocks h2 fl sl = None
                    then let sm = sl_bitmap h2 fl AND NOT (bit_of sl)
                         in h2\<lparr>sl_bitmap := (sl_bitmap h2)(fl := sm),
                               fl_bitmap := (if sm = 0 then fl_bitmap h2 AND NOT (bit_of fl) else fl_bitmap h2)\<rparr>
                    else h2)
          in upd_hdr b (\<lambda>x. x\<lparr>is_free := False, prev_free := None, next_free := None\<rparr>) h3)"

section \<open>Operations\<close>

text \<open>The panic loop on a region that is too small is \<open>None\<close>.\<close>

definition heap_init :: "nat \<Rightarrow> nat \<Rightarrow> heap \<Rightarrow> heap option" where
  "heap_init start_addr end_addr h =
     (if end_addr \<le> start_addr \<or> end_addr - start_addr < BLOCK_HEADER_SIZE + 8 then None
      else
        let a = align_down8 (wrap32 (start_addr + 7));
            e = align_down8 end_addr;
            h1 = h\<lparr>fl_bitmap := 0, sl_bitmap := (\<lambda>_. 0), blocks := (\<lambda>_ _. None), head_block := Some a\<rparr>;
            h2 = upd_hdr a (\<lambda>x. \<lparr>magic = TLSF_MAGIC, bsize = sub32 e a, requested_size = 0, is_free = True,
                   prev_phys = None, next_phys = None, next_free = None, prev_free = None\<rparr>) h1;
            h3 = h2\<lparr>total_size := sub32 e a, total_free_memory := sub32 (bsize (hdr h2 a)) BLOCK_HEADER_SIZE\<rparr>
        in Some (insert_free_block a h3))"

definition addr_of :: "nat option \<Rightarrow> nat" where
  "addr_of r = (case r of None \<Rightarrow> 0 | Some a \<Rightarrow> a)"

definition get_heap_start :: "heap \<Rightarrow> nat" where
  "get_heap_start h = addr_of (head_block h)"

definition get_heap_end :: "heap \<Rightarrow> nat" where
  "get_heap_end h = wrap32 (addr_of (head_block h) + total_size h)"

partial_function (option) verify_from :: "heap \<Rightarrow> nat option \<Rightarrow> nat option" where
  "verify_from h b =
     (case b of
        None \<Rightarrow> Some 0
      | Some a \<Rightarrow> if magic (hdr h a) \<noteq> TLSF_MAGIC then Some 1 else verify_from h (next_phys (hdr h a)))"

definition verify_integrity :: "heap \<Rightarrow> nat option" where
  "verify_integrity h = verify_from h (head_block h)"

definition contains :: "nat option \<Rightarrow> nat \<Rightarrow> heap \<Rightarrow> bool" where
  "contains ptr len h \<longleftrightarrow>
     (case ptr of
        None \<Rightarrow> False
      | Some p \<Rightarrow>
          head_block h \<noteq> None \<and> total_size h \<noteq> 0 \<and> \<not> wrap32 (p + len) < p
          \<and> p \<ge> get_heap_start h \<and> wrap32 (p + len) \<le> get_heap_end h)"

definition split_phys :: "nat \<Rightarrow> nat \<Rightarrow> heap \<Rightarrow> heap" where
  "split_phys b required h =
     (let r = wrap32 (b + required);
          h1 = upd_hdr r (\<lambda>x. x\<lparr>magic := TLSF_MAGIC, bsize := sub32 (bsize (hdr h b)) required, requested_size := 0,
                 is_free := True, prev_phys := Some b, next_phys := next_phys (hdr h b)\<rparr>) h;
          h2 = upd_opt (next_phys (hdr h1 b)) (\<lambda>x. x\<lparr>prev_phys := Some r\<rparr>) h1
      in upd_hdr b (\<lambda>x. x\<lparr>next_phys := Some r, bsize := required\<rparr>) h2)"

definition split_block :: "nat \<Rightarrow> nat \<Rightarrow> heap \<Rightarrow> heap" where
  "split_block b required h = insert_free_block (wrap32 (b + required)) (split_phys b required h)"

definition allocate_impl :: "nat \<Rightarrow> heap \<Rightarrow> nat option \<times> heap" where
  "allocate_impl sz h =
     (if sz = 0 \<or> sz > SIZE_MAX - 7 - BLOCK_HEADER_SIZE then (None, h)
      else
        let required_space = align_down8 (sz + 7) + BLOCK_HEADER_SIZE
        in case mapping_search required_space of
             (fl, sl) \<Rightarrow>
               (case search_suitable_block fl sl h of
                  None \<Rightarrow> (None, h)
                | Some b \<Rightarrow>
                    let h1 = remove_free_block b h;
                        h2 = (if bsize (hdr h1 b) \<ge> wrap32 (required_space + BLOCK_HEADER_SIZE + 8)
                              then split_block b required_space h1 else h1);
                        h3 = upd_hdr b (\<lambda>x. x\<lparr>is_free := False, requested_size := sz\<rparr>) h2;
                        h4 = h3\<lparr>total_free_memory := sub32 (total_free_memory h3) (sub32 (bsize (hdr h3 b)) BLOCK_HEADER_SIZE)\<rparr>
                    in (Some (wrap32 (b + BLOCK_HEADER_SIZE)), h4)))"

text \<open>Both merges let the left block take over the right one.\<close>

definition absorb :: "nat \<Rightarrow> nat \<Rightarrow> heap \<Rightarrow> heap" where
  "absorb b n h =
     (let h1 = upd_hdr b (\<lambda>x. x\<lparr>bsize := wrap32 (bsize x + bsize (hdr h n)), next_phys := next_phys (hdr h n)\<rparr>) h
      in upd_opt (next_phys (hdr h1 n)) (\<lambda>x. x\<lparr>prev_phys := Some b\<rparr>) h1)"

definition merge_next :: "nat \<Rightarrow> heap \<Rightarrow> heap" where
  "merge_next b h =
     (case next_phys (hdr h b) of
        None \<Rightarrow> h
      | Some n \<Rightarrow>
          if is_free (hdr h n) \<and> magic (hdr h n) = TLSF_MAGIC then absorb b n (remove_free_block n h) else h)"

definition merge_prev :: "nat \<Rightarrow> heap \<Rightarrow> nat \<times> heap" where
  "merge_prev b h =
     (case prev_phys (hdr h b) of
        None \<Rightarrow> (b, h)
      | Some p \<Rightarrow>
          if is_free (hdr h p) \<and> magic (hdr h p) = TLSF_MAGIC then (p, absorb p b (remove_free_block p h)) else (b, h))"

definition deallocate :: "nat option \<Rightarrow> heap \<Rightarrow> heap" where
  "deallocate ptr h =
     (case ptr of
        None \<Rightarrow> h
      | Some p \<Rightarrow>
          let b = sub32 p BLOCK_HEADER_SIZE
          in if b < get_heap_start h \<or> b \<ge> get_heap_end h then h
             else if magic (hdr h b) \<noteq> TLSF_MAGIC then h
             else if is_free (hdr h b) then h
             else
               let h1 = upd_hdr b (\<lambda>x. x\<lparr>is_free := True, requested_size := 0\<rparr>) h;
                   h2 = h1\<lparr>total_free_memory := wrap32 (total_free_memory h1 + sub32 (bsize (hdr h1 b)) BLOCK_HEADER_SIZE)\<rparr>
               in case merge_prev b (merge_next b h2) of (b', h3) \<Rightarrow> insert_free_block b' h3)"

definition get_requested_size :: "nat option \<Rightarrow> heap \<Rightarrow> nat" where
  "get_requested_size ptr h =
     (case ptr of
        None \<Rightarrow> 0
      | Some p \<Rightarrow>
          let b = sub32 p BLOCK_HEADER_SIZE
          in if b < get_heap_start h \<or> b \<ge> get_heap_end h \<or> is_free (hdr h b) \<or> magic (hdr h b) \<noteq> TLSF_MAGIC
             then 0 else requested_size (hdr h b))"

section \<open>Examples\<close>

definition blank_header :: block_header where
  "blank_header = \<lparr>magic = 0, bsize = 0, requested_size = 0, is_free = False, prev_phys = None, next_phys = None,
     next_free = None, prev_free = None\<rparr>"

definition blank_heap :: heap where
  "blank_heap = \<lparr>fl_bitmap = 0, sl_bitmap = (\<lambda>_. 0), blocks = (\<lambda>_ _. None), head_block = None,
     total_free_memory = 0, total_size = 0, hdr = (\<lambda>_. blank_header)\<rparr>"
section \<open>Size classes bound the sizes\<close>

abbreviation msb :: "nat \<Rightarrow> nat" where
  "msb n \<equiv> nat (find_highest_bit (of_nat n))"

lemma msb_eq:
  assumes "2 ^ m \<le> n" "n < 2 ^ Suc m" "m < 32"
  shows "msb n = m"
proof -
  have d: "n div 2 ^ m = 1" using assms(1,2) by (simp add: div_nat_eqI)
  have "bit n m" using d by (simp add: bit_iff_odd)
  moreover have "\<not> bit n j" if "m < j" for j
  proof -
    have "(2 :: nat) ^ Suc m \<le> 2 ^ j" using that by (intro power_increasing) simp_all
    then have "n div 2 ^ j = 0" using assms(2) by simp
    then show ?thesis by (simp add: bit_iff_odd)
  qed
  ultimately have "find_highest_bit (of_nat n) = int m"
    using assms(3) by (simp add: find_highest_bit_eq bit_simps)
  then show ?thesis by simp
qed

lemma msb_bounds:
  assumes "0 < n" "n < 2 ^ 32"
  shows "2 ^ msb n \<le> n" "n < 2 * 2 ^ msb n" "msb n < 32"
proof -
  obtain m where m: "2 ^ m \<le> n" "n < 2 ^ Suc m"
    using ex_power_ivl1 [of 2 n] assms(1) by auto
  have "m < 32"
  proof (rule ccontr)
    assume "\<not> m < 32"
    then have "(2 :: nat) ^ 32 \<le> 2 ^ m" by (intro power_increasing) simp_all
    then show False using m(1) assms(2) by linarith
  qed
  with msb_eq [OF m] m show "2 ^ msb n \<le> n" "n < 2 * 2 ^ msb n" "msb n < 32" by simp_all
qed

lemma msb_ge: "2 ^ k \<le> n \<Longrightarrow> n < 2 ^ 32 \<Longrightarrow> k \<le> msb n"
proof (rule ccontr)
  assume a: "2 ^ k \<le> n" "n < 2 ^ 32" "\<not> k \<le> msb n"
  then have "(2 :: nat) ^ Suc (msb n) \<le> 2 ^ k" by (intro power_increasing) simp_all
  then show False using a msb_bounds(2) [of n] by (cases "n = 0") auto
qed

lemma xor_msb:
  fixes n :: nat
  assumes "2 ^ m \<le> n" "n < 2 ^ Suc m"
  shows "n XOR 2 ^ m = n - 2 ^ m"
proof -
  have "n div 2 ^ m = 1" using assms by (simp add: div_nat_eqI)
  then have "n = 2 ^ m + n mod 2 ^ m" by (metis mult_1_right div_mult_mod_eq mult.commute)
  then have "n - 2 ^ m = take_bit m n" unfolding take_bit_eq_mod by simp
  moreover have "n XOR 2 ^ m = take_bit m n"
  proof (rule bit_eqI)
    fix j
    have "j < m \<or> j = m \<or> m < j" by auto
    moreover have "bit n m" using \<open>n div 2 ^ m = 1\<close> by (simp add: bit_iff_odd)
    moreover have "\<not> bit n j" if "m < j"
    proof -
      have "(2 :: nat) ^ Suc m \<le> 2 ^ j" using that by (intro power_increasing) simp_all
      then have "n div 2 ^ j = 0" using assms(2) by simp
      then show ?thesis by (simp add: bit_iff_odd)
    qed
    ultimately show "bit (n XOR 2 ^ m) j = bit (take_bit m n) j" by (auto simp: bit_simps)
  qed
  ultimately show ?thesis by simp
qed

text \<open>The smallest size of a class.\<close>

definition low :: "nat \<Rightarrow> nat \<Rightarrow> nat" where
  "low f s = (16 + s) * 2 ^ Suc f"

lemma mapping_insert_large:
  assumes "32 \<le> n" "n < 2 ^ 32"
  shows "mapping_insert n = (min (msb n - 5) 19, (n - 2 ^ msb n) div 2 ^ (msb n - 4))"
    "5 \<le> msb n" "(n - 2 ^ msb n) div 2 ^ (msb n - 4) < 16"
proof -
  show m: "5 \<le> msb n" using msb_ge [of 5 n] assms by simp
  note b = msb_bounds [OF _ assms(2)]
  have "(2 :: nat) ^ msb n = 16 * 2 ^ (msb n - 4)" using m power_add [of "2 :: nat" 4 "msb n - 4"] by simp
  then show s: "(n - 2 ^ msb n) div 2 ^ (msb n - 4) < 16"
    using b assms(1) by (intro less_mult_imp_div_less) linarith
  have "n XOR 2 ^ msb n = n - 2 ^ msb n" using b assms(1) by (intro xor_msb) auto
  then show "mapping_insert n = (min (msb n - 5) 19, (n - 2 ^ msb n) div 2 ^ (msb n - 4))"
    using assms(1) s by (simp add: mapping_insert_def Let_def drop_bit_eq_div)
qed

lemma mapping_insert_range:
  assumes "n < 2 ^ 32" "mapping_insert n = (f, s)"
  shows "f < 20" "s < 16"
proof -
  have "f < 20 \<and> s < 16"
  proof (cases "n < 32")
    case True
    then show ?thesis using assms(2) by (auto simp: mapping_insert_def Let_def)
  next
    case False
    then show ?thesis using mapping_insert_large [of n] assms by auto
  qed
  then show "f < 20" "s < 16" by auto
qed

lemma class_bounds:
  assumes "32 \<le> n" "n < 2 ^ 25" "mapping_insert n = (f, s)"
  shows "low f s \<le> n" "n < low f (Suc s)" "s < 16"
proof -
  have lt: "n < 2 ^ 32" using assms(2) by simp
  note b = msb_bounds [OF _ lt] and l = mapping_insert_large [OF assms(1) lt]
  have "msb n \<le> 24"
  proof (rule ccontr)
    assume "\<not> msb n \<le> 24"
    then have "(2 :: nat) ^ 25 \<le> 2 ^ msb n" by (intro power_increasing) simp_all
    then show False using b(1) assms by linarith
  qed
  then have f: "f = msb n - 5" and s: "s = (n - 2 ^ msb n) div 2 ^ (msb n - 4)" using l(1) assms(3) by auto
  have e: "Suc f = msb n - 4" using f l(2) by simp
  have p: "(2 :: nat) ^ msb n = 16 * 2 ^ Suc f" using l(2) power_add [of "2 :: nat" 4 "msb n - 4"] by (simp add: e)
  let ?k = "n - 2 ^ msb n"
  have k: "n = 16 * 2 ^ Suc f + ?k" using b(1) assms(1) p by simp
  have "s * 2 ^ Suc f \<le> ?k" unfolding s e by simp
  moreover have "?k < Suc s * 2 ^ Suc f" unfolding s e by (simp add: dividend_less_div_times)
  ultimately show "low f s \<le> n" "n < low f (Suc s)" "s < 16"
    using k l(3) by (simp_all add: low_def algebra_simps s)
qed

lemma low_mono:
  assumes "f < f' \<or> f = f' \<and> s \<le> s'" "s \<le> 16"
  shows "low f s \<le> low f' s'"
proof (cases "f = f'")
  case False
  then have "Suc (Suc f) \<le> Suc f'" using assms by simp
  then have "(2 :: nat) ^ Suc (Suc f) \<le> 2 ^ Suc f'" by (intro power_increasing) simp_all
  then have "16 * 2 ^ Suc (Suc f) \<le> low f' s'" unfolding low_def by (intro mult_le_mono) simp_all
  moreover have "low f s \<le> 32 * 2 ^ Suc f" unfolding low_def using assms(2) by (intro mult_le_mono) simp_all
  ultimately show ?thesis by simp
qed (use assms in \<open>simp add: low_def\<close>)
text \<open>
  A search rounds up, so that every block of the class it asks for, or of a later one, is large
  enough, in a heap of less than 16 MiB and for requests below the wrap-around.
\<close>

definition max_required :: nat where
  "max_required = 0xF8000000"

definition rounded :: "nat \<Rightarrow> nat" where
  "rounded r = r + (2 ^ (msb r - 4) - 1)"

lemma rounded_bounds:
  assumes "32 \<le> r" "r \<le> max_required"
  shows "r \<le> rounded r" "rounded r < 2 ^ 32" "rounded r \<le> r + r div 16" "mapping_search r = mapping_insert (rounded r)"
proof -
  have lt: "r < 2 ^ 32" using assms by (simp add: max_required_def)
  note b = msb_bounds [OF _ lt]
  have m: "5 \<le> msb r" using msb_ge [of 5 r] assms(1) lt by simp
  have p: "(2 :: nat) ^ msb r = 16 * 2 ^ (msb r - 4)" using m power_add [of "2 :: nat" 4 "msb r - 4"] by simp
  have "1 \<le> (2 :: nat) ^ (msb r - 4)" by simp
  then show "r \<le> rounded r" unfolding rounded_def by linarith
  have "2 ^ (msb r - 4) \<le> r div 16" using b(1) assms(1) p by linarith
  then show "rounded r \<le> r + r div 16" unfolding rounded_def by linarith
  have "(2 :: nat) ^ (msb r - 4) \<le> 2 ^ 27" using b(3) assms(1) by (intro power_increasing) auto
  then show w: "rounded r < 2 ^ 32" using assms(2) unfolding rounded_def max_required_def by simp
  show "mapping_search r = mapping_insert (rounded r)"
    using assms(1) w by (simp add: mapping_search_def Let_def wrap32_def rounded_def)
qed

lemma low_rounded:
  assumes "32 \<le> r" "r \<le> max_required" "rounded r < 2 ^ 25" "mapping_insert (rounded r) = (f, s)"
  shows "r \<le> low f s"
proof -
  note rb = rounded_bounds [OF assms(1,2)]
  have n: "32 \<le> rounded r" using rb(1) assms(1) by simp
  note c = class_bounds [OF n assms(3,4)]
  have lt: "r < 2 ^ 32" using rb by simp
  note b = msb_bounds [OF _ lt] and b' = msb_bounds [OF _ rb(2)]
  have ge: "msb r \<le> msb (rounded r)" using b(1) rb(1,2) assms(1) by (intro msb_ge) auto
  have f: "Suc f = msb (rounded r) - 4"
  proof -
    have "msb (rounded r) \<le> 24"
    proof (rule ccontr)
      assume "\<not> ?thesis"
      then have "(2 :: nat) ^ 25 \<le> 2 ^ msb (rounded r)" by (intro power_increasing) simp_all
      then show False using b'(1) assms(1,3) rb(1) by linarith
    qed
    then have "f = msb (rounded r) - 5" using mapping_insert_large(1) [OF n rb(2)] assms(4) by simp
    then show ?thesis using mapping_insert_large(2) [OF n rb(2)] by simp
  qed
  show ?thesis
  proof (cases "msb (rounded r) = msb r")
    case True
    then have "rounded r = r + (2 ^ Suc f - 1)" by (simp add: rounded_def f)
    moreover have "rounded r < low f s + 2 ^ Suc f" using c(2) by (simp add: low_def algebra_simps)
    ultimately have "r < low f s + 1" using zero_less_power [of "2 :: nat" "Suc f"] by linarith
    then show ?thesis by simp
  next
    case False
    then have "Suc (msb r) \<le> msb (rounded r)" using ge by simp
    then have "(2 :: nat) ^ Suc (msb r) \<le> 2 ^ msb (rounded r)" by (intro power_increasing) simp_all
    moreover have "low f 0 = 2 ^ msb (rounded r)"
      using f mapping_insert_large(2) [OF n rb(2)] power_add [of "2 :: nat" 4 "Suc f"] by (simp add: low_def)
    moreover have "low f 0 \<le> low f s" by (simp add: low_def)
    ultimately show ?thesis using b(2) assms(1) by simp
  qed
qed

definition class_le :: "nat \<times> nat \<Rightarrow> nat \<times> nat \<Rightarrow> bool" where
  "class_le c d \<longleftrightarrow> fst c < fst d \<or> fst c = fst d \<and> snd c \<le> snd d"

lemma small_class:
  assumes "32 \<le> z" "z < 2 ^ 24"
  shows "fst (mapping_insert z) < 19"
proof -
  have lt: "z < 2 ^ 32" using assms by simp
  have "msb z < 24"
  proof (rule ccontr)
    assume "\<not> msb z < 24"
    then have "(2 :: nat) ^ 24 \<le> 2 ^ msb z" by (intro power_increasing) simp_all
    then show False using msb_bounds(1) [OF _ lt] assms by linarith
  qed
  then show ?thesis using mapping_insert_large [OF assms(1) lt] by auto
qed

lemma large_class: "2 ^ 24 \<le> n \<Longrightarrow> n < 2 ^ 32 \<Longrightarrow> fst (mapping_insert n) = 19"
  using mapping_insert_large [of n] msb_ge [of 24 n] by simp

lemma class_fits:
  assumes "32 \<le> r" "r \<le> max_required" "32 \<le> z" "z < 2 ^ 24" "class_le (mapping_search r) (mapping_insert z)"
  shows "r \<le> z"
proof -
  note rb = rounded_bounds [OF assms(1,2)]
  have "rounded r < 2 ^ 24"
    using small_class [OF assms(3,4)] large_class [OF _ rb(2)] assms(5) rb(4) by (fastforce simp: class_le_def)
  then have lt: "rounded r < 2 ^ 25" by simp
  obtain f s f' s' where e: "mapping_insert (rounded r) = (f, s)" "mapping_insert z = (f', s')" by fastforce
  have "s \<le> 16" using mapping_insert_range [OF rb(2) e(1)] by simp
  then have "low f s \<le> low f' s'" using assms(5) e rb(4) by (intro low_mono) (auto simp: class_le_def)
  then show ?thesis using low_rounded [OF assms(1,2) lt e(1)] class_bounds(1) [OF assms(3) _ e(2)] assms(4) by simp
qed

lemma class_found:
  assumes "32 \<le> r" "r \<le> max_required" "rounded r \<le> z" "z < 2 ^ 24"
  shows "class_le (mapping_search r) (mapping_insert z)"
proof (rule ccontr)
  note rb = rounded_bounds [OF assms(1,2)]
  obtain f s f' s' where e: "mapping_insert (rounded r) = (f, s)" "mapping_insert z = (f', s')" by fastforce
  assume "\<not> ?thesis"
  then have "f' < f \<or> f' = f \<and> Suc s' \<le> s" using e rb(4) by (auto simp: class_le_def)
  moreover have n: "32 \<le> rounded r" "rounded r < 2 ^ 25" "32 \<le> z" "z < 2 ^ 25" using rb(1) assms by auto
  ultimately have "low f' (Suc s') \<le> low f s"
    using class_bounds(3) [OF n(3,4) e(2)] by (intro low_mono) auto
  then show False using class_bounds(1) [OF n(1,2) e(1)] class_bounds(2) [OF n(3,4) e(2)] assms(3) by simp
qed

end
