(* ===== verification/Tlsf_Lists.thy ===== *)
theory Tlsf_Lists
  imports Tlsf
begin

text \<open>
  The free lists of the heap: one doubly linked list per size class, found through the two bitmaps.
  Inserting and removing a block act on the lists like consing and deleting, and leave the physical
  structure of the heap alone; the search returns the head of a class that is large enough.
\<close>

named_theorems heap_simps \<open>field access after header updates\<close>

lemma upd_hdr_fields [heap_simps]:
  "hdr (upd_hdr b f h) x = (if x = b then f (hdr h b) else hdr h x)"
  "blocks (upd_hdr b f h) = blocks h" "fl_bitmap (upd_hdr b f h) = fl_bitmap h"
  "sl_bitmap (upd_hdr b f h) = sl_bitmap h" "head_block (upd_hdr b f h) = head_block h"
  "total_free_memory (upd_hdr b f h) = total_free_memory h" "total_size (upd_hdr b f h) = total_size h"
  by (simp_all add: upd_hdr_def)

lemma upd_opt_fields [heap_simps]:
  "hdr (upd_opt r f h) x = (if r = Some x then f (hdr h x) else hdr h x)"
  "blocks (upd_opt r f h) = blocks h" "fl_bitmap (upd_opt r f h) = fl_bitmap h"
  "sl_bitmap (upd_opt r f h) = sl_bitmap h" "head_block (upd_opt r f h) = head_block h"
  "total_free_memory (upd_opt r f h) = total_free_memory h" "total_size (upd_opt r f h) = total_size h"
  by (auto simp: upd_opt_def heap_simps split: option.split)

section \<open>Doubly linked lists\<close>

definition first_of :: "nat list \<Rightarrow> nat option \<Rightarrow> nat option" where
  "first_of xs q = (case xs of [] \<Rightarrow> q | x # _ \<Rightarrow> Some x)"

definition last_of :: "nat option \<Rightarrow> nat list \<Rightarrow> nat option" where
  "last_of p xs = (if xs = [] then p else Some (last xs))"

lemma first_of_simps [simp]:
  "first_of [] q = q" "first_of (x # xs) q = Some x" "first_of (xs @ ys) q = first_of xs (first_of ys q)"
  by (cases xs; simp add: first_of_def)+

lemma last_of_simps [simp]:
  "last_of p [] = p" "last_of p (x # xs) = last_of (Some x) xs" "last_of p (xs @ ys) = last_of (last_of p xs) ys"
  by (auto simp: last_of_def)

fun dll :: "heap \<Rightarrow> nat option \<Rightarrow> nat list \<Rightarrow> nat option \<Rightarrow> bool" where
  "dll h p [] q \<longleftrightarrow> True"
| "dll h p (b # bs) q \<longleftrightarrow> prev_free (hdr h b) = p \<and> next_free (hdr h b) = first_of bs q \<and> dll h (Some b) bs q"

lemma dll_append: "dll h p (xs @ ys) q \<longleftrightarrow> dll h p xs (first_of ys q) \<and> dll h (last_of p xs) ys q"
  by (induction xs arbitrary: p) auto

lemma dll_cong:
  assumes "\<forall>b \<in> set xs. next_free (hdr h' b) = next_free (hdr h b) \<and> prev_free (hdr h' b) = prev_free (hdr h b)"
  shows "dll h' p xs q = dll h p xs q"
  using assms by (induction xs arbitrary: p) auto

lemma dll_relink_prev:
  assumes "dll h p xs q" "distinct xs" "\<forall>x \<in> set xs. next_free (hdr h' x) = next_free (hdr h x)"
    "\<forall>x \<in> set xs. prev_free (hdr h' x) = (if first_of xs None = Some x then p' else prev_free (hdr h x))"
  shows "dll h' p' xs q"
proof (cases xs)
  case (Cons b bs)
  then have "dll h' (Some b) bs q = dll h (Some b) bs q" using assms by (intro dll_cong) auto
  then show ?thesis using assms Cons by auto
qed simp

lemma dll_relink_next:
  assumes "dll h p xs q" "distinct xs" "\<forall>x \<in> set xs. prev_free (hdr h' x) = prev_free (hdr h x)"
    "\<forall>x \<in> set xs. next_free (hdr h' x) = (if last_of None xs = Some x then q' else next_free (hdr h x))"
  shows "dll h' p xs q'"
proof (cases xs rule: rev_cases)
  case (snoc bs b)
  then have "dll h' p bs (Some b) = dll h p bs (Some b)" using assms by (intro dll_cong) auto
  then show ?thesis using assms snoc by (auto simp: dll_append)
qed simp

section \<open>The lists of a heap\<close>

type_synonym classes = "nat \<times> nat \<Rightarrow> nat list"

definition class_of :: "heap \<Rightarrow> nat \<Rightarrow> nat \<times> nat" where
  "class_of h b = mapping_insert (bsize (hdr h b))"

definition free_set :: "classes \<Rightarrow> nat set" where
  "free_set fs = {b. \<exists>f < 20. \<exists>s < 16. b \<in> set (fs (f, s))}"

definition lists_ok :: "heap \<Rightarrow> classes \<Rightarrow> bool" where
  "lists_ok h fs \<longleftrightarrow>
     (\<forall>f < 20. \<forall>s < 16. blocks h f s = first_of (fs (f, s)) None \<and> dll h None (fs (f, s)) None \<and> distinct (fs (f, s))
        \<and> (\<forall>b \<in> set (fs (f, s)). class_of h b = (f, s)))"

definition bits_ok :: "heap \<Rightarrow> classes \<Rightarrow> bool" where
  "bits_ok h fs \<longleftrightarrow>
     (\<forall>f < 20. \<forall>s. bit (sl_bitmap h f) s \<longleftrightarrow> s < 16 \<and> fs (f, s) \<noteq> [])
     \<and> (\<forall>f. bit (fl_bitmap h) f \<longleftrightarrow> f < 20 \<and> (\<exists>s < 16. fs (f, s) \<noteq> []))"

definition free_rep :: "heap \<Rightarrow> classes \<Rightarrow> bool" where
  "free_rep h fs \<longleftrightarrow> lists_ok h fs \<and> bits_ok h fs"

lemma lists_okD:
  assumes "lists_ok h fs" "f < 20" "s < 16"
  shows "blocks h f s = first_of (fs (f, s)) None" "dll h None (fs (f, s)) None" "distinct (fs (f, s))"
    "b \<in> set (fs (f, s)) \<Longrightarrow> class_of h b = (f, s)"
  using assms unfolding lists_ok_def by auto

lemma free_setI: "b \<in> set (fs (f, s)) \<Longrightarrow> f < 20 \<Longrightarrow> s < 16 \<Longrightarrow> b \<in> free_set fs"
  by (auto simp: free_set_def)

lemma free_set_class:
  assumes "lists_ok h fs" "b \<in> free_set fs"
  obtains f s where "class_of h b = (f, s)" "f < 20" "s < 16" "b \<in> set (fs (f, s))"
  using assms lists_okD(4) by (force simp: free_set_def)

lemma free_rep_cong:
  assumes "free_rep h fs" "blocks h' = blocks h" "fl_bitmap h' = fl_bitmap h" "sl_bitmap h' = sl_bitmap h"
    and hd: "\<And>b. b \<in> free_set fs \<Longrightarrow> next_free (hdr h' b) = next_free (hdr h b) \<and> prev_free (hdr h' b) = prev_free (hdr h b)
      \<and> bsize (hdr h' b) = bsize (hdr h b)"
  shows "free_rep h' fs"
proof -
  have "dll h' None (fs (f, s)) None = dll h None (fs (f, s)) None" if "f < 20" "s < 16" for f s
    using hd free_setI [OF _ that] by (intro dll_cong) blast
  moreover have "class_of h' b = class_of h b" if "b \<in> free_set fs" for b
    using hd [OF that] by (simp add: class_of_def)
  ultimately have "lists_ok h' fs"
    using assms(1,2) free_setI [of _ fs] unfolding free_rep_def lists_ok_def by auto
  moreover have "bits_ok h' fs" using assms(1,3,4) by (simp add: free_rep_def bits_ok_def)
  ultimately show ?thesis by (simp add: free_rep_def)
qed

text \<open>Two heaps that differ only in their free lists, their bitmaps and the flag of one block.\<close>

definition same_phys :: "nat \<Rightarrow> bool \<Rightarrow> heap \<Rightarrow> heap \<Rightarrow> bool" where
  "same_phys b v h h' \<longleftrightarrow>
     head_block h' = head_block h \<and> total_free_memory h' = total_free_memory h \<and> total_size h' = total_size h
     \<and> (\<forall>x. magic (hdr h' x) = magic (hdr h x) \<and> bsize (hdr h' x) = bsize (hdr h x)
          \<and> requested_size (hdr h' x) = requested_size (hdr h x) \<and> prev_phys (hdr h' x) = prev_phys (hdr h x)
          \<and> next_phys (hdr h' x) = next_phys (hdr h x) \<and> is_free (hdr h' x) = (if x = b then v else is_free (hdr h x)))"

lemma same_physD:
  assumes "same_phys b v h h'"
  shows "head_block h' = head_block h" "total_free_memory h' = total_free_memory h" "total_size h' = total_size h"
    "magic (hdr h' x) = magic (hdr h x)" "bsize (hdr h' x) = bsize (hdr h x)"
    "requested_size (hdr h' x) = requested_size (hdr h x)" "prev_phys (hdr h' x) = prev_phys (hdr h x)"
    "next_phys (hdr h' x) = next_phys (hdr h x)" "is_free (hdr h' x) = (if x = b then v else is_free (hdr h x))"
    "class_of h' x = class_of h x"
  using assms by (auto simp: same_phys_def class_of_def)

section \<open>Insertion\<close>

lemma insert_same_phys: "same_phys b True h (insert_free_block b h)"
  by (auto simp: insert_free_block_def same_phys_def Let_def heap_simps split: prod.split)

lemma insert_links:
  assumes "class_of h b = (f, s)" "blocks h f s \<noteq> Some b"
  shows "next_free (hdr (insert_free_block b h) x) = (if x = b then blocks h f s else next_free (hdr h x))"
    "prev_free (hdr (insert_free_block b h) x) = (if x = b then None else if blocks h f s = Some x then Some b else prev_free (hdr h x))"
    "blocks (insert_free_block b h) f' s' = (if (f', s') = (f, s) then Some b else blocks h f' s')"
    "fl_bitmap (insert_free_block b h) = fl_bitmap h OR bit_of f"
    "sl_bitmap (insert_free_block b h) f' = (if f' = f then sl_bitmap h f OR bit_of s else sl_bitmap h f')"
  using assms by (auto simp: insert_free_block_def class_of_def Let_def heap_simps)

lemma insert_free_rep:
  assumes rep: "free_rep h fs" and b: "b \<notin> free_set fs" and c: "class_of h b = (f, s)" "f < 20" "s < 16"
  shows "free_rep (insert_free_block b h) (fs((f, s) := b # fs (f, s)))" (is "free_rep ?h ?fs")
proof -
  have l: "lists_ok h fs" and bo: "bits_ok h fs" using rep by (auto simp: free_rep_def)
  note d = lists_okD [OF l]
  have hb: "blocks h f s \<noteq> Some b"
    using d(1) [OF c(2,3)] b free_setI [OF _ c(2,3), of b fs] by (cases "fs (f, s)") auto
  note ins = insert_links [OF c(1) hb]
  have mem: "x \<in> set (fs (f', s')) \<Longrightarrow> f' < 20 \<Longrightarrow> s' < 16 \<Longrightarrow> x \<noteq> b" for x f' s'
    using b free_setI by blast
  have "lists_ok ?h ?fs"
    unfolding lists_ok_def
  proof (intro allI impI)
    fix f' s' :: nat
    assume r: "f' < 20" "s' < 16"
    show "blocks ?h f' s' = first_of (?fs (f', s')) None \<and> dll ?h None (?fs (f', s')) None \<and> distinct (?fs (f', s'))
        \<and> (\<forall>b \<in> set (?fs (f', s')). class_of ?h b = (f', s'))"
    proof (cases "(f', s') = (f, s)")
      case True
      have "dll ?h (Some b) (fs (f, s)) None"
        using d(3) [OF c(2,3)] d(1) [OF c(2,3)] mem [OF _ c(2,3)] by (intro dll_relink_prev [OF d(2) [OF c(2,3)]]) (auto simp: ins)
      moreover have "b \<notin> set (fs (f, s))" using mem [OF _ c(2,3)] by blast
      ultimately show ?thesis
        using True d [OF c(2,3)] c(1) by (auto simp: ins same_physD(10) [OF insert_same_phys])
    next
      case False
      have "blocks h f s \<noteq> Some x" if "x \<in> set (fs (f', s'))" for x
      proof
        assume "blocks h f s = Some x"
        then have "x \<in> set (fs (f, s))" using d(1) [OF c(2,3)] by (cases "fs (f, s)") auto
        then show False using d(4) [OF c(2,3)] d(4) [OF r that] False by auto
      qed
      then have "dll ?h None (fs (f', s')) None = dll h None (fs (f', s')) None"
        using mem [OF _ r] by (intro dll_cong) (auto simp: ins)
      then show ?thesis using False d [OF r] by (auto simp: ins same_physD(10) [OF insert_same_phys])
    qed
  qed
  moreover have "bits_ok ?h ?fs"
    using bo c(2,3) unfolding bits_ok_def by (auto simp: ins bit_or_bit_of simp del: push_bit_of_1)
  ultimately show ?thesis by (simp add: free_rep_def)
qed

lemma free_set_insert: "f < 20 \<Longrightarrow> s < 16 \<Longrightarrow> free_set (fs((f, s) := b # fs (f, s))) = insert b (free_set fs)"
  by (auto simp: free_set_def split: if_splits)
section \<open>Removal\<close>

lemma u32_zero_iff: "w = 0 \<longleftrightarrow> (\<forall>n. \<not> bit w n)" for w :: u32
  using u32_bit_exists by auto

lemma remove_same_phys: "same_phys b False h (remove_free_block b h)"
  by (auto simp: remove_free_block_def same_phys_def Let_def heap_simps split: prod.split option.split)

lemma remove_links:
  assumes "class_of h b = (f, s)" "prev_free (hdr h b) = p" "next_free (hdr h b) = n" "p \<noteq> Some b" "n \<noteq> Some b"
  shows "next_free (hdr (remove_free_block b h) x) = (if x = b then None else if p = Some x then n else next_free (hdr h x))"
    "prev_free (hdr (remove_free_block b h) x) = (if x = b then None else if n = Some x then p else prev_free (hdr h x))"
    "blocks (remove_free_block b h) f' s' = (if (f', s') = (f, s) \<and> p = None then n else blocks h f' s')"
  using assms by (auto simp: remove_free_block_def class_of_def Let_def heap_simps split: option.split)

lemma remove_bitmaps:
  assumes "class_of h b = (f, s)" "prev_free (hdr h b) = p" "next_free (hdr h b) = n" "p \<noteq> Some b" "n \<noteq> Some b"
  shows "sl_bitmap (remove_free_block b h) f' =
      (if f' = f \<and> (if p = None then n else blocks h f s) = None then sl_bitmap h f AND NOT (bit_of s) else sl_bitmap h f')"
    "fl_bitmap (remove_free_block b h) =
      (if (if p = None then n else blocks h f s) = None \<and> sl_bitmap h f AND NOT (bit_of s) = 0
       then fl_bitmap h AND NOT (bit_of f) else fl_bitmap h)"
  using assms by (auto simp: remove_free_block_def class_of_def Let_def heap_simps simp del: push_bit_of_1 split: option.split)

lemma remove_links_list:
  assumes l: "lists_ok h fs" and c: "f < 20" "s < 16" and e: "fs (f, s) = xs @ b # ys"
  shows "class_of h b = (f, s)" "prev_free (hdr h b) = last_of None xs" "next_free (hdr h b) = first_of ys None"
    "last_of None xs \<noteq> Some b" "first_of ys None \<noteq> Some b"
proof -
  note d = lists_okD [OF l c]
  show "class_of h b = (f, s)" using d(4) e by simp
  have "dll h None (xs @ b # ys) None" using d(2) e by simp
  then show "prev_free (hdr h b) = last_of None xs" "next_free (hdr h b) = first_of ys None" by (simp_all add: dll_append)
  have di: "b \<notin> set xs" "b \<notin> set ys" using d(3) e by auto
  show "last_of None xs \<noteq> Some b" using di(1) by (auto simp: last_of_def)
  show "first_of ys None \<noteq> Some b" using di(2) by (cases ys) auto
qed

lemma remove_free_rep:
  assumes rep: "free_rep h fs" and c: "f < 20" "s < 16" and e: "fs (f, s) = xs @ b # ys"
  shows "free_rep (remove_free_block b h) (fs((f, s) := xs @ ys))" (is "free_rep ?h ?fs")
proof -
  have l: "lists_ok h fs" and bo: "bits_ok h fs" using rep by (auto simp: free_rep_def)
  note d = lists_okD [OF l] and r = remove_links_list [OF l c e]
  note rem = remove_links [OF r] and bm = remove_bitmaps [OF r]
  have dl: "dll h None xs (Some b)" "dll h (Some b) ys None" and di: "distinct xs" "distinct ys" "b \<notin> set xs" "b \<notin> set ys"
      "set xs \<inter> set ys = {}"
    using d(2,3) [OF c] e by (auto simp: dll_append)
  have lx: "last_of None xs = Some x \<Longrightarrow> x \<in> set xs" for x by (auto simp: last_of_def split: if_splits)
  have fy: "first_of ys None = Some x \<Longrightarrow> x \<in> set ys" for x by (cases ys) auto
  have "lists_ok ?h ?fs"
    unfolding lists_ok_def
  proof (intro allI impI)
    fix f' s' :: nat
    assume rg: "f' < 20" "s' < 16"
    show "blocks ?h f' s' = first_of (?fs (f', s')) None \<and> dll ?h None (?fs (f', s')) None \<and> distinct (?fs (f', s'))
        \<and> (\<forall>b \<in> set (?fs (f', s')). class_of ?h b = (f', s'))"
    proof (cases "(f', s') = (f, s)")
      case True
      have "dll ?h None xs (first_of ys None)"
        using dl(1) di fy by (intro dll_relink_next [OF dl(1)]) (auto simp: rem)
      moreover have "dll ?h (last_of None xs) ys None"
        using dl(2) di lx by (intro dll_relink_prev [OF dl(2)]) (auto simp: rem)
      moreover have "blocks ?h f s = first_of (xs @ ys) None"
        using d(1) [OF c] e by (cases xs) (auto simp: rem last_of_def)
      ultimately show ?thesis
        using True d(3,4) [OF c] e by (auto simp: dll_append same_physD(10) [OF remove_same_phys])
    next
      case False
      have "x \<notin> set (fs (f, s))" if "x \<in> set (fs (f', s'))" for x
        using d(4) [OF c] d(4) [OF rg that] False by auto
      then have "dll ?h None (fs (f', s')) None = dll h None (fs (f', s')) None"
        using e lx fy by (intro dll_cong) (auto simp: rem)
      then show ?thesis using False d [OF rg] by (auto simp: rem same_physD(10) [OF remove_same_phys])
    qed
  qed
  moreover have "bits_ok ?h ?fs"
  proof -
    have em: "(if last_of None xs = None then first_of ys None else blocks h f s) = None \<longleftrightarrow> xs = [] \<and> ys = []"
      using d(1) [OF c] e by (cases xs; cases ys) (auto simp: last_of_def)
    have slb: "bit (sl_bitmap h g) t \<longleftrightarrow> t < 16 \<and> fs (g, t) \<noteq> []" if "g < 20" for g t
      using bo that by (auto simp: bits_ok_def)
    have z: "sl_bitmap h f AND NOT (bit_of s) = 0 \<longleftrightarrow> (\<forall>t < 16. t \<noteq> s \<longrightarrow> fs (f, t) = [])"
      unfolding u32_zero_iff using slb [OF c(1)] by (auto simp: bit_and_not_bit_of simp del: push_bit_of_1)
    have "bit (sl_bitmap ?h g) t \<longleftrightarrow> t < 16 \<and> ?fs (g, t) \<noteq> []" if "g < 20" for g t
      using slb [OF that, of t] e by (auto simp: bm em bit_and_not_bit_of simp del: push_bit_of_1)
    moreover have "bit (fl_bitmap ?h) g \<longleftrightarrow> g < 20 \<and> (\<exists>t < 16. ?fs (g, t) \<noteq> [])" for g
    proof (cases "g = f")
      case True
      have "bit (fl_bitmap h) f" using bo c e by (auto simp: bits_ok_def)
      then show ?thesis using True c e
        by (auto simp: bm em z bit_and_not_bit_of simp del: push_bit_of_1)
    next
      case False
      have "bit (fl_bitmap h) g \<longleftrightarrow> g < 20 \<and> (\<exists>t < 16. fs (g, t) \<noteq> [])" using bo by (simp add: bits_ok_def)
      then show ?thesis using False by (auto simp: bm bit_and_not_bit_of simp del: push_bit_of_1)
    qed
    ultimately show ?thesis by (simp add: bits_ok_def)
  qed
  ultimately show ?thesis by (simp add: free_rep_def)
qed

lemma free_set_remove:
  assumes "lists_ok h fs" "f < 20" "s < 16" "fs (f, s) = xs @ b # ys"
  shows "free_set (fs((f, s) := xs @ ys)) = free_set fs - {b}"
proof -
  have u: "b \<in> set (fs (f', s')) \<Longrightarrow> f' < 20 \<Longrightarrow> s' < 16 \<Longrightarrow> (f', s') = (f, s)" for f' s'
  proof -
    assume "b \<in> set (fs (f', s'))" "f' < 20" "s' < 16"
    then have "class_of h b = (f', s')" by (intro lists_okD(4) [OF assms(1)])
    moreover have "class_of h b = (f, s)" using assms(4) by (intro lists_okD(4) [OF assms(1-3)]) simp
    ultimately show "(f', s') = (f, s)" by simp
  qed
  have "b \<notin> set (xs @ ys)" using lists_okD(3) [OF assms(1-3)] assms(4) by auto
  then have s: "set (xs @ ys) = set (fs (f, s)) - {b}" using assms(4) by auto
  define fs' where "fs' = fs((f, s) := xs @ ys)"
  have "set (fs' (f', s')) = set (fs (f', s')) - {b}" if r: "f' < 20" "s' < 16" for f' s'
  proof (cases "(f', s') = (f, s)")
    case True
    then show ?thesis using s by (simp add: fs'_def)
  next
    case False
    then have "b \<notin> set (fs (f', s'))" using u r by blast
    then show ?thesis using False by (auto simp: fs'_def)
  qed
  then have "free_set fs' = free_set fs - {b}" unfolding free_set_def by blast
  then show ?thesis by (simp add: fs'_def)
qed

text \<open>Removing any block of the lists.\<close>

lemma remove_block:
  assumes "free_rep h fs" "b \<in> free_set fs"
  obtains fs' where "free_rep (remove_free_block b h) fs'" "free_set fs' = free_set fs - {b}"
proof -
  have l: "lists_ok h fs" using assms(1) by (simp add: free_rep_def)
  obtain f s where c: "f < 20" "s < 16" "b \<in> set (fs (f, s))" using free_set_class [OF l assms(2)] by metis
  obtain xs ys where e: "fs (f, s) = xs @ b # ys" using c(3) by (meson split_list)
  show ?thesis using that [OF remove_free_rep [OF assms(1) c(1,2) e] free_set_remove [OF l c(1,2) e]] .
qed

lemma insert_block:
  assumes "free_rep h fs" "b \<notin> free_set fs" "bsize (hdr h b) < 2 ^ 32"
  obtains fs' where "free_rep (insert_free_block b h) fs'" "free_set fs' = insert b (free_set fs)"
proof -
  obtain f s where c: "class_of h b = (f, s)" by fastforce
  then have r: "f < 20" "s < 16" using mapping_insert_range [OF assms(3)] by (auto simp: class_of_def)
  show ?thesis using that [OF insert_free_rep [OF assms(1,2) c r] free_set_insert [OF r]] .
qed

section \<open>Search\<close>

lemma bit_tail_mask: "bit (w AND push_bit n (NOT 0)) k \<longleftrightarrow> n \<le> k \<and> bit w k" for w :: u32
  using bit_imp_le_length [of w k] by (auto simp: bit_simps)

lemma find_lowest_ex: "w \<noteq> 0 \<Longrightarrow> \<exists>t. find_lowest_bit w = int t \<and> bit w t"
  by (metis find_lowest_bit_obtain)

lemma search_finds:
  assumes rep: "free_rep h fs" and "fl < 20" "sl < 16"
  shows "case search_suitable_block fl sl h of
      None \<Rightarrow> \<forall>b \<in> free_set fs. \<not> class_le (fl, sl) (class_of h b)
    | Some b \<Rightarrow> b \<in> free_set fs \<and> class_le (fl, sl) (class_of h b)"
proof -
  have l: "lists_ok h fs" and bo: "bits_ok h fs" using rep by (auto simp: free_rep_def)
  have slb: "bit (sl_bitmap h g) t \<longleftrightarrow> t < 16 \<and> fs (g, t) \<noteq> []" if "g < 20" for g t
    using bo that by (auto simp: bits_ok_def)
  have flb: "bit (fl_bitmap h) g \<longleftrightarrow> g < 20 \<and> (\<exists>s < 16. fs (g, s) \<noteq> [])" for g using bo by (simp add: bits_ok_def)
  have found: "\<exists>b. blocks h g t = Some b \<and> b \<in> free_set fs \<and> class_of h b = (g, t)"
    if "g < 20" "t < 16" "fs (g, t) \<noteq> []" for g t
  proof (cases "fs (g, t)")
    case (Cons b bs)
    then have "b \<in> set (fs (g, t))" "blocks h g t = Some b" using lists_okD(1) [OF l that(1,2)] by auto
    then show ?thesis using free_setI [OF _ that(1,2)] lists_okD(4) [OF l that(1,2)] by blast
  qed (use that in simp)
  define sm where "sm = sl_bitmap h fl AND push_bit sl (NOT 0)"
  define fm where "fm = fl_bitmap h AND push_bit (fl + 1) (NOT 0)"
  have smb: "bit sm t \<longleftrightarrow> sl \<le> t \<and> t < 16 \<and> fs (fl, t) \<noteq> []" for t
    unfolding sm_def bit_tail_mask slb [OF assms(2)] by blast
  have fmb: "bit fm g \<longleftrightarrow> fl < g \<and> g < 20 \<and> (\<exists>s < 16. fs (g, s) \<noteq> [])" for g
    unfolding fm_def bit_tail_mask flb by auto
  have search: "search_suitable_block fl sl h =
      (if sm \<noteq> 0 then blocks h fl (nat (find_lowest_bit sm))
       else if 20 \<le> fl + 1 \<or> fm = 0 then None
       else blocks h (nat (find_lowest_bit fm)) (nat (find_lowest_bit (sl_bitmap h (nat (find_lowest_bit fm))))))"
    unfolding search_suitable_block_def Let_def sm_def [symmetric] fm_def [symmetric] using assms(2) by simp
  show ?thesis
  proof (cases "sm = 0")
    case False
    then obtain t where t: "find_lowest_bit sm = int t" "bit sm t" using find_lowest_ex [OF False] by blast
    then have "sl \<le> t" "t < 16" "fs (fl, t) \<noteq> []" using smb [of t] by auto
    then obtain b where "blocks h fl t = Some b" "b \<in> free_set fs" "class_of h b = (fl, t)" using found [OF assms(2)] by blast
    then show ?thesis using False t(1) assms(2) \<open>sl \<le> t\<close> by (simp add: search class_le_def)
  next
    case sm: True
    have none: "\<not> (sl \<le> t \<and> t < 16 \<and> fs (fl, t) \<noteq> [])" for t
      using sm smb [of t] by simp
    show ?thesis
    proof (cases "fl + 1 < 20 \<and> fm \<noteq> 0")
      case True
      then obtain g where g: "find_lowest_bit fm = int g" "bit fm g" using find_lowest_ex [of fm] by blast
      then have gr: "fl < g" "g < 20" "\<exists>t < 16. fs (g, t) \<noteq> []" using fmb [of g] by auto
      then have "sl_bitmap h g \<noteq> 0" using slb [OF gr(2)] by (auto simp: u32_zero_iff)
      then obtain t where t: "find_lowest_bit (sl_bitmap h g) = int t" "bit (sl_bitmap h g) t"
        using find_lowest_ex by blast
      then have "t < 16" "fs (g, t) \<noteq> []" using slb [OF gr(2)] by auto
      then obtain b where "blocks h g t = Some b" "b \<in> free_set fs" "class_of h b = (g, t)" using found [OF gr(2)] by blast
      then show ?thesis using sm True g(1) t(1) gr(1) assms(2)
        by (simp add: search class_le_def)
    next
      case False
      have "\<not> class_le (fl, sl) (class_of h b)" if bf: "b \<in> free_set fs" for b
      proof -
        obtain f s where c: "class_of h b = (f, s)" "f < 20" "s < 16" "b \<in> set (fs (f, s))"
          by (rule free_set_class [OF l bf])
        then have "fl < f \<longleftrightarrow> bit fm f" using fmb [of f] by fastforce
        then have "\<not> fl < f" using False c(2) by auto
        moreover have "fl = f \<Longrightarrow> \<not> sl \<le> s" using none [of s] c by auto
        ultimately show ?thesis using c(1) by (auto simp: class_le_def)
      qed
      moreover have "search_suitable_block fl sl h = None"
        using sm False by (auto simp: search)
      ultimately show ?thesis by simp
    qed
  qed
qed

end
