(* ===== verification/Tlsf_Heap.thy ===== *)
theory Tlsf_Heap
  imports Tlsf_Lists
begin

text \<open>
  The physical structure of the heap: the blocks tile the region in address order, free neighbours
  are merged, and the free lists hold exactly the free blocks. The operations are proved by taking
  one block out of this structure, changing it and its neighbours, and putting it back.
\<close>

section \<open>Chains of blocks\<close>

definition block_ok :: "block_header \<Rightarrow> bool" where
  "block_ok x \<longleftrightarrow> magic x = TLSF_MAGIC \<and> 32 \<le> bsize x \<and> bsize x mod 8 = 0"

definition phys_link :: "nat \<Rightarrow> nat \<Rightarrow> nat option" where
  "phys_link E x = (if x = E then None else Some x)"

fun seg :: "heap \<Rightarrow> nat \<Rightarrow> nat option \<Rightarrow> nat \<Rightarrow> nat list \<Rightarrow> nat \<Rightarrow> bool" where
  "seg h E p a [] e \<longleftrightarrow> a = e"
| "seg h E p a (b # bs) e \<longleftrightarrow>
     b = a \<and> block_ok (hdr h b) \<and> prev_phys (hdr h b) = p \<and> next_phys (hdr h b) = phys_link E (b + bsize (hdr h b))
     \<and> seg h E (Some b) (b + bsize (hdr h b)) bs e"

lemma seg_append: "seg h E p a (xs @ ys) e \<longleftrightarrow> (\<exists>m. seg h E p a xs m \<and> seg h E (last_of p xs) m ys e)"
  by (induction xs arbitrary: p a) auto

lemma seg_le: "seg h E p a xs e \<Longrightarrow> a \<le> e"
  by (induction xs arbitrary: p a) force+

lemma seg_first: "seg h E p a xs e \<Longrightarrow> xs \<noteq> [] \<Longrightarrow> hd xs = a"
  by (cases xs) auto

lemma seg_bounds:
  assumes "seg h E p a xs e" "b \<in> set xs"
  shows "a \<le> b" "b + bsize (hdr h b) \<le> e" "block_ok (hdr h b)"
  using assms
proof (atomize (full), induction xs arbitrary: p a)
  case (Cons c cs)
  then show ?case using seg_le [of h E "Some c" "c + bsize (hdr h c)" cs e] by fastforce
qed simp

lemma seg_cong:
  assumes "\<And>b. b \<in> set xs \<Longrightarrow> magic (hdr h' b) = magic (hdr h b) \<and> bsize (hdr h' b) = bsize (hdr h b)
      \<and> prev_phys (hdr h' b) = prev_phys (hdr h b) \<and> next_phys (hdr h' b) = next_phys (hdr h b)"
  shows "seg h' E p a xs e = seg h E p a xs e"
  using assms by (induction xs arbitrary: p a) (auto simp: block_ok_def)

lemma seg_disjoint:
  assumes "seg h E p a xs e" "b \<in> set xs" "c \<in> set xs" "b \<noteq> c"
  shows "b + bsize (hdr h b) \<le> c \<or> c + bsize (hdr h c) \<le> b"
  using assms
proof (induction xs arbitrary: p a)
  case (Cons d ds)
  have s: "seg h E (Some d) (d + bsize (hdr h d)) ds e" using Cons.prems(1) unfolding seg.simps by blast
  show ?case using Cons.IH [OF s] Cons.prems(2-4) seg_bounds(1) [OF s] by auto
qed simp

lemma seg_distinct: "seg h E p a xs e \<Longrightarrow> distinct xs"
proof (induction xs arbitrary: p a)
  case (Cons b bs)
  then have s: "seg h E (Some b) (b + bsize (hdr h b)) bs e" and "32 \<le> bsize (hdr h b)" by (auto simp: block_ok_def)
  then have "b \<notin> set bs" using seg_bounds(1) [OF s, of b] by auto
  then show ?case using Cons.IH [OF s] by simp
qed simp

text \<open>The first block of a chain is given another predecessor.\<close>

lemma seg_relink:
  assumes "seg h E p a xs e" "\<And>b. b \<in> set xs \<Longrightarrow> magic (hdr h' b) = magic (hdr h b) \<and> bsize (hdr h' b) = bsize (hdr h b)
      \<and> prev_phys (hdr h' b) = (if b = a then p' else prev_phys (hdr h b)) \<and> next_phys (hdr h' b) = next_phys (hdr h b)"
  shows "seg h' E p' a xs e"
proof (cases xs)
  case (Cons b bs)
  then have b: "b = a" "a \<notin> set bs" using assms(1) seg_distinct [OF assms(1)] by auto
  then have "seg h' E (Some a) (a + bsize (hdr h a)) bs e = seg h E (Some a) (a + bsize (hdr h a)) bs e"
    using assms(2) Cons by (intro seg_cong) auto
  then show ?thesis using assms Cons b(1) by (auto simp: block_ok_def)
qed (use assms in simp)

lemma seg_total: "seg h E p a xs e \<Longrightarrow> e = a + (\<Sum>b \<leftarrow> xs. bsize (hdr h b))"
  by (induction xs arbitrary: p a) (simp, fastforce)

section \<open>The invariant\<close>

definition used_of :: "heap \<Rightarrow> nat list \<Rightarrow> (nat \<times> nat) set" where
  "used_of h bs = {(b, requested_size (hdr h b)) | b. b \<in> set bs \<and> \<not> is_free (hdr h b)}"

definition used_bytes :: "heap \<Rightarrow> nat list \<Rightarrow> nat" where
  "used_bytes h bs = (\<Sum>b \<leftarrow> bs. if is_free (hdr h b) then 0 else bsize (hdr h b) - 32)"

definition apart :: "heap \<Rightarrow> nat list \<Rightarrow> bool" where
  "apart h bs \<longleftrightarrow> successively (\<lambda>b c. \<not> (is_free (hdr h b) \<and> is_free (hdr h c))) bs"

definition frame_ok :: "heap \<Rightarrow> nat \<Rightarrow> bool" where
  "frame_ok h a \<longleftrightarrow> head_block h = Some a \<and> 0 < a \<and> a mod 8 = 0 \<and> total_size h < 2 ^ 24 \<and> a + total_size h < 2 ^ 32"

definition granted :: "heap \<Rightarrow> nat \<Rightarrow> bool" where
  "granted h b \<longleftrightarrow> is_free (hdr h b) \<or> 0 < requested_size (hdr h b) \<and> requested_size (hdr h b) + 32 \<le> bsize (hdr h b)"

definition heap_inv :: "heap \<Rightarrow> nat list \<Rightarrow> bool" where
  "heap_inv h bs \<longleftrightarrow> (\<exists>a fs.
     frame_ok h a \<and> bs \<noteq> [] \<and> seg h (a + total_size h) None a bs (a + total_size h)
     \<and> free_rep h fs \<and> free_set fs = {b \<in> set bs. is_free (hdr h b)} \<and> apart h bs
     \<and> total_free_memory h + used_bytes h bs + 32 = total_size h \<and> (\<forall>b \<in> set bs. granted h b))"

text \<open>The heap with one block taken out: it is in no free list and not accounted for.\<close>

definition focus :: "heap \<Rightarrow> nat \<Rightarrow> nat list \<Rightarrow> nat \<Rightarrow> nat list \<Rightarrow> classes \<Rightarrow> bool" where
  "focus h a xs b ys fs \<longleftrightarrow>
     frame_ok h a \<and> seg h (a + total_size h) None a (xs @ b # ys) (a + total_size h)
     \<and> free_rep h fs \<and> free_set fs = {x \<in> set (xs @ ys). is_free (hdr h x)} \<and> apart h xs \<and> apart h ys
     \<and> total_free_memory h + used_bytes h (xs @ ys) + 32 = total_size h \<and> (\<forall>x \<in> set (xs @ ys). granted h x)"

lemma focus_parts:
  assumes "focus h a xs b ys fs"
  shows "frame_ok h a" "seg h (a + total_size h) None a (xs @ b # ys) (a + total_size h)" "free_rep h fs"
    "free_set fs = {x \<in> set (xs @ ys). is_free (hdr h x)}" "apart h xs" "apart h ys"
    "total_free_memory h + used_bytes h (xs @ ys) + 32 = total_size h" "x \<in> set (xs @ ys) \<Longrightarrow> granted h x"
    "b \<notin> set xs" "b \<notin> set ys" "distinct (xs @ b # ys)" "b \<notin> free_set fs"
proof -
  show s: "seg h (a + total_size h) None a (xs @ b # ys) (a + total_size h)"
    and fr: "free_set fs = {x \<in> set (xs @ ys). is_free (hdr h x)}"
    using assms by (auto simp: focus_def)
  show d: "distinct (xs @ b # ys)" by (rule seg_distinct [OF s])
  then show "b \<notin> set xs" "b \<notin> set ys" by auto
  then show "b \<notin> free_set fs" using fr by simp
qed (use assms in \<open>auto simp: focus_def\<close>)

text \<open>Everything but the chain and the lists depends only on the flags, sizes and requests of the others.\<close>

lemma others_cong:
  assumes "\<And>x. x \<in> set zs \<Longrightarrow> is_free (hdr h' x) = is_free (hdr h x) \<and> bsize (hdr h' x) = bsize (hdr h x)
      \<and> requested_size (hdr h' x) = requested_size (hdr h x)"
  shows "used_of h' zs = used_of h zs" "used_bytes h' zs = used_bytes h zs" "apart h' zs = apart h zs"
    "x \<in> set zs \<Longrightarrow> granted h' x = granted h x"
proof -
  show "used_of h' zs = used_of h zs" using assms by (force simp: used_of_def)
  show "used_bytes h' zs = used_bytes h zs" unfolding used_bytes_def using assms by (intro arg_cong [where f = sum_list] map_cong) auto
  show "apart h' zs = apart h zs" unfolding apart_def using assms by (intro successively_cong) auto
qed (use assms in \<open>auto simp: granted_def\<close>)

lemma used_of_simps:
  "used_of h [] = {}" "used_of h (xs @ ys) = used_of h xs \<union> used_of h ys"
  "used_of h (x # xs) = (if is_free (hdr h x) then {} else {(x, requested_size (hdr h x))}) \<union> used_of h xs"
  by (auto simp: used_of_def)

lemma used_bytes_simps:
  "used_bytes h [] = 0" "used_bytes h (xs @ ys) = used_bytes h xs + used_bytes h ys"
  "used_bytes h (x # xs) = (if is_free (hdr h x) then 0 else bsize (hdr h x) - 32) + used_bytes h xs"
  by (auto simp: used_bytes_def)

lemma apart_simps:
  "apart h []" "apart h [x]"
  "apart h (xs @ ys) \<longleftrightarrow> apart h xs \<and> apart h ys \<and> (xs = [] \<or> ys = [] \<or> \<not> (is_free (hdr h (last xs)) \<and> is_free (hdr h (hd ys))))"
  "apart h (x # ys) \<longleftrightarrow> apart h ys \<and> (ys = [] \<or> \<not> (is_free (hdr h x) \<and> is_free (hdr h (hd ys))))"
  by (auto simp: apart_def successively_append_iff successively_Cons)
section \<open>Taking a block out\<close>

lemma heap_inv_size:
  assumes "frame_ok h a" "seg h (a + total_size h) None a bs (a + total_size h)" "b \<in> set bs"
  shows "bsize (hdr h b) < 2 ^ 24" "32 \<le> bsize (hdr h b)" "b + bsize (hdr h b) < 2 ^ 32" "0 < b"
  using seg_bounds [OF assms(2,3)] assms(1) by (auto simp: frame_ok_def block_ok_def)

lemma take_free:
  assumes "heap_inv h (xs @ b # ys)" "is_free (hdr h b)"
  obtains a fs where "focus (remove_free_block b h) a xs b ys fs"
    "used_of (remove_free_block b h) (xs @ ys) = used_of h (xs @ b # ys)"
    "ys \<noteq> [] \<Longrightarrow> \<not> is_free (hdr (remove_free_block b h) (hd ys))"
proof -
  let ?h = "remove_free_block b h"
  note sp = same_physD [OF remove_same_phys [of b h]]
  obtain a fs where f: "frame_ok h a" and s: "seg h (a + total_size h) None a (xs @ b # ys) (a + total_size h)"
    and r: "free_rep h fs" and fs: "free_set fs = {x \<in> set (xs @ b # ys). is_free (hdr h x)}" and ap: "apart h (xs @ b # ys)"
    and tf: "total_free_memory h + used_bytes h (xs @ b # ys) + 32 = total_size h"
    and g: "\<forall>x \<in> set (xs @ b # ys). granted h x"
    using assms(1) unfolding heap_inv_def by blast
  have d: "distinct (xs @ b # ys)" by (rule seg_distinct [OF s])
  obtain fs' where r': "free_rep ?h fs'" "free_set fs' = free_set fs - {b}"
    using remove_block [OF r] fs assms(2) by auto
  have same: "x \<in> set (xs @ ys) \<Longrightarrow> is_free (hdr ?h x) = is_free (hdr h x) \<and> bsize (hdr ?h x) = bsize (hdr h x)
      \<and> requested_size (hdr ?h x) = requested_size (hdr h x)" for x
    using d by (auto simp: sp)
  have s': "seg ?h (a + total_size ?h) None a (xs @ b # ys) (a + total_size ?h)"
    using s seg_cong [of "xs @ b # ys" ?h h] by (simp add: sp)
  have "free_set fs' = {x \<in> set (xs @ ys). is_free (hdr ?h x)}" using r'(2) fs d by (auto simp: sp)
  moreover have "frame_ok ?h a" using f by (simp add: frame_ok_def sp)
  moreover have "apart h xs" "apart h ys" using ap by (auto simp: apart_simps)
  then have "apart ?h xs" "apart ?h ys" using others_cong(3) [of xs ?h h] others_cong(3) [of ys ?h h] same by auto
  moreover have "total_free_memory ?h + used_bytes ?h (xs @ ys) + 32 = total_size ?h"
    using tf assms(2) others_cong(2) [OF same] by (simp add: sp used_bytes_simps)
  moreover have "\<forall>x \<in> set (xs @ ys). granted ?h x" using g others_cong(4) [OF same] by auto
  ultimately have "focus ?h a xs b ys fs'" unfolding focus_def using r'(1) s' by blast
  moreover have "used_of ?h (xs @ ys) = used_of h (xs @ b # ys)"
    using others_cong(1) [OF same] assms(2) by (simp add: used_of_simps)
  moreover have "ys \<noteq> [] \<Longrightarrow> \<not> is_free (hdr ?h (hd ys))"
    using ap assms(2) same [of "hd ys"] by (auto simp: apart_simps)
  ultimately show ?thesis using that by blast
qed

section \<open>Putting it back\<close>

lemma put_free:
  assumes f: "focus h a xs b ys fs"
    and n: "ys \<noteq> [] \<Longrightarrow> \<not> is_free (hdr h (hd ys))" "xs \<noteq> [] \<Longrightarrow> \<not> is_free (hdr h (last xs))"
  shows "heap_inv (insert_free_block b h) (xs @ b # ys)"
    "used_of (insert_free_block b h) (xs @ b # ys) = used_of h (xs @ ys)"
proof -
  let ?h = "insert_free_block b h"
  note p = focus_parts [OF f] and sp = same_physD [OF insert_same_phys [of b h]]
  have "bsize (hdr h b) < 2 ^ 32" using heap_inv_size(1) [OF p(1,2), of b] by simp
  then obtain fs' where r: "free_rep ?h fs'" "free_set fs' = insert b (free_set fs)"
    by (rule insert_block [OF p(3,12)])
  have same: "x \<in> set (xs @ ys) \<Longrightarrow> is_free (hdr ?h x) = is_free (hdr h x) \<and> bsize (hdr ?h x) = bsize (hdr h x)
      \<and> requested_size (hdr ?h x) = requested_size (hdr h x)" for x
    using p(9,10) by (auto simp: sp)
  have "seg ?h (a + total_size ?h) None a (xs @ b # ys) (a + total_size ?h)"
    using p(2) seg_cong [of "xs @ b # ys" ?h h] by (simp add: sp)
  moreover have "frame_ok ?h a" using p(1) by (simp add: frame_ok_def sp)
  moreover have "free_set fs' = {x \<in> set (xs @ b # ys). is_free (hdr ?h x)}" using r(2) p(4,9,10) by (auto simp: sp)
  moreover have "apart ?h xs" "apart ?h ys" using p(5,6) others_cong(3) [of xs ?h h] others_cong(3) [of ys ?h h] same by auto
  then have "apart ?h (xs @ b # ys)" using n same [of "hd ys"] same [of "last xs"] by (auto simp: apart_simps)
  moreover have "total_free_memory ?h + used_bytes ?h (xs @ b # ys) + 32 = total_size ?h"
    using p(7) others_cong(2) [OF same] by (simp add: sp used_bytes_simps)
  moreover have "\<forall>x \<in> set (xs @ b # ys). granted ?h x"
  proof -
    have "granted ?h b" by (simp add: granted_def sp)
    moreover have "x \<in> set (xs @ ys) \<Longrightarrow> granted ?h x" for x using p(8) others_cong(4) [OF same] by blast
    ultimately show ?thesis by auto
  qed
  ultimately show "heap_inv ?h (xs @ b # ys)" unfolding heap_inv_def using r(1) by blast
  show "used_of ?h (xs @ b # ys) = used_of h (xs @ ys)"
    using others_cong(1) [OF same] by (simp add: used_of_simps sp)
qed

lemma used_bytes_le: "seg h E p a xs e \<Longrightarrow> used_bytes h xs + 32 * length xs \<le> e - a"
proof (induction xs arbitrary: p a)
  case (Cons b bs)
  then have s: "seg h E (Some b) (b + bsize (hdr h b)) bs e" and b: "a = b" "32 \<le> bsize (hdr h b)" by (auto simp: block_ok_def)
  show ?case using Cons.IH [OF s] b seg_le [OF s] by (auto simp: used_bytes_simps)
qed (simp add: used_bytes_simps)

text \<open>The block is handed out.\<close>

definition hand_out :: "nat \<Rightarrow> nat \<Rightarrow> heap \<Rightarrow> heap" where
  "hand_out b sz h =
     (let h3 = upd_hdr b (\<lambda>x. x\<lparr>is_free := False, requested_size := sz\<rparr>) h
      in h3\<lparr>total_free_memory := sub32 (total_free_memory h3) (sub32 (bsize (hdr h3 b)) BLOCK_HEADER_SIZE)\<rparr>)"

lemma sub32_eq: "n \<le> m \<Longrightarrow> m < 2 ^ 32 \<Longrightarrow> sub32 m n = m - n"
proof -
  assume "n \<le> m" "m < 2 ^ 32"
  then have "m + (2 ^ 32 - n) = (m - n) + 2 ^ 32" by simp
  then have "sub32 m n = (m - n) mod 2 ^ 32" unfolding sub32_def by (simp only: mod_add_self2)
  then show ?thesis using \<open>m < 2 ^ 32\<close> by simp
qed

lemma put_used:
  assumes f: "focus h a xs b ys fs" and sz: "0 < sz" "sz + 32 \<le> bsize (hdr h b)"
  shows "heap_inv (hand_out b sz h) (xs @ b # ys)"
    "used_of (hand_out b sz h) (xs @ b # ys) = insert (b, sz) (used_of h (xs @ ys))"
proof -
  define h' where "h' = hand_out b sz h"
  note p = focus_parts [OF f]
  have hd: "hdr h' x = (if x = b then (hdr h b)\<lparr>is_free := False, requested_size := sz\<rparr> else hdr h x)" for x
    by (simp add: h'_def hand_out_def Let_def heap_simps)
  have fl: "blocks h' = blocks h" "fl_bitmap h' = fl_bitmap h" "sl_bitmap h' = sl_bitmap h" "head_block h' = head_block h"
      "total_size h' = total_size h"
    by (simp_all add: h'_def hand_out_def Let_def heap_simps)
  note z = heap_inv_size [OF p(1,2), of b]
  have same: "x \<in> set (xs @ ys) \<Longrightarrow> is_free (hdr h' x) = is_free (hdr h x) \<and> bsize (hdr h' x) = bsize (hdr h x)
      \<and> requested_size (hdr h' x) = requested_size (hdr h x)" for x
    using p(9,10) by (auto simp: hd)
  have s: "seg h' (a + total_size h') None a (xs @ b # ys) (a + total_size h')"
    using p(2) seg_cong [of "xs @ b # ys" h' h] by (simp add: hd fl)
  have ub: "used_bytes h' (xs @ b # ys) = used_bytes h (xs @ ys) + (bsize (hdr h b) - 32)"
    using others_cong(2) [OF same] by (simp add: used_bytes_simps hd)
  have le: "used_bytes h' (xs @ b # ys) + 32 \<le> total_size h" using used_bytes_le [OF s] fl(5) by simp
  have "total_free_memory h' = total_free_memory h - (bsize (hdr h b) - 32)"
  proof -
    have "sub32 (bsize (hdr h b)) 32 = bsize (hdr h b) - 32" using z by (intro sub32_eq) auto
    moreover have "bsize (hdr h b) - 32 \<le> total_free_memory h" using le ub p(7) by linarith
    moreover have "total_free_memory h < 2 ^ 32" using p(1,7) by (simp add: frame_ok_def)
    ultimately show ?thesis by (simp add: h'_def hand_out_def Let_def heap_simps sub32_eq)
  qed
  then have tf: "total_free_memory h' + used_bytes h' (xs @ b # ys) + 32 = total_size h'"
    using le ub p(7) fl(5) by linarith
  have "free_rep h' fs" using p(12) by (intro free_rep_cong [OF p(3)]) (auto simp: hd fl)
  moreover have "frame_ok h' a" using p(1) by (simp add: frame_ok_def fl)
  moreover have "free_set fs = {x \<in> set (xs @ b # ys). is_free (hdr h' x)}" using p(4,9,10) by (auto simp: hd)
  moreover have "apart h' xs" "apart h' ys" using p(5,6) others_cong(3) [of xs h' h] others_cong(3) [of ys h' h] same by auto
  then have "apart h' (xs @ b # ys)" by (auto simp: apart_simps hd)
  moreover have "\<forall>x \<in> set (xs @ b # ys). granted h' x"
  proof -
    have "granted h' b" using sz by (simp add: granted_def hd)
    moreover have "x \<in> set (xs @ ys) \<Longrightarrow> granted h' x" for x using p(8) others_cong(4) [OF same] by blast
    ultimately show ?thesis by auto
  qed
  ultimately have "heap_inv h' (xs @ b # ys)" unfolding heap_inv_def using s tf by blast
  moreover have "used_of h' (xs @ b # ys) = insert (b, sz) (used_of h (xs @ ys))"
    using others_cong(1) [OF same] by (auto simp: used_of_simps hd)
  ultimately show "heap_inv (hand_out b sz h) (xs @ b # ys)"
    "used_of (hand_out b sz h) (xs @ b # ys) = insert (b, sz) (used_of h (xs @ ys))" by (simp_all add: h'_def)
qed
section \<open>Giving a block back\<close>

definition give_back :: "nat \<Rightarrow> heap \<Rightarrow> heap" where
  "give_back b h =
     (let h1 = upd_hdr b (\<lambda>x. x\<lparr>is_free := True, requested_size := 0\<rparr>) h
      in h1\<lparr>total_free_memory := wrap32 (total_free_memory h1 + sub32 (bsize (hdr h1 b)) BLOCK_HEADER_SIZE)\<rparr>)"

lemma take_used:
  assumes "heap_inv h (xs @ b # ys)" "\<not> is_free (hdr h b)"
  obtains a fs where "focus (give_back b h) a xs b ys fs"
    "used_of (give_back b h) (xs @ ys) = used_of h (xs @ b # ys) - {(b, requested_size (hdr h b))}"
proof -
  define h' where "h' = give_back b h"
  obtain a fs where f: "frame_ok h a" and s: "seg h (a + total_size h) None a (xs @ b # ys) (a + total_size h)"
    and r: "free_rep h fs" and fs: "free_set fs = {x \<in> set (xs @ b # ys). is_free (hdr h x)}" and ap: "apart h (xs @ b # ys)"
    and tf: "total_free_memory h + used_bytes h (xs @ b # ys) + 32 = total_size h"
    and g: "\<forall>x \<in> set (xs @ b # ys). granted h x"
    using assms(1) unfolding heap_inv_def by blast
  have d: "distinct (xs @ b # ys)" by (rule seg_distinct [OF s])
  have hd: "hdr h' x = (if x = b then (hdr h b)\<lparr>is_free := True, requested_size := 0\<rparr> else hdr h x)" for x
    by (simp add: h'_def give_back_def Let_def heap_simps)
  have fl: "blocks h' = blocks h" "fl_bitmap h' = fl_bitmap h" "sl_bitmap h' = sl_bitmap h" "head_block h' = head_block h"
      "total_size h' = total_size h"
    by (simp_all add: h'_def give_back_def Let_def heap_simps)
  note z = heap_inv_size [OF f s, of b]
  have same: "x \<in> set (xs @ ys) \<Longrightarrow> is_free (hdr h' x) = is_free (hdr h x) \<and> bsize (hdr h' x) = bsize (hdr h x)
      \<and> requested_size (hdr h' x) = requested_size (hdr h x)" for x
    using d by (auto simp: hd)
  have s': "seg h' (a + total_size h') None a (xs @ b # ys) (a + total_size h')"
    using s seg_cong [of "xs @ b # ys" h' h] by (simp add: hd fl)
  have ub: "used_bytes h (xs @ b # ys) = used_bytes h' (xs @ ys) + (bsize (hdr h b) - 32)"
    using others_cong(2) [OF same] assms(2) by (simp add: used_bytes_simps)
  have "total_free_memory h' = total_free_memory h + (bsize (hdr h b) - 32)"
  proof -
    have "sub32 (bsize (hdr h b)) 32 = bsize (hdr h b) - 32" using z by (intro sub32_eq) auto
    moreover have "total_free_memory h + (bsize (hdr h b) - 32) < 2 ^ 32" using tf ub f by (simp add: frame_ok_def)
    ultimately show ?thesis by (simp add: h'_def give_back_def Let_def heap_simps wrap32_def)
  qed
  then have tf': "total_free_memory h' + used_bytes h' (xs @ ys) + 32 = total_size h'" using ub tf fl(5) by linarith
  have "free_rep h' fs" using fs assms(2) by (intro free_rep_cong [OF r]) (auto simp: hd fl)
  moreover have "frame_ok h' a" using f by (simp add: frame_ok_def fl)
  moreover have "free_set fs = {x \<in> set (xs @ ys). is_free (hdr h' x)}" using fs d assms(2) by (auto simp: hd)
  moreover have "apart h xs" "apart h ys" using ap by (auto simp: apart_simps)
  then have "apart h' xs" "apart h' ys" using others_cong(3) [of xs h' h] others_cong(3) [of ys h' h] same by auto
  moreover have "\<forall>x \<in> set (xs @ ys). granted h' x" using g others_cong(4) [OF same] by auto
  ultimately have "focus h' a xs b ys fs" unfolding focus_def using s' tf' by blast
  moreover have "used_of h' (xs @ ys) = used_of h (xs @ b # ys) - {(b, requested_size (hdr h b))}"
  proof -
    have "used_of h' (xs @ ys) = used_of h (xs @ ys)" by (rule others_cong(1)) (rule same)
    also have "\<dots> = used_of h (xs @ b # ys) - {(b, requested_size (hdr h b))}"
      using assms(2) d by (auto simp: used_of_def)
    finally show ?thesis .
  qed
  ultimately show ?thesis using that unfolding h'_def by blast
qed

section \<open>Merging\<close>

text \<open>The chain after the left block took over the right one.\<close>

lemma absorb_hdr:
  assumes "next_phys (hdr h n) \<noteq> Some b" "b \<noteq> n" "next_phys (hdr h n) \<noteq> Some n"
  shows "hdr (absorb b n h) x =
    (if x = b then (hdr h b)\<lparr>bsize := wrap32 (bsize (hdr h b) + bsize (hdr h n)), next_phys := next_phys (hdr h n)\<rparr>
     else if next_phys (hdr h n) = Some x then (hdr h x)\<lparr>prev_phys := Some b\<rparr> else hdr h x)"
  using assms by (auto simp: absorb_def Let_def heap_simps)

lemma absorb_fields:
  "blocks (absorb b n h) = blocks h" "fl_bitmap (absorb b n h) = fl_bitmap h" "sl_bitmap (absorb b n h) = sl_bitmap h"
  "head_block (absorb b n h) = head_block h" "total_size (absorb b n h) = total_size h"
  "total_free_memory (absorb b n h) = total_free_memory h"
  by (simp_all add: absorb_def Let_def heap_simps)

lemma absorb_seg:
  assumes s: "seg h E p a (xs @ b # c # ys) E" and E: "E < 2 ^ 32"
  shows "seg (absorb b c h) E p a (xs @ b # ys) E"
    "x \<in> set (xs @ ys) \<Longrightarrow> is_free (hdr (absorb b c h) x) = is_free (hdr h x) \<and> bsize (hdr (absorb b c h) x) = bsize (hdr h x)
      \<and> requested_size (hdr (absorb b c h) x) = requested_size (hdr h x)
      \<and> next_free (hdr (absorb b c h) x) = next_free (hdr h x) \<and> prev_free (hdr (absorb b c h) x) = prev_free (hdr h x)"
proof -
  let ?z = "bsize (hdr h b)" and ?w = "bsize (hdr h c)" and ?h = "absorb b c h"
  obtain m where x: "seg h E p a xs m" and m: "m = b" and b: "block_ok (hdr h b)" "prev_phys (hdr h b) = last_of p xs"
      "next_phys (hdr h b) = phys_link E (b + ?z)" and c: "c = b + ?z" "block_ok (hdr h c)"
      "next_phys (hdr h c) = phys_link E (c + ?w)" and y: "seg h E (Some c) (c + ?w) ys E"
    using s by (auto simp: seg_append)
  have z: "32 \<le> ?z" "32 \<le> ?w" "?z mod 8 = 0" "?w mod 8 = 0" using b(1) c(2) by (auto simp: block_ok_def)
  have n: "next_phys (hdr h c) \<noteq> Some b" "b \<noteq> c" "next_phys (hdr h c) \<noteq> Some c" using c z by (auto simp: phys_link_def)
  note hd = absorb_hdr [OF n]
  have lt: "b < c" "c < c + ?w" and nl: "next_phys (hdr h c) = (if c + ?w = E then None else Some (c + ?w))"
    using c z by (auto simp: phys_link_def)
  have w: "wrap32 (?z + ?w) = ?z + ?w" using seg_le [OF y] E c(1) by (simp add: wrap32_def)
  have xl: "x \<in> set xs \<Longrightarrow> x + bsize (hdr h x) \<le> b" and xz: "x \<in> set xs \<Longrightarrow> 32 \<le> bsize (hdr h x)" for x
    using seg_bounds(2,3) [OF x] m by (auto simp: block_ok_def)
  have yg: "x \<in> set ys \<Longrightarrow> c + ?w \<le> x" for x using seg_bounds(1) [OF y] .
  have "seg ?h E p a xs b = seg h E p a xs b"
  proof (rule seg_cong)
    fix x
    assume "x \<in> set xs"
    then have "x < b" using xl [of x] xz [of x] by auto
    then show "magic (hdr ?h x) = magic (hdr h x) \<and> bsize (hdr ?h x) = bsize (hdr h x)
      \<and> prev_phys (hdr ?h x) = prev_phys (hdr h x) \<and> next_phys (hdr ?h x) = next_phys (hdr h x)"
      using lt nl by (auto simp: hd)
  qed
  moreover have "seg ?h E (Some b) (c + ?w) ys E"
  proof (rule seg_relink [OF y])
    fix x
    assume "x \<in> set ys"
    then have "c + ?w \<le> x" "x \<noteq> E" using yg [of x] seg_bounds(2,3) [OF y, of x] by (auto simp: block_ok_def)
    then show "magic (hdr ?h x) = magic (hdr h x) \<and> bsize (hdr ?h x) = bsize (hdr h x)
      \<and> prev_phys (hdr ?h x) = (if x = c + ?w then Some b else prev_phys (hdr h x)) \<and> next_phys (hdr ?h x) = next_phys (hdr h x)"
      using lt nl by (auto simp: hd)
  qed
  ultimately show "seg ?h E p a (xs @ b # ys) E"
  proof -
    assume s: "seg ?h E p a xs b = seg h E p a xs b" "seg ?h E (Some b) (c + ?w) ys E"
    have "block_ok (hdr ?h b)" using b(1) z w by (auto simp: hd block_ok_def)
    moreover have "prev_phys (hdr ?h b) = last_of p xs" using b(2) by (simp add: hd)
    moreover have "bsize (hdr ?h b) = ?z + ?w" using w by (simp add: hd)
    then have e: "b + bsize (hdr ?h b) = c + ?w" using c(1) by linarith
    moreover have "next_phys (hdr ?h b) = phys_link E (c + ?w)" using c(3) by (simp add: hd)
    ultimately show ?thesis using s x m e by (auto simp: seg_append)
  qed
  assume "x \<in> set (xs @ ys)"
  then have "x \<noteq> b" using xl [of x] xz [of x] yg [of x] lt by auto
  then show "is_free (hdr ?h x) = is_free (hdr h x) \<and> bsize (hdr ?h x) = bsize (hdr h x)
      \<and> requested_size (hdr ?h x) = requested_size (hdr h x)
      \<and> next_free (hdr ?h x) = next_free (hdr h x) \<and> prev_free (hdr ?h x) = prev_free (hdr h x)"
    by (simp add: hd)
qed
lemma merge_focus:
  assumes f: "frame_ok h a" and s: "seg h (a + total_size h) None a (xs @ l # r # ys) (a + total_size h)"
    and y: "y = l \<or> y = r" and rep: "free_rep h fs" and fs: "free_set fs = insert y {x \<in> set (xs @ ys). is_free (hdr h x)}"
    and ap: "apart h xs" "apart h ys" and tf: "total_free_memory h + used_bytes h (xs @ ys) + 32 = total_size h"
    and g: "\<forall>x \<in> set (xs @ ys). granted h x"
  obtains fs' where "focus (absorb l r (remove_free_block y h)) a xs l ys fs'"
    "used_of (absorb l r (remove_free_block y h)) (xs @ ys) = used_of h (xs @ ys)"
    "\<And>x. x \<in> set (xs @ ys) \<Longrightarrow> is_free (hdr (absorb l r (remove_free_block y h)) x) = is_free (hdr h x)"
proof -
  define h1 where "h1 = remove_free_block y h"
  define h' where "h' = absorb l r h1"
  note sp = same_physD [OF remove_same_phys [of y h], folded h1_def]
  have d: "distinct (xs @ l # r # ys)" by (rule seg_distinct [OF s])
  obtain fs' where r': "free_rep h1 fs'" "free_set fs' = free_set fs - {y}"
    using remove_block [OF rep, of y] fs unfolding h1_def by blast
  have fs': "free_set fs' = {x \<in> set (xs @ ys). is_free (hdr h x)}" using r'(2) fs d y by auto
  have s1: "seg h1 (a + total_size h) None a (xs @ l # r # ys) (a + total_size h)"
    using s seg_cong [of "xs @ l # r # ys" h1 h] by (simp add: sp)
  have E: "a + total_size h < 2 ^ 32" using f by (simp add: frame_ok_def)
  note ab = absorb_seg [OF s1 E, folded h'_def] and fl = absorb_fields [of l r h1, folded h'_def]
  have same: "x \<in> set (xs @ ys) \<Longrightarrow> is_free (hdr h' x) = is_free (hdr h x) \<and> bsize (hdr h' x) = bsize (hdr h x)
      \<and> requested_size (hdr h' x) = requested_size (hdr h x)" for x
    using ab(2) [of x] d y by (auto simp: sp)
  have "free_rep h' fs'" using fs' ab(2) by (intro free_rep_cong [OF r'(1) fl(1-3)]) auto
  moreover have "frame_ok h' a" using f by (simp add: frame_ok_def fl sp)
  moreover have "seg h' (a + total_size h') None a (xs @ l # ys) (a + total_size h')" using ab(1) by (simp add: fl sp)
  moreover have "free_set fs' = {x \<in> set (xs @ ys). is_free (hdr h' x)}" using fs' same by auto
  moreover have "apart h' xs" "apart h' ys" using ap others_cong(3) [of xs h' h] others_cong(3) [of ys h' h] same by auto
  moreover have "total_free_memory h' + used_bytes h' (xs @ ys) + 32 = total_size h'"
    using tf others_cong(2) [OF same, of "xs @ ys"] by (simp add: fl sp)
  moreover have "\<forall>x \<in> set (xs @ ys). granted h' x" using g others_cong(4) [OF same] by blast
  ultimately have "focus h' a xs l ys fs'" unfolding focus_def by blast
  moreover have "used_of h' (xs @ ys) = used_of h (xs @ ys)" by (rule others_cong(1)) (rule same)
  ultimately show ?thesis using that same unfolding h'_def h1_def by blast
qed

lemma merge_next_focus:
  assumes "focus h a xs b ys fs"
  obtains fs' ys' where "focus (merge_next b h) a xs b ys' fs'" "used_of (merge_next b h) (xs @ ys') = used_of h (xs @ ys)"
    "ys' \<noteq> [] \<Longrightarrow> \<not> is_free (hdr (merge_next b h) (hd ys'))"
proof -
  note p = focus_parts [OF assms]
  have nb: "next_phys (hdr h b) = phys_link (a + total_size h) (b + bsize (hdr h b))" and
      y: "seg h (a + total_size h) (Some b) (b + bsize (hdr h b)) ys (a + total_size h)"
    using p(2) by (auto simp: seg_append)
  show ?thesis
  proof (cases ys)
    case Nil
    then have "merge_next b h = h" using y nb by (simp add: merge_next_def phys_link_def)
    then show ?thesis using that [of "[]" fs] assms Nil by simp
  next
    case (Cons c cs)
    then have c: "c = b + bsize (hdr h b)" "magic (hdr h c) = TLSF_MAGIC" and cz: "32 \<le> bsize (hdr h c)"
      "c + bsize (hdr h c) \<le> a + total_size h"
      using y seg_bounds(2) [OF y, of c] by (auto simp: block_ok_def)
    then have n: "next_phys (hdr h b) = Some c" using nb by (simp add: phys_link_def)
    show ?thesis
    proof (cases "is_free (hdr h c)")
      case False
      then have "merge_next b h = h" using n by (simp add: merge_next_def)
      then show ?thesis using that [of ys fs] assms Cons False by simp
    next
      case True
      have e: "merge_next b h = absorb b c (remove_free_block c h)" using True n c(2) by (simp add: merge_next_def)
      have s: "seg h (a + total_size h) None a (xs @ b # c # cs) (a + total_size h)" using p(2) Cons by simp
      have fs: "free_set fs = insert c {x \<in> set (xs @ cs). is_free (hdr h x)}" using p(4) Cons True by auto
      have ap: "apart h cs" using p(6) Cons by (simp add: apart_simps)
      have tf: "total_free_memory h + used_bytes h (xs @ cs) + 32 = total_size h"
        using p(7) Cons True by (simp add: used_bytes_simps)
      have g: "\<forall>x \<in> set (xs @ cs). granted h x" using p(8) Cons by auto
      obtain fs' where m: "focus (merge_next b h) a xs b cs fs'" "used_of (merge_next b h) (xs @ cs) = used_of h (xs @ cs)"
          "\<And>x. x \<in> set (xs @ cs) \<Longrightarrow> is_free (hdr (merge_next b h) x) = is_free (hdr h x)"
        unfolding e by (rule merge_focus [OF p(1) s _ p(3) fs p(5) ap tf g]) auto
      have "cs \<noteq> [] \<Longrightarrow> \<not> is_free (hdr h (hd cs))" using p(6) Cons True by (auto simp: apart_simps)
      then have "cs \<noteq> [] \<Longrightarrow> \<not> is_free (hdr (merge_next b h) (hd cs))" using m(3) by simp
      moreover have "used_of h (xs @ ys) = used_of h (xs @ cs)" using Cons True by (simp add: used_of_simps)
      ultimately show ?thesis using that [OF m(1)] m(2) by simp
    qed
  qed
qed

lemma merge_prev_focus:
  assumes "focus h a xs b ys fs" "ys \<noteq> [] \<Longrightarrow> \<not> is_free (hdr h (hd ys))" "merge_prev b h = (b', h')"
  obtains fs' xs' where "focus h' a xs' b' ys fs'" "used_of h' (xs' @ ys) = used_of h (xs @ ys)"
    "ys \<noteq> [] \<Longrightarrow> \<not> is_free (hdr h' (hd ys))" "xs' \<noteq> [] \<Longrightarrow> \<not> is_free (hdr h' (last xs'))"
proof -
  note p = focus_parts [OF assms(1)]
  have pb: "prev_phys (hdr h b) = last_of None xs" using p(2) by (auto simp: seg_append)
  show ?thesis
  proof (cases xs rule: rev_cases)
    case Nil
    then have "b' = b" "h' = h" using pb assms(3) by (simp_all add: merge_prev_def)
    then show ?thesis using that [of "[]" fs] assms Nil by simp
  next
    case (snoc zs q)
    then have n: "prev_phys (hdr h b) = Some q" using pb by simp
    have q: "magic (hdr h q) = TLSF_MAGIC" using seg_bounds(3) [OF p(2), of q] snoc by (simp add: block_ok_def)
    show ?thesis
    proof (cases "is_free (hdr h q)")
      case False
      then have "b' = b" "h' = h" using n assms(3) by (simp_all add: merge_prev_def)
      then show ?thesis using that [of xs fs] assms snoc False by simp
    next
      case True
      have e: "b' = q" "h' = absorb q b (remove_free_block q h)" using True n q assms(3) by (auto simp: merge_prev_def)
      have s: "seg h (a + total_size h) None a (zs @ q # b # ys) (a + total_size h)" using p(2) snoc by simp
      have fs: "free_set fs = insert q {x \<in> set (zs @ ys). is_free (hdr h x)}" using p(4) snoc True by auto
      have ap: "apart h zs" using p(5) snoc by (simp add: apart_simps)
      have tf: "total_free_memory h + used_bytes h (zs @ ys) + 32 = total_size h"
        using p(7) snoc True by (simp add: used_bytes_simps)
      have g: "\<forall>x \<in> set (zs @ ys). granted h x" using p(8) snoc by auto
      obtain fs' where m: "focus h' a zs q ys fs'" "used_of h' (zs @ ys) = used_of h (zs @ ys)"
          "\<And>x. x \<in> set (zs @ ys) \<Longrightarrow> is_free (hdr h' x) = is_free (hdr h x)"
        unfolding e(2) by (rule merge_focus [OF p(1) s _ p(3) fs ap p(6) tf g]) auto
      have "zs \<noteq> [] \<Longrightarrow> \<not> is_free (hdr h (last zs))" using p(5) snoc True by (auto simp: apart_simps)
      then have "zs \<noteq> [] \<Longrightarrow> \<not> is_free (hdr h' (last zs))" using m(3) by simp
      moreover have "ys \<noteq> [] \<Longrightarrow> \<not> is_free (hdr h' (hd ys))" using m(3) assms(2) by simp
      moreover have "used_of h (xs @ ys) = used_of h (zs @ ys)" using snoc True by (simp add: used_of_simps)
      ultimately show ?thesis using that [of zs fs'] m(1,2) e(1) by simp
    qed
  qed
qed
section \<open>Splitting\<close>

lemma split_phys_hdr:
  assumes "b + r < 2 ^ 32" "0 < r" "next_phys (hdr h b) \<noteq> Some b" "next_phys (hdr h b) \<noteq> Some (b + r)"
    "r \<le> bsize (hdr h b)" "bsize (hdr h b) < 2 ^ 32"
  shows "hdr (split_phys b r h) x =
    (if x = b then (hdr h b)\<lparr>next_phys := Some (b + r), bsize := r\<rparr>
     else if x = b + r then (hdr h (b + r))\<lparr>magic := TLSF_MAGIC, bsize := bsize (hdr h b) - r, requested_size := 0,
       is_free := True, prev_phys := Some b, next_phys := next_phys (hdr h b)\<rparr>
     else if next_phys (hdr h b) = Some x then (hdr h x)\<lparr>prev_phys := Some (b + r)\<rparr> else hdr h x)"
  using assms by (auto simp: split_phys_def Let_def heap_simps wrap32_def sub32_eq)

lemma split_phys_fields:
  "blocks (split_phys b r h) = blocks h" "fl_bitmap (split_phys b r h) = fl_bitmap h" "sl_bitmap (split_phys b r h) = sl_bitmap h"
  "head_block (split_phys b r h) = head_block h" "total_size (split_phys b r h) = total_size h"
  "total_free_memory (split_phys b r h) = total_free_memory h"
  by (simp_all add: split_phys_def Let_def heap_simps)

lemma split_seg:
  assumes s: "seg h E p a (xs @ b # ys) E" and E: "E < 2 ^ 32" and r: "32 \<le> r" "r mod 8 = 0" "r + 40 \<le> bsize (hdr h b)"
  shows "seg (split_phys b r h) E p a (xs @ b # (b + r) # ys) E" "b + r \<notin> set (xs @ b # ys)" "b + r < 2 ^ 32"
    "x \<in> set (xs @ ys) \<Longrightarrow> is_free (hdr (split_phys b r h) x) = is_free (hdr h x) \<and> bsize (hdr (split_phys b r h) x) = bsize (hdr h x)
      \<and> requested_size (hdr (split_phys b r h) x) = requested_size (hdr h x)
      \<and> next_free (hdr (split_phys b r h) x) = next_free (hdr h x) \<and> prev_free (hdr (split_phys b r h) x) = prev_free (hdr h x)"
    "bsize (hdr (split_phys b r h) b) = r" "bsize (hdr (split_phys b r h) (b + r)) < 2 ^ 32" "is_free (hdr (split_phys b r h) (b + r))"
proof -
  define h' where "h' = split_phys b r h"
  let ?z = "bsize (hdr h b)"
  obtain m where x: "seg h E p a xs m" and m: "m = b" and b: "block_ok (hdr h b)" "prev_phys (hdr h b) = last_of p xs"
      "next_phys (hdr h b) = phys_link E (b + ?z)" and y: "seg h E (Some b) (b + ?z) ys E"
    using s by (auto simp: seg_append)
  have le: "b + ?z \<le> E" using seg_le [OF y] .
  have hd: "hdr h' x = (if x = b then (hdr h b)\<lparr>next_phys := Some (b + r), bsize := r\<rparr>
     else if x = b + r then (hdr h (b + r))\<lparr>magic := TLSF_MAGIC, bsize := ?z - r, requested_size := 0,
       is_free := True, prev_phys := Some b, next_phys := next_phys (hdr h b)\<rparr>
     else if next_phys (hdr h b) = Some x then (hdr h x)\<lparr>prev_phys := Some (b + r)\<rparr> else hdr h x)" for x
    unfolding h'_def by (rule split_phys_hdr) (use b(3) le E r in \<open>auto simp: phys_link_def\<close>)
  have nl: "next_phys (hdr h b) = (if b + ?z = E then None else Some (b + ?z))" using b(3) by (simp add: phys_link_def)
  have xl: "x \<in> set xs \<Longrightarrow> x < b" for x
    using seg_bounds(2,3) [OF x, of x] m by (auto simp: block_ok_def)
  have yg: "x \<in> set ys \<Longrightarrow> b + ?z \<le> x" and yE: "x \<in> set ys \<Longrightarrow> x \<noteq> E" for x
    using seg_bounds [OF y, of x] by (auto simp: block_ok_def)
  have "seg h' E p a xs b = seg h E p a xs b"
  proof (rule seg_cong)
    fix x
    assume "x \<in> set xs"
    then show "magic (hdr h' x) = magic (hdr h x) \<and> bsize (hdr h' x) = bsize (hdr h x)
      \<and> prev_phys (hdr h' x) = prev_phys (hdr h x) \<and> next_phys (hdr h' x) = next_phys (hdr h x)"
      using xl [of x] nl by (auto simp: hd)
  qed
  moreover have "seg h' E (Some (b + r)) (b + ?z) ys E"
  proof (rule seg_relink [OF y])
    fix x
    assume "x \<in> set ys"
    then show "magic (hdr h' x) = magic (hdr h x) \<and> bsize (hdr h' x) = bsize (hdr h x)
      \<and> prev_phys (hdr h' x) = (if x = b + ?z then Some (b + r) else prev_phys (hdr h x)) \<and> next_phys (hdr h' x) = next_phys (hdr h x)"
      using yg [of x] yE [of x] nl r by (auto simp: hd)
  qed
  moreover have "(?z - r) mod 8 = 0" using b(1) r(2) by (auto simp: block_ok_def)
  ultimately have "seg h' E p a (xs @ b # (b + r) # ys) E"
    using x m b r le by (auto simp: seg_append hd block_ok_def phys_link_def)
  then show "seg (split_phys b r h) E p a (xs @ b # (b + r) # ys) E" by (simp add: h'_def)
  show nin: "b + r \<notin> set (xs @ b # ys)" using xl [of "b + r"] yg [of "b + r"] r by auto
  show "b + r < 2 ^ 32" using le E r by simp
  show "bsize (hdr (split_phys b r h) b) = r" "bsize (hdr (split_phys b r h) (b + r)) < 2 ^ 32"
      "is_free (hdr (split_phys b r h) (b + r))"
    unfolding h'_def [symmetric] using r le E by (simp_all add: hd)
  assume "x \<in> set (xs @ ys)"
  then have "x \<noteq> b" "x \<noteq> b + r" using xl [of x] yg [of x] r by auto
  then show "is_free (hdr (split_phys b r h) x) = is_free (hdr h x) \<and> bsize (hdr (split_phys b r h) x) = bsize (hdr h x)
      \<and> requested_size (hdr (split_phys b r h) x) = requested_size (hdr h x)
      \<and> next_free (hdr (split_phys b r h) x) = next_free (hdr h x) \<and> prev_free (hdr (split_phys b r h) x) = prev_free (hdr h x)"
    unfolding h'_def [symmetric] by (simp add: hd)
qed

lemma split_focus:
  assumes f: "focus h a xs b ys fs" and n: "ys \<noteq> [] \<Longrightarrow> \<not> is_free (hdr h (hd ys))"
    and r: "32 \<le> r" "r mod 8 = 0" "r + 40 \<le> bsize (hdr h b)"
  obtains fs' where "focus (split_block b r h) a xs b ((b + r) # ys) fs'"
    "used_of (split_block b r h) (xs @ (b + r) # ys) = used_of h (xs @ ys)" "bsize (hdr (split_block b r h) b) = r"
proof -
  define h1 where "h1 = split_phys b r h"
  define h' where "h' = insert_free_block (b + r) h1"
  note p = focus_parts [OF f]
  have E: "a + total_size h < 2 ^ 32" using p(1) by (simp add: frame_ok_def)
  note sg = split_seg [OF p(2) E r, folded h1_def] and fl = split_phys_fields [of b r h, folded h1_def]
  note sp = same_physD [OF insert_same_phys [of "b + r" h1], folded h'_def]
  have h': "split_block b r h = h'" using sg(3) by (simp add: split_block_def h'_def h1_def wrap32_def)
  have "free_rep h1 fs" using p(4) sg(4) by (intro free_rep_cong [OF p(3) fl(1-3)]) auto
  moreover have "b + r \<notin> free_set fs" using p(4) sg(2) by auto
  ultimately obtain fs' where r': "free_rep h' fs'" "free_set fs' = insert (b + r) (free_set fs)"
    using insert_block [OF _ _ sg(6)] unfolding h'_def by blast
  have same: "x \<in> set (xs @ ys) \<Longrightarrow> is_free (hdr h' x) = is_free (hdr h x) \<and> bsize (hdr h' x) = bsize (hdr h x)
      \<and> requested_size (hdr h' x) = requested_size (hdr h x)" for x
    using sg(2) sg(4) [of x] by (auto simp: sp)
  have "frame_ok h' a" using p(1) by (simp add: frame_ok_def fl sp)
  moreover have "seg h' (a + total_size h') None a (xs @ b # (b + r) # ys) (a + total_size h')"
    using sg(1) seg_cong [of "xs @ b # (b + r) # ys" h' h1] by (simp add: sp fl)
  moreover have "free_set fs' = {x \<in> set (xs @ (b + r) # ys). is_free (hdr h' x)}"
  proof -
    have "is_free (hdr h' (b + r))" by (simp add: sp)
    moreover have "{x \<in> set (xs @ ys). is_free (hdr h' x)} = {x \<in> set (xs @ ys). is_free (hdr h x)}" using same by blast
    ultimately show ?thesis using r'(2) p(4) by auto
  qed
  moreover have "apart h' xs" "apart h' ys" using p(5,6) others_cong(3) [of xs h' h] others_cong(3) [of ys h' h] same by auto
  then have "apart h' xs" "apart h' ((b + r) # ys)" using n same [of "hd ys"] by (auto simp: apart_simps)
  moreover have "total_free_memory h' + used_bytes h' (xs @ (b + r) # ys) + 32 = total_size h'"
    using p(7) others_cong(2) [of "xs @ ys" h' h] same by (simp add: fl sp used_bytes_simps)
  moreover have "\<forall>x \<in> set (xs @ (b + r) # ys). granted h' x"
  proof -
    have "granted h' (b + r)" by (simp add: granted_def sp)
    moreover have "x \<in> set (xs @ ys) \<Longrightarrow> granted h' x" for x using p(8) others_cong(4) [OF same] by blast
    ultimately show ?thesis by auto
  qed
  ultimately have "focus h' a xs b ((b + r) # ys) fs'" unfolding focus_def using r'(1) by blast
  moreover have "used_of h' (xs @ ys) = used_of h (xs @ ys)" by (rule others_cong(1)) (rule same)
  then have "used_of h' (xs @ (b + r) # ys) = used_of h (xs @ ys)" by (simp add: used_of_simps sp)
  moreover have "bsize (hdr h' b) = r" using sg(5) by (simp add: sp)
  ultimately show ?thesis using that unfolding h' by blast
qed
section \<open>Allocation\<close>

definition required :: "nat \<Rightarrow> nat" where
  "required sz = align_down8 (sz + 7) + 32"

definition max_request :: nat where
  "max_request = 0xF7FFFFE0"

lemma required_bounds:
  assumes "0 < sz" "sz \<le> max_request"
  shows "sz + 32 \<le> required sz" "required sz < sz + 40" "40 \<le> required sz" "required sz mod 8 = 0" "required sz \<le> max_required"
proof -
  have q: "sz + 7 = (sz + 7) div 8 * 8 + (sz + 7) mod 8" by simp
  have m: "(sz + 7) mod 8 < 8" by simp
  show a: "sz + 32 \<le> required sz" "required sz < sz + 40" unfolding required_def align_down8_def using q m by linarith+
  show e: "required sz mod 8 = 0" by (simp add: required_def align_down8_def)
  show "40 \<le> required sz"
  proof (rule ccontr)
    assume "\<not> 40 \<le> required sz"
    moreover have "32 < required sz" using a assms(1) by simp
    ultimately have "required sz \<in> {33, 34, 35, 36, 37, 38, 39}" by auto
    then show False using e by auto
  qed
  have "required sz \<le> 0xF8000007" using a assms(2) by (simp add: max_request_def)
  then show "required sz \<le> max_required"
    using e unfolding max_required_def by presburger
qed

lemma allocate_eq:
  assumes "0 < sz" "sz \<le> max_request" "mapping_search (required sz) = (fl, sl)"
  shows "allocate_impl sz h =
    (case search_suitable_block fl sl h of
       None \<Rightarrow> (None, h)
     | Some b \<Rightarrow>
         let h1 = remove_free_block b h;
             h2 = (if bsize (hdr h1 b) \<ge> wrap32 (required sz + 40) then split_block b (required sz) h1 else h1)
         in (Some (wrap32 (b + 32)), hand_out b sz h2))"
  using assms by (simp add: allocate_impl_def required_def [symmetric] max_request_def hand_out_def Let_def add.assoc split: option.split)

lemma allocate_inv:
  assumes inv: "heap_inv h bs" and sz: "0 < sz" "sz \<le> max_request"
  shows "case allocate_impl sz h of
      (None, h') \<Rightarrow> h' = h \<and> (\<forall>b \<in> set bs. is_free (hdr h b) \<longrightarrow> bsize (hdr h b) < rounded (required sz))
    | (Some p, h') \<Rightarrow> \<exists>b bs'. p = b + 32 \<and> b \<in> set bs \<and> is_free (hdr h b) \<and> sz + 32 \<le> bsize (hdr h b)
        \<and> heap_inv h' bs' \<and> used_of h' bs' = insert (b, sz) (used_of h bs)"
proof -
  note rb = required_bounds [OF sz]
  have r32: "32 \<le> required sz" using rb(3) by simp
  obtain fl sl where ms: "mapping_search (required sz) = (fl, sl)" by fastforce
  note rd = rounded_bounds [OF r32 rb(5)]
  have "mapping_insert (rounded (required sz)) = (fl, sl)" using rd(4) ms by simp
  note rg = mapping_insert_range [OF rd(2) this]
  obtain a fs where f: "frame_ok h a" and s: "seg h (a + total_size h) None a bs (a + total_size h)"
    and rep: "free_rep h fs" and fs: "free_set fs = {b \<in> set bs. is_free (hdr h b)}"
    using inv unfolding heap_inv_def by blast
  note size = heap_inv_size [OF f s]
  note search = search_finds [OF rep rg] and eq = allocate_eq [OF sz ms, of h]
  show ?thesis
  proof (cases "search_suitable_block fl sl h")
    case None
    have "bsize (hdr h b) < rounded (required sz)" if "b \<in> set bs" "is_free (hdr h b)" for b
    proof (rule ccontr)
      assume "\<not> ?thesis"
      then have "class_le (mapping_search (required sz)) (class_of h b)"
        using class_found [OF r32 rb(5)] size(1) [OF that(1)] by (simp add: class_of_def)
      then show False using search None ms fs that by simp
    qed
    then show ?thesis using eq None by simp
  next
    case (Some b)
    then have b: "b \<in> set bs" "is_free (hdr h b)" and cl: "class_le (fl, sl) (class_of h b)" using search fs by auto
    have fit: "required sz \<le> bsize (hdr h b)"
      using class_fits [OF r32 rb(5) size(2,1) [OF b(1)]] cl ms by (simp add: class_of_def)
    obtain xs ys where bs: "bs = xs @ b # ys" using b(1) by (meson split_list)
    define h1 where "h1 = remove_free_block b h"
    obtain a fs where fo: "focus h1 a xs b ys fs" "used_of h1 (xs @ ys) = used_of h bs" "ys \<noteq> [] \<Longrightarrow> \<not> is_free (hdr h1 (hd ys))"
      using take_free [of h xs b ys] inv b(2) unfolding bs h1_def by metis
    have z: "bsize (hdr h1 b) = bsize (hdr h b)" unfolding h1_def by (rule same_physD(5) [OF remove_same_phys])
    have w: "wrap32 (b + 32) = b + 32" using size(2,3) [OF b(1)] by (simp add: wrap32_def)
    have w40: "wrap32 (required sz + 40) = required sz + 40" using fit size(1) [OF b(1)] by (simp add: wrap32_def)
    define h2 where "h2 = (if bsize (hdr h1 b) \<ge> wrap32 (required sz + 40) then split_block b (required sz) h1 else h1)"
    have "\<exists>ys' fs'. focus h2 a xs b ys' fs' \<and> used_of h2 (xs @ ys') = used_of h bs \<and> sz + 32 \<le> bsize (hdr h2 b)"
    proof (cases "required sz + 40 \<le> bsize (hdr h1 b)")
      case True
      then have e: "h2 = split_block b (required sz) h1" by (simp add: h2_def w40)
      obtain fs' where "focus h2 a xs b ((b + required sz) # ys) fs'"
          "used_of h2 (xs @ (b + required sz) # ys) = used_of h1 (xs @ ys)" "bsize (hdr h2 b) = required sz"
        unfolding e by (rule split_focus [OF fo(1,3) r32 rb(4) True])
      then show ?thesis using fo(2) rb(1) by metis
    next
      case False
      then have "h2 = h1" by (simp add: h2_def w40)
      then show ?thesis using fo rb(1) fit z by auto
    qed
    then obtain ys' fs' where g: "focus h2 a xs b ys' fs'" "used_of h2 (xs @ ys') = used_of h bs" "sz + 32 \<le> bsize (hdr h2 b)"
      by blast
    have "allocate_impl sz h = (Some (b + 32), hand_out b sz h2)"
      using eq Some by (simp add: h1_def [symmetric] h2_def [symmetric] Let_def w)
    moreover have "sz + 32 \<le> bsize (hdr h b)" using fit rb(1) by simp
    ultimately show ?thesis using put_used [OF g(1) sz(1) g(3)] g(2) b by auto
  qed
qed

section \<open>Deallocation\<close>

lemma deallocate_inv:
  assumes inv: "heap_inv h bs" and b: "b \<in> set bs" "\<not> is_free (hdr h b)"
  shows "\<exists>bs'. heap_inv (deallocate (Some (b + 32)) h) bs'
    \<and> used_of (deallocate (Some (b + 32)) h) bs' = used_of h bs - {(b, requested_size (hdr h b))}"
proof -
  obtain a where f: "frame_ok h a" and s: "seg h (a + total_size h) None a bs (a + total_size h)"
    using inv unfolding heap_inv_def by blast
  note size = heap_inv_size [OF f s b(1)] and bd = seg_bounds [OF s b(1)]
  have e: "sub32 (b + 32) 32 = b" using size(2,3) by (simp add: sub32_eq)
  have start: "get_heap_start h = a" "get_heap_end h = a + total_size h"
    using f by (auto simp: frame_ok_def get_heap_start_def get_heap_end_def addr_of_def wrap32_def)
  obtain xs ys where bs: "bs = xs @ b # ys" using b(1) by (meson split_list)
  obtain a fs where fo: "focus (give_back b h) a xs b ys fs"
      "used_of (give_back b h) (xs @ ys) = used_of h bs - {(b, requested_size (hdr h b))}"
    using take_used [of h xs b ys] inv b(2) unfolding bs by blast
  define h1 where "h1 = merge_next b (give_back b h)"
  obtain fs1 ys1 where m: "focus h1 a xs b ys1 fs1" "used_of h1 (xs @ ys1) = used_of (give_back b h) (xs @ ys)"
      "ys1 \<noteq> [] \<Longrightarrow> \<not> is_free (hdr h1 (hd ys1))"
    unfolding h1_def by (rule merge_next_focus [OF fo(1)]) blast
  obtain b' h2 where mp: "merge_prev b h1 = (b', h2)" by fastforce
  obtain fs2 xs2 where n: "focus h2 a xs2 b' ys1 fs2" "used_of h2 (xs2 @ ys1) = used_of h1 (xs @ ys1)"
      "ys1 \<noteq> [] \<Longrightarrow> \<not> is_free (hdr h2 (hd ys1))" "xs2 \<noteq> [] \<Longrightarrow> \<not> is_free (hdr h2 (last xs2))"
    by (rule merge_prev_focus [OF m(1,3) mp]) blast+
  have "deallocate (Some (b + 32)) h = insert_free_block b' h2"
    using bd size e b(2) mp unfolding h1_def give_back_def Let_def
    by (simp add: deallocate_def Let_def start block_ok_def)
  then show ?thesis using put_free [OF n(1,3,4)] n(2) m(2) fo(2) by auto
qed

end
