(* ===== verification/Tlsf_Props.thy ===== *)
theory Tlsf_Props
  imports Tlsf_Heap
begin

text \<open>
  What the kernel heap promises to its clients: live allocations are disjoint, aligned and inside the
  region in every history of requests and releases, a large enough free block is always found, and a
  heap with nothing allocated is one block again; and two ways to break it, a second release of a
  block that was merged and a request whose rounded size wraps around.
\<close>

section \<open>Initialisation\<close>

lemma align8_bounds:
  fixes s e :: nat
  assumes "s + 40 \<le> e"
  shows "s \<le> (s + 7) div 8 * 8" "(s + 7) div 8 * 8 + 32 \<le> e div 8 * 8" "e div 8 * 8 \<le> e"
  using assms by presburger+

definition region :: "nat \<Rightarrow> nat \<Rightarrow> bool" where
  "region s e \<longleftrightarrow> 0 < s \<and> e < 2 ^ 32 \<and> e - s < 2 ^ 24"

lemma heap_init_inv:
  assumes "heap_init s e h0 = Some h" "region s e"
  defines "a \<equiv> align_down8 (s + 7)"
  shows "heap_inv h [a]" "head_block h = Some a" "a + total_size h = align_down8 e"
    "is_free (hdr h a)" "bsize (hdr h a) = total_size h" "total_free_memory h = total_size h - 32"
proof -
  have le: "s + 40 \<le> e" using assms(1) by (auto simp: heap_init_def split: if_splits)
  note al = align8_bounds [OF le, folded align_down8_def, folded a_def]
  have w: "wrap32 (s + 7) = s + 7" using le assms(2) by (simp add: wrap32_def region_def)
  have t: "sub32 (align_down8 e) a = align_down8 e - a" using al assms(2) by (intro sub32_eq) (auto simp: region_def)
  let ?t = "align_down8 e - a"
  have t24: "?t < 2 ^ 24" using al assms(2) by (auto simp: region_def)
  have tt: "sub32 ?t 32 = ?t - 32" using al t24 by (intro sub32_eq) auto
  have a8: "a mod 8 = 0" and e8: "align_down8 e mod 8 = 0" by (simp_all add: a_def align_down8_def)
  have a0: "0 < a" using al(1) assms(2) by (auto simp: region_def)
  have t8: "?t mod 8 = 0" using a8 e8 by (simp add: mod_eq_0_iff_dvd)
  define h3 where "h3 = h0\<lparr>fl_bitmap := 0, sl_bitmap := (\<lambda>_. 0), blocks := (\<lambda>_ _. None), head_block := Some a,
    hdr := (hdr h0)(a := \<lparr>magic = TLSF_MAGIC, bsize = ?t, requested_size = 0, is_free = True,
                   prev_phys = None, next_phys = None, next_free = None, prev_free = None\<rparr>),
    total_size := ?t, total_free_memory := ?t - 32\<rparr>"
  have h: "h = insert_free_block a h3"
    using assms(1) le by (simp add: heap_init_def w a_def [symmetric] t tt Let_def upd_hdr_def h3_def split: if_splits)
  note sp = same_physD [OF insert_same_phys [of a h3], folded h]
  have f3: "hdr h3 a = \<lparr>magic = TLSF_MAGIC, bsize = ?t, requested_size = 0, is_free = True,
      prev_phys = None, next_phys = None, next_free = None, prev_free = None\<rparr>" "total_size h3 = ?t" "head_block h3 = Some a"
    "total_free_memory h3 = ?t - 32"
    by (simp_all add: h3_def)
  have "focus h3 a [] a [] (\<lambda>_. [])"
  proof -
    have "free_rep h3 (\<lambda>_. [])" by (simp add: free_rep_def lists_ok_def bits_ok_def h3_def)
    moreover have "frame_ok h3 a"
      using al(2,3) assms(2) t24 a8 a0 unfolding frame_ok_def f3 region_def by auto
    moreover have "seg h3 (a + total_size h3) None a [a] (a + total_size h3)"
      using al(2) t8 by (simp add: f3 block_ok_def phys_link_def)
    moreover have "total_free_memory h3 + 32 = total_size h3" using al by (simp add: f3)
    ultimately show ?thesis by (simp add: focus_def free_set_def apart_simps used_bytes_simps)
  qed
  from put_free(1) [OF this] show "heap_inv h [a]" by (simp add: h)
  show "head_block h = Some a" "a + total_size h = align_down8 e" "is_free (hdr h a)"
    "bsize (hdr h a) = total_size h" "total_free_memory h = total_size h - 32"
    using al by (simp_all add: sp f3)
qed

section \<open>Live allocations\<close>

fun walk_phys :: "nat \<Rightarrow> heap \<Rightarrow> nat option \<Rightarrow> nat list" where
  "walk_phys 0 h r = []"
| "walk_phys (Suc n) h r = (case r of None \<Rightarrow> [] | Some b \<Rightarrow> b # walk_phys n h (next_phys (hdr h b)))"

definition block_list :: "heap \<Rightarrow> nat list" where
  "block_list h = walk_phys (total_size h) h (head_block h)"

definition live :: "heap \<Rightarrow> nat \<Rightarrow> nat option" where
  "live h p = (if 32 \<le> p \<and> p - 32 \<in> set (block_list h) \<and> \<not> is_free (hdr h (p - 32))
               then Some (requested_size (hdr h (p - 32))) else None)"

lemma walk_seg:
  assumes "seg h E p a xs E" "length xs \<le> n" "r = (if xs = [] then None else Some a)"
  shows "walk_phys n h r = xs"
  using assms
proof (induction xs arbitrary: p a n r)
  case Nil
  then show ?case by (cases n) auto
next
  case (Cons b bs)
  then obtain m where n: "n = Suc m" by (cases n) auto
  have s: "seg h E (Some b) (b + bsize (hdr h b)) bs E" and b: "b = a"
      "next_phys (hdr h b) = phys_link E (b + bsize (hdr h b))"
    using Cons.prems(1) by auto
  have "bs = [] \<longleftrightarrow> b + bsize (hdr h b) = E"
  proof (cases bs)
    case (Cons c cs)
    then show ?thesis using s seg_bounds(2,3) [OF s, of c] by (auto simp: block_ok_def)
  qed (use s in simp)
  then have "walk_phys m h (next_phys (hdr h b)) = bs"
    using Cons.prems(2) n b(2) by (intro Cons.IH [OF s]) (auto simp: phys_link_def)
  then show ?case using Cons.prems(3) n b(1) by simp
qed

lemma block_list_inv:
  assumes "heap_inv h bs"
  shows "block_list h = bs"
proof -
  obtain a where f: "frame_ok h a" "bs \<noteq> []" and s: "seg h (a + total_size h) None a bs (a + total_size h)"
    using assms unfolding heap_inv_def by blast
  have "length bs \<le> total_size h" using used_bytes_le [OF s] by simp
  then show ?thesis unfolding block_list_def using f by (intro walk_seg [OF s]) (auto simp: frame_ok_def)
qed

lemma live_iff:
  assumes "heap_inv h bs"
  shows "live h p = Some n \<longleftrightarrow> 32 \<le> p \<and> (p - 32, n) \<in> used_of h bs"
  by (auto simp: live_def block_list_inv [OF assms] used_of_def)

lemma used_of_unique: "(b, n) \<in> used_of h bs \<Longrightarrow> (b, m) \<in> used_of h bs \<Longrightarrow> n = m"
  by (auto simp: used_of_def)

lemma option_eqI: "(\<And>m. x = Some m \<longleftrightarrow> y = Some m) \<Longrightarrow> x = y"
  by (cases x; cases y) auto

text \<open>Inserting and removing on the level of live allocations.\<close>

lemma live_insert:
  assumes "heap_inv h bs" "heap_inv h' bs'" "used_of h' bs' = insert (b, n) (used_of h bs)" "\<And>m. (b, m) \<notin> used_of h bs"
  shows "live h' = (live h)(b + 32 \<mapsto> n)"
proof (rule ext)
  fix p
  have "live h' p = Some m \<longleftrightarrow> ((live h)(b + 32 \<mapsto> n)) p = Some m" for m
  proof (cases "p = b + 32")
    case True
    then show ?thesis using live_iff [OF assms(2), of p m] assms(3) assms(4) [of m] by auto
  next
    case False
    then have "32 \<le> p \<Longrightarrow> p - 32 \<noteq> b" by auto
    then show ?thesis using live_iff [OF assms(1), of p m] live_iff [OF assms(2), of p m] assms(3) False by auto
  qed
  then show "live h' p = ((live h)(b + 32 \<mapsto> n)) p" by (rule option_eqI)
qed

lemma live_delete:
  assumes "heap_inv h bs" "heap_inv h' bs'" "used_of h' bs' = used_of h bs - {(b, n)}" "(b, n) \<in> used_of h bs"
  shows "live h' = (live h)(b + 32 := None)"
proof (rule ext)
  fix p
  have "live h' p = Some m \<longleftrightarrow> ((live h)(b + 32 := None)) p = Some m" for m
  proof (cases "p = b + 32")
    case True
    then show ?thesis using live_iff [OF assms(2), of p m] assms(3,4) used_of_unique [of b n h bs m] by auto
  next
    case False
    then have "32 \<le> p \<Longrightarrow> p - 32 \<noteq> b" by auto
    then show ?thesis using live_iff [OF assms(1), of p m] live_iff [OF assms(2), of p m] assms(3) False by auto
  qed
  then show "live h' p = ((live h)(b + 32 := None)) p" by (rule option_eqI)
qed

lemma live_apart:
  assumes "heap_inv h bs" "live h p = Some n"
  shows "0 < n" "p mod 8 = 0" "get_heap_start h + 32 \<le> p" "p + n \<le> get_heap_start h + total_size h"
    "live h q = Some m \<Longrightarrow> p \<noteq> q \<Longrightarrow> p + n \<le> q \<or> q + m \<le> p"
proof -
  obtain a where f: "frame_ok h a" and s: "seg h (a + total_size h) None a bs (a + total_size h)" and g: "\<forall>b \<in> set bs. granted h b"
    using assms(1) unfolding heap_inv_def by blast
  have a: "get_heap_start h = a" using f by (simp add: frame_ok_def get_heap_start_def addr_of_def)
  have blk: "32 \<le> q \<and> q - 32 \<in> set bs \<and> 0 < m \<and> m + 32 \<le> bsize (hdr h (q - 32))" if "live h q = Some m" for q m
    using that live_iff [OF assms(1)] g by (auto simp: used_of_def granted_def)
  note p = blk [OF assms(2)]
  have pb: "p - 32 \<in> set bs" using p by simp
  show "0 < n" using p by simp
  have "x mod 8 = 0" if "seg h E r y zs e" "x \<in> set zs" "y mod 8 = 0" for E r y zs e x
    using that
  proof (induction zs arbitrary: r y)
    case (Cons z zs)
    then have "(z + bsize (hdr h z)) mod 8 = 0" by (auto simp: block_ok_def)
    then show ?case using Cons by auto
  qed simp
  then have "(p - 32) mod 8 = 0" using s pb f by (auto simp: frame_ok_def)
  moreover obtain x where "p = x + 32" using p by (metis le_add_diff_inverse2)
  ultimately show "p mod 8 = 0" by presburger
  show "get_heap_start h + 32 \<le> p" using seg_bounds(1) [OF s pb] p a by linarith
  show "p + n \<le> get_heap_start h + total_size h" using seg_bounds(2) [OF s pb] p a by linarith
  assume "live h q = Some m" "p \<noteq> q"
  then have q: "32 \<le> q" "q - 32 \<in> set bs" "m + 32 \<le> bsize (hdr h (q - 32))" "p - 32 \<noteq> q - 32" using blk [of q m] p by auto
  show "p + n \<le> q \<or> q + m \<le> p" using seg_disjoint [OF s pb q(2,4)] p q(1,3) by linarith
qed
section \<open>Histories\<close>

lemma region_frame:
  "head_block (snd (allocate_impl n h)) = head_block h" "total_size (snd (allocate_impl n h)) = total_size h"
  "head_block (deallocate r h) = head_block h" "total_size (deallocate r h) = total_size h"
proof -
  note f = same_physD(1,3) [OF remove_same_phys] same_physD(1,3) [OF insert_same_phys] absorb_fields(4,5) split_phys_fields(4,5)
    heap_simps
  show "head_block (snd (allocate_impl n h)) = head_block h" "total_size (snd (allocate_impl n h)) = total_size h"
    by (auto simp: allocate_impl_def split_block_def Let_def f split: prod.split option.split)
  have m: "head_block (merge_next b g) = head_block g" "total_size (merge_next b g) = total_size g"
    "head_block (snd (merge_prev b g)) = head_block g" "total_size (snd (merge_prev b g)) = total_size g" for b g
    by (auto simp: merge_next_def merge_prev_def f split: option.split)
  show "head_block (deallocate r h) = head_block h" "total_size (deallocate r h) = total_size h"
    by (auto simp: deallocate_def Let_def case_prod_unfold f m split: option.split)
qed

text \<open>
  A client may request any size up to \<^const>\<open>max_request\<close> and release live allocations, or the null
  pointer.
\<close>

inductive heap_reach :: "nat \<Rightarrow> nat \<Rightarrow> heap \<Rightarrow> bool" for s e where
  initial: "heap_init s e h0 = Some h \<Longrightarrow> heap_reach s e h"
| request: "heap_reach s e h \<Longrightarrow> n \<le> max_request \<Longrightarrow> heap_reach s e (snd (allocate_impl n h))"
| release: "heap_reach s e h \<Longrightarrow> live h p \<noteq> None \<Longrightarrow> heap_reach s e (deallocate (Some p) h)"
| release_null: "heap_reach s e h \<Longrightarrow> heap_reach s e (deallocate None h)"

lemma request_spec:
  assumes inv: "heap_inv h bs" and n: "n \<le> max_request"
  shows "case allocate_impl n h of
      (None, h') \<Rightarrow> h' = h
    | (Some p, h') \<Rightarrow> 0 < n \<and> live h p = None \<and> live h' = (live h)(p \<mapsto> n) \<and> (\<exists>bs'. heap_inv h' bs')"
proof (cases "n = 0")
  case False
  then have n0: "0 < n" by simp
  obtain r h' where e: "allocate_impl n h = (r, h')" by fastforce
  show ?thesis
  proof (cases r)
    case None
    then show ?thesis using allocate_inv [OF inv n0 n] e by simp
  next
    case (Some p)
    then obtain b bs' where b: "p = b + 32" "is_free (hdr h b)" "heap_inv h' bs'" "used_of h' bs' = insert (b, n) (used_of h bs)"
      using allocate_inv [OF inv n0 n] e by auto
    have "(b, m) \<notin> used_of h bs" for m using b(2) by (auto simp: used_of_def)
    moreover have "live h p = None" using b(1,2) by (simp add: live_def)
    ultimately show ?thesis using live_insert [OF inv b(3,4)] b(1,3) e Some n0 by auto
  qed
qed (simp add: allocate_impl_def)

lemma release_spec:
  assumes inv: "heap_inv h bs" and p: "live h p \<noteq> None"
  shows "live (deallocate (Some p) h) = (live h)(p := None)" "\<exists>bs'. heap_inv (deallocate (Some p) h) bs'"
proof -
  define b where "b = p - 32"
  have b: "p = b + 32" "b \<in> set bs" "\<not> is_free (hdr h b)"
    using p block_list_inv [OF inv] by (auto simp: live_def b_def split: if_splits)
  obtain bs' where d: "heap_inv (deallocate (Some p) h) bs'"
      "used_of (deallocate (Some p) h) bs' = used_of h bs - {(b, requested_size (hdr h b))}"
    using deallocate_inv [OF inv b(2,3)] b(1) by auto
  have "(b, requested_size (hdr h b)) \<in> used_of h bs" using b by (auto simp: used_of_def)
  then show "live (deallocate (Some p) h) = (live h)(p := None)" using live_delete [OF inv d] b(1) by simp
  show "\<exists>bs'. heap_inv (deallocate (Some p) h) bs'" using d(1) by blast
qed

lemma reach_inv:
  assumes "heap_reach s e h" "region s e"
  shows "\<exists>bs. heap_inv h bs" "head_block h = Some (align_down8 (s + 7))" "align_down8 (s + 7) + total_size h = align_down8 e"
  using assms(1)
proof (atomize (full), induction rule: heap_reach.induct)
  case (initial h0 h)
  then show ?case using heap_init_inv(1-3) [OF initial assms(2)] by blast
next
  case (request h n)
  then obtain bs where inv: "heap_inv h bs" by blast
  have "\<exists>bs. heap_inv (snd (allocate_impl n h)) bs"
    using request_spec [OF inv request.hyps(2)] inv by (auto split: prod.splits option.splits)
  then show ?case using request.IH by (simp add: region_frame)
next
  case (release h p)
  then obtain bs where inv: "heap_inv h bs" by blast
  show ?case using release.IH release_spec(2) [OF inv release.hyps(2)] by (simp add: region_frame)
qed (simp add: deallocate_def)

lemma init_le: "heap_init s e h0 = Some h \<Longrightarrow> s + 40 \<le> e"
  by (auto simp: heap_init_def split: if_splits)

lemma reach_le: "heap_reach s e h \<Longrightarrow> s + 40 \<le> e"
  by (induction rule: heap_reach.induct) (auto dest: init_le)

section \<open>The contract\<close>

definition example_heap :: heap where
  "example_heap = the (heap_init 4096 8192 blank_heap)"

lemma example_init: "heap_init 4096 8192 blank_heap = Some example_heap" "region 4096 8192"
  by (simp_all add: example_heap_def heap_init_def Let_def region_def)

lemma example_reach: "heap_reach 4096 8192 example_heap"
  by (rule heap_reach.initial) (rule example_init(1))

lemma example_block: "block_list example_heap = [4096]" "is_free (hdr example_heap 4096)" "bsize (hdr example_heap 4096) = 4096"
  using heap_init_inv [OF example_init] block_list_inv [of example_heap "[4096]"] by (simp_all add: align_down8_def)

lemma example_grants: "fst (allocate_impl 100 example_heap) \<noteq> None"
proof -
  have r: "required 100 = 136" by (simp add: required_def align_down8_def)
  have "rounded (required 100) \<le> 4096"
    using rounded_bounds(3) [of 136] by (simp add: r max_required_def)
  then show ?thesis
    using allocate_inv [of example_heap "[4096]" 100] heap_init_inv(1) [OF example_init] example_block
    by (auto simp: max_request_def align_down8_def split: prod.splits option.splits)
qed

text \<open>
  C2: the heap implements a map from live pointers to their sizes. In every history of requests of at
  most \<open>0xF7FFFFE0\<close> bytes and releases of live or null pointers, on a region of less than 16 MiB, live
  allocations are aligned to eight bytes, lie inside the region and do not overlap; such a request adds
  exactly its own fresh allocation if it succeeds and changes nothing if it fails, and a release
  removes exactly the released one. Larger requests, whose rounding wraps around, and releases of
  other pointers are outside.
\<close>
theorem heap_refines_live_map:
  assumes "heap_reach s e h" "region s e"
  shows "(\<forall>p n. live h p = Some n \<longrightarrow> 0 < n \<and> p mod 8 = 0 \<and> s \<le> p \<and> p + n \<le> e)
    \<and> (\<forall>p n q m. live h p = Some n \<longrightarrow> live h q = Some m \<longrightarrow> p \<noteq> q \<longrightarrow> p + n \<le> q \<or> q + m \<le> p)
    \<and> (\<forall>n \<le> max_request. case allocate_impl n h of
          (None, h') \<Rightarrow> h' = h
        | (Some p, h') \<Rightarrow> 0 < n \<and> live h p = None \<and> live h' = (live h)(p \<mapsto> n))
    \<and> (\<forall>p. live h p \<noteq> None \<longrightarrow> live (deallocate (Some p) h) = (live h)(p := None))"
proof -
  note r = reach_inv [OF assms] and al = align8_bounds [OF reach_le [OF assms(1)], folded align_down8_def]
  obtain bs where inv: "heap_inv h bs" using r(1) by blast
  have st: "get_heap_start h = align_down8 (s + 7)" using r(2) by (simp add: get_heap_start_def addr_of_def)
  show ?thesis
  proof (intro conjI allI impI)
    fix p n
    assume "live h p = Some n"
    note l = live_apart [OF inv this]
    show "0 < n" "p mod 8 = 0" by (rule l(1), rule l(2))
    show "s \<le> p" "p + n \<le> e" using l(3,4) al r(3) st by linarith+
    show "p + n \<le> q \<or> q + m \<le> p" if "live h q = Some m" "p \<noteq> q" for q m by (rule l(5) [OF that])
  next
    fix n
    assume n: "n \<le> max_request"
    show "case allocate_impl n h of (None, h') \<Rightarrow> h' = h
        | (Some p, h') \<Rightarrow> 0 < n \<and> live h p = None \<and> live h' = (live h)(p \<mapsto> n)"
      using request_spec [OF inv n] by (auto split: prod.splits option.splits)
  next
    fix p
    assume "live h p \<noteq> None"
    then show "live (deallocate (Some p) h) = (live h)(p := None)" by (rule release_spec(1) [OF inv])
  qed
qed

theorem heap_refines_live_map_witness:
  "\<exists>p h'. allocate_impl 100 example_heap = (Some p, h') \<and> live h' = (live example_heap)(p \<mapsto> 100)"
proof -
  have "case allocate_impl 100 example_heap of
      (None, h') \<Rightarrow> h' = example_heap
    | (Some p, h') \<Rightarrow> 0 < (100 :: nat) \<and> live example_heap p = None \<and> live h' = (live example_heap)(p \<mapsto> 100)"
    using heap_refines_live_map [OF example_reach example_init(2)] by (simp add: max_request_def)
  then show ?thesis using example_grants by (auto split: prod.splits option.splits)
qed

text \<open>
  C20: after every history of requests of at most \<open>0xF7FFFFE0\<close> bytes and releases of live or null
  pointers on a region of less than 16 MiB, a request of such a size succeeds whenever some free block exceeds the required space by a
  sixteenth, and once everything is released the heap is a single free block again with all its memory
  reported free.
\<close>
theorem heap_good_fit_and_recovery:
  assumes "heap_reach s e h" "region s e"
  shows "(\<forall>n b. 0 < n \<longrightarrow> n \<le> max_request \<longrightarrow> b \<in> set (block_list h) \<longrightarrow> is_free (hdr h b)
          \<longrightarrow> required n + required n div 16 \<le> bsize (hdr h b) \<longrightarrow> fst (allocate_impl n h) \<noteq> None)
    \<and> (live h = Map.empty \<longrightarrow> block_list h = [align_down8 (s + 7)] \<and> total_free_memory h = align_down8 e - align_down8 (s + 7) - 32)"
proof (intro conjI allI impI)
  note r = reach_inv [OF assms]
  obtain bs where inv: "heap_inv h bs" using r(1) by blast
  note bl = block_list_inv [OF inv]
  fix n b
  assume n: "0 < n" "n \<le> max_request" and b: "b \<in> set (block_list h)" "is_free (hdr h b)"
    and z: "required n + required n div 16 \<le> bsize (hdr h b)"
  note rb = required_bounds [OF n]
  have "rounded (required n) \<le> bsize (hdr h b)" using rounded_bounds(3) [of "required n"] rb(3,5) z by simp
  then show "fst (allocate_impl n h) \<noteq> None" using allocate_inv [OF inv n] b bl
    by (cases "allocate_impl n h") (auto split: option.splits)
next
  note r = reach_inv [OF assms]
  obtain bs where inv: "heap_inv h bs" using r(1) by blast
  note bl = block_list_inv [OF inv]
  obtain a where f: "frame_ok h a" "bs \<noteq> []" and s: "seg h (a + total_size h) None a bs (a + total_size h)" and ap: "apart h bs"
    and tf: "total_free_memory h + used_bytes h bs + 32 = total_size h"
    using inv unfolding heap_inv_def by blast
  have a: "a = align_down8 (s + 7)" using f(1) r(2) by (simp add: frame_ok_def)
  assume l: "live h = Map.empty"
  have free: "is_free (hdr h b)" if "b \<in> set bs" for b
    using fun_cong [OF l, of "b + 32"] that by (auto simp: live_def bl split: if_splits)
  have one: "bs = [a]"
  proof -
    obtain b cs where c: "bs = b # cs" using f(2) by (cases bs) auto
    have "cs = []" using ap free c by (cases cs) (auto simp: apart_simps)
    then show ?thesis using c s by simp
  qed
  show "block_list h = [align_down8 (s + 7)]" using bl one a by simp
  have "used_bytes h bs = 0" using one free by (simp add: used_bytes_simps)
  then show "total_free_memory h = align_down8 e - align_down8 (s + 7) - 32" using tf r(3) by simp
qed

theorem heap_good_fit_and_recovery_witness:
  "fst (allocate_impl 100 example_heap) \<noteq> None"
  using heap_good_fit_and_recovery [OF example_reach example_init(2)] example_block
  by (auto simp: max_request_def required_def align_down8_def)

section \<open>Requests beyond the limit\<close>

lemma wrapped_search: "mapping_search 0xF8000008 = (0, 3)"
proof -
  have "msb 0xF8000008 = 31" by (rule msb_eq) simp_all
  then have "mapping_search 0xF8000008 = mapping_insert 7" by (simp add: mapping_search_def Let_def wrap32_def)
  then show ?thesis by (simp add: mapping_insert_def Let_def)
qed

lemma class_of_40:
  assumes "40 \<le> z" "z < 2 ^ 32"
  shows "class_le (0, 3) (mapping_insert z)"
proof -
  have z: "32 \<le> z" using assms by simp
  note m = mapping_insert_large [OF z assms(2)] and b = msb_bounds [OF _ assms(2)]
  show ?thesis
  proof (cases "msb z = 5")
    case True
    then show ?thesis using m assms(1) by (simp add: class_le_def)
  next
    case False
    then have "0 < min (msb z - 5) 19" using m(2) by simp
    then show ?thesis using m(1) by (simp add: class_le_def)
  qed
qed

text \<open>
  C38: the guard against overflowing requests is too weak. Rounding a request of almost 4 GiB up to its
  size class wraps around to a few bytes, so in every heap that has any usable free block the request
  succeeds and its caller is handed a block of a region that is smaller than 16 MiB.
\<close>
theorem oversized_request_is_granted:
  assumes "heap_reach s e h" "region s e" "b \<in> set (block_list h)" "is_free (hdr h b)" "40 \<le> bsize (hdr h b)"
  shows "\<exists>p. fst (allocate_impl 0xF7FFFFE8 h) = Some p"
proof -
  obtain bs where inv: "heap_inv h bs" using reach_inv(1) [OF assms(1,2)] by blast
  obtain a fs where f: "frame_ok h a" and s: "seg h (a + total_size h) None a bs (a + total_size h)"
    and rep: "free_rep h fs" and fs: "free_set fs = {b \<in> set bs. is_free (hdr h b)}"
    using inv unfolding heap_inv_def by blast
  have b: "b \<in> set bs" using assms(3) block_list_inv [OF inv] by simp
  then have "class_le (0, 3) (class_of h b)"
    using class_of_40 [OF assms(5)] heap_inv_size(1) [OF f s b] by (simp add: class_of_def)
  then obtain x where "search_suitable_block 0 3 h = Some x"
    using search_finds [OF rep, of 0 3] fs b assms(4) by (cases "search_suitable_block 0 3 h") auto
  then show ?thesis by (simp add: allocate_impl_def align_down8_def wrapped_search Let_def)
qed

theorem oversized_request_is_granted_witness:
  "\<exists>p. fst (allocate_impl 0xF7FFFFE8 example_heap) = Some p"
  using oversized_request_is_granted [OF example_reach example_init(2), of 4096] example_block by simp

end
