(* ===== verification/Page_Tables.thy ===== *)
theory Page_Tables
  imports Prelude
begin

text \<open>
  Physical pages and translation tables of the 64-bit targets: the page allocator of
  \<open>kernel/mm/page_allocator.hpp\<close>, the entry layout of \<open>arch/arm/cortex-a/mmu/mmu_pte.hpp\<close> and the
  four-level tables of \<open>mmu_manager.cpp\<close>. Memory is a map from page numbers to their 512 words; a
  page is named by its address divided by 4096, a null pointer is \<open>None\<close>. Cache and TLB maintenance
  and the system registers have no effect on this state and are left out.
\<close>

unbundle bit_operations_syntax

section \<open>Entries\<close>

record pte =
  valid :: bool
  is_table :: bool
  attr_indx :: "3 word"
  ns :: bool
  ap :: "2 word"
  sh :: "2 word"
  af :: bool
  ng :: bool
  output_addr :: "36 word"
  res0 :: "4 word"
  contiguous :: bool
  pxn :: bool
  uxn :: bool
  software :: "4 word"
  pbha :: "4 word"
  ignored :: bool

definition flag_at :: "nat \<Rightarrow> bool \<Rightarrow> u64" where
  "flag_at n b = (if b then bit_of n else 0)"

definition field_at :: "nat \<Rightarrow> 'a::len word \<Rightarrow> u64" where
  "field_at n x = push_bit n (ucast x)"

definition raw :: "pte \<Rightarrow> u64" where
  "raw e = flag_at 0 (valid e) OR flag_at 1 (is_table e) OR field_at 2 (attr_indx e) OR flag_at 5 (ns e)
     OR field_at 6 (ap e) OR field_at 8 (sh e) OR flag_at 10 (af e) OR flag_at 11 (ng e)
     OR field_at 12 (output_addr e) OR field_at 48 (res0 e) OR flag_at 52 (contiguous e) OR flag_at 53 (pxn e)
     OR flag_at 54 (uxn e) OR field_at 55 (software e) OR field_at 59 (pbha e) OR flag_at 63 (ignored e)"

definition field_of :: "nat \<Rightarrow> u64 \<Rightarrow> 'a::len word" where
  "field_of n w = ucast (drop_bit n w)"

definition pte_of :: "u64 \<Rightarrow> pte" where
  "pte_of w = \<lparr>valid = bit w 0, is_table = bit w 1, attr_indx = field_of 2 w, ns = bit w 5, ap = field_of 6 w,
     sh = field_of 8 w, af = bit w 10, ng = bit w 11, output_addr = field_of 12 w, res0 = field_of 48 w,
     contiguous = bit w 52, pxn = bit w 53, uxn = bit w 54, software = field_of 55 w, pbha = field_of 59 w,
     ignored = bit w 63\<rparr>"

lemma bit_flag_at: "n < 64 \<Longrightarrow> bit (flag_at n b) k \<longleftrightarrow> b \<and> k = n"
  by (auto simp: flag_at_def bit_simps)

lemma bit_field_at: "bit (field_at n (x :: 'a::len word)) k \<longleftrightarrow> n \<le> k \<and> k < 64 \<and> k - n < LENGTH('a) \<and> bit x (k - n)"
  by (auto simp: field_at_def bit_simps dest: bit_imp_le_length)

lemma bit_field_of: "bit (field_of n w :: 'a::len word) k \<longleftrightarrow> k < LENGTH('a) \<and> bit w (n + k)"
  by (auto simp: field_of_def bit_simps)

lemmas bit_raw = raw_def bit_or_iff bit_flag_at bit_field_at

lemma pte_of_raw [simp]: "pte_of (raw e) = e"
proof -
  have f: "valid (pte_of (raw e)) = valid e" "is_table (pte_of (raw e)) = is_table e" "ns (pte_of (raw e)) = ns e"
    "af (pte_of (raw e)) = af e" "ng (pte_of (raw e)) = ng e" "contiguous (pte_of (raw e)) = contiguous e"
    "pxn (pte_of (raw e)) = pxn e" "uxn (pte_of (raw e)) = uxn e" "ignored (pte_of (raw e)) = ignored e"
    by (simp_all add: pte_of_def bit_raw)
  moreover have "attr_indx (pte_of (raw e)) = attr_indx e" "ap (pte_of (raw e)) = ap e" "sh (pte_of (raw e)) = sh e"
    "output_addr (pte_of (raw e)) = output_addr e" "res0 (pte_of (raw e)) = res0 e"
    "software (pte_of (raw e)) = software e" "pbha (pte_of (raw e)) = pbha e"
    by (rule bit_word_eqI; simp add: pte_of_def bit_field_of bit_raw; auto)+
  ultimately show ?thesis by simp
qed

lemma pte_of_0: "pte_of 0 = \<lparr>valid = False, is_table = False, attr_indx = 0, ns = False, ap = 0, sh = 0, af = False,
    ng = False, output_addr = 0, res0 = 0, contiguous = False, pxn = False, uxn = False, software = 0, pbha = 0, ignored = False\<rparr>"
  by (simp add: pte_of_def field_of_def)
section \<open>Pages\<close>

record mm =
  mem :: "nat \<Rightarrow> nat \<Rightarrow> u64"
  base_page :: nat
  total_pages :: u64
  free_pages :: u64
  free_list_head :: "nat option"

text \<open>A page pointer as it is stored in memory and in entries.\<close>

definition page_word :: "nat option \<Rightarrow> u64" where
  "page_word r = (case r of None \<Rightarrow> 0 | Some p \<Rightarrow> push_bit 12 (of_nat p))"

definition word_page :: "u64 \<Rightarrow> nat option" where
  "word_page w = (if w = 0 then None else Some (unat (drop_bit 12 w)))"

definition set_word :: "nat \<Rightarrow> nat \<Rightarrow> u64 \<Rightarrow> mm \<Rightarrow> mm" where
  "set_word p i w st = st\<lparr>mem := (mem st)(p := (mem st p)(i := w))\<rparr>"

fun link_pages :: "nat \<Rightarrow> nat \<Rightarrow> mm \<Rightarrow> mm" where
  "link_pages 0 cur st = set_word cur 0 0 st"
| "link_pages (Suc n) cur st = link_pages n (cur + 1) (set_word cur 0 (page_word (Some (cur + 1))) st)"

definition page_init :: "u64 \<Rightarrow> u64 \<Rightarrow> mm \<Rightarrow> mm" where
  "page_init start_addr sz st =
     (let s = (start_addr + 4096 - 1) AND NOT (4096 - 1);
          e = (start_addr + sz) AND NOT (4096 - 1);
          total = (e - s) div 4096;
          st1 = st\<lparr>base_page := unat (drop_bit 12 s), total_pages := total, free_pages := total\<rparr>
      in if total = 0 then st1\<lparr>free_list_head := None\<rparr>
         else link_pages (unat (total - 1)) (base_page st1) (st1\<lparr>free_list_head := Some (base_page st1)\<rparr>))"

definition alloc_page :: "mm \<Rightarrow> nat option \<times> mm" where
  "alloc_page st =
     (case free_list_head st of
        None \<Rightarrow> (None, st)
      | Some p \<Rightarrow>
          (Some p, st\<lparr>free_list_head := word_page (mem st p 0), free_pages := free_pages st - 1,
                      mem := (mem st)(p := (\<lambda>_. 0))\<rparr>))"

definition free_page :: "nat option \<Rightarrow> mm \<Rightarrow> mm" where
  "free_page r st =
     (case r of
        None \<Rightarrow> st
      | Some p \<Rightarrow> (set_word p 0 (page_word (free_list_head st)) st)
                    \<lparr>free_list_head := Some p, free_pages := free_pages st + 1\<rparr>)"

section \<open>Tables\<close>

definition entry :: "nat \<Rightarrow> nat \<Rightarrow> mm \<Rightarrow> pte" where
  "entry t i st = pte_of (mem st t i)"

definition set_entry :: "nat \<Rightarrow> nat \<Rightarrow> pte \<Rightarrow> mm \<Rightarrow> mm" where
  "set_entry t i e st = set_word t i (raw e) st"

definition clear_entry :: "nat \<Rightarrow> nat \<Rightarrow> mm \<Rightarrow> mm" where
  "clear_entry t i st = set_word t i 0 st"

definition next_table :: "pte \<Rightarrow> nat option" where
  "next_table e = (if output_addr e = 0 then None else Some (unat (output_addr e)))"

definition get_or_allocate_next_level :: "nat \<Rightarrow> nat \<Rightarrow> mm \<Rightarrow> nat option \<times> mm" where
  "get_or_allocate_next_level t i st =
     (if valid (entry t i st) then (next_table (entry t i st), st)
      else
        case alloc_page st of
          (None, st1) \<Rightarrow> (None, st1)
        | (Some n, st1) \<Rightarrow>
            let st2 = clear_entry t i st1
            in (Some n, set_entry t i ((entry t i st2)\<lparr>valid := True, is_table := True, output_addr := of_nat n\<rparr>) st2))"

definition l0_idx :: "u64 \<Rightarrow> nat" where "l0_idx v = unat (drop_bit 39 v AND 0x1FF)"
definition l1_idx :: "u64 \<Rightarrow> nat" where "l1_idx v = unat (drop_bit 30 v AND 0x1FF)"
definition l2_idx :: "u64 \<Rightarrow> nat" where "l2_idx v = unat (drop_bit 21 v AND 0x1FF)"
definition l3_idx :: "u64 \<Rightarrow> nat" where "l3_idx v = unat (drop_bit 12 v AND 0x1FF)"

type_synonym map_flags = u32

definition Read :: map_flags where "Read = 1"
definition Write :: map_flags where "Write = 2"
definition Execute :: map_flags where "Execute = 4"
definition User :: map_flags where "User = 8"
definition Device :: map_flags where "Device = 16"

definition test_flags :: "map_flags \<Rightarrow> map_flags \<Rightarrow> bool" where
  "test_flags f g \<longleftrightarrow> f AND g \<noteq> 0"

definition MAIR_IDX_DEVICE_nGnRnE :: "3 word" where "MAIR_IDX_DEVICE_nGnRnE = 0"
definition MAIR_IDX_DEVICE_nGnRE :: "3 word" where "MAIR_IDX_DEVICE_nGnRE = 1"
definition MAIR_IDX_NORMAL_WB :: "3 word" where "MAIR_IDX_NORMAL_WB = 3"
definition SH_OUTER_SHAREABLE :: "2 word" where "SH_OUTER_SHAREABLE = 2"
definition SH_INNER_SHAREABLE :: "2 word" where "SH_INNER_SHAREABLE = 3"
definition AP_EL1_RW_EL0_NONE :: "2 word" where "AP_EL1_RW_EL0_NONE = 0"
definition AP_ALL_RW :: "2 word" where "AP_ALL_RW = 1"
definition AP_EL1_RO_EL0_NONE :: "2 word" where "AP_EL1_RO_EL0_NONE = 2"
definition AP_ALL_RO :: "2 word" where "AP_ALL_RO = 3"

text \<open>The attribute updates that mapping a page and changing its protection share.\<close>

definition set_attrs :: "map_flags \<Rightarrow> pte \<Rightarrow> pte" where
  "set_attrs flags e =
     (let e1 = (if test_flags flags Device
                then e\<lparr>attr_indx := MAIR_IDX_DEVICE_nGnRE, sh := SH_OUTER_SHAREABLE\<rparr>
                else e\<lparr>attr_indx := MAIR_IDX_NORMAL_WB, sh := SH_INNER_SHAREABLE\<rparr>);
          e2 = (if test_flags flags User
                then e1\<lparr>ap := (if test_flags flags Write then AP_ALL_RW else AP_ALL_RO)\<rparr>
                else e1\<lparr>ap := (if test_flags flags Write then AP_EL1_RW_EL0_NONE else AP_EL1_RO_EL0_NONE)\<rparr>)
      in if test_flags flags Execute
         then e2\<lparr>uxn := \<not> test_flags flags User, pxn := test_flags flags User\<rparr>
         else e2\<lparr>uxn := True, pxn := True\<rparr>)"

record space =
  l0_table :: "nat option"
  phys :: mm

definition map_below :: "nat \<Rightarrow> u64 \<Rightarrow> u64 \<Rightarrow> map_flags \<Rightarrow> mm \<Rightarrow> bool \<times> mm" where
  "map_below t0 vaddr paddr flags st0 =
     (case get_or_allocate_next_level t0 (l0_idx vaddr) st0 of
        (None, st1) \<Rightarrow> (False, st1)
      | (Some t1, st1) \<Rightarrow>
          (case get_or_allocate_next_level t1 (l1_idx vaddr) st1 of
             (None, st2) \<Rightarrow> (False, st2)
           | (Some t2, st2) \<Rightarrow>
               (case get_or_allocate_next_level t2 (l2_idx vaddr) st2 of
                  (None, st3) \<Rightarrow> (False, st3)
                | (Some t3, st3) \<Rightarrow>
                    let st4 = clear_entry t3 (l3_idx vaddr) st3;
                        e = (entry t3 (l3_idx vaddr) st4)\<lparr>valid := True, is_table := True,
                              output_addr := ucast (drop_bit 12 paddr), af := True\<rparr>
                    in (True, set_entry t3 (l3_idx vaddr) (set_attrs flags e) st4))))"

definition map_page :: "u64 \<Rightarrow> u64 \<Rightarrow> map_flags \<Rightarrow> space \<Rightarrow> bool \<times> space" where
  "map_page vaddr paddr flags s =
     (if vaddr AND 0xFFF \<noteq> 0 \<or> paddr AND 0xFFF \<noteq> 0 then (False, s)
      else
        case (case l0_table s of Some t \<Rightarrow> (Some t, phys s) | None \<Rightarrow> alloc_page (phys s)) of
          (None, st0) \<Rightarrow> (False, s\<lparr>l0_table := None, phys := st0\<rparr>)
        | (Some t0, st0) \<Rightarrow>
            (case map_below t0 vaddr paddr flags st0 of (b, st) \<Rightarrow> (b, s\<lparr>l0_table := Some t0, phys := st\<rparr>)))"

text \<open>The descent through the upper levels that unmapping, translating and protecting share.\<close>

definition descend :: "u64 \<Rightarrow> nat \<Rightarrow> mm \<Rightarrow> (nat \<times> nat \<times> nat) option" where
  "descend vaddr t0 st =
     (if \<not> valid (entry t0 (l0_idx vaddr) st) then None
      else
        let t1 = unat (output_addr (entry t0 (l0_idx vaddr) st))
        in if \<not> valid (entry t1 (l1_idx vaddr) st) then None
           else
             let t2 = unat (output_addr (entry t1 (l1_idx vaddr) st))
             in if \<not> valid (entry t2 (l2_idx vaddr) st) then None
                else
                  let t3 = unat (output_addr (entry t2 (l2_idx vaddr) st))
                  in if \<not> valid (entry t3 (l3_idx vaddr) st) then None else Some (t1, t2, t3))"

definition table_empty :: "nat \<Rightarrow> mm \<Rightarrow> bool" where
  "table_empty t st = list_all (\<lambda>i. \<not> valid (entry t i st)) [0..<512]"

definition unmap_page :: "u64 \<Rightarrow> space \<Rightarrow> bool \<times> space" where
  "unmap_page vaddr s =
     (if vaddr AND 0xFFF \<noteq> 0 then (False, s)
      else case l0_table s of
        None \<Rightarrow> (False, s)
      | Some t0 \<Rightarrow>
          (case descend vaddr t0 (phys s) of
             None \<Rightarrow> (False, s)
           | Some (t1, t2, t3) \<Rightarrow>
               let st = clear_entry t3 (l3_idx vaddr) (phys s)
               in (True, s\<lparr>phys :=
                    (if \<not> table_empty t3 st then st
                     else let st = clear_entry t2 (l2_idx vaddr) (free_page (Some t3) st)
                          in if \<not> table_empty t2 st then st
                             else let st = clear_entry t1 (l1_idx vaddr) (free_page (Some t2) st)
                                  in if \<not> table_empty t1 st then st
                                     else clear_entry t0 (l0_idx vaddr) (free_page (Some t1) st))\<rparr>)))"

definition flags_of :: "pte \<Rightarrow> map_flags" where
  "flags_of e = Read
     OR (if ap e = AP_ALL_RW \<or> ap e = AP_EL1_RW_EL0_NONE then Write else 0)
     OR (if ap e = AP_ALL_RW \<or> ap e = AP_ALL_RO then User else 0)
     OR (if \<not> uxn e \<or> \<not> pxn e then Execute else 0)
     OR (if attr_indx e = MAIR_IDX_DEVICE_nGnRE \<or> attr_indx e = MAIR_IDX_DEVICE_nGnRnE then Device else 0)"

definition translate :: "u64 \<Rightarrow> space \<Rightarrow> (u64 \<times> map_flags) option" where
  "translate vaddr s =
     (case l0_table s of
        None \<Rightarrow> None
      | Some t0 \<Rightarrow>
          (case descend vaddr t0 (phys s) of
             None \<Rightarrow> None
           | Some (t1, t2, t3) \<Rightarrow>
               let e = entry t3 (l3_idx vaddr) (phys s)
               in Some (push_bit 12 (ucast (output_addr e)) OR (vaddr AND 0xFFF), flags_of e)))"

definition protect_page :: "u64 \<Rightarrow> map_flags \<Rightarrow> space \<Rightarrow> bool \<times> space" where
  "protect_page vaddr flags s =
     (if vaddr AND 0xFFF \<noteq> 0 then (False, s)
      else case l0_table s of
        None \<Rightarrow> (False, s)
      | Some t0 \<Rightarrow>
          (case descend vaddr t0 (phys s) of
             None \<Rightarrow> (False, s)
           | Some (t1, t2, t3) \<Rightarrow>
               (True, s\<lparr>phys := set_entry t3 (l3_idx vaddr) (set_attrs flags (entry t3 (l3_idx vaddr) (phys s))) (phys s)\<rparr>)))"

text \<open>The destructor frees the tables bottom up; the first argument counts the levels below.\<close>

fun free_table_recursive :: "nat \<Rightarrow> nat option \<Rightarrow> mm \<Rightarrow> mm" where
  "free_table_recursive k None st = st"
| "free_table_recursive 0 (Some t) st = free_page (Some t) st"
| "free_table_recursive (Suc k) (Some t) st =
     free_page (Some t)
       (fold (\<lambda>i st'. if valid (entry t i st') \<and> is_table (entry t i st')
                     then free_table_recursive k (next_table (entry t i st')) st' else st') [0..<512] st)"

definition create_space :: "mm \<Rightarrow> space" where
  "create_space st = (case alloc_page st of (r, st1) \<Rightarrow> \<lparr>l0_table = r, phys = st1\<rparr>)"

definition destroy_space :: "space \<Rightarrow> space" where
  "destroy_space s =
     (case l0_table s of
        None \<Rightarrow> s
      | Some t \<Rightarrow> s\<lparr>l0_table := None, phys := free_table_recursive 3 (Some t) (phys s)\<rparr>)"

text \<open>Moving an address space leaves the source without tables; assignment frees the old ones first.\<close>

definition move_construct :: "nat option \<Rightarrow> nat option \<times> nat option" where
  "move_construct other = (other, None)"

definition move_assign :: "bool \<Rightarrow> nat option \<Rightarrow> nat option \<Rightarrow> mm \<Rightarrow> nat option \<times> nat option \<times> mm" where
  "move_assign same_object own other st =
     (if same_object then (own, other, st)
      else (other, None, case own of None \<Rightarrow> st | Some t \<Rightarrow> free_table_recursive 3 (Some t) st))"

definition get_pgdir_base :: "space \<Rightarrow> u64" where
  "get_pgdir_base s = page_word (l0_table s)"

end
