(* ===== verification/Page_Table_Trees.thy ===== *)
theory Page_Table_Trees
  imports Page_Tables "HOL-Library.Sublist"
begin

text \<open>
  The tables of an address space form a tree: every table is reached by exactly one path of indices,
  and no table is on the free list. Each of the three changes an operation makes, adding an empty
  table, writing a last-level entry and freeing an empty table, keeps this and changes the mapped
  pages in the obvious way.
\<close>

named_theorems page_simps \<open>entries and fields after updates of page memory\<close>

lemma set_word_fields [page_simps]:
  "mem (set_word p i w st) = (mem st)(p := (mem st p)(i := w))" "free_list_head (set_word p i w st) = free_list_head st"
  by (simp_all add: set_word_def)

lemma entry_updates [page_simps]:
  "entry t i (set_word p j w st) = (if t = p \<and> i = j then pte_of w else entry t i st)"
  "entry t i (set_entry p j e st) = (if t = p \<and> i = j then e else entry t i st)"
  "entry t i (clear_entry p j st) = (if t = p \<and> i = j then pte_of 0 else entry t i st)"
  "entry t i (free_page (Some p) st) = (if t = p \<and> i = 0 then pte_of (page_word (free_list_head st)) else entry t i st)"
  by (simp_all add: entry_def set_entry_def clear_entry_def free_page_def set_word_def)

lemma valid_0 [simp]: "\<not> valid (pte_of 0)" by (simp add: pte_of_0)

section \<open>Free pages\<close>

fun free_chain :: "mm \<Rightarrow> nat option \<Rightarrow> nat list \<Rightarrow> bool" where
  "free_chain st r [] \<longleftrightarrow> r = None"
| "free_chain st r (p # ps) \<longleftrightarrow> r = Some p \<and> 0 < p \<and> p < 2 ^ 36 \<and> free_chain st (word_page (mem st p 0)) ps"

definition free_list :: "mm \<Rightarrow> nat list \<Rightarrow> bool" where
  "free_list st ps \<longleftrightarrow> free_chain st (free_list_head st) ps \<and> distinct ps"

lemma free_chain_cong: "(\<And>p. p \<in> set ps \<Longrightarrow> mem st' p 0 = mem st p 0) \<Longrightarrow> free_chain st' r ps = free_chain st r ps"
  by (induction ps arbitrary: r) auto

lemma free_chain_bounds: "free_chain st r ps \<Longrightarrow> p \<in> set ps \<Longrightarrow> 0 < p \<and> p < 2 ^ 36"
  by (induction ps arbitrary: r) auto

lemma unat_page: "p < 2 ^ 36 \<Longrightarrow> unat (of_nat p :: u64) = p"
  by (simp add: unat_of_nat take_bit_nat_eq_self)

lemma word_page_word:
  assumes "r = None \<or> (\<exists>p. r = Some p \<and> 0 < p \<and> p < 2 ^ 36)"
  shows "word_page (page_word r) = r"
proof (cases r)
  case (Some p)
  then have p: "0 < p" "p < 2 ^ 36" using assms by auto
  have d: "drop_bit 12 (push_bit 12 (of_nat p) :: u64) = of_nat p"
  proof (rule bit_word_eqI)
    fix n
    assume "n < LENGTH(64)"
    moreover have "\<not> bit p n" if "36 \<le> n"
    proof -
      have "(2 :: nat) ^ 36 \<le> 2 ^ n" using that by (intro power_increasing) simp_all
      then have "p < 2 ^ n" using p(2) by linarith
      then show ?thesis by (simp add: bit_iff_odd)
    qed
    ultimately show "bit (drop_bit 12 (push_bit 12 (of_nat p) :: u64)) n = bit (of_nat p :: u64) n"
      by (cases "36 \<le> n") (auto simp: bit_simps)
  qed
  have "push_bit 12 (of_nat p) \<noteq> (0 :: u64)"
  proof
    assume "push_bit 12 (of_nat p) = (0 :: u64)"
    then have "(of_nat p :: u64) = 0" using d by simp
    then show False using unat_page [OF p(2)] p(1) by simp
  qed
  then show ?thesis using Some d unat_page [OF p(2)] by (simp add: page_word_def word_page_def)
qed (simp add: page_word_def word_page_def)

text \<open>Allocation takes the head of the list and clears the page.\<close>

lemma alloc_page_list:
  assumes "free_list st ps"
  shows "case alloc_page st of
      (None, st') \<Rightarrow> ps = [] \<and> st' = st
    | (Some n, st') \<Rightarrow> \<exists>qs. ps = n # qs \<and> free_list st' qs \<and> mem st' = (mem st)(n := (\<lambda>_. 0))"
proof (cases ps)
  case Nil
  then show ?thesis using assms by (simp add: alloc_page_def free_list_def)
next
  case (Cons n qs)
  then have h: "free_list_head st = Some n" and c: "free_chain st (word_page (mem st n 0)) qs" and d: "n \<notin> set qs" "distinct qs"
    using assms by (auto simp: free_list_def)
  let ?st = "st\<lparr>free_list_head := word_page (mem st n 0), free_pages := free_pages st - 1, mem := (mem st)(n := (\<lambda>_. 0))\<rparr>"
  have "free_chain ?st (word_page (mem st n 0)) qs = free_chain st (word_page (mem st n 0)) qs"
    using d by (intro free_chain_cong) auto
  then have "free_list ?st qs" using c d by (simp add: free_list_def)
  then show ?thesis using Cons h by (simp add: alloc_page_def)
qed

lemma free_page_list:
  assumes "free_list st ps" "p \<notin> set ps" "0 < p" "p < 2 ^ 36"
  shows "free_list (free_page (Some p) st) (p # ps)"
proof -
  let ?st = "free_page (Some p) st"
  have c: "free_chain st (free_list_head st) ps" "distinct ps" using assms(1) by (auto simp: free_list_def)
  have "free_list_head st = None \<or> (\<exists>q. free_list_head st = Some q \<and> 0 < q \<and> q < 2 ^ 36)" using c(1) by (cases ps) auto
  then have "word_page (mem ?st p 0) = free_list_head st" by (simp add: free_page_def page_simps word_page_word)
  moreover have "free_chain ?st r ps = free_chain st r ps" for r
    using assms(2) by (intro free_chain_cong) (auto simp: free_page_def page_simps)
  moreover have "free_list_head ?st = Some p" by (simp add: free_page_def)
  ultimately show ?thesis using c assms by (simp add: free_list_def)
qed

lemma free_list_cong:
  "free_list_head st' = free_list_head st \<Longrightarrow> (\<And>p. p \<in> set ps \<Longrightarrow> mem st' p 0 = mem st p 0) \<Longrightarrow> free_list st' ps = free_list st ps"
  using free_chain_cong [of ps st' st] by (simp add: free_list_def)

lemma free_list_set_word: "p \<notin> set ps \<Longrightarrow> free_list (set_word p i w st) ps = free_list st ps"
  by (rule free_list_cong) (auto simp: page_simps)

section \<open>Paths\<close>

fun tab :: "nat list \<Rightarrow> nat \<Rightarrow> mm \<Rightarrow> nat option" where
  "tab [] t st = Some t"
| "tab (i # q) t st = (if valid (entry t i st) then tab q (unat (output_addr (entry t i st))) st else None)"

lemma tab_append: "tab (p @ q) t st = (case tab p t st of None \<Rightarrow> None | Some u \<Rightarrow> tab q u st)"
  by (induction p arbitrary: t) auto

lemma tab_same:
  assumes "\<And>j u. j < length q \<Longrightarrow> tab (take j q) t st = Some u \<Longrightarrow> entry u (q ! j) st' = entry u (q ! j) st"
  shows "tab q t st' = tab q t st"
  using assms
proof (induction q arbitrary: t)
  case (Cons i q)
  have e: "entry t i st' = entry t i st" using Cons.prems [of 0 t] by simp
  show ?case
  proof (cases "valid (entry t i st)")
    case True
    have "tab q (unat (output_addr (entry t i st))) st' = tab q (unat (output_addr (entry t i st))) st"
      using Cons.prems [of "Suc _"] True by (intro Cons.IH) auto
    then show ?thesis using e True by simp
  qed (simp add: e)
qed simp

definition ok_path :: "nat list \<Rightarrow> bool" where
  "ok_path q \<longleftrightarrow> length q \<le> 3 \<and> (\<forall>i \<in> set q. i < 512)"

definition tree_ok :: "nat \<Rightarrow> mm \<Rightarrow> bool" where
  "tree_ok t0 st \<longleftrightarrow>
     (\<forall>q u. ok_path q \<longrightarrow> tab q t0 st = Some u \<longrightarrow> 0 < u \<and> u < 2 ^ 36)
     \<and> (\<forall>q q' u. ok_path q \<longrightarrow> ok_path q' \<longrightarrow> tab q t0 st = Some u \<longrightarrow> tab q' t0 st = Some u \<longrightarrow> q = q')
     \<and> (\<exists>ps. free_list st ps \<and> (\<forall>q u. ok_path q \<longrightarrow> tab q t0 st = Some u \<longrightarrow> u \<notin> set ps))"

lemma ok_path_take: "ok_path q \<Longrightarrow> ok_path (take j q)"
  by (auto simp: ok_path_def dest: in_set_takeD)

lemma ok_path_prefix: "ok_path q \<Longrightarrow> prefix p q \<Longrightarrow> ok_path p"
  by (auto simp: ok_path_def prefix_def)

text \<open>A change at one entry, and on pages that are only reached through it, is seen only by the paths through it.\<close>

lemma tab_elsewhere:
  assumes inj: "\<And>q q' u. ok_path q \<Longrightarrow> ok_path q' \<Longrightarrow> tab q t0 st = Some u \<Longrightarrow> tab q' t0 st = Some u \<Longrightarrow> q = q'"
    and p: "ok_path p" "tab p t0 st = Some t"
    and same: "\<And>u j. u \<notin> X \<Longrightarrow> (u, j) \<noteq> (t, i) \<Longrightarrow> entry u j st' = entry u j st"
    and X: "\<And>q u. ok_path q \<Longrightarrow> \<not> prefix (p @ [i]) q \<Longrightarrow> tab q t0 st = Some u \<Longrightarrow> u \<notin> X"
    and q: "ok_path q" "\<not> prefix (p @ [i]) q"
  shows "tab q t0 st' = tab q t0 st"
proof (rule tab_same)
  fix j u
  assume j: "j < length q" "tab (take j q) t0 st = Some u"
  have k: "ok_path (take j q)" by (rule ok_path_take [OF q(1)])
  have "\<not> prefix (p @ [i]) (take j q)" using q(2) by (meson prefix_order.trans take_is_prefix)
  then have "u \<notin> X" using X [OF k _ j(2)] by simp
  moreover have "(u, q ! j) \<noteq> (t, i)"
  proof
    assume "(u, q ! j) = (t, i)"
    then have "take j q = p" "q ! j = i" using inj [OF k p(1) j(2)] p(2) by auto
    then have "take (Suc j) q = p @ [i]" using j(1) by (simp add: take_Suc_conv_app_nth)
    then show False using q(2) take_is_prefix [of "Suc j" q] by simp
  qed
  ultimately show "entry u (q ! j) st' = entry u (q ! j) st" by (rule same)
qed
section \<open>Mapped pages\<close>

definition path :: "u64 \<Rightarrow> nat list" where
  "path v = [l0_idx v, l1_idx v, l2_idx v]"

definition same_page :: "u64 \<Rightarrow> u64 \<Rightarrow> bool" where
  "same_page v v' \<longleftrightarrow> path v = path v' \<and> l3_idx v = l3_idx v'"

definition leaf :: "u64 \<Rightarrow> nat \<Rightarrow> mm \<Rightarrow> pte option" where
  "leaf v t0 st =
     (case tab (path v) t0 st of
        None \<Rightarrow> None
      | Some t3 \<Rightarrow> if valid (entry t3 (l3_idx v) st) then Some (entry t3 (l3_idx v) st) else None)"

lemma idx_lt: "l0_idx v < 512" "l1_idx v < 512" "l2_idx v < 512" "l3_idx v < 512"
proof -
  have "unat (w AND 0x1FF) < 512" for w :: u64
  proof -
    have "w AND 0x1FF = take_bit 9 w" by (simp add: take_bit_eq_mask mask_eq_exp_minus_1)
    then show ?thesis using take_bit_nat_less_exp [of 9 "unat w"] by (simp add: unsigned_take_bit_eq)
  qed
  then show "l0_idx v < 512" "l1_idx v < 512" "l2_idx v < 512" "l3_idx v < 512"
    by (simp_all add: l0_idx_def l1_idx_def l2_idx_def l3_idx_def)
qed

lemma ok_path_path: "ok_path (path v)"
  by (simp add: ok_path_def path_def idx_lt)

lemma descend_tab:
  "descend v t0 st =
     (case (tab [l0_idx v] t0 st, tab [l0_idx v, l1_idx v] t0 st, tab (path v) t0 st) of
        (Some t1, Some t2, Some t3) \<Rightarrow> if valid (entry t3 (l3_idx v) st) then Some (t1, t2, t3) else None
      | _ \<Rightarrow> None)"
  by (auto simp: descend_def path_def Let_def)

lemma descend_leaf:
  "(case descend v t0 st of None \<Rightarrow> None | Some (t1, t2, t3) \<Rightarrow> Some (entry t3 (l3_idx v) st)) = leaf v t0 st"
  by (auto simp: descend_def leaf_def path_def Let_def)

lemma tree_okD:
  assumes "tree_ok t0 st"
  shows "ok_path q \<Longrightarrow> tab q t0 st = Some u \<Longrightarrow> 0 < u \<and> u < 2 ^ 36"
    "ok_path q \<Longrightarrow> ok_path q' \<Longrightarrow> tab q t0 st = Some u \<Longrightarrow> tab q' t0 st = Some u \<Longrightarrow> q = q'"
    "\<exists>ps. free_list st ps \<and> (\<forall>q u. ok_path q \<longrightarrow> tab q t0 st = Some u \<longrightarrow> u \<notin> set ps)"
  using assms unfolding tree_ok_def by blast+

lemma tree_okI:
  assumes "\<And>q u. ok_path q \<Longrightarrow> tab q t0 st = Some u \<Longrightarrow> 0 < u \<and> u < 2 ^ 36"
    "\<And>q q' u. ok_path q \<Longrightarrow> ok_path q' \<Longrightarrow> tab q t0 st = Some u \<Longrightarrow> tab q' t0 st = Some u \<Longrightarrow> q = q'"
    "free_list st ps" "\<And>q u. ok_path q \<Longrightarrow> tab q t0 st = Some u \<Longrightarrow> u \<notin> set ps"
  shows "tree_ok t0 st"
  unfolding tree_ok_def using assms by auto

text \<open>Leaves are the same where paths and last tables are.\<close>

lemma leaf_same:
  assumes "tab (path v) t0 st' = tab (path v) t0 st" "\<And>u. tab (path v) t0 st = Some u \<Longrightarrow> entry u (l3_idx v) st' = entry u (l3_idx v) st"
  shows "leaf v t0 st' = leaf v t0 st"
  using assms by (auto simp: leaf_def split: option.split)

section \<open>Adding an empty table\<close>

lemma zero_page_tab: "(\<And>j. \<not> valid (entry n j st)) \<Longrightarrow> tab q n st = (if q = [] then Some n else None)"
  by (cases q) auto

definition links_table :: "nat \<Rightarrow> nat list \<Rightarrow> nat \<Rightarrow> nat \<Rightarrow> nat \<Rightarrow> mm \<Rightarrow> mm \<Rightarrow> bool" where
  "links_table t0 p i t n st st' \<longleftrightarrow>
     tree_ok t0 st \<and> ok_path (p @ [i]) \<and> tab p t0 st = Some t \<and> \<not> valid (entry t i st)
     \<and> (\<forall>q u. ok_path q \<longrightarrow> tab q t0 st = Some u \<longrightarrow> u \<noteq> n)
     \<and> (\<forall>u j. (u, j) \<noteq> (t, i) \<longrightarrow> u \<noteq> n \<longrightarrow> entry u j st' = entry u j st)
     \<and> (\<forall>j. \<not> valid (entry n j st')) \<and> valid (entry t i st') \<and> unat (output_addr (entry t i st')) = n"

lemma links_tableD:
  assumes "links_table t0 p i t n st st'"
  shows "tree_ok t0 st" "ok_path (p @ [i])" "ok_path p" "tab p t0 st = Some t" "\<not> valid (entry t i st)"
    "ok_path q \<Longrightarrow> tab q t0 st = Some u \<Longrightarrow> u \<noteq> n" "(u, j) \<noteq> (t, i) \<Longrightarrow> u \<noteq> n \<Longrightarrow> entry u j st' = entry u j st"
    "\<not> valid (entry n j st')" "valid (entry t i st')" "unat (output_addr (entry t i st')) = n" "length p < 3"
proof -
  show "ok_path p" using assms unfolding links_table_def by (meson ok_path_prefix prefixI)
qed (use assms in \<open>auto simp: links_table_def ok_path_def\<close>)

lemma linked_tab:
  assumes L: "links_table t0 p i t n st st'" and q: "ok_path q"
  shows "tab q t0 st' = (if prefix (p @ [i]) q then (if q = p @ [i] then Some n else None) else tab q t0 st)"
proof -
  note l = links_tableD [OF L] and D = tree_okD [OF links_tableD(1) [OF L]]
  have other: "tab r t0 st' = tab r t0 st" if "ok_path r" "\<not> prefix (p @ [i]) r" for r
    by (rule tab_elsewhere [where X = "{n}" and i = i, OF D(2) l(3,4) _ _ that]) (use l(6,7) in auto)
  show ?thesis
  proof (cases "prefix (p @ [i]) q")
    case True
    then obtain z where z: "q = p @ i # z" by (auto simp: prefix_def)
    have "tab p t0 st' = Some t" using other [OF l(3)] l(4) by simp
    moreover have "tab z n st' = (if z = [] then Some n else None)" by (rule zero_page_tab) (rule l(8))
    ultimately show ?thesis using True z l(9,10) by (auto simp: tab_append)
  qed (simp add: other q)
qed

lemma linked_leaf:
  assumes L: "links_table t0 p i t n st st'"
  shows "leaf v t0 st' = leaf v t0 st"
proof (cases "prefix (p @ [i]) (path v)")
  note l = links_tableD [OF L]
  case True
  then obtain z where "path v = p @ i # z" by (auto simp: prefix_def)
  then have "tab (path v) t0 st = None" using l(4,5) by (simp add: tab_append)
  moreover have "leaf v t0 st' = None"
    using linked_tab [OF L ok_path_path, of v] True l(8) by (auto simp: leaf_def)
  ultimately show ?thesis by (simp add: leaf_def)
next
  note l = links_tableD [OF L] and D = tree_okD [OF links_tableD(1) [OF L]]
  case False
  show ?thesis
  proof (rule leaf_same)
    show "tab (path v) t0 st' = tab (path v) t0 st" using linked_tab [OF L ok_path_path] False by simp
    fix u
    assume u: "tab (path v) t0 st = Some u"
    have "u \<noteq> t" using D(2) [OF ok_path_path l(3) u] l(4,11) by (auto simp: path_def)
    then show "entry u (l3_idx v) st' = entry u (l3_idx v) st" using l(6) [OF ok_path_path u] l(7) by simp
  qed
qed

lemma linked_tree:
  assumes L: "links_table t0 p i t n st st'" and n: "0 < n" "n < 2 ^ 36"
    and fl: "free_list st' ps" "n \<notin> set ps" "\<And>q u. ok_path q \<Longrightarrow> tab q t0 st = Some u \<Longrightarrow> u \<notin> set ps"
  shows "tree_ok t0 st'"
  unfolding tree_ok_def
proof (intro conjI allI impI)
  note l = links_tableD [OF L] and D = tree_okD [OF links_tableD(1) [OF L]] and tq = linked_tab [OF L]
  fix q u
  assume q: "ok_path q" "tab q t0 st' = Some u"
  then show "0 < u" "u < 2 ^ 36" using tq [of q] D(1) n by (auto split: if_splits)
  fix q'
  assume "ok_path q'" "tab q' t0 st' = Some u"
  then show "q = q'" using q tq [of q] tq [of q'] D(2) [of q q' u] l(6) [of q u] l(6) [of q' u] by (auto split: if_splits)
next
  note tq = linked_tab [OF L]
  have "u \<notin> set ps" if "ok_path q" "tab q t0 st' = Some u" for q u
    using that tq [of q] fl(2,3) by (auto split: if_splits)
  then show "\<exists>ps. free_list st' ps \<and> (\<forall>q u. ok_path q \<longrightarrow> tab q t0 st' = Some u \<longrightarrow> u \<notin> set ps)" using fl(1) by blast
qed

lemma next_level_new:
  assumes ok: "tree_ok t0 st" and p: "ok_path (p @ [i])" "tab p t0 st = Some t" and inv: "\<not> valid (entry t i st)"
    and a: "alloc_page st = (Some n, st1)" and g: "get_or_allocate_next_level t i st = (r, st')"
  shows "links_table t0 p i t n st st'" "tree_ok t0 st'" "r = Some n"
    "\<exists>qs. free_list st (n # qs) \<and> free_list st' qs" "x \<noteq> t \<Longrightarrow> x \<noteq> n \<Longrightarrow> mem st' x = mem st x" "is_table (entry t i st')"
proof -
  note D = tree_okD [OF ok]
  have okp: "ok_path p" using p(1) by (rule ok_path_prefix) simp
  obtain ps where ps: "free_list st ps" "\<And>q u. ok_path q \<Longrightarrow> tab q t0 st = Some u \<Longrightarrow> u \<notin> set ps" using D(3) by blast
  obtain qs where al: "ps = n # qs" "free_list st1 qs" "mem st1 = (mem st)(n := (\<lambda>_. 0))"
    using alloc_page_list [OF ps(1)] a by auto
  have n: "0 < n" "n < 2 ^ 36" "n \<notin> set qs" using ps(1) al(1) free_chain_bounds [of st _ ps n] by (auto simp: free_list_def)
  define e where "e = (entry t i (clear_entry t i st1))\<lparr>valid := True, is_table := True, output_addr := of_nat n\<rparr>"
  have st': "st' = set_entry t i e (clear_entry t i st1)" and r: "r = Some n"
    using g inv a by (auto simp: get_or_allocate_next_level_def Let_def e_def)
  then show "r = Some n" by simp
  have fresh: "ok_path q \<Longrightarrow> tab q t0 st = Some u \<Longrightarrow> u \<noteq> n" for q u using ps(2) al(1) by auto
  have tn: "t \<noteq> n" using fresh [OF okp p(2)] .
  have en: "entry u j st' = (if u = t \<and> j = i then e else if u = n then pte_of 0 else entry u j st)" for u j
    using tn by (simp add: st' page_simps) (simp add: entry_def al(3))
  have out: "unat (output_addr e) = n" using n(2) by (simp add: e_def unat_of_nat take_bit_nat_eq_self)
  have "valid e" by (simp add: e_def)
  then show L: "links_table t0 p i t n st st'"
    unfolding links_table_def using ok p inv fresh tn out by (auto simp: en)
  have "mem st' x 0 = mem st1 x 0" if "x \<in> set qs" for x
  proof -
    have "x \<noteq> t" using ps(2) [OF okp p(2)] al(1) that by auto
    then show ?thesis by (simp add: st' set_entry_def clear_entry_def page_simps)
  qed
  moreover have "free_list_head st' = free_list_head st1" by (simp add: st' set_entry_def clear_entry_def page_simps)
  ultimately have qs: "free_list st' qs" using al(2) free_list_cong [of st' st1 qs] by simp
  then show "\<exists>qs. free_list st (n # qs) \<and> free_list st' qs" using ps(1) al(1) by blast
  show "x \<noteq> t \<Longrightarrow> x \<noteq> n \<Longrightarrow> mem st' x = mem st x" by (simp add: st' set_entry_def clear_entry_def page_simps al(3))
  show "is_table (entry t i st')" by (simp add: en e_def)
  from qs show "tree_ok t0 st'" using linked_tree [OF L n(1,2) _ n(3)] ps(2) al(1) by fastforce
qed

text \<open>Finding or adding the table below an entry.\<close>

lemma next_level:
  assumes ok: "tree_ok t0 st" and p: "ok_path (p @ [i])" "tab p t0 st = Some t"
    and g: "get_or_allocate_next_level t i st = (r, st')"
  shows "tree_ok t0 st'" "leaf v t0 st' = leaf v t0 st" "r = Some n \<Longrightarrow> tab (p @ [i]) t0 st' = Some n"
proof -
  have "tree_ok t0 st' \<and> (\<forall>v. leaf v t0 st' = leaf v t0 st) \<and> (\<forall>n. r = Some n \<longrightarrow> tab (p @ [i]) t0 st' = Some n)"
  proof (cases "valid (entry t i st)")
    case True
    then have e: "st' = st" "r = next_table (entry t i st)" using g by (auto simp: get_or_allocate_next_level_def)
    have "tab (p @ [i]) t0 st = Some (unat (output_addr (entry t i st)))" using p(2) True by (simp add: tab_append)
    then show ?thesis using ok e by (auto simp: next_table_def split: if_splits)
  next
    case False
    show ?thesis
    proof (cases "alloc_page st")
      case (Pair m st1)
      show ?thesis
      proof (cases m)
        case None
        then have "st' = st" "r = None"
          using g False Pair tree_okD(3) [OF ok] alloc_page_list [of st] by (auto simp: get_or_allocate_next_level_def)
        then show ?thesis using ok by simp
      next
        case (Some k)
        note n = next_level_new [OF ok p False Pair [unfolded Some] g]
        show ?thesis using n(2,3) linked_leaf [OF n(1)] linked_tab [OF n(1) p(1)] by simp
      qed
    qed
  qed
  then show "tree_ok t0 st'" "leaf v t0 st' = leaf v t0 st" "r = Some n \<Longrightarrow> tab (p @ [i]) t0 st' = Some n" by blast+
qed

section \<open>Writing a last-level entry\<close>

lemma write_leaf:
  fixes w :: u64
  assumes ok: "tree_ok t0 st" and t: "tab (path v) t0 st = Some t3"
  defines "st' \<equiv> set_word t3 (l3_idx v) w st"
  shows "tree_ok t0 st'" "ok_path q \<Longrightarrow> tab q t0 st' = tab q t0 st"
    "leaf v' t0 st' = (if same_page v v' then (if valid (pte_of w) then Some (pte_of w) else None) else leaf v' t0 st)"
proof -
  note D = tree_okD [OF ok]
  have tq: "tab q t0 st' = tab q t0 st" if q: "ok_path q" for q
  proof (rule tab_same)
    fix j u
    assume j: "j < length q" "tab (take j q) t0 st = Some u"
    have "u \<noteq> t3"
    proof
      assume "u = t3"
      then have "take j q = path v" using D(2) [OF ok_path_take [OF q] ok_path_path j(2)] t by simp
      then have "length (path v) = min (length q) j" by (metis length_take)
      then show False using j(1) q by (simp add: path_def ok_path_def)
    qed
    then show "entry u (q ! j) st' = entry u (q ! j) st" by (simp add: st'_def page_simps)
  qed
  then show "ok_path q \<Longrightarrow> tab q t0 st' = tab q t0 st" .
  obtain ps where ps: "free_list st ps" "\<forall>q u. ok_path q \<longrightarrow> tab q t0 st = Some u \<longrightarrow> u \<notin> set ps" using D(3) by blast
  have "t3 \<notin> set ps" using ps(2) t ok_path_path by blast
  then have "free_list st' ps" using ps(1) by (simp add: st'_def free_list_set_word)
  then show "tree_ok t0 st'"
  proof (rule tree_okI [rotated 2])
    fix q u
    assume "ok_path q" "tab q t0 st' = Some u"
    then show "0 < u \<and> u < 2 ^ 36" "u \<notin> set ps" using tq D(1) ps(2) by auto
  next
    fix q q' u
    assume "ok_path q" "ok_path q'" "tab q t0 st' = Some u" "tab q' t0 st' = Some u"
    then show "q = q'" using tq [of q] tq [of q'] D(2) [of q q' u] by simp
  qed
  show "leaf v' t0 st' = (if same_page v v' then (if valid (pte_of w) then Some (pte_of w) else None) else leaf v' t0 st)"
  proof (cases "path v = path v'")
    case True
    then have l: "tab (path v') t0 st = Some t3" "tab (path v') t0 st' = Some t3" using t tq [OF ok_path_path, of v'] by auto
    have "entry t3 (l3_idx v') st' = (if l3_idx v' = l3_idx v then pte_of w else entry t3 (l3_idx v') st)"
      by (simp add: st'_def page_simps)
    then show ?thesis using True by (auto simp: leaf_def l same_page_def)
  next
    case False
    have "leaf v' t0 st' = leaf v' t0 st"
    proof (rule leaf_same)
      fix u
      assume u: "tab (path v') t0 st = Some u"
      then have "u \<noteq> t3" using D(2) [OF ok_path_path ok_path_path u, of v] t False by metis
      then show "entry u (l3_idx v') st' = entry u (l3_idx v') st" by (simp add: st'_def page_simps)
    qed (rule tq [OF ok_path_path])
    then show ?thesis using False by (simp add: same_page_def)
  qed
qed

section \<open>Freeing an empty table\<close>

lemma free_empty_table:
  assumes ok: "tree_ok t0 st" and p: "ok_path (p @ [i])" "tab p t0 st = Some t" "tab (p @ [i]) t0 st = Some u"
    and e: "table_empty u st"
  defines "st' \<equiv> clear_entry t i (free_page (Some u) st)"
  shows "tree_ok t0 st'" "ok_path q \<Longrightarrow> tab q t0 st' = (if prefix (p @ [i]) q then None else tab q t0 st)"
    "leaf v t0 st' = leaf v t0 st" "\<exists>ps. free_list st ps \<and> free_list st' (u # ps)"
proof -
  note D = tree_okD [OF ok]
  have okp: "ok_path p" using p(1) by (rule ok_path_prefix) simp
  have empty: "\<not> valid (entry u j st)" if "j < 512" for j using e that by (auto simp: table_empty_def list_all_iff)
  have tu: "t \<noteq> u" using D(2) [OF okp p(1) p(2)] p(3) by auto
  have only: "u' \<noteq> u" if "ok_path q" "\<not> prefix (p @ [i]) q" "tab q t0 st = Some u'" for q u'
    using D(2) [OF that(1) p(1) that(3)] p(3) that(2) by auto
  have same: "entry x j st' = entry x j st" if "x \<notin> {u}" "(x, j) \<noteq> (t, i)" for x j using that by (auto simp: st'_def page_simps)
  have other: "tab q t0 st' = tab q t0 st" if "ok_path q" "\<not> prefix (p @ [i]) q" for q
    by (rule tab_elsewhere [where X = "{u}" and i = i, OF D(2) okp p(2) same _ that]) (use only in auto)
  have tq: "tab q t0 st' = (if prefix (p @ [i]) q then None else tab q t0 st)" if q: "ok_path q" for q
  proof (cases "prefix (p @ [i]) q")
    case True
    then obtain z where z: "q = p @ i # z" by (auto simp: prefix_def)
    have "\<not> prefix (p @ [i]) p" by (auto simp: prefix_def)
    then have "tab p t0 st' = Some t" using other [OF okp] p(2) by simp
    moreover have "\<not> valid (entry t i st')" by (simp add: st'_def page_simps)
    ultimately show ?thesis using True z by (simp add: tab_append)
  qed (simp add: other q)
  then show "ok_path q \<Longrightarrow> tab q t0 st' = (if prefix (p @ [i]) q then None else tab q t0 st)" .
  show "leaf v t0 st' = leaf v t0 st"
  proof (cases "prefix (p @ [i]) (path v)")
    case True
    then obtain z where z: "path v = p @ i # z" by (auto simp: prefix_def)
    then have "tab (path v) t0 st = tab z u st" using p(2,3) by (auto simp: tab_append split: if_splits)
    moreover have "z = [] \<or> tab z u st = None"
    proof (cases z)
      case (Cons j y)
      have "j < 512" using ok_path_path [of v] z Cons by (auto simp: ok_path_def)
      then show ?thesis using empty Cons by simp
    qed simp
    ultimately have "leaf v t0 st = None" using empty [OF idx_lt(4)] by (auto simp: leaf_def)
    then show ?thesis using tq [OF ok_path_path, of v] True by (simp add: leaf_def)
  next
    case False
    show ?thesis
    proof (rule leaf_same)
      show "tab (path v) t0 st' = tab (path v) t0 st" using tq [OF ok_path_path] False by simp
      fix x
      assume x: "tab (path v) t0 st = Some x"
      have "x \<noteq> t" using D(2) [OF ok_path_path okp x] p(1,2) by (auto simp: ok_path_def path_def)
      then show "entry x (l3_idx v) st' = entry x (l3_idx v) st" using only [OF ok_path_path False x] same by simp
    qed
  qed
  obtain ps where ps: "free_list st ps" "\<And>q u. ok_path q \<Longrightarrow> tab q t0 st = Some u \<Longrightarrow> u \<notin> set ps" using D(3) by blast
  have "free_list (free_page (Some u) st) (u # ps)"
    using free_page_list [OF ps(1) ps(2) [OF p(1,3)]] D(1) [OF p(1,3)] by simp
  moreover have "t \<notin> set (u # ps)" using tu ps(2) [OF okp p(2)] by simp
  ultimately have fl: "free_list st' (u # ps)"
    by (simp add: st'_def clear_entry_def free_list_set_word del: set_simps list.set)
  then show "\<exists>ps. free_list st ps \<and> free_list st' (u # ps)" using ps(1) by blast
  from fl show "tree_ok t0 st'"
  proof (rule tree_okI [rotated 2])
    fix q x
    assume "ok_path q" "tab q t0 st' = Some x"
    then show "0 < x \<and> x < 2 ^ 36" "x \<notin> set (u # ps)"
      using tq [of q] D(1) [of q x] only [of q x] ps(2) [of q x] by (auto split: if_splits)
  next
    fix q q' x
    assume "ok_path q" "ok_path q'" "tab q t0 st' = Some x" "tab q' t0 st' = Some x"
    then show "q = q'" using tq [of q] tq [of q'] D(2) [of q q' x] by (auto split: if_splits)
  qed
qed

end
