(* ===== verification/Page_Table_Frames.thy ===== *)
theory Page_Table_Frames
  imports Page_Table_Trees
begin

text \<open>
  What an operation on one tree of tables leaves alone. A tree and the free list together own a set of
  pages; an operation moves pages between the two and writes no other page, so that the trees of other
  address spaces, which own none of them, keep every mapping.
\<close>

section \<open>Ownership\<close>

definition tables :: "nat \<Rightarrow> mm \<Rightarrow> nat set" where
  "tables t0 st = {u. \<exists>q. ok_path q \<and> tab q t0 st = Some u}"

definition free_frames :: "mm \<Rightarrow> nat set" where
  "free_frames st = {x. \<exists>ps. free_list st ps \<and> x \<in> set ps}"

text \<open>Entries above the last level are table entries; the destructor relies on the mark.\<close>

definition typed :: "nat \<Rightarrow> mm \<Rightarrow> bool" where
  "typed t0 st \<longleftrightarrow> (\<forall>q u i. ok_path (q @ [i]) \<longrightarrow> tab q t0 st = Some u \<longrightarrow> valid (entry u i st) \<longrightarrow> is_table (entry u i st))"

definition keeps :: "nat \<Rightarrow> mm \<Rightarrow> mm \<Rightarrow> bool" where
  "keeps t0 st st' \<longleftrightarrow>
     tables t0 st' \<union> free_frames st' = tables t0 st \<union> free_frames st
     \<and> (\<forall>x. x \<notin> tables t0 st \<union> free_frames st \<longrightarrow> mem st' x = mem st x)
     \<and> (typed t0 st \<longrightarrow> typed t0 st')"

lemma keeps_refl [simp]: "keeps t0 st st"
  by (simp add: keeps_def)

lemma keeps_trans: "keeps t0 st st1 \<Longrightarrow> keeps t0 st1 st2 \<Longrightarrow> keeps t0 st st2"
  by (simp add: keeps_def)

lemma free_chain_unique: "free_chain st r ps \<Longrightarrow> free_chain st r qs \<Longrightarrow> ps = qs"
proof (induction ps arbitrary: r qs)
  case Nil
  then show ?case by (cases qs) auto
next
  case (Cons p ps)
  then obtain qs' where "qs = p # qs'" "free_chain st (word_page (mem st p 0)) qs'" by (cases qs) auto
  then show ?case using Cons.IH [of "word_page (mem st p 0)" qs'] Cons.prems(1) by simp
qed

lemma free_list_unique: "free_list st ps \<Longrightarrow> free_list st qs \<Longrightarrow> ps = qs"
  unfolding free_list_def using free_chain_unique by blast

lemma free_frames_list: "free_list st ps \<Longrightarrow> free_frames st = set ps"
  unfolding free_frames_def using free_list_unique by blast

lemma keepsI:
  assumes "free_list st ps" "free_list st' ps'" "tables t0 st' \<union> set ps' = tables t0 st \<union> set ps"
    "\<And>x. x \<notin> X \<Longrightarrow> mem st' x = mem st x" "X \<subseteq> tables t0 st \<union> set ps" "typed t0 st \<Longrightarrow> typed t0 st'"
  shows "keeps t0 st st'"
  unfolding keeps_def free_frames_list [OF assms(1)] free_frames_list [OF assms(2)]
proof (intro conjI allI impI)
  fix x
  assume "x \<notin> tables t0 st \<union> set ps"
  then have "x \<notin> X" using assms(5) by auto
  then show "mem st' x = mem st x" by (rule assms(4))
qed (fact assms(3), rule assms(6))

lemma typedI:
  assumes "\<And>q u i. ok_path (q @ [i]) \<Longrightarrow> ok_path q \<Longrightarrow> tab q t0 st = Some u \<Longrightarrow> valid (entry u i st) \<Longrightarrow> is_table (entry u i st)"
  shows "typed t0 st"
  unfolding typed_def
proof (intro allI impI)
  fix q u i
  assume q: "ok_path (q @ [i])"
  then have "ok_path q" by (rule ok_path_prefix) simp
  then show "tab q t0 st = Some u \<Longrightarrow> valid (entry u i st) \<Longrightarrow> is_table (entry u i st)" by (rule assms [OF q])
qed

lemma typedD: "typed t0 st \<Longrightarrow> ok_path (q @ [i]) \<Longrightarrow> tab q t0 st = Some u \<Longrightarrow> valid (entry u i st) \<Longrightarrow> is_table (entry u i st)"
  unfolding typed_def by blast

lemma tablesI: "ok_path q \<Longrightarrow> tab q t0 st = Some u \<Longrightarrow> u \<in> tables t0 st"
  unfolding tables_def by blast

section \<open>The three changes\<close>

lemma next_level_keeps:
  assumes ok: "tree_ok t0 st" and p: "ok_path (p @ [i])" "tab p t0 st = Some t"
    and g: "get_or_allocate_next_level t i st = (r, st')"
  shows "keeps t0 st st'"
proof (cases "valid (entry t i st)")
  case True
  then have "st' = st" using g by (auto simp: get_or_allocate_next_level_def)
  then show ?thesis by simp
next
  case inv: False
  show ?thesis
  proof (cases "alloc_page st")
    case (Pair m st1)
    show ?thesis
    proof (cases m)
      case None
      then have "st' = st"
        using g inv Pair tree_okD(3) [OF ok] alloc_page_list [of st] by (auto simp: get_or_allocate_next_level_def)
      then show ?thesis by simp
    next
      case (Some n)
      note N = next_level_new [OF ok p inv Pair [unfolded Some] g]
      note l = links_tableD [OF N(1)] and tq = linked_tab [OF N(1)]
      obtain qs where fl: "free_list st (n # qs)" "free_list st' qs" using N(4) by blast
      have under: "tab q t0 st = None" if pq: "prefix (p @ [i]) q" for q
        using pq l(4,5) by (auto simp: prefix_def tab_append)
      have T: "u \<in> tables t0 st' \<longleftrightarrow> u = n \<or> u \<in> tables t0 st" for u
      proof
        assume "u \<in> tables t0 st'"
        then show "u = n \<or> u \<in> tables t0 st" using tq by (auto simp: tables_def split: if_splits)
      next
        assume "u = n \<or> u \<in> tables t0 st"
        moreover have "n \<in> tables t0 st'" using tq [OF p(1)] p(1) by (intro tablesI) auto
        moreover have "u \<in> tables t0 st'" if q: "ok_path q" "tab q t0 st = Some u" for q
          using tq [OF q(1)] under [of q] q by (intro tablesI [OF q(1)]) auto
        ultimately show "u \<in> tables t0 st'" by (auto simp: tables_def [of t0 st])
      qed
      have "typed t0 st'" if ty: "typed t0 st"
      proof (rule typedI)
        fix q u j
        assume q: "ok_path (q @ [j])" "ok_path q" "tab q t0 st' = Some u" "valid (entry u j st')"
        then have "u \<noteq> n" using l(8) by auto
        then have u: "tab q t0 st = Some u" using tq [OF q(2)] q(3) by (auto split: if_splits)
        show "is_table (entry u j st')"
        proof (cases "(u, j) = (t, i)")
          case False
          then show ?thesis using l(7) [OF False \<open>u \<noteq> n\<close>] typedD [OF ty q(1) u] q(4) by simp
        qed (use N(6) in simp)
      qed
      moreover have "t \<in> tables t0 st" using l(3,4) by (rule tablesI)
      moreover have "tables t0 st' \<union> set qs = tables t0 st \<union> set (n # qs)" using T by auto
      ultimately show ?thesis using N(5) by (intro keepsI [OF fl, where X = "{t, n}"]) auto
    qed
  qed
qed

lemma write_leaf_keeps:
  fixes w :: u64
  assumes ok: "tree_ok t0 st" and t: "tab (path v) t0 st = Some t3"
  shows "keeps t0 st (set_word t3 (l3_idx v) w st)"
proof -
  let ?st = "set_word t3 (l3_idx v) w st"
  note D = tree_okD [OF ok] and W = write_leaf [OF ok t, where w = w]
  obtain ps where ps: "free_list st ps" "\<forall>q u. ok_path q \<longrightarrow> tab q t0 st = Some u \<longrightarrow> u \<notin> set ps" using D(3) by blast
  have t3: "t3 \<notin> set ps" using ps(2) t ok_path_path by blast
  have T: "tables t0 ?st = tables t0 st" using W(2) by (auto simp: tables_def)
  have fl: "free_list ?st ps" using free_list_set_word [OF t3] ps(1) by simp
  have "typed t0 ?st" if ty: "typed t0 st"
  proof (rule typedI)
    fix q u i
    assume q: "ok_path (q @ [i])" "ok_path q" "tab q t0 ?st = Some u" "valid (entry u i ?st)"
    have u: "tab q t0 st = Some u" using W(2) [OF q(2)] q(3) by simp
    have "u \<noteq> t3" using D(2) [OF q(2) ok_path_path u, of v] t q(1) by (auto simp: path_def ok_path_def)
    then show "is_table (entry u i ?st)" using typedD [OF ty q(1) u] q(4) by (simp add: page_simps)
  qed
  moreover have "t3 \<in> tables t0 st" using ok_path_path t by (rule tablesI)
  ultimately show ?thesis using T by (intro keepsI [OF ps(1) fl, where X = "{t3}"]) (auto simp: page_simps)
qed

lemma free_empty_table_keeps:
  assumes ok: "tree_ok t0 st" and p: "ok_path (p @ [i])" "tab p t0 st = Some t" "tab (p @ [i]) t0 st = Some u"
    and e: "table_empty u st"
  shows "keeps t0 st (clear_entry t i (free_page (Some u) st))"
proof -
  let ?st = "clear_entry t i (free_page (Some u) st)"
  note D = tree_okD [OF ok] and F = free_empty_table [OF ok p e]
  have okp: "ok_path p" using p(1) by (rule ok_path_prefix) simp
  obtain ps where fl: "free_list st ps" "free_list ?st (u # ps)" using F(4) by blast
  have below: "x = u" if q: "prefix (p @ [i]) q" "ok_path q" "tab q t0 st = Some x" for q x
  proof -
    obtain z where z: "q = p @ i # z" using q(1) by (auto simp: prefix_def)
    then have x: "tab z u st = Some x" using p(2,3) q(3) by (auto simp: tab_append split: if_splits)
    show ?thesis
    proof (cases z)
      case (Cons j y)
      then have "j < 512" using q(2) z by (simp add: ok_path_def)
      then show ?thesis using x Cons e by (auto simp: table_empty_def list_all_iff)
    qed (use x in simp)
  qed
  have T: "x \<in> tables t0 ?st \<or> x = u \<longleftrightarrow> x \<in> tables t0 st" for x
  proof
    assume "x \<in> tables t0 ?st \<or> x = u"
    then show "x \<in> tables t0 st" using F(2) tablesI [OF p(1,3)] by (auto simp: tables_def split: if_splits)
  next
    assume "x \<in> tables t0 st"
    then obtain q where q: "ok_path q" "tab q t0 st = Some x" by (auto simp: tables_def)
    show "x \<in> tables t0 ?st \<or> x = u"
    proof (cases "prefix (p @ [i]) q")
      case False
      then show ?thesis using F(2) [OF q(1)] q(2) tablesI [OF q(1), of t0 ?st x] by simp
    qed (use below q in blast)
  qed
  have "typed t0 ?st" if ty: "typed t0 st"
  proof (rule typedI)
    fix q x j
    assume q: "ok_path (q @ [j])" "ok_path q" "tab q t0 ?st = Some x" "valid (entry x j ?st)"
    have np: "\<not> prefix (p @ [i]) q" and x: "tab q t0 st = Some x" using F(2) [OF q(2)] q(3) by (auto split: if_splits)
    have "x \<noteq> u" using D(2) [OF q(2) p(1) x] p(3) np by auto
    then show "is_table (entry x j ?st)" using typedD [OF ty q(1) x] q(4) by (auto simp: page_simps split: if_splits)
  qed
  moreover have "t \<in> tables t0 st" using okp p(2) by (rule tablesI)
  moreover have "mem ?st x = mem st x" if "x \<noteq> t" "x \<noteq> u" for x
    using that by (simp add: clear_entry_def free_page_def page_simps)
  moreover have "tables t0 ?st \<union> set (u # ps) = tables t0 st \<union> set ps" using T by auto
  moreover have "u \<in> tables t0 st" using p(1,3) by (rule tablesI)
  ultimately show ?thesis by (intro keepsI [OF fl, where X = "{t, u}"]) auto
qed

section \<open>Trees that own none of the pages\<close>

lemma frame_tab:
  assumes "\<And>x. x \<in> tables t0 st \<Longrightarrow> mem st' x = mem st x" "ok_path q"
  shows "tab q t0 st' = tab q t0 st"
proof (rule tab_same)
  fix j u
  assume "j < length q" "tab (take j q) t0 st = Some u"
  then have "u \<in> tables t0 st" using ok_path_take [OF assms(2)] by (intro tablesI)
  then show "entry u (q ! j) st' = entry u (q ! j) st" using assms(1) by (simp add: entry_def)
qed

lemma frame_tree:
  assumes same: "\<And>x. x \<in> tables t0 st \<Longrightarrow> mem st' x = mem st x"
  shows "tables t0 st' = tables t0 st" "leaf v t0 st' = leaf v t0 st" "typed t0 st \<Longrightarrow> typed t0 st'"
proof -
  note tq = frame_tab [OF same]
  show "tables t0 st' = tables t0 st" using tq by (auto simp: tables_def)
  show "leaf v t0 st' = leaf v t0 st"
  proof (rule leaf_same)
    fix u
    assume "tab (path v) t0 st = Some u"
    then show "entry u (l3_idx v) st' = entry u (l3_idx v) st" using same tablesI [OF ok_path_path] by (simp add: entry_def)
  qed (rule tq [OF _ ok_path_path])
  show "typed t0 st'" if ty: "typed t0 st"
  proof (rule typedI)
    fix q u i
    assume q: "ok_path (q @ [i])" "ok_path q" "tab q t0 st' = Some u" "valid (entry u i st')"
    have u: "tab q t0 st = Some u" using tq [OF _ q(2)] q(3) by simp
    have "mem st' u = mem st u" using same tablesI [OF q(2) u] by simp
    then show "is_table (entry u i st')" using typedD [OF ty q(1) u] q(4) by (simp add: entry_def)
  qed
qed

lemma frame_tree_ok:
  assumes ok: "tree_ok t0 st" and same: "\<And>x. x \<in> tables t0 st \<Longrightarrow> mem st' x = mem st x"
    and fl: "free_list st' ps" "set ps \<inter> tables t0 st = {}"
  shows "tree_ok t0 st'"
  using fl(1)
proof (rule tree_okI [rotated 2])
  note tq = frame_tab [OF same] and D = tree_okD [OF ok]
  fix q u
  assume q: "ok_path q" "tab q t0 st' = Some u"
  then have u: "tab q t0 st = Some u" using tq [OF _ q(1)] by simp
  show "0 < u \<and> u < 2 ^ 36" by (rule D(1) [OF q(1) u])
  show "u \<notin> set ps" using fl(2) tablesI [OF q(1) u] by blast
  fix q'
  assume q': "ok_path q'" "tab q' t0 st' = Some u"
  then have "tab q' t0 st = Some u" using tq [OF _ q'(1)] by simp
  then show "q = q'" by (rule D(2) [OF q(1) q'(1) u])
qed

section \<open>Freeing a whole tree\<close>

text \<open>The pages of a subtree with \<open>k\<close> levels below its root, each reached once.\<close>

fun subtree :: "nat \<Rightarrow> nat \<Rightarrow> mm \<Rightarrow> nat set \<Rightarrow> bool" where
  "subtree 0 t st S \<longleftrightarrow> 0 < t \<and> t < 2 ^ 36 \<and> S = {t}"
| "subtree (Suc k) t st S \<longleftrightarrow> 0 < t \<and> t < 2 ^ 36 \<and>
     (\<exists>C. S = insert t (\<Union>i \<in> {..<512}. C i) \<and> (\<forall>i < 512. t \<notin> C i \<and> (\<forall>j < i. C i \<inter> C j = {}))
        \<and> (\<forall>i < 512. if valid (entry t i st) then is_table (entry t i st) \<and> subtree k (unat (output_addr (entry t i st))) st (C i)
                     else C i = {}))"

lemma subtree_root: "subtree k t st S \<Longrightarrow> 0 < t \<and> t < 2 ^ 36 \<and> t \<in> S"
  by (cases k) auto

lemma subtree_cong:
  assumes "subtree k t st S" "\<And>x. x \<in> S \<Longrightarrow> mem st' x = mem st x"
  shows "subtree k t st' S"
  using assms
proof (induction k arbitrary: t S)
  case (Suc k)
  then obtain C where C: "S = insert t (\<Union>i \<in> {..<512}. C i)" "\<forall>i < 512. t \<notin> C i \<and> (\<forall>j < i. C i \<inter> C j = {})"
      "\<forall>i < 512. if valid (entry t i st) then is_table (entry t i st) \<and> subtree k (unat (output_addr (entry t i st))) st (C i) else C i = {}"
    and t: "0 < t" "t < 2 ^ 36" by auto
  have e: "entry t i st' = entry t i st" for i using Suc.prems(2) [of t] C(1) by (simp add: entry_def)
  have "if valid (entry t i st') then is_table (entry t i st') \<and> subtree k (unat (output_addr (entry t i st'))) st' (C i) else C i = {}"
    if i: "i < 512" for i
  proof -
    have "mem st' x = mem st x" if "x \<in> C i" for x using Suc.prems(2) [of x] C(1) i that by auto
    then show ?thesis using Suc.IH [of _ "C i"] C(3) i by (auto simp: e)
  qed
  then show ?case using C(1,2) t by auto
qed simp

text \<open>Pages put on the free list, and no other page written.\<close>

definition frames_freed :: "mm \<Rightarrow> nat set \<Rightarrow> mm \<Rightarrow> bool" where
  "frames_freed st S st' \<longleftrightarrow> (\<exists>ps ps'. free_list st ps \<and> free_list st' ps' \<and> set ps' = S \<union> set ps)
     \<and> (\<forall>x. x \<notin> S \<longrightarrow> mem st' x = mem st x)"

lemma frames_freedD: "frames_freed st S st' \<Longrightarrow> free_frames st' = S \<union> free_frames st" "frames_freed st S st' \<Longrightarrow> x \<notin> S \<Longrightarrow> mem st' x = mem st x"
  "frames_freed st S st' \<Longrightarrow> \<exists>ps. free_list st' ps"
  by (auto simp: frames_freed_def free_frames_list)

lemma frames_freed_empty: "free_list st ps \<Longrightarrow> frames_freed st {} st"
  by (auto simp: frames_freed_def)

lemma frames_freed_trans:
  assumes "frames_freed st S st1" "frames_freed st1 S' st2"
  shows "frames_freed st (S' \<union> S) st2"
proof -
  obtain ps ps1 where a: "free_list st ps" "free_list st1 ps1" "set ps1 = S \<union> set ps" using assms(1) by (auto simp: frames_freed_def)
  obtain qs ps2 where b: "free_list st1 qs" "free_list st2 ps2" "set ps2 = S' \<union> set qs" using assms(2) by (auto simp: frames_freed_def)
  have "qs = ps1" using a(2) b(1) by (simp add: free_list_unique)
  then have "set ps2 = (S' \<union> S) \<union> set ps" using a(3) b(3) by auto
  moreover have "mem st2 x = mem st x" if "x \<notin> S' \<union> S" for x using that frames_freedD(2) [OF assms(1)] frames_freedD(2) [OF assms(2)] by simp
  ultimately show ?thesis unfolding frames_freed_def using a(1) b(2) by blast
qed

lemma frames_freed_page:
  assumes "free_list st ps" "t \<notin> set ps" "0 < t" "t < 2 ^ 36"
  shows "frames_freed st {t} (free_page (Some t) st)"
proof -
  have "mem (free_page (Some t) st) x = mem st x" if "x \<noteq> t" for x using that by (simp add: free_page_def page_simps)
  then show ?thesis unfolding frames_freed_def using free_page_list [OF assms] assms(1)
    by (intro conjI exI [of _ ps] exI [of _ "t # ps"]) auto
qed

lemma frames_freed_children:
  assumes visit: "\<And>i st1. i < m \<Longrightarrow> frames_freed st (\<Union>j \<in> {..<i}. C j) st1 \<Longrightarrow> frames_freed st1 (C i) (visit i st1)"
    and fl: "free_list st ps"
  shows "frames_freed st (\<Union>i \<in> {..<m}. C i) (fold visit [0..<m] st)"
  using visit
proof (induction m)
  case 0
  then show ?case using frames_freed_empty [OF fl] by simp
next
  case (Suc m)
  have f: "frames_freed st (\<Union>i \<in> {..<m}. C i) (fold visit [0..<m] st)" by (rule Suc.IH) (rule Suc.prems, simp_all)
  have "frames_freed st (C m \<union> (\<Union>i \<in> {..<m}. C i)) (visit m (fold visit [0..<m] st))"
    by (rule frames_freed_trans [OF f Suc.prems]) (simp_all add: f)
  then show ?case by (simp add: lessThan_Suc)
qed

text \<open>The destructor puts every page of the tree on the free list and writes no other page.\<close>

lemma free_subtree:
  assumes "subtree k t st S" "free_list st ps" "set ps \<inter> S = {}"
  shows "frames_freed st S (free_table_recursive k (Some t) st)"
  using assms
proof (induction k arbitrary: t S st ps)
  case 0
  then show ?case using frames_freed_page [of st ps t] by simp
next
  case (Suc k)
  obtain C where C: "S = insert t (\<Union>i \<in> {..<512}. C i)" "\<forall>i < 512. t \<notin> C i \<and> (\<forall>j < i. C i \<inter> C j = {})"
      "\<forall>i < 512. if valid (entry t i st) then is_table (entry t i st) \<and> subtree k (unat (output_addr (entry t i st))) st (C i) else C i = {}"
    and t: "0 < t" "t < 2 ^ 36" using Suc.prems(1) by auto
  let ?visit = "\<lambda>i st'. if valid (entry t i st') \<and> is_table (entry t i st')
    then free_table_recursive k (next_table (entry t i st')) st' else st'"
  let ?st = "fold ?visit [0..<512] st"
  have F: "frames_freed st (\<Union>i \<in> {..<512}. C i) ?st"
  proof (rule frames_freed_children [OF _ Suc.prems(2)])
    fix m st1
    assume m: "m < 512" and f: "frames_freed st (\<Union>j \<in> {..<m}. C j) st1"
    obtain qs where qs: "free_list st1 qs" using frames_freedD(3) [OF f] by blast
    have sq: "set qs = (\<Union>j \<in> {..<m}. C j) \<union> set ps"
      using frames_freedD(1) [OF f] by (simp add: free_frames_list [OF qs] free_frames_list [OF Suc.prems(2)])
    have "t \<notin> (\<Union>j \<in> {..<m}. C j)" using C(2) m by auto
    then have e: "entry t i st1 = entry t i st" for i using frames_freedD(2) [OF f] by (simp add: entry_def)
    show "frames_freed st1 (C m) (?visit m st1)"
    proof (cases "valid (entry t m st)")
      case False
      then have "C m = {}" using C(3) m by auto
      then show ?thesis using False frames_freed_empty [OF qs] by (simp add: e)
    next
      case True
      let ?n = "unat (output_addr (entry t m st))"
      have sub: "is_table (entry t m st)" "subtree k ?n st (C m)" using C(3) m True by auto
      have disj: "C m \<inter> (\<Union>j \<in> {..<m}. C j) = {}" using C(2) m by auto
      have "C m \<subseteq> S" using C(1) m by auto
      then have free: "set qs \<inter> C m = {}" using sq disj Suc.prems(3) by auto
      have "subtree k ?n st1 (C m)"
      proof (rule subtree_cong [OF sub(2)])
        fix x
        assume "x \<in> C m"
        then show "mem st1 x = mem st x" using disj by (intro frames_freedD(2) [OF f]) auto
      qed
      from Suc.IH [OF this qs free] have "frames_freed st1 (C m) (free_table_recursive k (Some ?n) st1)" .
      moreover have "next_table (entry t m st) = Some ?n" using subtree_root [OF sub(2)] by (auto simp: next_table_def)
      ultimately show ?thesis using True sub(1) by (simp add: e)
    qed
  qed
  obtain qs where qs: "free_list ?st qs" using frames_freedD(3) [OF F] by blast
  have "set qs = (\<Union>i \<in> {..<512}. C i) \<union> set ps"
    using frames_freedD(1) [OF F] by (simp add: free_frames_list [OF qs] free_frames_list [OF Suc.prems(2)])
  then have "t \<notin> set qs" using C(1,2) Suc.prems(3) by auto
  then have "frames_freed ?st {t} (free_page (Some t) ?st)" using frames_freed_page [OF qs _ t] by simp
  from frames_freed_trans [OF F this] show ?case using C(1) by simp
qed

lemma tree_subtree:
  assumes ok: "tree_ok t0 st" "typed t0 st" and q: "ok_path q" "tab q t0 st = Some t" "length q + k = 3"
  shows "subtree k t st {x. \<exists>r. ok_path (q @ r) \<and> tab r t st = Some x}"
  using q
proof (induction k arbitrary: q t)
  case 0
  then have "{x. \<exists>r. ok_path (q @ r) \<and> tab r t st = Some x} = {t}" by (auto simp: ok_path_def)
  then show ?case using tree_okD(1) [OF ok(1) 0(1,2)] by simp
next
  case (Suc k)
  note D = tree_okD [OF ok(1)]
  define C where "C i = {x. \<exists>r. ok_path (q @ i # r) \<and> tab (i # r) t st = Some x}" for i
  have S: "{x. \<exists>r. ok_path (q @ r) \<and> tab r t st = Some x} = insert t (\<Union>i \<in> {..<512}. C i)" (is "?S = _")
  proof (rule set_eqI)
    fix x
    have "x \<in> ?S \<longleftrightarrow> x = t \<or> (\<exists>i r. ok_path (q @ i # r) \<and> tab (i # r) t st = Some x)"
      using Suc.prems(1) by (auto simp del: tab.simps(2)) (metis tab.simps(1) list.exhaust option.inject, metis append_Nil2 tab.simps(1))
    then show "x \<in> ?S \<longleftrightarrow> x \<in> insert t (\<Union>i \<in> {..<512}. C i)" by (auto simp: C_def ok_path_def simp del: tab.simps)
  qed
  have reach: "tab (q @ i # r) t0 st = Some x" if "tab (i # r) t st = Some x" for i r x
    using Suc.prems(2) that by (simp add: tab_append)
  have tC: "t \<notin> C i" for i
  proof
    assume "t \<in> C i"
    then obtain r where "ok_path (q @ i # r)" "tab (q @ i # r) t0 st = Some t" using reach by (auto simp: C_def simp del: tab.simps)
    then show False using D(2) [OF _ Suc.prems(1) _ Suc.prems(2)] by fastforce
  qed
  have disj: "C i \<inter> C j = {}" if "i \<noteq> j" for i j
  proof (rule equals0I)
    fix x
    assume "x \<in> C i \<inter> C j"
    then obtain r r' where "ok_path (q @ i # r)" "tab (q @ i # r) t0 st = Some x" "ok_path (q @ j # r')" "tab (q @ j # r') t0 st = Some x"
      using reach by (auto simp: C_def simp del: tab.simps)
    then show False using D(2) [of "q @ i # r" "q @ j # r'" x] that by simp
  qed
  have sub: "if valid (entry t i st) then is_table (entry t i st) \<and> subtree k (unat (output_addr (entry t i st))) st (C i) else C i = {}"
    if i: "i < 512" for i
  proof (cases "valid (entry t i st)")
    case True
    have oq: "ok_path (q @ [i])" using Suc.prems(1,3) i by (simp add: ok_path_def)
    have "tab (q @ [i]) t0 st = Some (unat (output_addr (entry t i st)))" using Suc.prems(2) True by (simp add: tab_append)
    from Suc.IH [OF oq this] show ?thesis using Suc.prems(3) True typedD [OF ok(2) oq Suc.prems(2) True] by (simp add: C_def)
  qed (simp add: C_def)
  show ?case unfolding S using tC disj sub D(1) [OF Suc.prems(1,2)] by (simp only: subtree.simps) (intro conjI exI [of _ C], auto)
qed

lemma destroy_tree:
  assumes "tree_ok t0 st" "typed t0 st"
  shows "frames_freed st (tables t0 st) (free_table_recursive 3 (Some t0) st)"
proof -
  obtain ps where ps: "free_list st ps" "\<forall>q u. ok_path q \<longrightarrow> tab q t0 st = Some u \<longrightarrow> u \<notin> set ps" using tree_okD(3) [OF assms(1)] by blast
  have "subtree 3 t0 st (tables t0 st)" using tree_subtree [OF assms, of "[]" t0 3] by (simp add: tables_def ok_path_def)
  then show ?thesis by (rule free_subtree [OF _ ps(1)]) (use ps(2) in \<open>auto simp: tables_def\<close>)
qed

end
