(* ===== verification/Vasp.thy ===== *)
theory Vasp
  imports Page_Tables
begin

text \<open>
  The abstract address space of \<open>kernel/mm/vasp.hpp\<close>. Its range operations are written once over the
  virtual methods, so they take those methods as arguments here, and a locale states what the methods
  promise: each changes the page of its address and no other.
\<close>

section \<open>Pages\<close>

text \<open>The tables translate the low 48 bits of an address; the page of an address is its bits 12 to 47.\<close>

definition page_of :: "u64 \<Rightarrow> nat" where
  "page_of v = unat v div 0x1000 mod 0x1000000000"

definition page_count :: "u64 \<Rightarrow> nat" where
  "page_count n = (unat n + 0xFFF) div 0x1000"

definition step_to :: "nat \<Rightarrow> u64" where
  "step_to i = of_nat (0x1000 * i)"

section \<open>Range operations\<close>

partial_function (option) map_range_from ::
    "(u64 \<Rightarrow> u64 \<Rightarrow> map_flags \<Rightarrow> 's \<Rightarrow> bool \<times> 's) \<Rightarrow> u64 \<Rightarrow> u64 \<Rightarrow> u64 \<Rightarrow> map_flags \<Rightarrow> u64 \<Rightarrow> 's \<Rightarrow> (bool \<times> 's) option" where
  [code]: "map_range_from map1 vaddr paddr sz flags offset s =
     (if offset < sz
      then case map1 (vaddr + offset) (paddr + offset) flags s of
             (b, s') \<Rightarrow> if b then map_range_from map1 vaddr paddr sz flags (offset + 0x1000) s' else Some (False, s')
      else Some (True, s))"

definition map_range ::
    "(u64 \<Rightarrow> u64 \<Rightarrow> map_flags \<Rightarrow> 's \<Rightarrow> bool \<times> 's) \<Rightarrow> u64 \<Rightarrow> u64 \<Rightarrow> u64 \<Rightarrow> map_flags \<Rightarrow> 's \<Rightarrow> (bool \<times> 's) option" where
  "map_range map1 vaddr paddr sz flags s =
     (if vaddr mod 0x1000 \<noteq> 0 \<or> paddr mod 0x1000 \<noteq> 0 \<or> sz = 0 then Some (False, s)
      else map_range_from map1 vaddr paddr sz flags 0 s)"

partial_function (option) unmap_range_from ::
    "(u64 \<Rightarrow> 's \<Rightarrow> bool \<times> 's) \<Rightarrow> u64 \<Rightarrow> u64 \<Rightarrow> u64 \<Rightarrow> bool \<Rightarrow> 's \<Rightarrow> (bool \<times> 's) option" where
  [code]: "unmap_range_from unmap1 vaddr sz offset all_ok s =
     (if offset < sz
      then case unmap1 (vaddr + offset) s of
             (b, s') \<Rightarrow> unmap_range_from unmap1 vaddr sz (offset + 0x1000) (if \<not> b then False else all_ok) s'
      else Some (all_ok, s))"

definition unmap_range :: "(u64 \<Rightarrow> 's \<Rightarrow> bool \<times> 's) \<Rightarrow> u64 \<Rightarrow> u64 \<Rightarrow> 's \<Rightarrow> (bool \<times> 's) option" where
  "unmap_range unmap1 vaddr sz s =
     (if vaddr mod 0x1000 \<noteq> 0 \<or> sz = 0 then Some (False, s) else unmap_range_from unmap1 vaddr sz 0 True s)"

partial_function (option) protect_range_from ::
    "(u64 \<Rightarrow> map_flags \<Rightarrow> 's \<Rightarrow> bool \<times> 's) \<Rightarrow> u64 \<Rightarrow> u64 \<Rightarrow> map_flags \<Rightarrow> u64 \<Rightarrow> 's \<Rightarrow> (bool \<times> 's) option" where
  [code]: "protect_range_from protect1 vaddr sz flags offset s =
     (if offset < sz
      then case protect1 (vaddr + offset) flags s of
             (b, s') \<Rightarrow> if b then protect_range_from protect1 vaddr sz flags (offset + 0x1000) s' else Some (False, s')
      else Some (True, s))"

definition protect_range :: "(u64 \<Rightarrow> map_flags \<Rightarrow> 's \<Rightarrow> bool \<times> 's) \<Rightarrow> u64 \<Rightarrow> u64 \<Rightarrow> map_flags \<Rightarrow> 's \<Rightarrow> (bool \<times> 's) option" where
  "protect_range protect1 vaddr sz flags s =
     (if vaddr mod 0x1000 \<noteq> 0 \<or> sz = 0 then Some (False, s) else protect_range_from protect1 vaddr sz flags 0 s)"

definition is_mapped :: "(u64 \<Rightarrow> 's \<Rightarrow> (u64 \<times> map_flags) option) \<Rightarrow> u64 \<Rightarrow> 's \<Rightarrow> bool" where
  "is_mapped translate1 vaddr s \<longleftrightarrow> translate1 vaddr s \<noteq> None"

section \<open>Invariants of the loops\<close>

text \<open>For any range, also one that wraps around, a loop that returns keeps what every call keeps.\<close>

lemma map_range_from_invariant:
  assumes "\<And>v p f s b s'. I s \<Longrightarrow> map1 v p f s = (b, s') \<Longrightarrow> I s'" "map_range_from map1 va pa sz f off s = Some r" "I s"
  shows "I (snd r)"
proof -
  have "(\<forall>v p f s b s'. I s \<longrightarrow> map1 v p f s = (b, s') \<longrightarrow> I s') \<longrightarrow> I s \<longrightarrow> I (snd r)"
    using _ assms(2)
  proof (rule map_range_from.raw_induct)
    fix g :: "(u64 \<Rightarrow> u64 \<Rightarrow> map_flags \<Rightarrow> 'a \<Rightarrow> bool \<times> 'a) \<Rightarrow> u64 \<Rightarrow> u64 \<Rightarrow> u64 \<Rightarrow> map_flags \<Rightarrow> u64 \<Rightarrow> 'a \<Rightarrow> (bool \<times> 'a) option"
    fix m va pa sz f off s r
    assume IH: "\<And>m va pa sz f off s r. g m va pa sz f off s = Some r \<Longrightarrow>
        (\<forall>v p f s b s'. I s \<longrightarrow> m v p f s = (b, s') \<longrightarrow> I s') \<longrightarrow> I s \<longrightarrow> I (snd r)"
      and step: "(if off < sz then case m (va + off) (pa + off) f s of
        (b, s') \<Rightarrow> if b then g m va pa sz f (off + 0x1000) s' else Some (False, s') else Some (True, s)) = Some r"
    show "(\<forall>v p f s b s'. I s \<longrightarrow> m v p f s = (b, s') \<longrightarrow> I s') \<longrightarrow> I s \<longrightarrow> I (snd r)"
    proof (intro impI)
      assume K: "\<forall>v p f s b s'. I s \<longrightarrow> m v p f s = (b, s') \<longrightarrow> I s'" and s: "I s"
      obtain b s' where b: "m (va + off) (pa + off) f s = (b, s')" by fastforce
      have s': "I s'" using K s b by blast
      show "I (snd r)"
      proof (cases "off < sz \<and> b")
        case True
        then have "g m va pa sz f (off + 0x1000) s' = Some r" using step b by simp
        from IH [OF this] show ?thesis using K s' by blast
      next
        case False
        then have "r = (True, s) \<or> r = (False, s')" using step b by (auto split: if_splits)
        then show ?thesis using s s' by auto
      qed
    qed
  qed
  then show ?thesis using assms(1,3) by blast
qed

lemma protect_range_from_invariant:
  assumes "\<And>v f s b s'. I s \<Longrightarrow> protect1 v f s = (b, s') \<Longrightarrow> I s'" "protect_range_from protect1 va sz f off s = Some r" "I s"
  shows "I (snd r)"
proof -
  have "(\<forall>v f s b s'. I s \<longrightarrow> protect1 v f s = (b, s') \<longrightarrow> I s') \<longrightarrow> I s \<longrightarrow> I (snd r)"
    using _ assms(2)
  proof (rule protect_range_from.raw_induct)
    fix g :: "(u64 \<Rightarrow> map_flags \<Rightarrow> 'a \<Rightarrow> bool \<times> 'a) \<Rightarrow> u64 \<Rightarrow> u64 \<Rightarrow> map_flags \<Rightarrow> u64 \<Rightarrow> 'a \<Rightarrow> (bool \<times> 'a) option"
    fix m va sz f off s r
    assume IH: "\<And>m va sz f off s r. g m va sz f off s = Some r \<Longrightarrow>
        (\<forall>v f s b s'. I s \<longrightarrow> m v f s = (b, s') \<longrightarrow> I s') \<longrightarrow> I s \<longrightarrow> I (snd r)"
      and step: "(if off < sz then case m (va + off) f s of
        (b, s') \<Rightarrow> if b then g m va sz f (off + 0x1000) s' else Some (False, s') else Some (True, s)) = Some r"
    show "(\<forall>v f s b s'. I s \<longrightarrow> m v f s = (b, s') \<longrightarrow> I s') \<longrightarrow> I s \<longrightarrow> I (snd r)"
    proof (intro impI)
      assume K: "\<forall>v f s b s'. I s \<longrightarrow> m v f s = (b, s') \<longrightarrow> I s'" and s: "I s"
      obtain b s' where b: "m (va + off) f s = (b, s')" by fastforce
      have s': "I s'" using K s b by blast
      show "I (snd r)"
      proof (cases "off < sz \<and> b")
        case True
        then have "g m va sz f (off + 0x1000) s' = Some r" using step b by simp
        from IH [OF this] show ?thesis using K s' by blast
      next
        case False
        then have "r = (True, s) \<or> r = (False, s')" using step b by (auto split: if_splits)
        then show ?thesis using s s' by auto
      qed
    qed
  qed
  then show ?thesis using assms(1,3) by blast
qed

lemma unmap_range_from_invariant:
  assumes "\<And>v s b s'. I s \<Longrightarrow> unmap1 v s = (b, s') \<Longrightarrow> I s'" "unmap_range_from unmap1 va sz off a s = Some r" "I s"
  shows "I (snd r)"
proof -
  have "(\<forall>v s b s'. I s \<longrightarrow> unmap1 v s = (b, s') \<longrightarrow> I s') \<longrightarrow> I s \<longrightarrow> I (snd r)"
    using _ assms(2)
  proof (rule unmap_range_from.raw_induct)
    fix g :: "(u64 \<Rightarrow> 'a \<Rightarrow> bool \<times> 'a) \<Rightarrow> u64 \<Rightarrow> u64 \<Rightarrow> u64 \<Rightarrow> bool \<Rightarrow> 'a \<Rightarrow> (bool \<times> 'a) option"
    fix m va sz off a s r
    assume IH: "\<And>m va sz off a s r. g m va sz off a s = Some r \<Longrightarrow>
        (\<forall>v s b s'. I s \<longrightarrow> m v s = (b, s') \<longrightarrow> I s') \<longrightarrow> I s \<longrightarrow> I (snd r)"
      and step: "(if off < sz then case m (va + off) s of
        (b, s') \<Rightarrow> g m va sz (off + 0x1000) (if \<not> b then False else a) s' else Some (a, s)) = Some r"
    show "(\<forall>v s b s'. I s \<longrightarrow> m v s = (b, s') \<longrightarrow> I s') \<longrightarrow> I s \<longrightarrow> I (snd r)"
    proof (intro impI)
      assume K: "\<forall>v s b s'. I s \<longrightarrow> m v s = (b, s') \<longrightarrow> I s'" and s: "I s"
      obtain b s' where b: "m (va + off) s = (b, s')" by fastforce
      have s': "I s'" using K s b by blast
      show "I (snd r)"
      proof (cases "off < sz")
        case True
        then have "g m va sz (off + 0x1000) (if \<not> b then False else a) s' = Some r" using step b by simp
        from IH [OF this] show ?thesis using K s' by blast
      qed (use step s in auto)
    qed
  qed
  then show ?thesis using assms(1,3) by blast
qed

section \<open>Page arithmetic\<close>

lemma unat_and_low: "unat (v AND 0xFFF) = unat (v :: u64) mod 0x1000"
proof -
  have "v AND 0xFFF = take_bit 12 v" by (simp add: take_bit_eq_mask mask_eq_exp_minus_1)
  then have "unat (v AND 0xFFF) = take_bit 12 (unat v)" by (simp only: unsigned_take_bit_eq)
  then show ?thesis by (simp add: take_bit_eq_mod)
qed

lemma and_aligned: "(v :: u64) AND 0xFFF = 0 \<longleftrightarrow> unat v mod 0x1000 = 0"
  using unat_and_low [of v] by (metis unat_eq_zero)

lemma mod_aligned: "(v :: u64) mod 0x1000 = 0 \<longleftrightarrow> unat v mod 0x1000 = 0"
proof -
  have "unat (v mod 0x1000) = unat v mod 0x1000" by (simp add: unat_mod)
  then show ?thesis by (metis unat_eq_zero)
qed

lemma unat_step_to: "0x1000 * i < 2 ^ 64 \<Longrightarrow> unat (step_to i) = 0x1000 * i"
  unfolding step_to_def by (simp only: unat_of_nat) (simp add: take_bit_nat_eq_self)

lemma step_to_Suc: "step_to i + 0x1000 = step_to (Suc i)"
  by (simp add: step_to_def algebra_simps)

lemma step_to_less: "0x1000 * page_count n \<le> 2 ^ 48 \<Longrightarrow> i \<le> page_count n \<Longrightarrow> step_to i < n \<longleftrightarrow> i < page_count n"
proof -
  assume n: "0x1000 * page_count n \<le> 2 ^ 48" "i \<le> page_count n"
  then have "unat (step_to i) = 0x1000 * i" by (intro unat_step_to) simp
  moreover have "0x1000 * i < unat n \<longleftrightarrow> i < (unat n + 0xFFF) div 0x1000"
    using less_eq_div_iff_mult_less_eq [of "0x1000" "Suc i" "unat n + 0xFFF"] by (simp add: Suc_le_eq) linarith
  ultimately show ?thesis by (simp add: word_less_nat_alt page_count_def)
qed

lemma unat_at: "unat v + 0x1000 * i < 2 ^ 48 \<Longrightarrow> unat (v + step_to i) = unat v + 0x1000 * i"
  by (simp add: unat_word_ariths unat_step_to)

lemma page_at: "unat v + 0x1000 * i < 2 ^ 48 \<Longrightarrow> page_of (v + step_to i) = page_of v + i"
  by (simp add: page_of_def unat_at)

lemma aligned_at: "unat v + 0x1000 * i < 2 ^ 48 \<Longrightarrow> unat v mod 0x1000 = 0 \<Longrightarrow> (v + step_to i) AND 0xFFF = 0"
  by (simp add: and_aligned unat_at)

lemma all_from_Suc: "(\<forall>j. i \<le> j \<longrightarrow> P j) \<longleftrightarrow> P i \<and> (\<forall>j. Suc i \<le> j \<longrightarrow> P j)"
  by (auto simp: Suc_le_eq) (metis le_less)

section \<open>The contract of the virtual methods\<close>

locale vasp_methods =
  fixes ok :: "'s \<Rightarrow> bool" and look :: "'s \<Rightarrow> u64 \<Rightarrow> 'e option" and rel :: "'s \<Rightarrow> 's \<Rightarrow> bool"
    and map1 :: "u64 \<Rightarrow> u64 \<Rightarrow> map_flags \<Rightarrow> 's \<Rightarrow> bool \<times> 's"
    and unmap1 :: "u64 \<Rightarrow> 's \<Rightarrow> bool \<times> 's"
    and protect1 :: "u64 \<Rightarrow> map_flags \<Rightarrow> 's \<Rightarrow> bool \<times> 's"
    and new_entry :: "u64 \<Rightarrow> map_flags \<Rightarrow> 'e" and change :: "map_flags \<Rightarrow> 'e \<Rightarrow> 'e"
  assumes rel_refl: "rel s s" and rel_trans: "rel s s1 \<Longrightarrow> rel s1 s2 \<Longrightarrow> rel s s2"
    and look_page: "page_of v = page_of w \<Longrightarrow> look s v = look s w"
    and map_law: "ok s \<Longrightarrow> map1 v p f s = (b, s') \<Longrightarrow>
      ok s' \<and> rel s s' \<and> (\<forall>w. look s' w = (if b \<and> page_of v = page_of w then Some (new_entry p f) else look s w))"
    and unmap_law: "ok s \<Longrightarrow> unmap1 v s = (b, s') \<Longrightarrow>
      ok s' \<and> rel s s' \<and> (b \<longleftrightarrow> v AND 0xFFF = 0 \<and> look s v \<noteq> None)
      \<and> (\<forall>w. look s' w = (if b \<and> page_of v = page_of w then None else look s w))"
    and protect_law: "ok s \<Longrightarrow> protect1 v f s = (b, s') \<Longrightarrow>
      ok s' \<and> rel s s' \<and> (b \<longleftrightarrow> v AND 0xFFF = 0 \<and> look s v \<noteq> None)
      \<and> (\<forall>w. look s' w = (if b \<and> page_of v = page_of w then map_option (change f) (look s w) else look s w))"
begin

lemma map_range_from_law:
  assumes "ok s" "unat va + 0x1000 * page_count sz \<le> 2 ^ 48" "i \<le> page_count sz"
  shows "\<exists>b s' k. map_range_from map1 va pa sz f (step_to i) s = Some (b, s') \<and> ok s' \<and> rel s s' \<and> i \<le> k \<and> k \<le> page_count sz
    \<and> (b \<longleftrightarrow> k = page_count sz)
    \<and> (\<forall>w. look s' w = (if page_of va + i \<le> page_of w \<and> page_of w < page_of va + k
          then Some (new_entry (pa + step_to (page_of w - page_of va)) f) else look s w))"
  using assms(1,3)
proof (induction "page_count sz - i" arbitrary: i s)
  case 0
  then have "\<not> step_to i < sz" "i = page_count sz" using assms(2) step_to_less [of sz i] by simp_all
  then have "map_range_from map1 va pa sz f (step_to i) s = Some (True, s)" by (subst map_range_from.simps) simp
  then show ?case using 0 \<open>i = page_count sz\<close> rel_refl by (intro exI [of _ True] exI [of _ s] exI [of _ i]) auto
next
  case (Suc d)
  have i: "i < page_count sz" using Suc.hyps(2) by simp
  then have lt: "step_to i < sz" and pg: "page_of (va + step_to i) = page_of va + i"
    using assms(2) step_to_less [of sz i] by (auto intro!: page_at)
  obtain b1 s1 where m: "map1 (va + step_to i) (pa + step_to i) f s = (b1, s1)" by fastforce
  note L = map_law [OF Suc.prems(1) m, unfolded pg]
  have d: "d = page_count sz - Suc i" and ok1: "ok s1" using Suc.hyps(2) L by simp_all
  show ?case
  proof (cases b1)
    case False
    then have "map_range_from map1 va pa sz f (step_to i) s = Some (False, s1)" using lt m by (subst map_range_from.simps) simp
    then show ?thesis using i L False by (intro exI [of _ False] exI [of _ s1] exI [of _ i]) auto
  next
    case True
    have e: "map_range_from map1 va pa sz f (step_to i) s = map_range_from map1 va pa sz f (step_to (Suc i)) s1"
      using lt m True by (subst map_range_from.simps) (simp add: step_to_Suc)
    obtain b s' k where r: "map_range_from map1 va pa sz f (step_to (Suc i)) s1 = Some (b, s')" "ok s'" "rel s1 s'"
        "Suc i \<le> k" "k \<le> page_count sz" "b \<longleftrightarrow> k = page_count sz"
        "\<forall>w. look s' w = (if page_of va + Suc i \<le> page_of w \<and> page_of w < page_of va + k
          then Some (new_entry (pa + step_to (page_of w - page_of va)) f) else look s1 w)"
      using Suc.hyps(1) [OF d ok1 Suc_leI [OF i]] by blast
    have "look s' w = (if page_of va + i \<le> page_of w \<and> page_of w < page_of va + k
        then Some (new_entry (pa + step_to (page_of w - page_of va)) f) else look s w)" for w
      using r(4,7) L True by (cases "page_of w = page_of va + i") auto
    then show ?thesis unfolding e r(1) using r(2,5,6) rel_trans [OF conjunct1 [OF conjunct2 [OF L]] r(3)] r(4)
      by (intro exI [of _ b] exI [of _ s'] exI [of _ k]) simp
  qed
qed

lemma unmap_range_from_law:
  assumes "ok s" "unat va mod 0x1000 = 0" "unat va + 0x1000 * page_count sz \<le> 2 ^ 48" "i \<le> page_count sz"
  shows "\<exists>b s'. unmap_range_from unmap1 va sz (step_to i) a s = Some (b, s') \<and> ok s' \<and> rel s s'
    \<and> (b \<longleftrightarrow> a \<and> (\<forall>j. i \<le> j \<longrightarrow> j < page_count sz \<longrightarrow> look s (va + step_to j) \<noteq> None))
    \<and> (\<forall>w. look s' w = (if page_of va + i \<le> page_of w \<and> page_of w < page_of va + page_count sz then None else look s w))"
  using assms(1,4)
proof (induction "page_count sz - i" arbitrary: i a s)
  case 0
  then have "\<not> step_to i < sz" "i = page_count sz" using assms(3) step_to_less [of sz i] by simp_all
  then have "unmap_range_from unmap1 va sz (step_to i) a s = Some (a, s)" by (subst unmap_range_from.simps) simp
  then show ?case using 0 \<open>i = page_count sz\<close> rel_refl by (intro exI [of _ a] exI [of _ s]) auto
next
  case (Suc d)
  have i: "i < page_count sz" using Suc.hyps(2) by simp
  then have lt: "step_to i < sz" and at: "unat va + 0x1000 * i < 2 ^ 48" using assms(3) step_to_less [of sz i] by auto
  note pg = page_at [OF at] and al = aligned_at [OF at assms(2)]
  obtain b1 s1 where m: "unmap1 (va + step_to i) s = (b1, s1)" by fastforce
  note L = unmap_law [OF Suc.prems(1) m, unfolded pg]
  have d: "d = page_count sz - Suc i" and ok1: "ok s1" using Suc.hyps(2) L by simp_all
  have here: "look s w = None" if "\<not> b1" "page_of w = page_of va + i" for w
    using L al that look_page [of w "va + step_to i" s] pg by simp
  have e: "unmap_range_from unmap1 va sz (step_to i) a s = unmap_range_from unmap1 va sz (step_to (Suc i)) (b1 \<and> a) s1"
    using lt m by (subst unmap_range_from.simps) (auto simp: step_to_Suc)
  obtain b s' where r: "unmap_range_from unmap1 va sz (step_to (Suc i)) (b1 \<and> a) s1 = Some (b, s')" "ok s'" "rel s1 s'"
      "b \<longleftrightarrow> (b1 \<and> a) \<and> (\<forall>j. Suc i \<le> j \<longrightarrow> j < page_count sz \<longrightarrow> look s1 (va + step_to j) \<noteq> None)"
      "\<forall>w. look s' w = (if page_of va + Suc i \<le> page_of w \<and> page_of w < page_of va + page_count sz then None else look s1 w)"
    using Suc.hyps(1) [OF d ok1 Suc_leI [OF i], of "b1 \<and> a"] by blast
  have later: "look s1 (va + step_to j) = look s (va + step_to j)" if "i < j" "j < page_count sz" for j
    using L page_at [of va j] that assms(3) by auto
  have "b \<longleftrightarrow> a \<and> (\<forall>j. i \<le> j \<longrightarrow> j < page_count sz \<longrightarrow> look s (va + step_to j) \<noteq> None)"
  proof -
    have "(\<forall>j. Suc i \<le> j \<longrightarrow> j < page_count sz \<longrightarrow> look s1 (va + step_to j) \<noteq> None) \<longleftrightarrow>
        (\<forall>j. Suc i \<le> j \<longrightarrow> j < page_count sz \<longrightarrow> look s (va + step_to j) \<noteq> None)" using later by (simp add: Suc_le_eq)
    moreover have "b1 \<longleftrightarrow> look s (va + step_to i) \<noteq> None" using L al by simp
    ultimately show ?thesis unfolding r(4) all_from_Suc [of i] using i by auto
  qed
  moreover have "look s' w = (if page_of va + i \<le> page_of w \<and> page_of w < page_of va + page_count sz then None else look s w)" for w
    using r(5) L i here by (cases "page_of w = page_of va + i") auto
  ultimately show ?case unfolding e r(1) using r(2) rel_trans [OF conjunct1 [OF conjunct2 [OF L]] r(3)]
    by (intro exI [of _ b] exI [of _ s']) simp
qed

lemma protect_range_from_law:
  assumes "ok s" "unat va + 0x1000 * page_count sz \<le> 2 ^ 48" "i \<le> page_count sz"
  shows "\<exists>b s' k. protect_range_from protect1 va sz f (step_to i) s = Some (b, s') \<and> ok s' \<and> rel s s' \<and> i \<le> k \<and> k \<le> page_count sz
    \<and> (b \<longleftrightarrow> k = page_count sz) \<and> (\<forall>j. i \<le> j \<longrightarrow> j < k \<longrightarrow> look s (va + step_to j) \<noteq> None)
    \<and> (\<forall>w. look s' w = (if page_of va + i \<le> page_of w \<and> page_of w < page_of va + k
          then map_option (change f) (look s w) else look s w))"
  using assms(1,3)
proof (induction "page_count sz - i" arbitrary: i s)
  case 0
  then have "\<not> step_to i < sz" "i = page_count sz" using assms(2) step_to_less [of sz i] by simp_all
  then have "protect_range_from protect1 va sz f (step_to i) s = Some (True, s)" by (subst protect_range_from.simps) simp
  then show ?case using 0 \<open>i = page_count sz\<close> rel_refl by (intro exI [of _ True] exI [of _ s] exI [of _ i]) auto
next
  case (Suc d)
  have i: "i < page_count sz" using Suc.hyps(2) by simp
  then have lt: "step_to i < sz" and pg: "page_of (va + step_to i) = page_of va + i"
    using assms(2) step_to_less [of sz i] by (auto intro!: page_at)
  obtain b1 s1 where m: "protect1 (va + step_to i) f s = (b1, s1)" by fastforce
  note L = protect_law [OF Suc.prems(1) m, unfolded pg]
  have d: "d = page_count sz - Suc i" and ok1: "ok s1" using Suc.hyps(2) L by simp_all
  show ?case
  proof (cases b1)
    case False
    then have "protect_range_from protect1 va sz f (step_to i) s = Some (False, s1)" using lt m by (subst protect_range_from.simps) simp
    then show ?thesis using i L False by (intro exI [of _ False] exI [of _ s1] exI [of _ i]) auto
  next
    case True
    have e: "protect_range_from protect1 va sz f (step_to i) s = protect_range_from protect1 va sz f (step_to (Suc i)) s1"
      using lt m True by (subst protect_range_from.simps) (simp add: step_to_Suc)
    obtain b s' k where r: "protect_range_from protect1 va sz f (step_to (Suc i)) s1 = Some (b, s')" "ok s'" "rel s1 s'"
        "Suc i \<le> k" "k \<le> page_count sz" "b \<longleftrightarrow> k = page_count sz"
        "\<forall>j. Suc i \<le> j \<longrightarrow> j < k \<longrightarrow> look s1 (va + step_to j) \<noteq> None"
        "\<forall>w. look s' w = (if page_of va + Suc i \<le> page_of w \<and> page_of w < page_of va + k
          then map_option (change f) (look s1 w) else look s1 w)"
      using Suc.hyps(1) [OF d ok1 Suc_leI [OF i]] by blast
    have "look s (va + step_to j) \<noteq> None" if j: "i \<le> j" "j < k" for j
    proof (cases "j = i")
      case False
      then have "look s1 (va + step_to j) \<noteq> None" using r(7) j by simp
      moreover have "page_of (va + step_to j) = page_of va + j" using page_at [of va j] j r(5) assms(2) by auto
      ultimately show ?thesis using L False by simp
    qed (use L True in simp)
    moreover have "look s' w = (if page_of va + i \<le> page_of w \<and> page_of w < page_of va + k
        then map_option (change f) (look s w) else look s w)" for w
      using r(4,8) L True by (cases "page_of w = page_of va + i") auto
    ultimately show ?thesis unfolding e r(1) using r(2,5,6) rel_trans [OF conjunct1 [OF conjunct2 [OF L]] r(3)] r(4)
      by (intro exI [of _ b] exI [of _ s'] exI [of _ k]) simp
  qed
qed

lemma map_range_law:
  assumes "ok s" "unat va + 0x1000 * page_count sz \<le> 2 ^ 48"
  shows "\<exists>b s' k. map_range map1 va pa sz f s = Some (b, s') \<and> ok s' \<and> rel s s' \<and> k \<le> page_count sz
    \<and> (b \<longleftrightarrow> va mod 0x1000 = 0 \<and> pa mod 0x1000 = 0 \<and> sz \<noteq> 0 \<and> k = page_count sz)
    \<and> (\<forall>w. look s' w = (if page_of va \<le> page_of w \<and> page_of w < page_of va + k
          then Some (new_entry (pa + step_to (page_of w - page_of va)) f) else look s w))"
proof (cases "va mod 0x1000 = 0 \<and> pa mod 0x1000 = 0 \<and> sz \<noteq> 0")
  case False
  then have "map_range map1 va pa sz f s = Some (False, s)" by (simp add: map_range_def)
  then show ?thesis using assms(1) rel_refl False by (intro exI [of _ False] exI [of _ s] exI [of _ 0]) auto
next
  case True
  then have e: "map_range map1 va pa sz f s = map_range_from map1 va pa sz f (step_to 0) s" by (simp add: map_range_def step_to_def)
  show ?thesis unfolding e using map_range_from_law [OF assms le0, of pa f] True by simp
qed

lemma unmap_range_law:
  assumes "ok s" "unat va + 0x1000 * page_count sz \<le> 2 ^ 48"
  shows "\<exists>b s'. unmap_range unmap1 va sz s = Some (b, s') \<and> ok s' \<and> rel s s'
    \<and> (b \<longleftrightarrow> va mod 0x1000 = 0 \<and> sz \<noteq> 0 \<and> (\<forall>j < page_count sz. look s (va + step_to j) \<noteq> None))
    \<and> (\<forall>w. look s' w = (if va mod 0x1000 = 0 \<and> page_of va \<le> page_of w \<and> page_of w < page_of va + page_count sz
          then None else look s w))"
proof (cases "va mod 0x1000 = 0 \<and> sz \<noteq> 0")
  case False
  then have "unmap_range unmap1 va sz s = Some (False, s)" by (simp add: unmap_range_def)
  then show ?thesis using assms(1) rel_refl False
    by (intro exI [of _ False] exI [of _ s]) (auto simp: page_count_def)
next
  case True
  then have e: "unmap_range unmap1 va sz s = unmap_range_from unmap1 va sz (step_to 0) True s" by (simp add: unmap_range_def step_to_def)
  have al: "unat va mod 0x1000 = 0" using True by (simp add: mod_aligned)
  show ?thesis unfolding e using unmap_range_from_law [OF assms(1) al assms(2) le0, of True] True by simp
qed

lemma protect_range_law:
  assumes "ok s" "unat va + 0x1000 * page_count sz \<le> 2 ^ 48"
  shows "\<exists>b s' k. protect_range protect1 va sz f s = Some (b, s') \<and> ok s' \<and> rel s s' \<and> k \<le> page_count sz
    \<and> (b \<longleftrightarrow> va mod 0x1000 = 0 \<and> sz \<noteq> 0 \<and> k = page_count sz)
    \<and> (\<forall>j < k. look s (va + step_to j) \<noteq> None)
    \<and> (\<forall>w. look s' w = (if page_of va \<le> page_of w \<and> page_of w < page_of va + k
          then map_option (change f) (look s w) else look s w))"
proof (cases "va mod 0x1000 = 0 \<and> sz \<noteq> 0")
  case False
  then have "protect_range protect1 va sz f s = Some (False, s)" by (simp add: protect_range_def)
  then show ?thesis using assms(1) rel_refl False by (intro exI [of _ False] exI [of _ s] exI [of _ 0]) auto
next
  case True
  then have e: "protect_range protect1 va sz f s = protect_range_from protect1 va sz f (step_to 0) s" by (simp add: protect_range_def step_to_def)
  show ?thesis unfolding e using protect_range_from_law [OF assms le0, of f] True by simp
qed

lemma range_keeps:
  assumes "ok s"
  shows "map_range map1 va pa sz f s = Some r \<Longrightarrow> ok (snd r) \<and> rel s (snd r)"
    "unmap_range unmap1 va sz s = Some r \<Longrightarrow> ok (snd r) \<and> rel s (snd r)"
    "protect_range protect1 va sz f s = Some r \<Longrightarrow> ok (snd r) \<and> rel s (snd r)"
proof -
  let ?I = "\<lambda>x. ok x \<and> rel s x"
  have s: "?I s" using assms rel_refl by blast
  have M: "?I x \<Longrightarrow> map1 v p f x = (b, y) \<Longrightarrow> ?I y" for v p f x b y using map_law rel_trans by blast
  have U: "?I x \<Longrightarrow> unmap1 v x = (b, y) \<Longrightarrow> ?I y" for v x b y using unmap_law rel_trans by blast
  have P: "?I x \<Longrightarrow> protect1 v f x = (b, y) \<Longrightarrow> ?I y" for v f x b y using protect_law rel_trans by blast
  show "?I (snd r)" if "map_range map1 va pa sz f s = Some r"
  proof (cases "map_range_from map1 va pa sz f 0 s = Some r")
    case True
    from map_range_from_invariant [where I = ?I, OF M this s] show ?thesis .
  qed (use that s in \<open>auto simp: map_range_def split: if_splits\<close>)
  show "?I (snd r)" if "unmap_range unmap1 va sz s = Some r"
  proof (cases "unmap_range_from unmap1 va sz 0 True s = Some r")
    case True
    from unmap_range_from_invariant [where I = ?I, OF U this s] show ?thesis .
  qed (use that s in \<open>auto simp: unmap_range_def split: if_splits\<close>)
  show "?I (snd r)" if "protect_range protect1 va sz f s = Some r"
  proof (cases "protect_range_from protect1 va sz f 0 s = Some r")
    case True
    from protect_range_from_invariant [where I = ?I, OF P this s] show ?thesis .
  qed (use that s in \<open>auto simp: protect_range_def split: if_splits\<close>)
qed

end

end
