(* ===== verification/Address_Space.thy ===== *)
theory Address_Space
  imports Page_Table_Frames Vasp
begin

text \<open>
  Address spaces as the rest of the kernel sees them: the operations of the page tables on mapped
  pages, and the proof that they meet the contract of the virtual methods of \<open>kernel/mm/vasp.hpp\<close>, over
  which its range operations are written.
\<close>

section \<open>Operations on mapped pages\<close>

definition space_ok :: "space \<Rightarrow> bool" where
  "space_ok s \<longleftrightarrow> (case l0_table s of None \<Rightarrow> \<exists>ps. free_list (phys s) ps | Some t \<Rightarrow> tree_ok t (phys s) \<and> typed t (phys s))"

definition mapping :: "space \<Rightarrow> u64 \<Rightarrow> pte option" where
  "mapping s v = (case l0_table s of None \<Rightarrow> None | Some t \<Rightarrow> leaf v t (phys s))"

text \<open>The pages of the tables, and what an operation on the space leaves alone.\<close>

definition space_pages :: "space \<Rightarrow> nat set" where
  "space_pages s = (case l0_table s of None \<Rightarrow> {} | Some t \<Rightarrow> tables t (phys s))"

definition space_keeps :: "space \<Rightarrow> space \<Rightarrow> bool" where
  "space_keeps s s' \<longleftrightarrow>
     space_pages s' \<union> free_frames (phys s') = space_pages s \<union> free_frames (phys s)
     \<and> (\<forall>x. x \<notin> space_pages s \<union> free_frames (phys s) \<longrightarrow> mem (phys s') x = mem (phys s) x)"

lemma space_keeps_refl [simp]: "space_keeps s s"
  by (simp add: space_keeps_def)

lemma space_keeps_trans: "space_keeps s s1 \<Longrightarrow> space_keeps s1 s2 \<Longrightarrow> space_keeps s s2"
  by (simp add: space_keeps_def)

lemma keeps_space: "keeps t0 (phys s) st \<Longrightarrow> l0_table s = Some t0 \<Longrightarrow> space_keeps s (s\<lparr>phys := st\<rparr>)"
  by (simp add: space_keeps_def space_pages_def keeps_def)

definition leaf_entry :: "u64 \<Rightarrow> map_flags \<Rightarrow> pte" where
  "leaf_entry p flags =
     set_attrs flags ((pte_of 0)\<lparr>valid := True, is_table := True, output_addr := ucast (drop_bit 12 p), af := True\<rparr>)"

lemma valid_set_attrs [simp]: "valid (set_attrs f e) = valid e" "output_addr (set_attrs f e) = output_addr e"
  by (simp_all add: set_attrs_def Let_def)

lemma translate_mapping:
  "translate v s = map_option (\<lambda>e. (push_bit 12 (ucast (output_addr e)) OR (v AND 0xFFF), flags_of e)) (mapping s v)"
  by (auto simp: translate_def mapping_def descend_leaf [symmetric] Let_def split: option.split)

lemma mapping_valid: "mapping s v = Some e \<Longrightarrow> valid e"
  by (auto simp: mapping_def leaf_def split: option.splits if_splits)

lemma unmapped_descend: "mapping s v = None \<Longrightarrow> l0_table s = Some t0 \<Longrightarrow> descend v t0 (phys s) = None"
  using descend_leaf [of v "phys s" t0] by (auto simp: mapping_def split: option.splits)

lemma mapped_tables:
  assumes "mapping s v = Some e"
  obtains t0 t1 t2 t3 where "l0_table s = Some t0" "descend v t0 (phys s) = Some (t1, t2, t3)"
    "tab [l0_idx v] t0 (phys s) = Some t1" "tab [l0_idx v, l1_idx v] t0 (phys s) = Some t2"
    "tab (path v) t0 (phys s) = Some t3" "entry t3 (l3_idx v) (phys s) = e"
proof -
  obtain t0 where l0: "l0_table s = Some t0" and l: "leaf v t0 (phys s) = Some e"
    using assms by (auto simp: mapping_def split: option.splits)
  then obtain t1 t2 t3 where d: "descend v t0 (phys s) = Some (t1, t2, t3)" "entry t3 (l3_idx v) (phys s) = e"
    using descend_leaf [of v "phys s" t0] by (auto split: option.splits)
  then show thesis using that [OF l0 d(1)] by (auto simp: descend_tab split: option.splits if_splits)
qed

lemma new_root:
  assumes "free_list st ps" "alloc_page st = (Some n, st1)"
  shows "tree_ok n st1" "leaf v n st1 = None" "typed n st1" "tables n st1 \<union> free_frames st1 = free_frames st"
    "x \<notin> free_frames st \<Longrightarrow> mem st1 x = mem st x"
proof -
  obtain qs where a: "ps = n # qs" "free_list st1 qs" "mem st1 = (mem st)(n := (\<lambda>_. 0))"
    using alloc_page_list [OF assms(1)] assms(2) by auto
  have n: "0 < n" "n < 2 ^ 36" "n \<notin> set qs" using assms(1) a(1) free_chain_bounds [of st _ ps n] by (auto simp: free_list_def)
  have tq: "tab q n st1 = (if q = [] then Some n else None)" for q
    by (rule zero_page_tab) (simp add: entry_def a(3))
  then show "tree_ok n st1" "leaf v n st1 = None"
    using a(2) n by (auto intro!: tree_okI [of n st1 qs] simp: leaf_def path_def split: if_splits)
  show "typed n st1" by (rule typedI) (simp add: tq entry_def a(3) split: if_splits)
  have "tables n st1 = {n}" by (auto simp: tables_def tq ok_path_def split: if_splits)
  then show "tables n st1 \<union> free_frames st1 = free_frames st" using a(1) by (simp add: free_frames_list [OF a(2)] free_frames_list [OF assms(1)])
  show "x \<notin> free_frames st \<Longrightarrow> mem st1 x = mem st x" using a(1,3) by (simp add: free_frames_list [OF assms(1)])
qed

lemma map_below_spec:
  assumes ok: "tree_ok t0 st0" and m: "map_below t0 v p f st0 = (b, st)"
  shows "tree_ok t0 st" "leaf v' t0 st = (if b \<and> same_page v v' then Some (leaf_entry p f) else leaf v' t0 st0)"
    "keeps t0 st0 st"
proof -
  define i0 i1 i2 where "i0 = l0_idx v" and "i1 = l1_idx v" and "i2 = l2_idx v"
  note ix = i0_def [symmetric] i1_def [symmetric] i2_def [symmetric]
  have path: "path v = [i0, i1, i2]" and okp: "ok_path ([] @ [i0])" "ok_path ([i0] @ [i1])" "ok_path ([i0, i1] @ [i2])"
    using ok_path_path [of v] by (simp_all add: path_def ix ok_path_def)
  obtain r1 st1 where g1: "get_or_allocate_next_level t0 i0 st0 = (r1, st1)" by fastforce
  have t0: "tab [] t0 st0 = Some t0" by simp
  note n1 = next_level [OF ok okp(1) t0 g1] and k1 = next_level_keeps [OF ok okp(1) t0 g1]
  have "tree_ok t0 st \<and> keeps t0 st0 st \<and> leaf v' t0 st = (if b \<and> same_page v v' then Some (leaf_entry p f) else leaf v' t0 st0)"
  proof (cases r1)
    case None
    then show ?thesis using m g1 n1 k1 by (auto simp: map_below_def ix)
  next
    case r1: (Some t1)
    obtain r2 st2 where g2: "get_or_allocate_next_level t1 i1 st1 = (r2, st2)" by fastforce
    have t1: "tab [i0] t0 st1 = Some t1" using n1(3) r1 by (simp del: tab.simps)
    note n2 = next_level [OF n1(1) okp(2) t1 g2] and k2 = keeps_trans [OF k1 next_level_keeps [OF n1(1) okp(2) t1 g2]]
    show ?thesis
    proof (cases r2)
      case None
      then show ?thesis using m g1 g2 r1 n1 n2 k2 by (auto simp: map_below_def ix)
    next
      case r2: (Some t2)
      obtain r3 st3 where g3: "get_or_allocate_next_level t2 i2 st2 = (r3, st3)" by fastforce
      have t2: "tab [i0, i1] t0 st2 = Some t2" using n2(3) r2 by (simp del: tab.simps)
      note n3 = next_level [OF n2(1) okp(3) t2 g3] and k3 = keeps_trans [OF k2 next_level_keeps [OF n2(1) okp(3) t2 g3]]
      show ?thesis
      proof (cases r3)
        case None
        then show ?thesis using m g1 g2 g3 r1 r2 n1 n2 n3 k3 by (auto simp: map_below_def ix)
      next
        case r3: (Some t3)
        have t3: "tab (path v) t0 st3 = Some t3" using n3(3) r3 path by (simp del: tab.simps)
        have e: "st = set_word t3 (l3_idx v) (raw (leaf_entry p f)) st3" "b"
          using m g1 g2 g3 r1 r2 r3
          by (auto simp: map_below_def ix Let_def set_entry_def clear_entry_def entry_def set_word_def leaf_entry_def)
        note w = write_leaf [OF n3(1) t3, where w = "raw (leaf_entry p f)"]
        have "valid (leaf_entry p f)" by (simp add: leaf_entry_def)
        then show ?thesis using w e n1(2) n2(2) n3(2) keeps_trans [OF k3 write_leaf_keeps [OF n3(1) t3]] by simp
      qed
    qed
  qed
  then show "tree_ok t0 st" "leaf v' t0 st = (if b \<and> same_page v v' then Some (leaf_entry p f) else leaf v' t0 st0)"
    "keeps t0 st0 st" by blast+
qed

lemma map_page_spec:
  assumes ok: "space_ok s" and m: "map_page v p f s = (b, s')"
  shows "space_ok s'" "space_keeps s s'" "mapping s' v' = (if b \<and> same_page v v' then Some (leaf_entry p f) else mapping s v')"
    "b \<Longrightarrow> v AND 0xFFF = 0 \<and> p AND 0xFFF = 0"
proof -
  show "b \<Longrightarrow> v AND 0xFFF = 0 \<and> p AND 0xFFF = 0" using m by (auto simp: map_page_def split: if_splits)
  have "space_ok s' \<and> space_keeps s s' \<and> (\<forall>v'. mapping s' v' = (if b \<and> same_page v v' then Some (leaf_entry p f) else mapping s v'))"
  proof (cases "v AND 0xFFF = 0 \<and> p AND 0xFFF = 0")
    case False
    then show ?thesis using ok m by (auto simp: map_page_def)
  next
    case al: True
    define rs where "rs = (case l0_table s of Some t \<Rightarrow> (Some t, phys s) | None \<Rightarrow> alloc_page (phys s))"
    show ?thesis
    proof (cases rs)
      case (Pair r st0)
      show ?thesis
      proof (cases r)
        case None
        then have n: "l0_table s = None" and a: "alloc_page (phys s) = (None, st0)" using Pair by (auto simp: rs_def split: option.splits)
        have "st0 = phys s" using ok n alloc_page_list [of "phys s"] a by (auto simp: space_ok_def)
        moreover have "s' = s\<lparr>l0_table := None, phys := st0\<rparr>" "\<not> b" using m al Pair None by (auto simp: map_page_def rs_def)
        ultimately show ?thesis using ok n by (simp add: space_ok_def mapping_def space_keeps_def space_pages_def)
      next
        case (Some t0)
        have t: "tree_ok t0 st0 \<and> typed t0 st0 \<and> (\<forall>x. leaf x t0 st0 = mapping s x)
            \<and> space_keeps s (s\<lparr>l0_table := Some t0, phys := st0\<rparr>)"
        proof (cases "l0_table s")
          case None
          then obtain ps where "free_list (phys s) ps" "alloc_page (phys s) = (Some t0, st0)"
            using ok Pair Some by (auto simp: rs_def space_ok_def)
          from new_root [OF this] show ?thesis using None by (simp add: mapping_def space_keeps_def space_pages_def)
        qed (use ok Pair Some in \<open>auto simp: rs_def space_ok_def mapping_def space_keeps_def space_pages_def\<close>)
        obtain st where mb: "map_below t0 v p f st0 = (b, st)" and s': "s' = s\<lparr>l0_table := Some t0, phys := st\<rparr>"
          using m al Pair Some by (auto simp: map_page_def rs_def split: prod.splits)
        note mp = map_below_spec [OF conjunct1 [OF t] mb]
        have "space_keeps s s'" using space_keeps_trans [OF _ keeps_space [of t0 "s\<lparr>l0_table := Some t0, phys := st0\<rparr>" st]] t mp(3) by (simp add: s')
        moreover have "typed t0 st" using t mp(3) by (simp add: keeps_def)
        ultimately show ?thesis using mp(1,2) t by (simp add: s' space_ok_def mapping_def)
      qed
    qed
  qed
  then show "space_ok s'" "space_keeps s s'" "mapping s' v' = (if b \<and> same_page v v' then Some (leaf_entry p f) else mapping s v')" by blast+
qed

lemma unmap_page_spec:
  assumes ok: "space_ok s" and m: "unmap_page v s = (b, s')"
  shows "space_ok s'" "space_keeps s s'" "mapping s' v' = (if b \<and> same_page v v' then None else mapping s v')"
    "b \<longleftrightarrow> v AND 0xFFF = 0 \<and> mapping s v \<noteq> None"
proof -
  have "space_ok s' \<and> space_keeps s s' \<and> (\<forall>v'. mapping s' v' = (if b \<and> same_page v v' then None else mapping s v'))
      \<and> (b \<longleftrightarrow> v AND 0xFFF = 0 \<and> mapping s v \<noteq> None)"
  proof (cases "v AND 0xFFF = 0 \<and> mapping s v \<noteq> None")
    case False
    then have "s' = s" "\<not> b" using m unmapped_descend [of s v]
      by (auto simp: unmap_page_def split: option.splits if_splits)
    then show ?thesis using ok False by simp
  next
    case True
    then obtain e where me: "mapping s v = Some e" by blast
    obtain t0 t1 t2 t3 where l0: "l0_table s = Some t0" and d: "descend v t0 (phys s) = Some (t1, t2, t3)"
      and T: "tab [l0_idx v] t0 (phys s) = Some t1" "tab [l0_idx v, l1_idx v] t0 (phys s) = Some t2" "tab (path v) t0 (phys s) = Some t3"
      by (rule mapped_tables [OF me])
    have okp: "ok_path ([] @ [l0_idx v])" "ok_path ([l0_idx v] @ [l1_idx v])" "ok_path ([l0_idx v, l1_idx v] @ [l2_idx v])"
      using idx_lt [of v] by (simp_all add: ok_path_def)
    have tree: "tree_ok t0 (phys s)" using ok l0 by (simp add: space_ok_def)
    define st where "st = clear_entry t3 (l3_idx v) (phys s)"
    note w = write_leaf [OF tree T(3), where w = 0, folded clear_entry_def, folded st_def]
    define st2 where "st2 = clear_entry t2 (l2_idx v) (free_page (Some t3) st)"
    define st1 where "st1 = clear_entry t1 (l1_idx v) (free_page (Some t2) st2)"
    define st0 where "st0 = clear_entry t0 (l0_idx v) (free_page (Some t1) st1)"
    define stf where "stf = (if \<not> table_empty t3 st then st else if \<not> table_empty t2 st2 then st2
      else if \<not> table_empty t1 st1 then st1 else st0)"
    have e: "s' = s\<lparr>phys := stf\<rparr>" "b"
      using m True l0 d by (auto simp: unmap_page_def Let_def st_def st2_def st1_def st0_def stf_def)
    have k: "tab ([l0_idx v, l1_idx v] @ [l2_idx v]) t0 st = Some t3" "tab [l0_idx v, l1_idx v] t0 st = Some t2" "tab [l0_idx v] t0 st = Some t1"
      using w(2) okp T by (simp_all add: path_def del: tab.simps)
    have kw: "keeps t0 (phys s) st" using write_leaf_keeps [OF tree T(3), of 0] by (simp add: st_def clear_entry_def)
    have "tree_ok t0 stf \<and> keeps t0 (phys s) stf \<and> (\<forall>x. leaf x t0 stf = leaf x t0 st)"
    proof (cases "table_empty t3 st")
      case e3: True
      note f3 = free_empty_table [OF w(1) okp(3) k(2,1) e3, folded st2_def]
      note k3 = keeps_trans [OF kw free_empty_table_keeps [OF w(1) okp(3) k(2,1) e3, folded st2_def]]
      have k2: "tab ([l0_idx v] @ [l1_idx v]) t0 st2 = Some t2" "tab [l0_idx v] t0 st2 = Some t1"
        using f3(2) [of "[l0_idx v, l1_idx v]"] f3(2) [of "[l0_idx v]"] okp k by (simp_all del: tab.simps)
      show ?thesis
      proof (cases "table_empty t2 st2")
        case e2: True
        note f2 = free_empty_table [OF f3(1) okp(2) k2(2,1) e2, folded st1_def]
        note k2f = keeps_trans [OF k3 free_empty_table_keeps [OF f3(1) okp(2) k2(2,1) e2, folded st1_def]]
        have k1: "tab ([] @ [l0_idx v]) t0 st1 = Some t1" using f2(2) [of "[l0_idx v]"] okp k2 by (simp del: tab.simps)
        show ?thesis
        proof (cases "table_empty t1 st1")
          case e1: True
          have k0: "tab [] t0 st1 = Some t0" by simp
          note f1 = free_empty_table [OF f2(1) okp(1) k0 k1 e1, folded st0_def]
          note k1f = keeps_trans [OF k2f free_empty_table_keeps [OF f2(1) okp(1) k0 k1 e1, folded st0_def]]
          show ?thesis using f1(1,3) f2(3) f3(3) e1 e2 e3 k1f by (simp add: stf_def)
        qed (use f2 f3 e2 e3 k2f in \<open>simp add: stf_def\<close>)
      qed (use f3 e3 k3 in \<open>simp add: stf_def\<close>)
    qed (use w(1) kw in \<open>simp add: stf_def\<close>)
    then have "tree_ok t0 stf" "keeps t0 (phys s) stf" "\<And>x. leaf x t0 stf = leaf x t0 st" by blast+
    moreover have "typed t0 stf" using calculation(2) ok l0 by (simp add: keeps_def space_ok_def)
    ultimately show ?thesis using e l0 True w(3) keeps_space [of t0 s stf] by (simp add: space_ok_def mapping_def)
  qed
  then show "space_ok s'" "space_keeps s s'" "mapping s' v' = (if b \<and> same_page v v' then None else mapping s v')"
    "b \<longleftrightarrow> v AND 0xFFF = 0 \<and> mapping s v \<noteq> None" by blast+
qed

lemma protect_page_spec:
  assumes ok: "space_ok s" and m: "protect_page v f s = (b, s')"
  shows "space_ok s'" "space_keeps s s'" "mapping s' v' = (if b \<and> same_page v v' then map_option (set_attrs f) (mapping s v) else mapping s v')"
    "b \<longleftrightarrow> v AND 0xFFF = 0 \<and> mapping s v \<noteq> None"
proof -
  have "space_ok s' \<and> space_keeps s s' \<and> (\<forall>v'. mapping s' v' = (if b \<and> same_page v v' then map_option (set_attrs f) (mapping s v) else mapping s v'))
      \<and> (b \<longleftrightarrow> v AND 0xFFF = 0 \<and> mapping s v \<noteq> None)"
  proof (cases "v AND 0xFFF = 0 \<and> mapping s v \<noteq> None")
    case False
    then have "s' = s" "\<not> b" using m unmapped_descend [of s v]
      by (auto simp: protect_page_def split: option.splits if_splits)
    then show ?thesis using ok False by simp
  next
    case True
    then obtain e where l: "mapping s v = Some e" by blast
    obtain t0 t1 t2 t3 where l0: "l0_table s = Some t0" and d: "descend v t0 (phys s) = Some (t1, t2, t3)"
      and t3: "tab (path v) t0 (phys s) = Some t3" and e: "entry t3 (l3_idx v) (phys s) = e"
      by (rule mapped_tables [OF l])
    have tree: "tree_ok t0 (phys s)" using ok l0 by (simp add: space_ok_def)
    note w = write_leaf [OF tree t3, where w = "raw (set_attrs f e)", folded set_entry_def]
    have "s' = s\<lparr>phys := set_entry t3 (l3_idx v) (set_attrs f e) (phys s)\<rparr>" "b"
      using m True l0 d e by (auto simp: protect_page_def)
    moreover have kp: "keeps t0 (phys s) (set_entry t3 (l3_idx v) (set_attrs f e) (phys s))"
      unfolding set_entry_def by (rule write_leaf_keeps [OF tree t3])
    moreover have "typed t0 (set_entry t3 (l3_idx v) (set_attrs f e) (phys s))" using kp ok l0 by (simp add: keeps_def space_ok_def)
    ultimately show ?thesis using w l0 True l mapping_valid [OF l] keeps_space by (simp add: space_ok_def mapping_def)
  qed
  then show "space_ok s'" "space_keeps s s'" "mapping s' v' = (if b \<and> same_page v v' then map_option (set_attrs f) (mapping s v) else mapping s v')"
    "b \<longleftrightarrow> v AND 0xFFF = 0 \<and> mapping s v \<noteq> None" by blast+
qed

section \<open>Pages by number\<close>

lemma idx_digits:
  "l3_idx v = unat v div 2 ^ 12 mod 512" "l2_idx v = unat v div 2 ^ 21 mod 512"
  "l1_idx v = unat v div 2 ^ 30 mod 512" "l0_idx v = unat v div 2 ^ 39 mod 512"
proof -
  have "unat (drop_bit n w AND 0x1FF) = unat w div 2 ^ n mod 512" for n and w :: u64
  proof -
    have "drop_bit n w AND 0x1FF = take_bit 9 (drop_bit n w)" by (simp add: take_bit_eq_mask mask_eq_exp_minus_1)
    then have "unat (drop_bit n w AND 0x1FF) = take_bit 9 (unat (drop_bit n w))" by (simp only: unsigned_take_bit_eq)
    then show ?thesis by (simp only: unat_drop_bit_eq) (simp add: take_bit_eq_mod drop_bit_eq_div)
  qed
  then show "l3_idx v = unat v div 2 ^ 12 mod 512" "l2_idx v = unat v div 2 ^ 21 mod 512"
    "l1_idx v = unat v div 2 ^ 30 mod 512" "l0_idx v = unat v div 2 ^ 39 mod 512"
    unfolding l0_idx_def l1_idx_def l2_idx_def l3_idx_def by blast+
qed

lemma page_digits: "page_of v = ((l0_idx v * 512 + l1_idx v) * 512 + l2_idx v) * 512 + l3_idx v"
proof -
  define n where "n = unat v div 2 ^ 12"
  have d: "unat v div 2 ^ 21 = n div 512" "unat v div 2 ^ 30 = n div 512 div 512" "unat v div 2 ^ 39 = n div 512 div 512 div 512"
    by (simp_all add: n_def div_mult2_eq [symmetric])
  have "page_of v = n mod (512 * (512 * (512 * 512)))" by (simp add: page_of_def n_def)
  also have "\<dots> = ((n div 512 div 512 div 512 mod 512 * 512 + n div 512 div 512 mod 512) * 512 + n div 512 mod 512) * 512 + n mod 512"
    by (simp only: mod_mult2_eq) simp
  finally show ?thesis unfolding idx_digits d n_def [symmetric] .
qed

lemma same_page_iff: "same_page v w \<longleftrightarrow> page_of v = page_of w"
proof
  assume "page_of v = page_of w"
  then have e: "((l0_idx v * 512 + l1_idx v) * 512 + l2_idx v) * 512 + l3_idx v = ((l0_idx w * 512 + l1_idx w) * 512 + l2_idx w) * 512 + l3_idx w"
    by (simp add: page_digits)
  have digit: "a = a' \<and> r = r'" if "a * 512 + r = a' * 512 + r'" "r < 512" "r' < 512" for a a' r r' :: nat
  proof -
    have "(a * 512 + r) div 512 = a" "(a' * 512 + r') div 512 = a'" using that(2,3) by simp_all
    then have "a = a'" using that(1) by metis
    then show ?thesis using that(1) by simp
  qed
  note d3 = digit [OF e idx_lt(4) idx_lt(4)]
  note d2 = digit [OF conjunct1 [OF d3] idx_lt(3) idx_lt(3)]
  note d1 = digit [OF conjunct1 [OF d2] idx_lt(2) idx_lt(2)]
  show "same_page v w" using d1 d2 d3 by (simp add: same_page_def path_def)
qed (simp add: same_page_def path_def page_digits)

lemma mapping_page: "page_of v = page_of w \<Longrightarrow> mapping s v = mapping s w"
  unfolding same_page_iff [symmetric] by (cases "l0_table s") (auto simp: mapping_def leaf_def same_page_def split: option.split)

interpretation pt: vasp_methods space_ok mapping space_keeps map_page unmap_page protect_page leaf_entry set_attrs
proof (unfold_locales)
  fix s v p f b s'
  assume ok: "space_ok s"
  show "map_page v p f s = (b, s') \<Longrightarrow> space_ok s' \<and> space_keeps s s'
      \<and> (\<forall>w. mapping s' w = (if b \<and> page_of v = page_of w then Some (leaf_entry p f) else mapping s w))"
    using map_page_spec [OF ok] by (simp add: same_page_iff)
  show "unmap_page v s = (b, s') \<Longrightarrow> space_ok s' \<and> space_keeps s s' \<and> (b \<longleftrightarrow> v AND 0xFFF = 0 \<and> mapping s v \<noteq> None)
      \<and> (\<forall>w. mapping s' w = (if b \<and> page_of v = page_of w then None else mapping s w))"
    using unmap_page_spec [OF ok] by (simp add: same_page_iff)
  assume p: "protect_page v f s = (b, s')"
  note P = protect_page_spec [OF ok p]
  have "mapping s' w = (if b \<and> page_of v = page_of w then map_option (set_attrs f) (mapping s w) else mapping s w)" for w
  proof (cases "page_of v = page_of w")
    case True
    then show ?thesis using P(3) [of w] mapping_page [OF True, of s] by (simp add: same_page_iff)
  qed (use P(3) [of w] in \<open>simp add: same_page_iff\<close>)
  then show "space_ok s' \<and> space_keeps s s' \<and> (b \<longleftrightarrow> v AND 0xFFF = 0 \<and> mapping s v \<noteq> None)
      \<and> (\<forall>w. mapping s' w = (if b \<and> page_of v = page_of w then map_option (set_attrs f) (mapping s w) else mapping s w))"
    using P(1,2,4) by blast
qed (auto intro: space_keeps_trans mapping_page)

section \<open>What a translation returns\<close>

lemma and_exp: "f AND 2 ^ k = (if bit f k then 2 ^ k else 0)" for f :: u32
  by (rule bit_word_eqI) (auto simp: bit_simps)

lemma and_flag:
  fixes f :: map_flags
  shows "f AND 2 = (if bit f 1 then 2 else 0)" "f AND 4 = (if bit f 2 then 4 else 0)"
    "f AND 8 = (if bit f 3 then 8 else 0)" "f AND 16 = (if bit f 4 then 16 else 0)"
  using and_exp [of f 1] and_exp [of f 2] and_exp [of f 3] and_exp [of f 4] by simp_all

text \<open>The flags read back are the flags asked for; every page is readable.\<close>

lemma flags_of_set_attrs: "flags_of (set_attrs f e) = Read OR (f AND 0x1E)"
proof -
  have "f AND (2 OR 4 OR 8 OR 16) = (f AND 2) OR (f AND 4) OR (f AND 8) OR (f AND 16)" by (simp only: bit.conj_disj_distrib)
  then have "f AND 0x1E = (f AND 2) OR (f AND 4) OR (f AND 8) OR (f AND 16)" by simp
  then show ?thesis
    by (cases "bit f 1"; cases "bit f 2"; cases "bit f 3"; cases "bit f 4")
      (simp_all add: flags_of_def set_attrs_def Let_def test_flags_def and_flag Read_def Write_def Execute_def User_def Device_def
        AP_EL1_RW_EL0_NONE_def AP_ALL_RW_def AP_EL1_RO_EL0_NONE_def AP_ALL_RO_def
        MAIR_IDX_DEVICE_nGnRE_def MAIR_IDX_DEVICE_nGnRnE_def MAIR_IDX_NORMAL_WB_def)
qed

lemma leaf_address: "push_bit 12 (ucast (output_addr (leaf_entry p f)) :: u64) = push_bit 12 (take_bit 36 (drop_bit 12 p))"
  by (rule bit_word_eqI) (auto simp: leaf_entry_def bit_simps)

definition page_frame :: "u64 \<Rightarrow> u64" where
  "page_frame p = push_bit 12 (take_bit 36 (drop_bit 12 p))"

lemma page_frame_id:
  assumes "p AND 0xFFF = 0" "unat p < 2 ^ 48"
  shows "page_frame p = p"
proof -
  have low: "\<not> bit p n" if "n < 12" for n
  proof -
    have "p AND mask 12 = 0" using assms(1) by (simp add: mask_eq_exp_minus_1)
    then have "\<not> bit (p AND mask 12) n" by simp
    then show ?thesis using that by (simp add: bit_simps)
  qed
  have "unat (take_bit 48 p) = unat p" using assms(2) by (simp only: unsigned_take_bit_eq take_bit_nat_eq_self)
  then have "take_bit 48 p = p" by (simp only: word_unat_eq_iff)
  then have high: "bit p n \<Longrightarrow> n < 48" for n by (metis bit_take_bit_iff)
  show ?thesis
  proof (rule bit_word_eqI)
    fix n
    show "bit (page_frame p) n = bit p n" using low [of n] high [of n]
      by (cases "n < 12") (auto simp: page_frame_def bit_simps)
  qed
qed

lemma leaf_flags: "flags_of (leaf_entry p f) = Read OR (f AND 0x1E)"
  by (simp add: leaf_entry_def flags_of_set_attrs)

lemma translate_leaf: "mapping s w = Some (leaf_entry p f) \<Longrightarrow> translate w s = Some (page_frame p OR (w AND 0xFFF), Read OR (f AND 0x1E))"
  by (simp add: translate_mapping leaf_address page_frame_def leaf_flags)

lemma translate_cong: "mapping s' w = mapping s w \<Longrightarrow> translate w s' = translate w s"
  by (simp add: translate_mapping)

lemma translate_protected:
  "mapping s' w = map_option (set_attrs f) (mapping s w) \<Longrightarrow> translate w s' = map_option (\<lambda>(pa, _). (pa, Read OR (f AND 0x1E))) (translate w s)"
  by (cases "mapping s w") (simp_all add: translate_mapping flags_of_set_attrs)

section \<open>Room for new tables\<close>

definition room :: "nat \<Rightarrow> mm \<Rightarrow> bool" where
  "room n st \<longleftrightarrow> (\<exists>ps. free_list st ps \<and> n \<le> length ps)"

lemma alloc_room:
  assumes "room (Suc n) st" "alloc_page st = (r, st')"
  shows "r \<noteq> None" "room n st'"
proof -
  obtain ps where ps: "free_list st ps" "Suc n \<le> length ps" using assms(1) by (auto simp: room_def)
  then show "r \<noteq> None" "room n st'"
    using alloc_page_list [OF ps(1)] assms(2) by (auto simp: room_def split: option.splits)
qed

lemma next_level_room:
  assumes ok: "tree_ok t0 st" and p: "ok_path (p @ [i])" "tab p t0 st = Some t" and rm: "room (Suc n) st"
    and g: "get_or_allocate_next_level t i st = (r, st')"
  shows "r \<noteq> None \<and> room n st'"
proof (cases "valid (entry t i st)")
  case True
  then have "tab (p @ [i]) t0 st = Some (unat (output_addr (entry t i st)))" using p(2) by (simp add: tab_append)
  from tree_okD(1) [OF ok p(1) this] have "next_table (entry t i st) \<noteq> None" by (auto simp: next_table_def)
  moreover have "room n st" using rm by (auto simp: room_def)
  ultimately show ?thesis using True g by (auto simp: get_or_allocate_next_level_def)
next
  case False
  obtain m st1 where al: "alloc_page st = (m, st1)" by fastforce
  then obtain k where k: "m = Some k" using alloc_room [OF rm al] by blast
  obtain qs where qs: "free_list st (k # qs)" "free_list st' qs" and r: "r = Some k"
    using next_level_new(3,4) [OF ok p False al [unfolded k] g] by blast
  obtain ps where "free_list st ps" "Suc n \<le> length ps" using rm by (auto simp: room_def)
  then have "Suc n \<le> length (k # qs)" using free_list_unique [OF qs(1)] by blast
  then show ?thesis using qs(2) r by (auto simp: room_def)
qed

lemma map_below_room:
  assumes ok: "tree_ok t0 st0" and rm: "room (Suc (Suc (Suc 0))) st0"
  shows "fst (map_below t0 v p f st0)"
proof -
  have t0: "tab [] t0 st0 = Some t0" by simp
  have okp: "ok_path ([] @ [l0_idx v])" "ok_path ([l0_idx v] @ [l1_idx v])" "ok_path ([l0_idx v, l1_idx v] @ [l2_idx v])"
    using idx_lt [of v] by (simp_all add: ok_path_def)
  obtain r1 st1 where g1: "get_or_allocate_next_level t0 (l0_idx v) st0 = (r1, st1)" by fastforce
  note n1 = next_level [OF ok okp(1) t0 g1] and m1 = next_level_room [OF ok okp(1) t0 rm g1]
  then obtain t1 where r1: "r1 = Some t1" and t1: "tab [l0_idx v] t0 st1 = Some t1" by (auto simp del: tab.simps)
  obtain r2 st2 where g2: "get_or_allocate_next_level t1 (l1_idx v) st1 = (r2, st2)" by fastforce
  note n2 = next_level [OF n1(1) okp(2) t1 g2] and m2 = next_level_room [OF n1(1) okp(2) t1 conjunct2 [OF m1] g2]
  then obtain t2 where r2: "r2 = Some t2" and t2: "tab [l0_idx v, l1_idx v] t0 st2 = Some t2" by (auto simp del: tab.simps)
  obtain r3 st3 where g3: "get_or_allocate_next_level t2 (l2_idx v) st2 = (r3, st3)" by fastforce
  note m3 = next_level_room [OF n2(1) okp(3) t2 conjunct2 [OF m2] g3]
  then obtain t3 where r3: "r3 = Some t3" by blast
  show ?thesis by (simp add: map_below_def g1 r1 g2 r2 g3 r3 Let_def)
qed

lemma map_page_room:
  assumes ok: "space_ok s" and al: "v AND 0xFFF = 0" "p AND 0xFFF = 0" and rm: "room 4 (phys s)"
  shows "fst (map_page v p f s)"
proof (cases "l0_table s")
  case None
  obtain m st1 where a: "alloc_page (phys s) = (m, st1)" by fastforce
  have "room (Suc (Suc (Suc (Suc 0)))) (phys s)" using rm by (simp add: eval_nat_numeral)
  note R = alloc_room [OF this a]
  then obtain t0 where m: "m = Some t0" by blast
  obtain ps where "free_list (phys s) ps" using rm by (auto simp: room_def)
  from new_root(1) [OF this a [unfolded m]] have "fst (map_below t0 v p f st1)"
    by (rule map_below_room [OF _ R(2)])
  then show ?thesis using al by (cases "map_below t0 v p f st1") (simp add: map_page_def None a m)
next
  case (Some t0)
  have "room (Suc (Suc (Suc 0))) (phys s)" using rm by (auto simp: room_def)
  then have "fst (map_below t0 v p f (phys s))" using ok Some by (intro map_below_room) (auto simp: space_ok_def)
  then show ?thesis using al by (cases "map_below t0 v p f (phys s)") (simp add: map_page_def Some)
qed

section \<open>Creating and destroying\<close>

lemma create_space_spec:
  assumes "free_list st ps"
  shows "space_ok (create_space st)" "mapping (create_space st) v = None" "space_keeps \<lparr>l0_table = None, phys = st\<rparr> (create_space st)"
proof -
  have "space_ok (create_space st) \<and> (\<forall>v. mapping (create_space st) v = None) \<and> space_keeps \<lparr>l0_table = None, phys = st\<rparr> (create_space st)"
  proof (cases "alloc_page st")
    case (Pair r st1)
    show ?thesis
    proof (cases r)
      case None
      then have "st1 = st" using alloc_page_list [OF assms] Pair by simp
      then show ?thesis using Pair None assms by (auto simp: create_space_def space_ok_def mapping_def)
    next
      case (Some n)
      from new_root [OF assms Pair [unfolded Some]] show ?thesis
        using Pair Some by (simp add: create_space_def space_ok_def mapping_def space_keeps_def space_pages_def)
    qed
  qed
  then show "space_ok (create_space st)" "mapping (create_space st) v = None" "space_keeps \<lparr>l0_table = None, phys = st\<rparr> (create_space st)"
    by blast+
qed

lemma destroy_space_spec:
  assumes ok: "space_ok s"
  shows "l0_table (destroy_space s) = None" "space_ok (destroy_space s)" "space_keeps s (destroy_space s)"
    "free_frames (phys (destroy_space s)) = space_pages s \<union> free_frames (phys s)"
proof -
  have "l0_table (destroy_space s) = None \<and> space_ok (destroy_space s) \<and> space_keeps s (destroy_space s)
      \<and> free_frames (phys (destroy_space s)) = space_pages s \<union> free_frames (phys s)"
  proof (cases "l0_table s")
    case None
    then show ?thesis using ok by (simp add: destroy_space_def space_pages_def)
  next
    case (Some t)
    have F: "frames_freed (phys s) (tables t (phys s)) (free_table_recursive 3 (Some t) (phys s))"
      by (rule destroy_tree) (use ok Some in \<open>auto simp: space_ok_def\<close>)
    have D: "destroy_space s = s\<lparr>l0_table := None, phys := free_table_recursive 3 (Some t) (phys s)\<rparr>"
      by (simp add: destroy_space_def Some)
    show ?thesis using frames_freedD [OF F] unfolding D by (simp add: Some space_ok_def space_pages_def space_keeps_def)
  qed
  then show "l0_table (destroy_space s) = None" "space_ok (destroy_space s)" "space_keeps s (destroy_space s)"
    "free_frames (phys (destroy_space s)) = space_pages s \<union> free_frames (phys s)" by blast+
qed

section \<open>The pool\<close>

lemma link_pages_chain:
  assumes "0 < cur" "cur + n < 2 ^ 36"
  shows "free_chain (link_pages n cur st) (Some cur) [cur..<cur + n + 1]"
    "x < cur \<Longrightarrow> mem (link_pages n cur st) x = mem st x" "free_list_head (link_pages n cur st) = free_list_head st"
proof -
  have "free_chain (link_pages n cur st) (Some cur) [cur..<cur + n + 1] \<and> (\<forall>x < cur. mem (link_pages n cur st) x = mem st x)
      \<and> free_list_head (link_pages n cur st) = free_list_head st"
    using assms
  proof (induction n arbitrary: cur st)
    case 0
    then show ?case by (simp add: page_simps word_page_def)
  next
    case (Suc n)
    let ?st = "set_word cur 0 (page_word (Some (cur + 1))) st"
    let ?r = "link_pages n (cur + 1) ?st"
    have IH: "free_chain ?r (Some (cur + 1)) [cur + 1..<cur + 1 + n + 1]" "\<And>x. x < cur + 1 \<Longrightarrow> mem ?r x = mem ?st x"
        "free_list_head ?r = free_list_head ?st"
      using Suc.IH [of "cur + 1" ?st] Suc.prems by auto
    have "word_page (mem ?r cur 0) = Some (cur + 1)"
      using IH(2) [of cur] word_page_word [of "Some (cur + 1)"] Suc.prems by (simp add: page_simps)
    moreover have "[cur..<cur + Suc n + 1] = cur # [cur + 1..<cur + 1 + n + 1]" by (simp add: upt_conv_Cons)
    ultimately have "free_chain ?r (Some cur) [cur..<cur + Suc n + 1]" using IH(1) Suc.prems by (simp del: upt_Suc)
    then show ?case using IH(2,3) by (simp add: page_simps)
  qed
  then show "free_chain (link_pages n cur st) (Some cur) [cur..<cur + n + 1]"
    "x < cur \<Longrightarrow> mem (link_pages n cur st) x = mem st x" "free_list_head (link_pages n cur st) = free_list_head st" by blast+
qed

lemma link_pages_total: "total_pages (link_pages n cur st) = total_pages st"
  by (induction n arbitrary: cur st) (simp_all add: set_word_def)

lemma unat_page_down: "unat (w AND NOT 0xFFF) = unat w div 0x1000 * 0x1000" for w :: u64
proof -
  have "w AND NOT (mask 12) = push_bit 12 (drop_bit 12 w)" by (rule bit_word_eqI) (auto simp: bit_simps)
  then have "w AND NOT 0xFFF = push_bit 12 (drop_bit 12 w)" by (simp add: mask_eq_exp_minus_1)
  moreover have "unat (push_bit 12 (drop_bit 12 w)) = take_bit 64 (push_bit 12 (drop_bit 12 (unat w)))"
    by (simp only: unsigned_push_bit_eq unat_drop_bit_eq) simp
  moreover have "push_bit 12 (drop_bit 12 (unat w)) = unat w div 0x1000 * 0x1000" by (simp add: push_bit_eq_mult drop_bit_eq_div)
  moreover have "unat w div 0x1000 * 0x1000 < 2 ^ 64" using order.strict_trans1 [OF div_times_less_eq_dividend unsigned_less, of w "0x1000"] by simp
  ultimately show ?thesis by (simp add: take_bit_nat_eq_self)
qed

text \<open>Initialisation lists the whole pages of a region that holds at least one.\<close>

lemma page_init_list:
  fixes start_addr sz :: u64
  defines "lo \<equiv> (unat start_addr + 0xFFF) div 0x1000" and "hi \<equiv> (unat start_addr + unat sz) div 0x1000"
  assumes "0 < unat start_addr" "unat start_addr + unat sz + 0x1000 < 2 ^ 48" "lo < hi"
  shows "free_list (page_init start_addr sz st) [lo..<hi]"
proof -
  let ?s = "(start_addr + 4096 - 1) AND NOT (4096 - 1)" and ?e = "(start_addr + sz) AND NOT (4096 - 1)"
  have u: "unat (start_addr + 4096 - 1) = unat start_addr + 0xFFF" "unat (start_addr + sz) = unat start_addr + unat sz"
  proof -
    have "start_addr + 4096 - 1 = start_addr + 0xFFF" by simp
    then show "unat (start_addr + 4096 - 1) = unat start_addr + 0xFFF" using assms(4) by (simp add: unat_word_ariths)
    show "unat (start_addr + sz) = unat start_addr + unat sz" using assms(4) by (simp add: unat_word_ariths)
  qed
  have s: "unat ?s = lo * 0x1000" and e: "unat ?e = hi * 0x1000"
    using unat_page_down [of "start_addr + 4096 - 1"] unat_page_down [of "start_addr + sz"] u by (simp_all add: lo_def hi_def)
  have "unat (?e - ?s) = (hi - lo) * 0x1000" using s e assms(5) by (simp add: unat_sub_if' diff_mult_distrib)
  then have tot: "unat ((?e - ?s) div 4096) = hi - lo" by (simp add: unat_div)
  define n where "n = (?e - ?s) div 4096"
  have n0: "n \<noteq> 0" using tot assms(5) by (auto simp: n_def)
  then have "unat (n - 1) = hi - lo - 1" using tot unfolding n_def [symmetric] by (simp add: unat_minus_one)
  then have t1: "unat ((?e - ?s) div 4096 - 1) = hi - lo - 1" "(?e - ?s) div 4096 \<noteq> 0" using n0 unfolding n_def by simp_all
  have b: "unat (drop_bit 12 ?s) = lo" using s by (simp only: unat_drop_bit_eq) (simp add: drop_bit_eq_div)
  let ?st = "st\<lparr>base_page := lo, total_pages := (?e - ?s) div 4096, free_pages := (?e - ?s) div 4096\<rparr>\<lparr>free_list_head := Some lo\<rparr>"
  have pi: "page_init start_addr sz st = link_pages (hi - lo - 1) lo ?st"
    using t1 b by (simp add: page_init_def Let_def)
  have "hi < 2 ^ 36" using assms(4) by (simp add: hi_def less_mult_imp_div_less)
  then have "0 < lo" "lo + (hi - lo - 1) < 2 ^ 36" using assms(3,5) by (auto simp: lo_def)
  from link_pages_chain [OF this, where st = ?st] show ?thesis using assms(5) unfolding pi by (simp add: free_list_def)
qed

text \<open>A region that crosses no page boundary twice holds no page, and the page count wraps around.\<close>

lemma page_init_underflow: "total_pages (page_init 0x1001 0x10 st) = 2 ^ 52 - 1"
  by (simp add: page_init_def Let_def link_pages_total)

section \<open>Refinement of a map from pages\<close>

text \<open>
  C6: Over well-formed tables, mapping, unmapping and protecting a page act on the translation function
  as updates of one page: mapping makes every address of the page translate to the same offset in the
  requested frame with the requested flags, and succeeds for aligned addresses when four pages are free
  for tables; unmapping and protecting succeed exactly on an aligned mapped address. Every other
  address translates as before and the tables stay well formed.
\<close>

theorem page_operations_refine_translation:
  assumes "space_ok s"
  shows "(case map_page v p f s of (b, s') \<Rightarrow>
       space_ok s'
       \<and> (v AND 0xFFF = 0 \<and> p AND 0xFFF = 0 \<and> room 4 (phys s) \<longrightarrow> b)
       \<and> (\<forall>w. translate w s' = (if b \<and> page_of v = page_of w then Some (page_frame p OR (w AND 0xFFF), Read OR (f AND 0x1E))
                                else translate w s)))
     \<and> (case unmap_page v s of (b, s') \<Rightarrow>
       space_ok s' \<and> (b \<longleftrightarrow> v AND 0xFFF = 0 \<and> translate v s \<noteq> None)
       \<and> (\<forall>w. translate w s' = (if b \<and> page_of v = page_of w then None else translate w s)))
     \<and> (case protect_page v f s of (b, s') \<Rightarrow>
       space_ok s' \<and> (b \<longleftrightarrow> v AND 0xFFF = 0 \<and> translate v s \<noteq> None)
       \<and> (\<forall>w. translate w s' = (if b \<and> page_of v = page_of w
                                then map_option (\<lambda>(pa, _). (pa, Read OR (f AND 0x1E))) (translate w s)
                                else translate w s)))"
proof (intro conjI)
  have tr: "translate v s \<noteq> None \<longleftrightarrow> mapping s v \<noteq> None" by (simp add: translate_mapping)
  obtain b s' where m: "map_page v p f s = (b, s')" by fastforce
  have "translate w s' = (if b \<and> page_of v = page_of w then Some (page_frame p OR (w AND 0xFFF), Read OR (f AND 0x1E)) else translate w s)" for w
    using pt.map_law [OF assms m] translate_leaf [of s' w p f] translate_cong [of s' w s] by (cases "b \<and> page_of v = page_of w") auto
  then show "case map_page v p f s of (b, s') \<Rightarrow> space_ok s' \<and> (v AND 0xFFF = 0 \<and> p AND 0xFFF = 0 \<and> room 4 (phys s) \<longrightarrow> b)
      \<and> (\<forall>w. translate w s' = (if b \<and> page_of v = page_of w then Some (page_frame p OR (w AND 0xFFF), Read OR (f AND 0x1E)) else translate w s))"
    using pt.map_law [OF assms m] map_page_room [OF assms, of v p f] m by simp
  obtain b2 s2 where u: "unmap_page v s = (b2, s2)" by fastforce
  have "translate w s2 = (if b2 \<and> page_of v = page_of w then None else translate w s)" for w
    using pt.unmap_law [OF assms u] translate_cong [of s2 w s] by (cases "b2 \<and> page_of v = page_of w") (auto simp: translate_mapping)
  then show "case unmap_page v s of (b, s') \<Rightarrow> space_ok s' \<and> (b \<longleftrightarrow> v AND 0xFFF = 0 \<and> translate v s \<noteq> None)
      \<and> (\<forall>w. translate w s' = (if b \<and> page_of v = page_of w then None else translate w s))"
    unfolding tr using pt.unmap_law [OF assms u] u by simp
  obtain b3 s3 where r: "protect_page v f s = (b3, s3)" by fastforce
  have "translate w s3 = (if b3 \<and> page_of v = page_of w then map_option (\<lambda>(pa, _). (pa, Read OR (f AND 0x1E))) (translate w s) else translate w s)" for w
    using pt.protect_law [OF assms r] translate_cong [of s3 w s] translate_protected [of s3 w f s]
    by (cases "b3 \<and> page_of v = page_of w") auto
  then show "case protect_page v f s of (b, s') \<Rightarrow> space_ok s' \<and> (b \<longleftrightarrow> v AND 0xFFF = 0 \<and> translate v s \<noteq> None)
      \<and> (\<forall>w. translate w s' = (if b \<and> page_of v = page_of w then map_option (\<lambda>(pa, _). (pa, Read OR (f AND 0x1E))) (translate w s) else translate w s))"
    unfolding tr using pt.protect_law [OF assms r] r by simp
qed

text \<open>A pool of eight pages and an address space without tables yet.\<close>

definition example_pool :: mm where
  "example_pool = page_init 0x1000 0x8000 \<lparr>mem = \<lambda>_ _. 0, base_page = 0, total_pages = 0, free_pages = 0, free_list_head = None\<rparr>"

lemma example_pool_list: "free_list example_pool [1..<9]"
  unfolding example_pool_def using page_init_list [of "0x1000" "0x8000"] by simp

lemma example_space_ok: "space_ok \<lparr>l0_table = None, phys = example_pool\<rparr>" "room 4 example_pool"
proof -
  show "space_ok \<lparr>l0_table = None, phys = example_pool\<rparr>" using example_pool_list by (auto simp: space_ok_def)
  show "room 4 example_pool" unfolding room_def using example_pool_list by (intro exI [of _ "[1..<9]"]) simp
qed

theorem page_operations_refine_translation_witness:
  "case map_page 0x7000 0x40000000 (Write OR User) \<lparr>l0_table = None, phys = example_pool\<rparr> of (b, s) \<Rightarrow>
     b \<and> translate 0x7004 s = Some (0x40000004, 11) \<and> translate 0x8004 s = None"
  using page_operations_refine_translation [OF example_space_ok(1), of "0x7000" "0x40000000" "Write OR User"] example_space_ok(2)
  by (auto simp: page_of_def page_frame_def Read_def Write_def User_def translate_def split: prod.splits)

end
