(* ===== verification/Mmu.thy ===== *)
theory Mmu
  imports Address_Space
begin

text \<open>
  The per-task address spaces of \<open>kernel/mm/mmu.cpp\<close>. All spaces take their tables from one pool of
  pages; the invariant keeps the tables of different owners apart, and an operation on one task's space
  changes no translation of another task or of the kernel.
\<close>

section \<open>State\<close>

text \<open>
  An address-space object is its only member, the root table. \<open>operator new\<close> halts the machine when
  the heap is exhausted, so that \<open>new\<close> always gives an object here. Tasks are known by their identifiers and a
  task pointer is an identifier or null.
\<close>

type_synonym vas = "nat option"

record task_memory =
  vasp :: "vas option"
  pgdir_base :: u64

record mmu =
  pool :: mm
  kernel_vas :: "vas option"
  mmu_enabled :: bool
  ttbr0 :: u64
  task_mem :: "nat \<Rightarrow> task_memory"

definition space_at :: "vas \<Rightarrow> mmu \<Rightarrow> space" where
  "space_at v m = \<lparr>l0_table = v, phys = pool m\<rparr>"

section \<open>Operations\<close>

definition KERNEL_RAM_BASE :: u64 where "KERNEL_RAM_BASE = 0x40000000"
definition KERNEL_RAM_SIZE :: u64 where "KERNEL_RAM_SIZE = 128 * 1024 * 1024"
definition BOARD_UART0_BASE :: u64 where "BOARD_UART0_BASE = 0x09000000"
definition BOARD_GIC_DIST_BASE :: u64 where "BOARD_GIC_DIST_BASE = 0x08000000"
definition BOARD_GIC_DIST_SIZE :: u64 where "BOARD_GIC_DIST_SIZE = 128 * 1024"

definition map_kernel_regions :: "space \<Rightarrow> (bool \<times> space) option" where
  "map_kernel_regions s =
     (case map_range map_page KERNEL_RAM_BASE KERNEL_RAM_BASE KERNEL_RAM_SIZE (Read OR Write OR Execute) s of
        None \<Rightarrow> None
      | Some (b1, s1) \<Rightarrow>
          if \<not> b1 then Some (False, s1)
          else case map_page BOARD_UART0_BASE BOARD_UART0_BASE (Read OR Write OR Device) s1 of
            (b2, s2) \<Rightarrow>
              if \<not> b2 then Some (False, s2)
              else case map_range map_page BOARD_GIC_DIST_BASE BOARD_GIC_DIST_BASE BOARD_GIC_DIST_SIZE (Read OR Write OR Device) s2 of
                None \<Rightarrow> None
              | Some (b3, s3) \<Rightarrow> if \<not> b3 then Some (False, s3) else Some (True, s3))"

text \<open>The result of mapping the kernel regions is not looked at.\<close>

definition create_vas :: "mm \<Rightarrow> space option" where
  "create_vas st = (case map_kernel_regions (create_space st) of None \<Rightarrow> None | Some (_, s) \<Rightarrow> Some s)"

definition enable_mmu :: "mmu \<Rightarrow> mmu" where
  "enable_mmu m = m\<lparr>mmu_enabled := True\<rparr>"

definition disable_mmu :: "mmu \<Rightarrow> mmu" where
  "disable_mmu m = m\<lparr>mmu_enabled := False\<rparr>"

text \<open>Initialisation as the 64-bit ARM build compiles it.\<close>

definition mmu_init :: "u64 \<Rightarrow> u64 \<Rightarrow> mmu \<Rightarrow> (bool \<times> mmu) option" where
  "mmu_init page_pool pool_size m =
     (let m1 = (if page_pool \<noteq> 0 \<and> pool_size > 0 then m\<lparr>pool := page_init page_pool pool_size (pool m)\<rparr> else m)
      in case (case kernel_vas m1 of
                 Some v \<Rightarrow> Some m1
               | None \<Rightarrow> (case create_vas (pool m1) of
                            None \<Rightarrow> None
                          | Some s \<Rightarrow> Some (m1\<lparr>pool := phys s, kernel_vas := Some (l0_table s)\<rparr>))) of
           None \<Rightarrow> None
         | Some m2 \<Rightarrow>
             Some (kernel_vas m2 \<noteq> None,
                   enable_mmu (case kernel_vas m2 of
                                 None \<Rightarrow> m2
                               | Some v \<Rightarrow> m2\<lparr>ttbr0 := get_pgdir_base (space_at v m2)\<rparr>)))"

definition destroy_vas :: "vas option \<Rightarrow> mm \<Rightarrow> mm" where
  "destroy_vas r st = (case r of None \<Rightarrow> st | Some v \<Rightarrow> phys (destroy_space \<lparr>l0_table = v, phys = st\<rparr>))"

definition destroy_task_vas :: "nat option \<Rightarrow> mmu \<Rightarrow> mmu" where
  "destroy_task_vas task m =
     (case task of
        None \<Rightarrow> m
      | Some t \<Rightarrow>
          (case vasp (task_mem m t) of
             None \<Rightarrow> m
           | Some v \<Rightarrow> m\<lparr>pool := destroy_vas (Some v) (pool m),
                         task_mem := (task_mem m)(t := (task_mem m t)\<lparr>vasp := None, pgdir_base := 0\<rparr>)\<rparr>))"

definition create_task_vas :: "nat option \<Rightarrow> mmu \<Rightarrow> (bool \<times> mmu) option" where
  "create_task_vas task m =
     (case task of
        None \<Rightarrow> Some (False, m)
      | Some t \<Rightarrow>
          let m1 = destroy_task_vas task m
          in case create_vas (pool m1) of
               None \<Rightarrow> None
             | Some s \<Rightarrow>
                 Some (True, m1\<lparr>pool := phys s,
                   task_mem := (task_mem m1)(t := (task_mem m1 t)\<lparr>vasp := Some (l0_table s), pgdir_base := get_pgdir_base s\<rparr>)\<rparr>))"

definition switch_vas :: "nat option \<Rightarrow> mmu \<Rightarrow> mmu" where
  "switch_vas task m =
     (case task of
        None \<Rightarrow> m
      | Some t \<Rightarrow>
          let pgdir = pgdir_base (task_mem m t);
              pgdir' = (if pgdir = 0 then (case kernel_vas m of None \<Rightarrow> pgdir | Some v \<Rightarrow> get_pgdir_base (space_at v m)) else pgdir)
          in if pgdir' \<noteq> 0 then m\<lparr>ttbr0 := pgdir'\<rparr> else m)"

text \<open>A call of a method of a task's address space.\<close>

definition on_vas :: "nat \<Rightarrow> vas \<Rightarrow> (space \<Rightarrow> (bool \<times> space) option) \<Rightarrow> mmu \<Rightarrow> (bool \<times> mmu) option" where
  "on_vas t v g m =
     (case g (space_at v m) of
        None \<Rightarrow> None
      | Some (b, s) \<Rightarrow> Some (b, m\<lparr>pool := phys s, task_mem := (task_mem m)(t := (task_mem m t)\<lparr>vasp := Some (l0_table s)\<rparr>)\<rparr>))"

definition map_user_memory :: "nat option \<Rightarrow> u64 \<Rightarrow> u64 \<Rightarrow> u64 \<Rightarrow> map_flags \<Rightarrow> mmu \<Rightarrow> (bool \<times> mmu) option" where
  "map_user_memory task vaddr paddr sz flags m =
     (case task of
        None \<Rightarrow> Some (False, m)
      | Some t \<Rightarrow>
          (case vasp (task_mem m t) of
             None \<Rightarrow> Some (False, m)
           | Some v \<Rightarrow>
               if sz = 0 then Some (False, m)
               else on_vas t v (map_range map_page vaddr paddr sz (flags OR User)) m))"

definition unmap_user_memory :: "nat option \<Rightarrow> u64 \<Rightarrow> u64 \<Rightarrow> mmu \<Rightarrow> (bool \<times> mmu) option" where
  "unmap_user_memory task vaddr sz m =
     (case task of
        None \<Rightarrow> Some (False, m)
      | Some t \<Rightarrow>
          (case vasp (task_mem m t) of
             None \<Rightarrow> Some (False, m)
           | Some v \<Rightarrow> if sz = 0 then Some (False, m) else on_vas t v (unmap_range unmap_page vaddr sz) m))"

definition protect_user_memory :: "nat option \<Rightarrow> u64 \<Rightarrow> u64 \<Rightarrow> map_flags \<Rightarrow> mmu \<Rightarrow> (bool \<times> mmu) option" where
  "protect_user_memory task vaddr sz flags m =
     (case task of
        None \<Rightarrow> Some (False, m)
      | Some t \<Rightarrow>
          (case vasp (task_mem m t) of
             None \<Rightarrow> Some (False, m)
           | Some v \<Rightarrow> if sz = 0 then Some (False, m) else on_vas t v (protect_range protect_page vaddr sz (flags OR User)) m))"

definition mmu_translate :: "nat option \<Rightarrow> u64 \<Rightarrow> mmu \<Rightarrow> (u64 \<times> map_flags) option" where
  "mmu_translate task vaddr m =
     (case task of
        None \<Rightarrow> None
      | Some t \<Rightarrow> (case vasp (task_mem m t) of None \<Rightarrow> None | Some v \<Rightarrow> translate vaddr (space_at v m)))"

section \<open>Owners of tables\<close>

text \<open>The kernel is the owner \<open>None\<close>, a task \<open>t\<close> the owner \<open>Some t\<close>.\<close>

definition vas_of :: "mmu \<Rightarrow> nat option \<Rightarrow> vas option" where
  "vas_of m ow = (case ow of None \<Rightarrow> kernel_vas m | Some t \<Rightarrow> vasp (task_mem m t))"

definition own_space :: "mmu \<Rightarrow> nat option \<Rightarrow> space" where
  "own_space m ow = space_at (case vas_of m ow of None \<Rightarrow> None | Some v \<Rightarrow> v) m"

definition mmu_ok :: "mmu \<Rightarrow> bool" where
  "mmu_ok m \<longleftrightarrow> (\<forall>ow. space_ok (own_space m ow))
     \<and> (\<forall>ow ow'. ow \<noteq> ow' \<longrightarrow> space_pages (own_space m ow) \<inter> space_pages (own_space m ow') = {})"

text \<open>The state after an operation on the space of one owner.\<close>

definition only_changes :: "nat option \<Rightarrow> mmu \<Rightarrow> mmu \<Rightarrow> bool" where
  "only_changes ow m m' \<longleftrightarrow> space_ok (own_space m' ow) \<and> space_keeps (own_space m ow) (own_space m' ow)
     \<and> (\<forall>ow'. ow' \<noteq> ow \<longrightarrow> vas_of m' ow' = vas_of m ow')"

lemma space_at_sel [simp]: "l0_table (space_at v m) = v" "phys (space_at v m) = pool m"
  by (simp_all add: space_at_def)

lemma own_space_phys [simp]: "phys (own_space m ow) = pool m"
  by (simp add: own_space_def)

lemma pages_not_free: "space_ok s \<Longrightarrow> space_pages s \<inter> free_frames (phys s) = {}"
proof (cases "l0_table s")
  case (Some t)
  assume "space_ok s"
  then obtain ps where "free_list (phys s) ps" "\<forall>q u. ok_path q \<longrightarrow> tab q t (phys s) = Some u \<longrightarrow> u \<notin> set ps"
    using Some tree_okD(3) [of t "phys s"] by (auto simp: space_ok_def)
  then show ?thesis using Some by (auto simp: space_pages_def tables_def free_frames_list)
qed (simp add: space_pages_def)

lemma space_frame:
  assumes ok: "space_ok \<lparr>l0_table = v, phys = st\<rparr>" and same: "\<And>x. x \<in> space_pages \<lparr>l0_table = v, phys = st\<rparr> \<Longrightarrow> mem st' x = mem st x"
    and fl: "free_list st' ps" "set ps \<inter> space_pages \<lparr>l0_table = v, phys = st\<rparr> = {}"
  shows "space_ok \<lparr>l0_table = v, phys = st'\<rparr>" "space_pages \<lparr>l0_table = v, phys = st'\<rparr> = space_pages \<lparr>l0_table = v, phys = st\<rparr>"
    "mapping \<lparr>l0_table = v, phys = st'\<rparr> w = mapping \<lparr>l0_table = v, phys = st\<rparr> w"
proof -
  have "space_ok \<lparr>l0_table = v, phys = st'\<rparr> \<and> space_pages \<lparr>l0_table = v, phys = st'\<rparr> = space_pages \<lparr>l0_table = v, phys = st\<rparr>
    \<and> (\<forall>w. mapping \<lparr>l0_table = v, phys = st'\<rparr> w = mapping \<lparr>l0_table = v, phys = st\<rparr> w)"
  proof (cases v)
    case None
    then show ?thesis using fl(1) by (auto simp: space_ok_def space_pages_def mapping_def)
  next
    case (Some t)
    have T: "tree_ok t st" "typed t st" using ok Some by (auto simp: space_ok_def)
    have S: "mem st' x = mem st x" if "x \<in> tables t st" for x using same that Some by (simp add: space_pages_def)
    have "tree_ok t st'" by (rule frame_tree_ok [OF T(1) S fl(1)]) (use fl(2) Some in \<open>simp_all add: space_pages_def\<close>)
    then show ?thesis using frame_tree [of t st st', OF S] T(2) Some by (simp add: space_ok_def space_pages_def mapping_def)
  qed
  then show "space_ok \<lparr>l0_table = v, phys = st'\<rparr>" "space_pages \<lparr>l0_table = v, phys = st'\<rparr> = space_pages \<lparr>l0_table = v, phys = st\<rparr>"
    "mapping \<lparr>l0_table = v, phys = st'\<rparr> w = mapping \<lparr>l0_table = v, phys = st\<rparr> w" by blast+
qed

lemma others_kept:
  assumes ok: "mmu_ok m" and ch: "only_changes ow m m'"
  shows "mmu_ok m'" "ow' \<noteq> ow \<Longrightarrow> mapping (own_space m' ow') w = mapping (own_space m ow') w"
    "ow' \<noteq> ow \<Longrightarrow> space_pages (own_space m' ow') = space_pages (own_space m ow')"
proof -
  have sp: "space_ok (own_space m x)" for x using ok by (simp add: mmu_ok_def)
  have dj: "x \<noteq> y \<Longrightarrow> space_pages (own_space m x) \<inter> space_pages (own_space m y) = {}" for x y using ok by (simp add: mmu_ok_def)
  have ok': "space_ok (own_space m' ow)" and kp: "space_keeps (own_space m ow) (own_space m' ow)" using ch by (auto simp: only_changes_def)
  obtain ps where ps: "free_list (pool m') ps"
    using ok' tree_okD(3) [of _ "pool m'"] by (auto simp: space_ok_def split: option.splits)
  have owned: "space_pages (own_space m' ow) \<union> set ps = space_pages (own_space m ow) \<union> free_frames (pool m)"
    using kp by (simp add: space_keeps_def free_frames_list [OF ps])
  have F: "space_ok (own_space m' x) \<and> space_pages (own_space m' x) = space_pages (own_space m x)
      \<and> (\<forall>w. mapping (own_space m' x) w = mapping (own_space m x) w)
      \<and> space_pages (own_space m x) \<inter> space_pages (own_space m' ow) = {}" if x: "x \<noteq> ow" for x
  proof -
    define v where "v = (case vas_of m x of None \<Rightarrow> None | Some v \<Rightarrow> v)"
    have e: "own_space m x = \<lparr>l0_table = v, phys = pool m\<rparr>" "own_space m' x = \<lparr>l0_table = v, phys = pool m'\<rparr>"
      using ch x by (simp_all add: own_space_def v_def space_at_def only_changes_def)
    have D: "space_pages (own_space m x) \<inter> (space_pages (own_space m ow) \<union> free_frames (pool m)) = {}"
      using dj [OF x] pages_not_free [OF sp, of x] by auto
    have "mem (pool m') y = mem (pool m) y" if "y \<in> space_pages (own_space m x)" for y
      using kp D that by (auto simp: space_keeps_def)
    moreover have "set ps \<inter> space_pages (own_space m x) = {}" using D owned by blast
    ultimately show ?thesis
      using space_frame [of v "pool m" "pool m'" ps] sp [of x] ps D owned unfolding e by blast
  qed
  show "ow' \<noteq> ow \<Longrightarrow> mapping (own_space m' ow') w = mapping (own_space m ow') w"
    "ow' \<noteq> ow \<Longrightarrow> space_pages (own_space m' ow') = space_pages (own_space m ow')" using F by blast+
  show "mmu_ok m'"
    unfolding mmu_ok_def
  proof (intro conjI allI impI)
    show "space_ok (own_space m' x)" for x using F [of x] ok' by (cases "x = ow") auto
    show "space_pages (own_space m' x) \<inter> space_pages (own_space m' y) = {}" if "x \<noteq> y" for x y
      using that F [of x] F [of y] dj [of x y] by (cases "x = ow"; cases "y = ow") auto
  qed
qed

lemma only_changes_refl: "mmu_ok m \<Longrightarrow> only_changes ow m m"
  by (simp add: only_changes_def mmu_ok_def)

lemma only_changes_trans: "only_changes ow m m1 \<Longrightarrow> only_changes ow m1 m2 \<Longrightarrow> only_changes ow m m2"
  using space_keeps_trans by (auto simp: only_changes_def)

lemma mmu_ok_own: "mmu_ok m \<Longrightarrow> space_ok (own_space m ow)"
  by (simp add: mmu_ok_def)

lemma own_space_Some: "vas_of m ow = Some v \<Longrightarrow> own_space m ow = space_at v m"
  by (simp add: own_space_def)

lemma mmu_translate_own: "mmu_translate (Some t) w m = translate w (own_space m (Some t))"
  by (auto simp: mmu_translate_def own_space_def vas_of_def translate_def split: option.split)

section \<open>What each operation changes\<close>

lemma map_kernel_regions_keeps:
  assumes "space_ok s" "map_kernel_regions s = Some r"
  shows "space_ok (snd r) \<and> space_keeps s (snd r)"
proof -
  let ?I = "\<lambda>x. space_ok x \<and> space_keeps s x"
  obtain b1 s1 where r1: "map_range map_page KERNEL_RAM_BASE KERNEL_RAM_BASE KERNEL_RAM_SIZE (Read OR Write OR Execute) s = Some (b1, s1)"
    using assms(2) by (auto simp: map_kernel_regions_def split: option.splits)
  have s1: "?I s1" using pt.range_keeps(1) [OF assms(1) r1] by simp
  obtain b2 s2 where r2: "map_page BOARD_UART0_BASE BOARD_UART0_BASE (Read OR Write OR Device) s1 = (b2, s2)" by fastforce
  have s2: "?I s2" using pt.map_law [OF conjunct1 [OF s1] r2] s1 space_keeps_trans by blast
  show ?thesis
  proof (cases "b1 \<and> b2")
    case True
    then obtain b3 s3 where r3: "map_range map_page BOARD_GIC_DIST_BASE BOARD_GIC_DIST_BASE BOARD_GIC_DIST_SIZE (Read OR Write OR Device) s2 = Some (b3, s3)"
        and "snd r = s3"
      using assms(2) r1 r2 by (auto simp: map_kernel_regions_def split: option.splits if_splits)
    then show ?thesis using pt.range_keeps(1) [OF conjunct1 [OF s2] r3] s2 space_keeps_trans by auto
  next
    case False
    then have "snd r = s1 \<or> snd r = s2" using assms(2) r1 r2 by (cases b1; cases b2) (auto simp: map_kernel_regions_def)
    then show ?thesis using s1 s2 by auto
  qed
qed

lemma map_kernel_regions_total:
  assumes "space_ok s"
  shows "map_kernel_regions s \<noteq> None"
proof -
  have "\<exists>b s'. map_range map_page KERNEL_RAM_BASE KERNEL_RAM_BASE KERNEL_RAM_SIZE f x = Some (b, s')" if "space_ok x" for f x
    using pt.map_range_law [OF that, of KERNEL_RAM_BASE KERNEL_RAM_SIZE KERNEL_RAM_BASE f]
    by (auto simp: KERNEL_RAM_BASE_def KERNEL_RAM_SIZE_def page_count_def)
  then obtain b1 s1 where r1: "map_range map_page KERNEL_RAM_BASE KERNEL_RAM_BASE KERNEL_RAM_SIZE (Read OR Write OR Execute) s = Some (b1, s1)"
    using assms by blast
  have s1: "space_ok s1" using pt.range_keeps(1) [OF assms r1] by simp
  obtain b2 s2 where r2: "map_page BOARD_UART0_BASE BOARD_UART0_BASE (Read OR Write OR Device) s1 = (b2, s2)" by fastforce
  have s2: "space_ok s2" using pt.map_law [OF s1 r2] by blast
  have "\<exists>b s'. map_range map_page BOARD_GIC_DIST_BASE BOARD_GIC_DIST_BASE BOARD_GIC_DIST_SIZE f s2 = Some (b, s')" for f
    using pt.map_range_law [OF s2, of BOARD_GIC_DIST_BASE BOARD_GIC_DIST_SIZE BOARD_GIC_DIST_BASE f]
    by (auto simp: BOARD_GIC_DIST_BASE_def BOARD_GIC_DIST_SIZE_def page_count_def)
  then obtain b3 s3 where "map_range map_page BOARD_GIC_DIST_BASE BOARD_GIC_DIST_BASE BOARD_GIC_DIST_SIZE (Read OR Write OR Device) s2 = Some (b3, s3)" by blast
  then show ?thesis using r1 r2 by (cases b1; cases b2; cases b3) (simp_all add: map_kernel_regions_def)
qed

lemma create_vas_keeps:
  assumes "free_list st ps" "create_vas st = Some s"
  shows "space_ok s" "space_keeps \<lparr>l0_table = None, phys = st\<rparr> s"
proof -
  obtain b where m: "map_kernel_regions (create_space st) = Some (b, s)"
    using assms(2) by (auto simp: create_vas_def split: option.splits)
  have "space_ok s \<and> space_keeps (create_space st) s" using map_kernel_regions_keeps [OF create_space_spec(1) [OF assms(1)] m] by simp
  then show "space_ok s" "space_keeps \<lparr>l0_table = None, phys = st\<rparr> s"
    using space_keeps_trans [OF create_space_spec(3) [OF assms(1)]] by blast+
qed

lemma create_vas_total: "free_list st ps \<Longrightarrow> create_vas st \<noteq> None"
  using map_kernel_regions_total [OF create_space_spec(1)] by (auto simp: create_vas_def split: option.split)

lemma space_ok_free:
  assumes "space_ok s"
  shows "\<exists>ps. free_list (phys s) ps"
proof (cases "l0_table s")
  case (Some t)
  then have "tree_ok t (phys s)" using assms by (simp add: space_ok_def)
  from tree_okD(3) [OF this] show ?thesis by blast
qed (use assms in \<open>simp add: space_ok_def\<close>)

lemma mmu_ok_free: "mmu_ok m \<Longrightarrow> \<exists>ps. free_list (pool m) ps"
  using space_ok_free [OF mmu_ok_own] by simp

lemma destroy_task_vas_changes:
  assumes "mmu_ok m"
  shows "only_changes (Some t) m (destroy_task_vas (Some t) m)" "vasp (task_mem (destroy_task_vas (Some t) m) t) = None"
    "free_frames (pool (destroy_task_vas (Some t) m)) = space_pages (own_space m (Some t)) \<union> free_frames (pool m)"
proof -
  have "only_changes (Some t) m (destroy_task_vas (Some t) m) \<and> vasp (task_mem (destroy_task_vas (Some t) m) t) = None
    \<and> free_frames (pool (destroy_task_vas (Some t) m)) = space_pages (own_space m (Some t)) \<union> free_frames (pool m)"
  proof (cases "vasp (task_mem m t)")
    case None
    then have "destroy_task_vas (Some t) m = m" "space_pages (own_space m (Some t)) = {}"
      by (simp_all add: destroy_task_vas_def own_space_def vas_of_def space_pages_def)
    then show ?thesis using only_changes_refl [OF assms] None by simp
  next
    case (Some v)
    have own: "own_space m (Some t) = \<lparr>l0_table = v, phys = pool m\<rparr>" using Some by (simp add: own_space_def vas_of_def space_at_def)
    note D = destroy_space_spec [OF mmu_ok_own [OF assms, of "Some t"], unfolded own]
    let ?m = "destroy_task_vas (Some t) m"
    have m: "?m = m\<lparr>pool := phys (destroy_space \<lparr>l0_table = v, phys = pool m\<rparr>),
        task_mem := (task_mem m)(t := (task_mem m t)\<lparr>vasp := None, pgdir_base := 0\<rparr>)\<rparr>"
      using Some by (simp add: destroy_task_vas_def destroy_vas_def)
    have own': "own_space ?m (Some t) = destroy_space \<lparr>l0_table = v, phys = pool m\<rparr>"
      using D(1) by (simp add: m own_space_def vas_of_def space_at_def)
    show ?thesis using D unfolding only_changes_def own own' by (auto simp: m vas_of_def split: option.split)
  qed
  then show "only_changes (Some t) m (destroy_task_vas (Some t) m)" "vasp (task_mem (destroy_task_vas (Some t) m) t) = None"
    "free_frames (pool (destroy_task_vas (Some t) m)) = space_pages (own_space m (Some t)) \<union> free_frames (pool m)" by blast+
qed

lemma create_task_vas_changes:
  assumes ok: "mmu_ok m"
  shows "\<exists>m'. create_task_vas (Some t) m = Some (True, m')" "create_task_vas (Some t) m = Some (b, m') \<Longrightarrow> only_changes (Some t) m m'"
proof -
  define m1 where "m1 = destroy_task_vas (Some t) m"
  note D = destroy_task_vas_changes [OF ok, of t, folded m1_def]
  have ok1: "mmu_ok m1" by (rule others_kept(1) [OF ok D(1)])
  obtain ps where ps: "free_list (pool m1) ps" using mmu_ok_free [OF ok1] by blast
  obtain s where s: "create_vas (pool m1) = Some s" using create_vas_total [OF ps] by blast
  let ?m = "m1\<lparr>pool := phys s, task_mem := (task_mem m1)(t := (task_mem m1 t)\<lparr>vasp := Some (l0_table s), pgdir_base := get_pgdir_base s\<rparr>)\<rparr>"
  have c: "create_task_vas (Some t) m = Some (True, ?m)" by (simp add: create_task_vas_def Let_def m1_def [symmetric] s)
  then show "\<exists>m'. create_task_vas (Some t) m = Some (True, m')" by blast
  have own: "own_space m1 (Some t) = \<lparr>l0_table = None, phys = pool m1\<rparr>" using D(2) by (simp add: own_space_def vas_of_def space_at_def)
  have own': "own_space ?m (Some t) = s" by (simp add: own_space_def vas_of_def space_at_def)
  have "only_changes (Some t) m1 ?m"
    using create_vas_keeps [OF ps s] unfolding only_changes_def own own' by (auto simp: vas_of_def split: option.split)
  then show "create_task_vas (Some t) m = Some (b, m') \<Longrightarrow> only_changes (Some t) m m'"
    using c only_changes_trans [OF D(1)] by simp
qed

lemma on_vas_changes:
  assumes v: "vasp (task_mem m t) = Some v" and o: "on_vas t v g m = Some (b, m')"
    and g: "\<And>r. g (space_at v m) = Some r \<Longrightarrow> space_ok (snd r) \<and> space_keeps (space_at v m) (snd r)"
  shows "only_changes (Some t) m m'" "g (space_at v m) = Some (b, own_space m' (Some t))"
proof -
  obtain s where s: "g (space_at v m) = Some (b, s)"
      and m': "m' = m\<lparr>pool := phys s, task_mem := (task_mem m)(t := (task_mem m t)\<lparr>vasp := Some (l0_table s)\<rparr>)\<rparr>"
    using o by (auto simp: on_vas_def split: option.splits)
  have own: "own_space m (Some t) = space_at v m" using v by (simp add: own_space_def vas_of_def)
  have own': "own_space m' (Some t) = s" by (simp add: m' own_space_def vas_of_def space_at_def)
  then show "g (space_at v m) = Some (b, own_space m' (Some t))" using s by simp
  show "only_changes (Some t) m m'"
    using g [OF s] unfolding only_changes_def own own' by (auto simp: m' vas_of_def split: option.split)
qed

lemma user_memory_changes:
  assumes ok: "mmu_ok m"
  shows "map_user_memory (Some t) va pa sz f m = Some (b, m') \<Longrightarrow> only_changes (Some t) m m'"
    "unmap_user_memory (Some t) va sz m = Some (b, m') \<Longrightarrow> only_changes (Some t) m m'"
    "protect_user_memory (Some t) va sz f m = Some (b, m') \<Longrightarrow> only_changes (Some t) m m'"
proof -
  note same = only_changes_refl [OF ok, of "Some t"]
  have sp: "space_ok (space_at v m)" if "vasp (task_mem m t) = Some v" for v
    using mmu_ok_own [OF ok, of "Some t"] that by (simp add: own_space_def vas_of_def)
  show "only_changes (Some t) m m'" if "map_user_memory (Some t) va pa sz f m = Some (b, m')"
  proof (cases "vasp (task_mem m t)")
    case (Some v)
    then show ?thesis using that same on_vas_changes(1) [OF Some _ pt.range_keeps(1) [OF sp [OF Some]]]
      by (auto simp: map_user_memory_def split: if_splits)
  qed (use that same in \<open>auto simp: map_user_memory_def\<close>)
  show "only_changes (Some t) m m'" if "unmap_user_memory (Some t) va sz m = Some (b, m')"
  proof (cases "vasp (task_mem m t)")
    case (Some v)
    then show ?thesis using that same on_vas_changes(1) [OF Some _ pt.range_keeps(2) [OF sp [OF Some]]]
      by (auto simp: unmap_user_memory_def split: if_splits)
  qed (use that same in \<open>auto simp: unmap_user_memory_def\<close>)
  show "only_changes (Some t) m m'" if "protect_user_memory (Some t) va sz f m = Some (b, m')"
  proof (cases "vasp (task_mem m t)")
    case (Some v)
    then show ?thesis using that same on_vas_changes(1) [OF Some _ pt.range_keeps(3) [OF sp [OF Some]]]
      by (auto simp: protect_user_memory_def split: if_splits)
  qed (use that same in \<open>auto simp: protect_user_memory_def\<close>)
qed

section \<open>Reachable states\<close>

inductive mmu_call :: "nat option \<Rightarrow> mmu \<Rightarrow> mmu \<Rightarrow> bool" where
  call_create: "create_task_vas task m = Some (b, m') \<Longrightarrow> mmu_call task m m'"
| call_destroy: "mmu_call task m (destroy_task_vas task m)"
| call_switch: "mmu_call task m (switch_vas task m)"
| call_enable: "mmu_call task m (enable_mmu m)"
| call_disable: "mmu_call task m (disable_mmu m)"
| call_map: "map_user_memory task vaddr paddr sz flags m = Some (b, m') \<Longrightarrow> mmu_call task m m'"
| call_unmap: "unmap_user_memory task vaddr sz m = Some (b, m') \<Longrightarrow> mmu_call task m m'"
| call_protect: "protect_user_memory task vaddr sz flags m = Some (b, m') \<Longrightarrow> mmu_call task m m'"

text \<open>A pool region that holds a whole page and lies where the tables can address it.\<close>

definition usable :: "u64 \<Rightarrow> u64 \<Rightarrow> bool" where
  "usable start_addr sz \<longleftrightarrow> 0 < unat start_addr \<and> unat start_addr + unat sz + 0x1000 < 2 ^ 48
     \<and> (unat start_addr + 0xFFF) div 0x1000 < (unat start_addr + unat sz) div 0x1000"

definition unmapped :: "mmu \<Rightarrow> bool" where
  "unmapped m \<longleftrightarrow> kernel_vas m = None \<and> (\<forall>t. vasp (task_mem m t) = None)"

inductive mmu_reach :: "mmu \<Rightarrow> bool" where
  reach_init: "unmapped m0 \<Longrightarrow> usable page_pool pool_size \<Longrightarrow> mmu_init page_pool pool_size m0 = Some (b, m) \<Longrightarrow> mmu_reach m"
| reach_call: "mmu_reach m \<Longrightarrow> mmu_call task m m' \<Longrightarrow> mmu_reach m'"

lemma mmu_init_ok:
  assumes "unmapped m0" "usable page_pool pool_size"
  shows "\<exists>m. mmu_init page_pool pool_size m0 = Some (True, m)"
    "mmu_init page_pool pool_size m0 = Some (b, m) \<Longrightarrow> mmu_ok m \<and> (\<forall>t. vasp (task_mem m t) = None)"
proof -
  define m1 where "m1 = m0\<lparr>pool := page_init page_pool pool_size (pool m0)\<rparr>"
  have nz: "page_pool \<noteq> 0 \<and> pool_size > 0"
  proof -
    have "unat pool_size \<noteq> 0" using assms(2) by (intro notI) (simp add: usable_def, linarith)
    then have "pool_size > 0" by (simp add: word_neq_0_conv [symmetric] unat_eq_zero)
    moreover have "page_pool \<noteq> 0" using assms(2) by (auto simp: usable_def)
    ultimately show ?thesis by blast
  qed
  obtain ps where ps: "free_list (pool m1) ps" using page_init_list [of page_pool pool_size] assms(2) by (auto simp: m1_def usable_def)
  obtain s where s: "create_vas (pool m1) = Some s" using create_vas_total [OF ps] by blast
  let ?m = "m1\<lparr>pool := phys s, kernel_vas := Some (l0_table s), ttbr0 := get_pgdir_base s, mmu_enabled := True\<rparr>"
  have i: "mmu_init page_pool pool_size m0 = Some (True, ?m)"
    using nz assms(1) s by (simp add: mmu_init_def enable_mmu_def Let_def unmapped_def get_pgdir_base_def m1_def)
  then show "\<exists>m. mmu_init page_pool pool_size m0 = Some (True, m)" by blast
  have vt: "vasp (task_mem m1 t) = None" "kernel_vas m1 = None" for t using assms(1) by (simp_all add: m1_def unmapped_def)
  have ok1: "mmu_ok m1" using ps vt
    by (auto simp: mmu_ok_def own_space_def vas_of_def space_ok_def space_pages_def split: option.split)
  have own: "own_space m1 None = \<lparr>l0_table = None, phys = pool m1\<rparr>" using vt by (simp add: own_space_def vas_of_def space_at_def)
  have own': "own_space ?m None = s" by (simp add: own_space_def vas_of_def space_at_def)
  have "only_changes None m1 ?m"
    using create_vas_keeps [OF ps s] unfolding only_changes_def own own' by (auto simp: vas_of_def split: option.split)
  then have "mmu_ok ?m" by (rule others_kept(1) [OF ok1])
  then show "mmu_init page_pool pool_size m0 = Some (b, m) \<Longrightarrow> mmu_ok m \<and> (\<forall>t. vasp (task_mem m t) = None)" using i vt by auto
qed

lemma only_changes_same:
  assumes "mmu_ok m" "pool m' = pool m" "vas_of m' = vas_of m"
  shows "only_changes ow m m'"
proof -
  have "own_space m' ow = own_space m ow" using assms(2,3) by (simp add: own_space_def space_at_def)
  then show ?thesis using only_changes_refl [OF assms(1), of ow] assms(3) by (simp add: only_changes_def)
qed

lemma mode_same [simp]:
  "pool (switch_vas task m) = pool m" "vas_of (switch_vas task m) = vas_of m"
  "pool (enable_mmu m) = pool m" "vas_of (enable_mmu m) = vas_of m"
  "pool (disable_mmu m) = pool m" "vas_of (disable_mmu m) = vas_of m"
  by (auto simp: switch_vas_def enable_mmu_def disable_mmu_def Let_def vas_of_def fun_eq_iff split: option.split)

lemma mmu_call_changes:
  assumes "mmu_ok m" "mmu_call (Some t) m m'"
  shows "only_changes (Some t) m m'"
  using assms(2)
  by (cases rule: mmu_call.cases)
    (use assms(1) create_task_vas_changes(2) destroy_task_vas_changes(1) user_memory_changes in \<open>auto intro: only_changes_same\<close>)

text \<open>A call with a null task changes the mode of the hardware at most.\<close>

lemma mmu_call_null:
  assumes "mmu_call None m m'"
  shows "pool m' = pool m" "vas_of m' = vas_of m"
proof -
  have "pool m' = pool m \<and> vas_of m' = vas_of m"
    using assms by (cases rule: mmu_call.cases)
      (auto simp: create_task_vas_def destroy_task_vas_def map_user_memory_def unmap_user_memory_def protect_user_memory_def)
  then show "pool m' = pool m" "vas_of m' = vas_of m" by blast+
qed

lemma mmu_call_owner:
  assumes "mmu_ok m" "mmu_call task m m'"
  shows "only_changes task m m'"
proof (cases task)
  case None
  then show ?thesis using mmu_call_null [of m m'] only_changes_same [OF assms(1)] assms(2) by blast
next
  case (Some t)
  then show ?thesis using mmu_call_changes [OF assms(1)] assms(2) by blast
qed

lemma mmu_reach_ok: "mmu_reach m \<Longrightarrow> mmu_ok m"
proof (induction rule: mmu_reach.induct)
  case (reach_call m task m')
  then show ?case using others_kept(1) [OF _ mmu_call_owner] by blast
qed (use mmu_init_ok(2) in blast)

text \<open>Every page of the pool, on the free list or in the tables of some owner.\<close>

definition all_pages :: "mmu \<Rightarrow> nat set" where
  "all_pages m = (\<Union>ow. space_pages (own_space m ow)) \<union> free_frames (pool m)"

lemma all_pages_split: "all_pages m = (\<Union>x \<in> - {ow}. space_pages (own_space m x)) \<union> (space_pages (own_space m ow) \<union> free_frames (pool m))"
  by (auto simp: all_pages_def)

lemma only_changes_pages:
  assumes "mmu_ok m" "only_changes ow m m'"
  shows "all_pages m' = all_pages m"
proof -
  have "space_pages (own_space m' ow) \<union> free_frames (pool m') = space_pages (own_space m ow) \<union> free_frames (pool m)"
    using assms(2) by (simp add: only_changes_def space_keeps_def)
  moreover have "space_pages (own_space m' x) = space_pages (own_space m x)" if "x \<in> - {ow}" for x
    using others_kept(3) [OF assms] that by simp
  ultimately show ?thesis unfolding all_pages_split [of _ ow] by simp
qed

section \<open>Properties\<close>

text \<open>
  C3: In every state reached by initialising the memory manager and calling its operations, an
  operation on one task's address space, that is creating, destroying, switching to it or mapping,
  unmapping and protecting any range of it, changes no translation of any other task and none of the
  kernel's.
\<close>

theorem address_spaces_isolated:
  assumes "mmu_reach m" "mmu_call (Some t) m m'" "t' \<noteq> t"
  shows "mmu_translate (Some t') v m' = mmu_translate (Some t') v m
    \<and> translate v (own_space m' None) = translate v (own_space m None)"
  using others_kept(2) [OF mmu_reach_ok [OF assms(1)] mmu_call_changes [OF mmu_reach_ok [OF assms(1)] assms(2)]] assms(3)
  by (auto simp: mmu_translate_own intro!: translate_cong)

definition example_mmu :: mmu where
  "example_mmu = \<lparr>pool = example_pool, kernel_vas = None, mmu_enabled = False, ttbr0 = 0, task_mem = \<lambda>_. \<lparr>vasp = None, pgdir_base = 0\<rparr>\<rparr>"

lemma example_mmu_boot: "unmapped example_mmu" "usable 0x100000 0x200000"
  by (simp_all add: unmapped_def example_mmu_def usable_def)

lemma example_mmu_reach:
  obtains m m1 m2 where "mmu_init 0x100000 0x200000 example_mmu = Some (True, m)" "create_task_vas (Some 1) m = Some (True, m1)"
    "mmu_reach m" "create_task_vas (Some 2) m1 = Some (True, m2)" "mmu_reach m1" "mmu_reach m2"
proof -
  obtain m where m: "mmu_init 0x100000 0x200000 example_mmu = Some (True, m)" using mmu_init_ok(1) [OF example_mmu_boot] by blast
  have r: "mmu_reach m" by (rule reach_init [OF example_mmu_boot m])
  obtain m1 where m1: "create_task_vas (Some 1) m = Some (True, m1)" using create_task_vas_changes(1) [OF mmu_reach_ok [OF r]] by blast
  have r1: "mmu_reach m1" by (rule reach_call [OF r call_create [OF m1]])
  obtain m2 where m2: "create_task_vas (Some 2) m1 = Some (True, m2)" using create_task_vas_changes(1) [OF mmu_reach_ok [OF r1]] by blast
  show thesis by (rule that [OF m m1 r m2 r1 reach_call [OF r1 call_create [OF m2]]])
qed

theorem address_spaces_isolated_witness:
  "\<exists>m m1 m2. mmu_init 0x100000 0x200000 example_mmu = Some (True, m) \<and> create_task_vas (Some 1) m = Some (True, m1)
     \<and> create_task_vas (Some 2) m1 = Some (True, m2) \<and> mmu_translate (Some 1) 0x7000 m2 = mmu_translate (Some 1) 0x7000 m1"
proof -
  obtain m m1 m2 where s: "mmu_init 0x100000 0x200000 example_mmu = Some (True, m)" "create_task_vas (Some 1) m = Some (True, m1)"
    "create_task_vas (Some 2) m1 = Some (True, m2)" and r: "mmu_reach m1" by (rule example_mmu_reach)
  have "mmu_translate (Some 1) 0x7000 m2 = mmu_translate (Some 1) 0x7000 m1"
    using address_spaces_isolated [OF r call_create [OF s(3)], of 1 "0x7000"] by simp
  then show ?thesis using s by blast
qed

text \<open>
  C18: No page of the pool is lost or used twice: every operation keeps the set of pages that are free
  or in the tables of the kernel or of a task, a page belongs to at most one of these, and destroying
  a task's address space puts all of its tables back on the free list.
\<close>

theorem table_pages_conserved:
  assumes "mmu_reach m" "mmu_call task m m'"
  shows "all_pages m' = all_pages m
    \<and> space_pages (own_space m' ow) \<inter> free_frames (pool m') = {}
    \<and> (ow \<noteq> ow' \<longrightarrow> space_pages (own_space m' ow) \<inter> space_pages (own_space m' ow') = {})
    \<and> free_frames (pool (destroy_task_vas (Some t) m)) = free_frames (pool m) \<union> space_pages (own_space m (Some t))"
proof -
  note ok = mmu_reach_ok [OF assms(1)] and ok' = mmu_reach_ok [OF reach_call [OF assms]]
  have "all_pages m' = all_pages m" by (rule only_changes_pages [OF ok mmu_call_owner [OF ok assms(2)]])
  moreover have "space_pages (own_space m' ow) \<inter> free_frames (pool m') = {}" using pages_not_free [OF mmu_ok_own [OF ok', of ow]] by simp
  moreover have "ow \<noteq> ow' \<longrightarrow> space_pages (own_space m' ow) \<inter> space_pages (own_space m' ow') = {}" using ok' by (simp add: mmu_ok_def)
  ultimately show ?thesis using destroy_task_vas_changes(3) [OF ok, of t] by (simp add: Un_commute)
qed

theorem table_pages_conserved_witness:
  "\<exists>m m1. mmu_init 0x100000 0x200000 example_mmu = Some (True, m) \<and> create_task_vas (Some 1) m = Some (True, m1)
     \<and> all_pages m1 = all_pages m"
proof -
  obtain m m1 where s: "mmu_init 0x100000 0x200000 example_mmu = Some (True, m)" "create_task_vas (Some 1) m = Some (True, m1)"
    and r: "mmu_reach m" by (rule example_mmu_reach)
  have "all_pages m1 = all_pages m" using table_pages_conserved [OF r call_create [OF s(2)]] by blast
  then show ?thesis using s by blast
qed

text \<open>
  C19: For a task with an address space and a range below the 48-bit limit, mapping user memory
  returns, and it maps a prefix of the range's pages: each address in it translates to the same
  offset of the corresponding physical page, with the requested flags and user access, and every
  other address of the task as before. The call reports success exactly when both addresses are
  aligned, the size is not zero and the prefix is the whole range.
\<close>

theorem map_user_memory_maps_range:
  assumes "mmu_reach m" "vasp (task_mem m t) \<noteq> None" "unat va + 0x1000 * page_count sz \<le> 2 ^ 48"
  shows "\<exists>b m' k. map_user_memory (Some t) va pa sz f m = Some (b, m') \<and> k \<le> page_count sz
    \<and> (b \<longleftrightarrow> va mod 0x1000 = 0 \<and> pa mod 0x1000 = 0 \<and> sz \<noteq> 0 \<and> k = page_count sz)
    \<and> (\<forall>w. mmu_translate (Some t) w m' =
          (if page_of va \<le> page_of w \<and> page_of w < page_of va + k
           then Some (page_frame (pa + step_to (page_of w - page_of va)) OR (w AND 0xFFF), Read OR ((f OR User) AND 0x1E))
           else mmu_translate (Some t) w m))"
proof (cases "sz = 0")
  case True
  then show ?thesis using assms(2) by (intro exI [of _ False] exI [of _ m] exI [of _ 0]) (auto simp: map_user_memory_def)
next
  case nz: False
  obtain v where v: "vasp (task_mem m t) = Some v" using assms(2) by blast
  have own: "own_space m (Some t) = space_at v m" using v by (simp add: own_space_def vas_of_def)
  have sp: "space_ok (space_at v m)" using mmu_ok_own [OF mmu_reach_ok [OF assms(1)], of "Some t"] own by simp
  obtain b s k where R: "map_range map_page va pa sz (f OR User) (space_at v m) = Some (b, s)" "k \<le> page_count sz"
      "b \<longleftrightarrow> va mod 0x1000 = 0 \<and> pa mod 0x1000 = 0 \<and> sz \<noteq> 0 \<and> k = page_count sz"
      "\<And>w. mapping s w = (if page_of va \<le> page_of w \<and> page_of w < page_of va + k
          then Some (leaf_entry (pa + step_to (page_of w - page_of va)) (f OR User)) else mapping (space_at v m) w)"
    using pt.map_range_law [OF sp assms(3), of pa "f OR User"] by blast
  obtain m' where m': "map_user_memory (Some t) va pa sz f m = Some (b, m')" and on: "on_vas t v (map_range map_page va pa sz (f OR User)) m = Some (b, m')"
    using v nz R(1) by (simp add: map_user_memory_def on_vas_def)
  have own': "own_space m' (Some t) = s" using on_vas_changes(2) [OF v on pt.range_keeps(1) [OF sp]] R(1) by simp
  have "mmu_translate (Some t) w m' =
      (if page_of va \<le> page_of w \<and> page_of w < page_of va + k
       then Some (page_frame (pa + step_to (page_of w - page_of va)) OR (w AND 0xFFF), Read OR ((f OR User) AND 0x1E))
       else mmu_translate (Some t) w m)" for w
    unfolding mmu_translate_own own own' using R(4) [of w] translate_leaf [of s w] translate_cong [of s w "space_at v m"] by (auto split: if_splits)
  then show ?thesis using m' R(2,3) by blast
qed

theorem map_user_memory_maps_range_witness:
  "\<exists>m m1 b m2 k. mmu_init 0x100000 0x200000 example_mmu = Some (True, m) \<and> create_task_vas (Some 1) m = Some (True, m1)
     \<and> map_user_memory (Some 1) 0x400000 0x50000000 0x2000 Write m1 = Some (b, m2)
     \<and> (b \<longleftrightarrow> k = (2 :: nat)) \<and> mmu_translate (Some 1) 0x3FF000 m2 = mmu_translate (Some 1) 0x3FF000 m1"
proof -
  obtain m m1 where s: "mmu_init 0x100000 0x200000 example_mmu = Some (True, m)" "create_task_vas (Some 1) m = Some (True, m1)"
    and r: "mmu_reach m1" by (rule example_mmu_reach)
  have v: "vasp (task_mem m1 1) \<noteq> None" using s(2) by (auto simp: create_task_vas_def Let_def split: option.splits)
  have "unat (0x400000 :: u64) + 0x1000 * page_count 0x2000 \<le> 2 ^ 48" by (simp add: page_count_def)
  from map_user_memory_maps_range [OF r v this, of "0x50000000" Write]
  obtain b m2 k where "map_user_memory (Some 1) 0x400000 0x50000000 0x2000 Write m1 = Some (b, m2)" "b \<longleftrightarrow> k = (2 :: nat)"
    "mmu_translate (Some 1) 0x3FF000 m2 = mmu_translate (Some 1) 0x3FF000 m1"
    by (auto simp: page_count_def page_of_def)
  then show ?thesis using s by blast
qed

text \<open>Initialising again while the kernel has tables in the pool puts those tables on the free list.\<close>

lemma reinit_frees_kernel_tables:
  assumes "usable page_pool pool_size" "kernel_vas m = Some (Some t)"
    "(unat page_pool + 0xFFF) div 0x1000 \<le> t" "t < (unat page_pool + unat pool_size) div 0x1000"
    "mmu_init page_pool pool_size m = Some (b, m')"
  shows "kernel_vas m' = Some (Some t) \<and> t \<in> free_frames (pool m')"
proof -
  have nz: "page_pool \<noteq> 0 \<and> pool_size > 0" using assms(1,3,4)
    by (auto simp: usable_def word_neq_0_conv [symmetric] unat_eq_zero simp del: word_neq_0_conv)
  have "free_frames (page_init page_pool pool_size (pool m)) = {(unat page_pool + 0xFFF) div 0x1000..<(unat page_pool + unat pool_size) div 0x1000}"
    using free_frames_list [OF page_init_list [of page_pool pool_size "pool m"]] assms(1) by (simp add: usable_def)
  then show ?thesis using assms(2-5) nz by (auto simp: mmu_init_def enable_mmu_def Let_def)
qed

end
