(* ===== verification/Syscall_Validator.thy ===== *)
theory Syscall_Validator
  imports Mmu
begin

text \<open>
  The check of user pointers of \<open>kernel/core/syscall_validator.cpp\<close>, at the 64-bit width of the builds
  with an MMU. The linker symbols and the kernel heap's bounds are parameters of the model, gathered in a
  record; so is the result of the checksum test of a task's sandbox descriptor. A size exponent of 64 or
  more, for which the shift of the source is undefined, gives the size zero here.
\<close>

section \<open>Definitions\<close>

record segments =
  flash_start :: u64
  flash_end :: u64
  sdata :: u64
  edata :: u64
  sbss :: u64
  ebss :: u64
  heap_start :: u64
  heap_end :: u64
  head_block :: u64
  total_size :: u64
  cortex_m :: bool

definition heap_contains :: "u64 \<Rightarrow> u64 \<Rightarrow> segments \<Rightarrow> bool" where
  "heap_contains p len g =
     (if p = 0 \<or> head_block g = 0 \<or> total_size g = 0 then False
      else let e = p + len
           in if e < p then False else p \<ge> head_block g \<and> e \<le> head_block g + total_size g)"

definition validate_regions :: "segments \<Rightarrow> u64 \<Rightarrow> u64 \<Rightarrow> u64 \<Rightarrow> u64 \<Rightarrow> bool \<Rightarrow> bool" where
  "validate_regions g p len task_stack_base task_stack_size need_write =
     (if p = 0 then False
      else
        let e = p + len
        in if e < p then False
           else if len = 0 then True
           else if task_stack_size > 0 \<and> p \<ge> task_stack_base \<and> e \<le> task_stack_base + task_stack_size then True
           else if heap_contains p len g then True
           else if heap_start g \<noteq> heap_end g \<and> p \<ge> heap_start g \<and> e \<le> heap_end g then True
           else if sdata g \<noteq> edata g \<and> p \<ge> sdata g \<and> e \<le> edata g then True
           else if sbss g \<noteq> ebss g \<and> p \<ge> sbss g \<and> e \<le> ebss g then True
           else if \<not> need_write \<and> flash_start g \<noteq> flash_end g \<and> p \<ge> flash_start g \<and> e \<le> flash_end g then True
           else if \<not> need_write \<and> cortex_m g \<and> p < 0x20000000 \<and> e \<le> 0x20000000 then True
           else False)"

record task_view =
  stack_base :: u64
  size_pow2 :: u8
  stack_canary_ptr :: u64
  sandbox_valid :: bool
  sandbox_base :: u64
  sandbox_size_pow2 :: u8
  task_space :: "space option"

definition pow2_size :: "u8 \<Rightarrow> u64" where
  "pow2_size k = (if k > 0 then push_bit (unat k) 1 else 0)"

partial_function (option) user_pages_from :: "space \<Rightarrow> u64 \<Rightarrow> bool \<Rightarrow> u64 \<Rightarrow> bool option" where
  [code]: "user_pages_from s e need_write cur_va =
     (if cur_va < e
      then case translate cur_va s of
             None \<Rightarrow> Some False
           | Some (pa, flags) \<Rightarrow>
               if \<not> test_flags flags User then Some False
               else if need_write \<and> \<not> test_flags flags Write then Some False
               else user_pages_from s e need_write (cur_va + 0x1000)
      else Some True)"

definition in_own_memory :: "task_view \<Rightarrow> u64 \<Rightarrow> u64 \<Rightarrow> bool" where
  "in_own_memory t p e =
     (let stack_size = pow2_size (size_pow2 t)
      in if stack_size > 0 \<and> p \<ge> stack_base t \<and> e \<le> stack_base t + stack_size then True
         else if stack_canary_ptr t \<noteq> 0 \<and> stack_size > 0 \<and> p \<ge> stack_canary_ptr t \<and> e \<le> stack_canary_ptr t + stack_size then True
         else sandbox_valid t
              \<and> (let sb_size = pow2_size (sandbox_size_pow2 t)
                 in sb_size > 0 \<and> p \<ge> sandbox_base t \<and> e \<le> sandbox_base t + sb_size))"

definition validate_user_ptr :: "segments \<Rightarrow> u64 \<Rightarrow> u64 \<Rightarrow> task_view option \<Rightarrow> bool \<Rightarrow> bool option" where
  "validate_user_ptr g p len task need_write =
     (if p = 0 then Some False
      else
        let e = p + len
        in if e < p then Some False
           else if len = 0 then Some True
           else
             (case task of
                None \<Rightarrow> Some (validate_regions g p len 0 0 need_write)
              | Some t \<Rightarrow>
                  if in_own_memory t p e then Some True
                  else
                    (case (case task_space t of
                             None \<Rightarrow> Some False
                           | Some s \<Rightarrow> user_pages_from s e need_write (p AND NOT (0x1000 - 1))) of
                       None \<Rightarrow> None
                     | Some True \<Rightarrow> Some True
                     | Some False \<Rightarrow> Some (validate_regions g p len (stack_base t) (pow2_size (size_pow2 t)) need_write))))"

section \<open>Pages that are walked\<close>

definition user_access :: "space \<Rightarrow> bool \<Rightarrow> u64 \<Rightarrow> bool" where
  "user_access s need_write a \<longleftrightarrow>
     (case translate a s of None \<Rightarrow> False
      | Some (_, flags) \<Rightarrow> test_flags flags User \<and> (need_write \<longrightarrow> test_flags flags Write))"

lemma user_access_page: "page_of a = page_of b \<Longrightarrow> user_access s w a = user_access s w b"
  using mapping_page [of a b s] by (simp add: user_access_def translate_mapping split: option.split)

lemma user_pages_step:
  "user_pages_from s e w cur = (if \<not> cur < e then Some True else if \<not> user_access s w cur then Some False else user_pages_from s e w (cur + 0x1000))"
  by (subst user_pages_from.simps) (auto simp: user_access_def split: option.split)

lemma page_of_same:
  assumes "unat cur mod 0x1000 = 0" "unat cur \<le> unat a" "unat a < unat cur + 0x1000"
  shows "page_of a = page_of cur"
proof -
  have "unat a div 0x1000 = unat cur div 0x1000"
  proof -
    define k where "k = unat cur div 0x1000"
    have k: "unat cur = 0x1000 * k" using mult_div_mod_eq [of "0x1000" "unat cur"] unfolding assms(1) k_def by linarith
    have "unat a div 0x1000 = k" by (rule div_nat_eqI) (use assms(2,3) k in simp_all)
    then show ?thesis by (simp add: k_def)
  qed
  then show ?thesis by (simp add: page_of_def)
qed

lemma aligned_below:
  fixes e :: u64
  assumes "unat cur mod 0x1000 = 0" "cur < e" "unat e \<le> 2 ^ 64 - 0x1000"
  shows "unat (cur + 0x1000) = unat cur + 0x1000" "unat (cur + 0x1000) mod 0x1000 = 0"
proof -
  have "unat cur + 0x1000 < 2 ^ 64" using assms(2,3) by (simp add: word_less_nat_alt)
  then show "unat (cur + 0x1000) = unat cur + 0x1000" by (simp add: unat_word_ariths)
  then show "unat (cur + 0x1000) mod 0x1000 = 0" using assms(1) by simp
qed

text \<open>
  Below the last page of the address space the walk ends, and it accepts exactly when every byte from
  the first page on is accessible.
\<close>

lemma user_pages_walk:
  fixes e :: u64
  assumes "unat cur mod 0x1000 = 0" "unat e \<le> 2 ^ 64 - 0x1000"
  shows "user_pages_from s e w cur = Some (\<forall>a. cur \<le> a \<longrightarrow> a < e \<longrightarrow> user_access s w a)"
  using assms(1)
proof (induction "unat e - unat cur" arbitrary: cur rule: less_induct)
  case less
  show ?case
  proof (cases "cur < e \<and> user_access s w cur")
    case False
    have "(\<forall>a. cur \<le> a \<longrightarrow> a < e \<longrightarrow> user_access s w a) \<longleftrightarrow> \<not> cur < e" using False by (metis order.strict_trans1 order_refl)
    then show ?thesis using False by (subst user_pages_step) auto
  next
    case True
    note nx = aligned_below [OF less.prems conjunct1 [OF True] assms(2)]
    have "unat e - unat (cur + 0x1000) < unat e - unat cur" using nx(1) True by (auto simp: word_less_nat_alt)
    from less.hyps [OF this nx(2)]
    have IH: "user_pages_from s e w (cur + 0x1000) = Some (\<forall>a. cur + 0x1000 \<le> a \<longrightarrow> a < e \<longrightarrow> user_access s w a)" .
    have here: "user_access s w a" if "cur \<le> a" "\<not> cur + 0x1000 \<le> a" for a
    proof -
      have "page_of a = page_of cur" using that nx(1) less.prems by (intro page_of_same) (simp_all add: word_le_nat_alt)
      then show ?thesis using True user_access_page by blast
    qed
    have "cur \<le> a" if "cur + 0x1000 \<le> a" for a using that nx(1) by (simp add: word_le_nat_alt)
    then have "(\<forall>a. cur + 0x1000 \<le> a \<longrightarrow> a < e \<longrightarrow> user_access s w a) \<longleftrightarrow> (\<forall>a. cur \<le> a \<longrightarrow> a < e \<longrightarrow> user_access s w a)"
      using here by blast
    then show ?thesis using True IH by (subst user_pages_step) simp
  qed
qed

section \<open>Containment in a region\<close>

text \<open>A buffer inside a region, in natural numbers, so that nothing wraps around.\<close>

definition within :: "u64 \<Rightarrow> u64 \<Rightarrow> nat \<Rightarrow> nat \<Rightarrow> bool" where
  "within p len b n \<longleftrightarrow> b \<le> unat p \<and> unat p + unat len \<le> b + n"

lemma buffer_end:
  fixes p len :: u64
  assumes "\<not> p + len < p"
  shows "unat (p + len) = unat p + unat len"
proof (rule ccontr)
  assume n: "unat (p + len) \<noteq> unat p + unat len"
  have u: "unat (p + len) = (unat p + unat len) mod 2 ^ 64" by (simp add: unat_word_ariths)
  have l: "unat len < 2 ^ 64" "unat p < 2 ^ 64" using unsigned_less [of len] unsigned_less [of p] by simp_all
  have "\<not> unat p + unat len < 2 ^ 64" using n u by auto
  then have "unat (p + len) = unat p + unat len - 2 ^ 64"
    using u l by (simp add: le_mod_geq)
  then have "unat (p + len) < unat p" using l \<open>\<not> unat p + unat len < 2 ^ 64\<close> by linarith
  then show False using assms by (simp add: word_less_nat_alt)
qed

lemma within_size:
  assumes "\<not> p + len < p" "b \<le> p" "p + len \<le> b + n"
  shows "within p len (unat b) (unat n)"
proof -
  have "unat (b + n) \<le> unat b + unat n" by (simp add: unat_word_ariths)
  then show ?thesis using assms buffer_end [OF assms(1)] by (simp add: within_def word_le_nat_alt)
qed

lemma within_bounds:
  assumes "\<not> p + len < p" "b \<le> p" "p + len \<le> e"
  shows "within p len (unat b) (unat e - unat b)"
  using assms buffer_end [OF assms(1)] by (simp add: within_def word_le_nat_alt)

definition own_region :: "task_view \<Rightarrow> u64 \<Rightarrow> u64 \<Rightarrow> bool" where
  "own_region t p len \<longleftrightarrow>
     within p len (unat (stack_base t)) (unat (pow2_size (size_pow2 t)))
     \<or> stack_canary_ptr t \<noteq> 0 \<and> within p len (unat (stack_canary_ptr t)) (unat (pow2_size (size_pow2 t)))
     \<or> sandbox_valid t \<and> within p len (unat (sandbox_base t)) (unat (pow2_size (sandbox_size_pow2 t)))"

definition shared_region :: "segments \<Rightarrow> bool \<Rightarrow> u64 \<Rightarrow> u64 \<Rightarrow> bool" where
  "shared_region g need_write p len \<longleftrightarrow>
     within p len (unat (head_block g)) (unat (total_size g))
     \<or> within p len (unat (heap_start g)) (unat (heap_end g) - unat (heap_start g))
     \<or> within p len (unat (sdata g)) (unat (edata g) - unat (sdata g))
     \<or> within p len (unat (sbss g)) (unat (ebss g) - unat (sbss g))
     \<or> \<not> need_write \<and> (within p len (unat (flash_start g)) (unat (flash_end g) - unat (flash_start g))
                       \<or> cortex_m g \<and> within p len 0 0x20000000)"

lemma in_own_memory_region:
  assumes "\<not> p + len < p" "in_own_memory t p (p + len)"
  shows "own_region t p len"
  using assms(2) within_size [OF assms(1)] by (auto simp: in_own_memory_def own_region_def Let_def split: if_splits)

lemma validate_regions_shared:
  assumes "validate_regions g p len b n w" "len \<noteq> 0"
  shows "shared_region g w p len \<or> within p len (unat b) (unat n)"
proof -
  have nw: "\<not> p + len < p" using assms(1) by (auto simp: validate_regions_def Let_def split: if_splits)
  note S = within_size [OF nw] and B = within_bounds [OF nw]
  have c: "p + len \<le> 0x20000000 \<Longrightarrow> within p len 0 0x20000000" using buffer_end [OF nw] by (simp add: within_def word_le_nat_alt)
  show ?thesis using assms nw S B c
    unfolding validate_regions_def heap_contains_def shared_region_def Let_def by (auto split: if_splits)
qed

definition user_buffer :: "space \<Rightarrow> bool \<Rightarrow> u64 \<Rightarrow> u64 \<Rightarrow> bool" where
  "user_buffer s need_write p len \<longleftrightarrow> (\<forall>i < unat len. user_access s need_write (p + of_nat i))"

lemma unat_byte: "unat p + i < 2 ^ 64 \<Longrightarrow> unat (p + of_nat i :: u64) = unat p + i"
  by (simp add: unat_word_ariths unat_of_nat take_bit_nat_eq_self)

lemma user_buffer_walk:
  fixes p len :: u64
  assumes b: "unat p + unat len \<le> 2 ^ 64 - 0x1000" and len: "len \<noteq> 0"
  shows "user_pages_from s (p + len) w (p AND NOT (0x1000 - 1)) = Some (user_buffer s w p len)"
proof -
  let ?c = "p AND NOT (0x1000 - 1)"
  have c: "unat ?c = unat p div 0x1000 * 0x1000" using unat_page_down [of p] by simp
  have e: "unat (p + len) = unat p + unat len" using b by (simp add: unat_word_ariths)
  have l: "0 < unat len" using len by (simp add: unat_gt_0)
  have cp: "unat ?c mod 0x1000 = 0" "unat ?c \<le> unat p" "unat p < unat ?c + 0x1000"
  proof -
    show "unat ?c mod 0x1000 = 0" unfolding c by simp
    show "unat ?c \<le> unat p" "unat p < unat ?c + 0x1000"
      unfolding c using div_mult_mod_eq [of "unat p" "0x1000"] mod_less_divisor [of "0x1000" "unat p"] by linarith+
  qed
  have "(\<forall>a. ?c \<le> a \<longrightarrow> a < p + len \<longrightarrow> user_access s w a) \<longleftrightarrow> user_buffer s w p len"
  proof
    assume A: "\<forall>a. ?c \<le> a \<longrightarrow> a < p + len \<longrightarrow> user_access s w a"
    show "user_buffer s w p len"
      unfolding user_buffer_def
    proof (intro allI impI)
      fix i
      assume "i < unat len"
      then have "?c \<le> p + of_nat i" "p + of_nat i < p + len"
        using unat_byte [of p i] b cp(2) e by (simp_all only: word_le_nat_alt word_less_nat_alt)
      then show "user_access s w (p + of_nat i)" using A by blast
    qed
  next
    assume B: "user_buffer s w p len"
    have first: "user_access s w p" using B l by (auto simp: user_buffer_def)
    show "\<forall>a. ?c \<le> a \<longrightarrow> a < p + len \<longrightarrow> user_access s w a"
    proof (intro allI impI)
      fix a
      assume a: "?c \<le> a" "a < p + len"
      show "user_access s w a"
      proof (cases "unat a < unat p")
        case True
        then have "page_of a = page_of ?c" using a(1) cp by (intro page_of_same) (simp_all only: word_le_nat_alt)
        moreover have "page_of p = page_of ?c" using cp by (intro page_of_same)
        ultimately show ?thesis using first user_access_page [of a p] by simp
      next
        case False
        define i where "i = unat a - unat p"
        have ea: "unat a < unat p + unat len" using a(2) e by (simp only: word_less_nat_alt)
        then have i: "i < unat len" using False by (simp add: i_def)
        have "unat (p + of_nat i) = unat p + i" by (rule unat_byte) (use b i in simp)
        then have "p + of_nat i = a" using False by (simp add: i_def word_unat_eq_iff)
        then show ?thesis using B i unfolding user_buffer_def by blast
      qed
    qed
  qed
  moreover have "unat (p + len) \<le> 2 ^ 64 - 0x1000" using e b by simp
  ultimately show ?thesis using user_pages_walk [OF cp(1), of "p + len" s w] by simp
qed

lemma validate_user_ptr_cases:
  assumes "unat p + unat len \<le> 2 ^ 64 - 0x1000"
  shows "\<exists>b. validate_user_ptr g p len (Some t) w = Some b
    \<and> (b \<and> len \<noteq> 0 \<longrightarrow> p \<noteq> 0 \<and> (own_region t p len \<or> shared_region g w p len
         \<or> (\<exists>s. task_space t = Some s \<and> user_buffer s w p len)))
    \<and> (p \<noteq> 0 \<and> (\<exists>s. task_space t = Some s \<and> user_buffer s w p len) \<longrightarrow> b)"
proof (cases "p = 0 \<or> len = 0")
  case True
  have "unat (p + len) = unat p + unat len" using assms by (simp add: unat_word_ariths)
  then have "\<not> p + len < p" by (simp add: word_less_nat_alt)
  then show ?thesis using True by (auto simp: validate_user_ptr_def)
next
  case False
  have "unat (p + len) = unat p + unat len" using assms by (simp add: unat_word_ariths)
  then have nw: "\<not> p + len < p" by (simp add: word_less_nat_alt)
  have own: "own_region t p len" if "in_own_memory t p (p + len)" by (rule in_own_memory_region [OF nw that])
  have reg: "shared_region g w p len \<or> own_region t p len"
    if "validate_regions g p len (stack_base t) (pow2_size (size_pow2 t)) w"
    using validate_regions_shared [OF that] False by (auto simp: own_region_def)
  show ?thesis
  proof (cases "in_own_memory t p (p + len)")
    case True
    then show ?thesis using False nw own by (auto simp: validate_user_ptr_def Let_def)
  next
    case nown: False
    have "validate_user_ptr g p len (Some t) w =
        Some ((\<exists>s. task_space t = Some s \<and> user_buffer s w p len) \<or> validate_regions g p len (stack_base t) (pow2_size (size_pow2 t)) w)"
    proof (cases "task_space t")
      case None
      then show ?thesis using False nw nown by (simp add: validate_user_ptr_def Let_def)
    next
      case (Some s)
      then show ?thesis using False nw nown user_buffer_walk [OF assms, of s w]
        by (cases "user_buffer s w p len") (simp_all add: validate_user_ptr_def Let_def)
    qed
    then show ?thesis using False reg by auto
  qed
qed

section \<open>Properties\<close>

text \<open>
  C10: For every task and every buffer that ends below the last page of the address space, the pointer
  check returns. If it accepts a non-empty buffer, the whole buffer lies in the task's stack, counted
  from its base or its canary, in its sandbox, in the kernel heap, data or bss segments, which the code
  admits for every task, or, for reading only, in flash or the low 512 MiB of a Cortex-M; or else every
  byte of it is on a page that the task's tables map with user access, and with write access when writing is
  asked for. Conversely every buffer on such pages is accepted.
\<close>

theorem validated_buffer_accessible:
  assumes "unat p + unat len \<le> 2 ^ 64 - 0x1000"
  shows "\<exists>b. validate_user_ptr g p len (Some t) w = Some b
    \<and> (b \<and> len \<noteq> 0 \<longrightarrow> p \<noteq> 0 \<and> (own_region t p len \<or> shared_region g w p len
         \<or> (\<exists>s. task_space t = Some s \<and> user_buffer s w p len)))
    \<and> (p \<noteq> 0 \<and> (\<exists>s. task_space t = Some s \<and> user_buffer s w p len) \<longrightarrow> b)"
  by (rule validate_user_ptr_cases [OF assms])

text \<open>A task whose only user page is at \<open>0x400000\<close>.\<close>

definition example_view :: task_view where
  "example_view = \<lparr>stack_base = 0, size_pow2 = 0, stack_canary_ptr = 0, sandbox_valid = False, sandbox_base = 0,
     sandbox_size_pow2 = 0, task_space = Some (snd (map_page 0x400000 0x50000000 User \<lparr>l0_table = None, phys = example_pool\<rparr>))\<rparr>"

definition no_segments :: segments where
  "no_segments = \<lparr>flash_start = 0, flash_end = 0, sdata = 0, edata = 0, sbss = 0, ebss = 0, heap_start = 0, heap_end = 0,
     head_block = 0, total_size = 0, cortex_m = False\<rparr>"

lemma example_user_page:
  "\<exists>s. task_space example_view = Some s \<and> (\<forall>a. page_of a = 0x400 \<longrightarrow> user_access s False a) \<and> user_buffer s False 0x400010 16"
proof -
  let ?s = "\<lparr>l0_table = None, phys = example_pool\<rparr>"
  obtain b s where m: "map_page 0x400000 0x50000000 User ?s = (b, s)" by fastforce
  have b: b using map_page_room [of ?s "0x400000" "0x50000000" User] example_space_ok m by simp
  have A: "user_access s False a" if "page_of a = 0x400" for a
  proof -
    have "mapping s a = Some (leaf_entry 0x50000000 User)" using pt.map_law [OF example_space_ok(1) m] b that by (simp add: page_of_def [of "0x400000"])
    from translate_leaf [OF this] show ?thesis by (simp add: user_access_def test_flags_def Read_def User_def)
  qed
  have "user_buffer s False 0x400010 16"
    unfolding user_buffer_def
  proof (intro allI impI)
    fix i
    assume "i < unat (16 :: u64)"
    then have "unat (0x400010 + of_nat i :: u64) = 0x400010 + i" "i < 16" using unat_byte [of "0x400010" i] by simp_all
    then have "page_of (0x400010 + of_nat i) = 0x400" by (simp add: page_of_def)
    then show "user_access s False (0x400010 + of_nat i)" by (rule A)
  qed
  then show ?thesis using A m by (simp add: example_view_def)
qed

theorem validated_buffer_accessible_witness:
  "validate_user_ptr no_segments 0x400010 16 (Some example_view) False = Some True"
  using validated_buffer_accessible [of "0x400010" 16 no_segments example_view False] example_user_page by auto

text \<open>
  C39: The page walk of the pointer check looks at the low 48 bits of an address only: every buffer on
  mapped user pages below the 48-bit limit is also accepted with any value but all ones in the upper 16
  bits, although such an address is outside the range that the hardware translates with the task's
  tables.
\<close>

theorem noncanonical_pointer_accepted:
  assumes "p \<noteq> 0" "unat p + unat len \<le> 2 ^ 48" "task_space t = Some s" "user_buffer s w p len" "k < 0xFFFF"
  shows "validate_user_ptr g (p + of_nat (k * 2 ^ 48)) len (Some t) w = Some True"
proof -
  let ?q = "p + of_nat (k * 2 ^ 48)"
  have k: "k * 2 ^ 48 + 2 ^ 48 \<le> 0xFFFF * 2 ^ 48" using assms(5) by simp
  have q: "unat ?q = unat p + k * 2 ^ 48" by (rule unat_byte) (use k assms(2) in simp)
  have b: "unat ?q + unat len \<le> 2 ^ 64 - 0x1000" using q k assms(2) by simp
  have nz: "?q \<noteq> 0"
  proof
    assume "?q = 0"
    then have "unat p = 0" using q by simp
    then show False using assms(1) by (simp add: unat_eq_zero)
  qed
  have "user_access s w (?q + of_nat i)" if i: "i < unat len" for i
  proof -
    have "unat (?q + of_nat i) = unat p + k * 2 ^ 48 + i" using unat_byte [of ?q i] q b i by simp
    moreover have "unat (p + of_nat i) = unat p + i" using unat_byte [of p i] assms(2) i by simp
    ultimately have "unat (?q + of_nat i) = unat (p + of_nat i) + 0x1000 * (0x1000000000 * k)" by simp
    then have "page_of (?q + of_nat i) = page_of (p + of_nat i)" by (simp only: page_of_def div_mult_self2) simp
    then show ?thesis using assms(4) i user_access_page unfolding user_buffer_def by blast
  qed
  then have "user_buffer s w ?q len" unfolding user_buffer_def by blast
  then show ?thesis using validate_user_ptr_cases [OF b, of g t w] nz assms(3) by auto
qed

theorem noncanonical_pointer_accepted_witness:
  "validate_user_ptr no_segments (0x400010 + of_nat (0xABCD * 2 ^ 48)) 16 (Some example_view) False = Some True"
proof -
  obtain s where s: "task_space example_view = Some s" "user_buffer s False 0x400010 16" using example_user_page by blast
  show ?thesis by (rule noncanonical_pointer_accepted [OF _ _ s]) simp_all
qed

end
