(* ===== verification/Flash.thy ===== *)
theory Flash
  imports Prelude
begin

text \<open>
  The NOR flash of \<open>drivers/storage/flash_device.hpp\<close>: a backing store in which erasing a block sets
  all of its bits and programming can only clear bits. The lock of the device makes each call one step.
  Buffers exist: the tests for null buffers, which the cache never passes, have no counterpart.
\<close>

section \<open>Device\<close>

text \<open>A buffer is a function from indices; its first bytes are the ones that count.\<close>

type_synonym buffer = "nat \<Rightarrow> u8"

record flash =
  fl_mem :: "u32 \<Rightarrow> u8"
  block_size :: u32
  block_count :: u32
  page_size :: u32
  write_count :: u32
  erase_count :: u32

definition FLASH_BACKING_STORE_BYTES :: u32 where "FLASH_BACKING_STORE_BYTES = 4096 * 128"

text \<open>The constructor halts the machine when the device does not fit into the backing store.\<close>

definition flash_new :: "u32 \<Rightarrow> u32 \<Rightarrow> u32 \<Rightarrow> (u32 \<Rightarrow> u8) \<Rightarrow> flash option" where
  "flash_new bs bc ps m =
     (let needed = bs * bc
      in if needed > FLASH_BACKING_STORE_BYTES then None
         else Some \<lparr>fl_mem = (\<lambda>a. if a < needed then 0xFF else m a), block_size = bs, block_count = bc,
                page_size = ps, write_count = 0, erase_count = 0\<rparr>)"

definition phys_addr :: "u32 \<Rightarrow> u32 \<Rightarrow> flash \<Rightarrow> u32" where
  "phys_addr b off f = b * block_size f + off"

definition read_blocks :: "u32 \<Rightarrow> u32 \<Rightarrow> u32 \<Rightarrow> flash \<Rightarrow> buffer option" where
  "read_blocks b off n f =
     (if b \<ge> block_count f \<or> off + n > block_size f then None
      else Some (\<lambda>i. fl_mem f (phys_addr b off f + of_nat i)))"

text \<open>Words of the little-endian machine, in the store and in a buffer.\<close>

definition join4 :: "u8 \<Rightarrow> u8 \<Rightarrow> u8 \<Rightarrow> u8 \<Rightarrow> u32" where
  "join4 b0 b1 b2 b3 = ucast b0 OR push_bit 8 (ucast b1) OR push_bit 16 (ucast b2) OR push_bit 24 (ucast b3)"

definition load32 :: "(u32 \<Rightarrow> u8) \<Rightarrow> u32 \<Rightarrow> u32" where
  "load32 m a = join4 (m a) (m (a + 1)) (m (a + 2)) (m (a + 3))"

definition store32 :: "u32 \<Rightarrow> u32 \<Rightarrow> (u32 \<Rightarrow> u8) \<Rightarrow> u32 \<Rightarrow> u8" where
  "store32 a w m = m(a := ucast w, a + 1 := ucast (drop_bit 8 w), a + 2 := ucast (drop_bit 16 w), a + 3 := ucast (drop_bit 24 w))"

fun and_words :: "nat \<Rightarrow> u32 \<Rightarrow> buffer \<Rightarrow> (u32 \<Rightarrow> u8) \<Rightarrow> u32 \<Rightarrow> u8" where
  "and_words 0 a buf m = m"
| "and_words (Suc k) a buf m =
     (let m' = and_words k a buf m; d = a + of_nat (4 * k)
      in store32 d (load32 m' d AND join4 (buf (4 * k)) (buf (4 * k + 1)) (buf (4 * k + 2)) (buf (4 * k + 3))) m')"

fun and_bytes :: "nat \<Rightarrow> nat \<Rightarrow> u32 \<Rightarrow> buffer \<Rightarrow> (u32 \<Rightarrow> u8) \<Rightarrow> u32 \<Rightarrow> u8" where
  "and_bytes 0 i a buf m = m"
| "and_bytes (Suc k) i a buf m =
     and_bytes k (Suc i) a buf (m(a + of_nat i := m (a + of_nat i) AND buf i))"

text \<open>The word path is taken when both addresses are aligned; the buffer's address is an argument.\<close>

definition write_blocks :: "u32 \<Rightarrow> u32 \<Rightarrow> u64 \<Rightarrow> buffer \<Rightarrow> u32 \<Rightarrow> flash \<Rightarrow> int \<times> flash" where
  "write_blocks b off buf_addr buf n f =
     (if b \<ge> block_count f \<or> off + n > block_size f then (-1, f)
      else
        let p = phys_addr b off f;
            words = (if p AND 3 = 0 \<and> buf_addr AND 3 = 0 then unat n div 4 else 0);
            m = and_words words p buf (fl_mem f)
        in (0, f\<lparr>fl_mem := and_bytes (unat n - 4 * words) (4 * words) p buf m, write_count := write_count f + 1\<rparr>))"

definition erase_block :: "u32 \<Rightarrow> flash \<Rightarrow> int \<times> flash" where
  "erase_block b f =
     (if b \<ge> block_count f then (-1, f)
      else let p = b * block_size f
           in (0, f\<lparr>fl_mem := (\<lambda>a. if p \<le> a \<and> unat a < unat p + unat (block_size f) then 0xFF else fl_mem f a),
                erase_count := erase_count f + 1\<rparr>))"

definition is_erased :: "u32 \<Rightarrow> u32 \<Rightarrow> u32 \<Rightarrow> flash \<Rightarrow> bool" where
  "is_erased b off n f =
     (if b \<ge> block_count f then False
      else let n' = (if n = 0 then block_size f - off else n)
           in if off + n' > block_size f then False
              else list_all (\<lambda>i. fl_mem f (phys_addr b off f + of_nat i) = 0xFF) [0..<unat n'])"

section \<open>Programming is a bytewise conjunction\<close>

lemma byte_bits: "8 \<le> n \<Longrightarrow> \<not> bit b n" for b :: u8
  using bit_imp_le_length [of b n] by auto

lemma bit_join4:
  "bit (join4 b0 b1 b2 b3) n \<longleftrightarrow>
     (if n < 8 then bit b0 n else if n < 16 then bit b1 (n - 8) else if n < 24 then bit b2 (n - 16) else bit b3 (n - 24))"
  by (cases "n < 32") (auto simp: join4_def bit_simps byte_bits)

lemma join4_bytes:
  "ucast (join4 b0 b1 b2 b3) = b0" "ucast (drop_bit 8 (join4 b0 b1 b2 b3)) = b1"
  "ucast (drop_bit 16 (join4 b0 b1 b2 b3)) = b2" "ucast (drop_bit 24 (join4 b0 b1 b2 b3)) = b3"
  by (rule bit_word_eqI, simp add: bit_simps bit_join4)+

lemma join4_and: "join4 a0 a1 a2 a3 AND join4 b0 b1 b2 b3 = join4 (a0 AND b0) (a1 AND b1) (a2 AND b2) (a3 AND b3)"
  by (rule bit_word_eqI) (simp add: bit_and_iff bit_join4)

lemma at_offset: "i < 2 ^ 32 \<Longrightarrow> x = a + of_nat i \<longleftrightarrow> unat (x - a) = i" for x a :: u32
proof -
  assume i: "i < 2 ^ 32"
  have "x = a + of_nat i \<longleftrightarrow> x - a = of_nat i" by (auto simp: algebra_simps)
  also have "\<dots> \<longleftrightarrow> unat (x - a) = unat (of_nat i :: u32)" by (rule word_unat_eq_iff)
  also have "unat (of_nat i :: u32) = i" using i by (simp add: unat_of_nat take_bit_nat_eq_self)
  finally show ?thesis .
qed

lemma and_bytes_at:
  assumes "i + k \<le> 2 ^ 32"
  shows "and_bytes k i a buf m x = (if i \<le> unat (x - a) \<and> unat (x - a) < i + k then m x AND buf (unat (x - a)) else m x)"
  using assms
proof (induction k arbitrary: i m)
  case (Suc k)
  have x: "x = a + of_nat i \<longleftrightarrow> unat (x - a) = i" using Suc.prems by (intro at_offset) simp
  define m' where "m' = m(a + of_nat i := m (a + of_nat i) AND buf i)"
  have m': "m' x = (if unat (x - a) = i then m x AND buf i else m x)" using x by (auto simp: m'_def)
  show ?case using Suc.IH [of "Suc i" m'] Suc.prems m' by (auto simp: m'_def [symmetric] simp del: fun_upd_apply)
qed auto

lemma store32_at:
  assumes "k + 3 < 2 ^ 32"
  shows "store32 (a + of_nat k) (join4 b0 b1 b2 b3) m x =
    (let j = unat (x - a) in if j = k then b0 else if j = k + 1 then b1 else if j = k + 2 then b2 else if j = k + 3 then b3 else m x)"
proof -
  have "x = a + of_nat k + of_nat j \<longleftrightarrow> unat (x - a) = k + j" if "j \<le> 3" for j
    using at_offset [of "k + j" x a] assms that by (simp add: add.assoc)
  from this [of 0] this [of 1] this [of 2] this [of 3] show ?thesis
    by (auto simp: store32_def join4_bytes Let_def)
qed

lemma and_words_at:
  assumes "4 * k \<le> 2 ^ 32"
  shows "and_words k a buf m x = (if unat (x - a) < 4 * k then m x AND buf (unat (x - a)) else m x)"
  using assms
proof (induction k arbitrary: x)
  case (Suc k)
  define m' where "m' = and_words k a buf m"
  define j where "j = unat (x - a)"
  have IH: "m' y = (if unat (y - a) < 4 * k then m y AND buf (unat (y - a)) else m y)" for y
    unfolding m'_def by (rule Suc.IH) (use Suc.prems in simp)
  have at: "m' (a + of_nat (4 * k) + of_nat i) = m (a + of_nat (4 * k + i))" if "i < 4" for i
  proof -
    have "unat (a + of_nat (4 * k + i) - a) = 4 * k + i" using at_offset [of "4 * k + i" "a + of_nat (4 * k + i)" a] Suc.prems that by simp
    then show ?thesis using IH [of "a + of_nat (4 * k + i)"] by (simp add: add.assoc)
  qed
  have byte: "m (a + of_nat (4 * k + i)) = m x" if "j = 4 * k + i" "i < 4" for i
    using at_offset [of "4 * k + i" x a] that Suc.prems by (simp add: j_def)
  have w: "load32 m' (a + of_nat (4 * k)) = join4 (m (a + of_nat (4 * k + 0))) (m (a + of_nat (4 * k + 1))) (m (a + of_nat (4 * k + 2))) (m (a + of_nat (4 * k + 3)))"
    using at [of 0] at [of 1] at [of 2] at [of 3] by (simp add: load32_def)
  have "and_words (Suc k) a buf m x = (let j = unat (x - a) in
      if j = 4 * k then m (a + of_nat (4 * k + 0)) AND buf (4 * k) else if j = 4 * k + 1 then m (a + of_nat (4 * k + 1)) AND buf (4 * k + 1)
      else if j = 4 * k + 2 then m (a + of_nat (4 * k + 2)) AND buf (4 * k + 2)
      else if j = 4 * k + 3 then m (a + of_nat (4 * k + 3)) AND buf (4 * k + 3) else m' x)"
    unfolding and_words.simps Let_def m'_def [symmetric] w join4_and
    using store32_at [of "4 * k" a _ _ _ _ m' x] Suc.prems by (simp add: Let_def)
  moreover have "j < 4 * Suc k \<longleftrightarrow> j < 4 * k \<or> j = 4 * k + 0 \<or> j = 4 * k + 1 \<or> j = 4 * k + 2 \<or> j = 4 * k + 3" by auto
  ultimately show ?case
    unfolding Let_def j_def [symmetric] using byte [of 0] byte [of 1] byte [of 2] byte [of 3] IH [of x, folded j_def] by auto
qed simp

text \<open>The word-wise path and the byte loop together conjoin every byte of the range once.\<close>

lemma write_blocks_mem:
  assumes "write_blocks b off ba buf n f = (0, f')"
  shows "fl_mem f' x = (if unat (x - phys_addr b off f) < unat n then fl_mem f x AND buf (unat (x - phys_addr b off f)) else fl_mem f x)"
    "block_size f' = block_size f" "block_count f' = block_count f" "page_size f' = page_size f"
proof -
  define p where "p = phys_addr b off f"
  define k where "k = (if p AND 3 = 0 \<and> ba AND 3 = 0 then unat n div 4 else 0)"
  have k: "4 * k \<le> unat n" by (simp add: k_def)
  have n: "unat n < 2 ^ 32" using unsigned_less [of n] by simp
  have f': "f' = f\<lparr>fl_mem := and_bytes (unat n - 4 * k) (4 * k) p buf (and_words k p buf (fl_mem f)), write_count := write_count f + 1\<rparr>"
    using assms by (auto simp: write_blocks_def Let_def p_def k_def split: if_splits)
  have "and_bytes (unat n - 4 * k) (4 * k) p buf (and_words k p buf (fl_mem f)) x =
      (if unat (x - p) < unat n then fl_mem f x AND buf (unat (x - p)) else fl_mem f x)"
    using and_bytes_at [of "4 * k" "unat n - 4 * k" p buf "and_words k p buf (fl_mem f)" x] and_words_at [of k p buf "fl_mem f" x] k n
    by auto
  then show "fl_mem f' x = (if unat (x - phys_addr b off f) < unat n then fl_mem f x AND buf (unat (x - phys_addr b off f)) else fl_mem f x)"
    by (simp add: f' p_def)
qed (use assms in \<open>auto simp: write_blocks_def Let_def split: if_splits\<close>)

end
