(* ===== verification/Photon_Cache.thy ===== *)
theory Photon_Cache
  imports Flash
begin

text \<open>
  The page cache between the file system and the flash (\<open>vfs/photon_cache.hpp\<close>): eight pages with
  least-recently-used replacement and delayed writes. A miss is written in two halves, around the
  unlocked read of the device, so that the window in which other threads run is visible.
\<close>

section \<open>State\<close>

record cache_page =
  block_addr :: u32
  page_offset :: u32
  data :: buffer
  is_valid :: bool
  is_dirty :: bool
  is_reserved :: bool
  last_access_tick :: u32

definition CACHE_POOL_SIZE :: nat where [simp]: "CACHE_POOL_SIZE = 8"

record cache =
  pool :: "cache_page list"
  dev :: flash
  tick_counter :: u32
  hit_count :: u32
  miss_count :: u32
  flush_count :: u32

definition upd_page :: "nat \<Rightarrow> (cache_page \<Rightarrow> cache_page) \<Rightarrow> cache \<Rightarrow> cache" where
  "upd_page i g c = c\<lparr>pool := (pool c)[i := g (pool c ! i)]\<rparr>"

definition cache_new :: "flash \<Rightarrow> cache_page list \<Rightarrow> cache" where
  "cache_new f ps =
     \<lparr>pool = map (\<lambda>p. p\<lparr>is_valid := False, is_dirty := False, is_reserved := False\<rparr>) ps, dev = f,
      tick_counter = 0, hit_count = 0, miss_count = 0, flush_count = 0\<rparr>"

section \<open>Operations\<close>

text \<open>The page data are word aligned in the cache.\<close>

fun write_retry :: "nat \<Rightarrow> int \<Rightarrow> cache_page \<Rightarrow> flash \<Rightarrow> int \<times> flash" where
  "write_retry 0 res p f = (res, f)"
| "write_retry (Suc n) res p f =
     (case write_blocks (block_addr p) (page_offset p) 0 (data p) (page_size f) f of
        (r, f') \<Rightarrow> if r = 0 then (r, f') else write_retry n r p f')"

definition flush_page :: "nat \<Rightarrow> cache \<Rightarrow> int \<times> cache" where
  "flush_page i c =
     (if \<not> is_valid (pool c ! i) \<or> \<not> is_dirty (pool c ! i) then (0, c)
      else case write_retry 3 (-1) (pool c ! i) (dev c) of
        (res, f) \<Rightarrow>
          let c1 = c\<lparr>dev := f\<rparr>
          in if res = 0 then (res, upd_page i (\<lambda>p. p\<lparr>is_dirty := False\<rparr>) (c1\<lparr>flush_count := flush_count c1 + 1\<rparr>))
             else (res, c1))"

definition holds_page :: "u32 \<Rightarrow> u32 \<Rightarrow> cache_page \<Rightarrow> bool" where
  "holds_page b po p \<longleftrightarrow> is_valid p \<and> block_addr p = b \<and> page_offset p = po"

datatype scan_result = Hit nat | Victim "nat option"

fun scan_pool :: "u32 \<Rightarrow> u32 \<Rightarrow> nat \<Rightarrow> nat option \<Rightarrow> u32 \<Rightarrow> cache_page list \<Rightarrow> scan_result" where
  "scan_pool b po i oldest_idx oldest_tick [] = Victim oldest_idx"
| "scan_pool b po i oldest_idx oldest_tick (p # ps) =
     (if holds_page b po p then Hit i
      else if \<not> is_valid p \<and> \<not> is_reserved p then scan_pool b po (Suc i) (Some i) 0 ps
      else if \<not> is_reserved p \<and> last_access_tick p < oldest_tick
           then scan_pool b po (Suc i) (Some i) (last_access_tick p) ps
      else scan_pool b po (Suc i) oldest_idx oldest_tick ps)"

definition touch :: "nat \<Rightarrow> cache \<Rightarrow> cache" where
  "touch i c = upd_page i (\<lambda>p. p\<lparr>last_access_tick := tick_counter c + 1\<rparr>) (c\<lparr>tick_counter := tick_counter c + 1\<rparr>)"

datatype lookup = Found nat | Refused | Loading nat

text \<open>Up to the unlocking of the mutex.\<close>

definition begin_page :: "u32 \<Rightarrow> u32 \<Rightarrow> cache \<Rightarrow> lookup \<times> cache" where
  "begin_page b po c =
     (case scan_pool b po 0 None 0xFFFFFFFF (pool c) of
        Hit i \<Rightarrow> (Found i, (touch i c)\<lparr>hit_count := hit_count c + 1\<rparr>)
      | Victim r \<Rightarrow>
          let c1 = c\<lparr>miss_count := miss_count c + 1\<rparr>
          in (case r of
                None \<Rightarrow> (Refused, c1)
              | Some v \<Rightarrow>
                  (case (if is_valid (pool c1 ! v) \<and> is_dirty (pool c1 ! v) then flush_page v c1 else (0, c1)) of
                     (res, c2) \<Rightarrow>
                       if res \<noteq> 0 then (Refused, c2)
                       else (Loading v, upd_page v (\<lambda>p. p\<lparr>is_valid := False, is_dirty := False, is_reserved := True,
                              block_addr := b, page_offset := po\<rparr>) c2))))"

definition cached_size :: "flash \<Rightarrow> u32" where
  "cached_size f = (if page_size f > 256 then 256 else page_size f)"

text \<open>
  The read outside the lock. Its result is not looked at: when the device refuses, the temporary
  buffer keeps what was on the stack.
\<close>

definition load_page :: "buffer \<Rightarrow> u32 \<Rightarrow> u32 \<Rightarrow> flash \<Rightarrow> buffer" where
  "load_page stack b po f = (case read_blocks b po (cached_size f) f of None \<Rightarrow> stack | Some tmp \<Rightarrow> tmp)"

text \<open>After locking again; no index stands for the recursive retry.\<close>

definition finish_page :: "nat \<Rightarrow> u32 \<Rightarrow> u32 \<Rightarrow> buffer \<Rightarrow> cache \<Rightarrow> nat option \<times> cache" where
  "finish_page v b po tmp c =
     (case first_slot (\<lambda>p. p) (map (\<lambda>i. i \<noteq> v \<and> holds_page b po (pool c ! i)) [0..<length (pool c)]) of
        Some i \<Rightarrow> (Some i, touch i (upd_page v (\<lambda>p. p\<lparr>is_reserved := False\<rparr>) c))
      | None \<Rightarrow>
          if \<not> is_reserved (pool c ! v) then (None, c)
          else (Some v, upd_page v (\<lambda>p. p\<lparr>data := (\<lambda>i. if i < unat (cached_size (dev c)) then tmp i else data p i),
                   block_addr := b, page_offset := po, last_access_tick := tick_counter c + 1, is_valid := True,
                   is_reserved := False\<rparr>) (c\<lparr>tick_counter := tick_counter c + 1\<rparr>)))"

text \<open>The whole lookup when no other thread runs in the window.\<close>

partial_function (option) get_or_alloc_page :: "buffer \<Rightarrow> u32 \<Rightarrow> u32 \<Rightarrow> cache \<Rightarrow> (nat option \<times> cache) option" where
  [code]: "get_or_alloc_page stack b po c =
     (case begin_page b po c of
        (Found i, c1) \<Rightarrow> Some (Some i, c1)
      | (Refused, c1) \<Rightarrow> Some (None, c1)
      | (Loading v, c1) \<Rightarrow>
          (case finish_page v b po (load_page stack b po (dev c1)) c1 of
             (Some i, c2) \<Rightarrow> Some (Some i, c2)
           | (None, c2) \<Rightarrow> get_or_alloc_page stack b po c2))"

text \<open>Where the next byte lies: page, index in the page and length of the part in it.\<close>

definition chunk_at :: "flash \<Rightarrow> u32 \<Rightarrow> u32 \<Rightarrow> u32 \<times> u32 \<times> u32" where
  "chunk_at f curr_offset rest =
     (let ps = cached_size f; k = curr_offset AND (ps - 1); chunk = ps - k
      in (curr_offset AND NOT (ps - 1), k, if chunk > rest then rest else chunk))"

partial_function (option) cache_read_from ::
    "buffer \<Rightarrow> u32 \<Rightarrow> u32 \<Rightarrow> u32 \<Rightarrow> u32 \<Rightarrow> buffer \<Rightarrow> cache \<Rightarrow> (int \<times> buffer \<times> cache) option" where
  [code]: "cache_read_from stack b off sz bytes_read buf c =
     (if bytes_read < sz
      then case chunk_at (dev c) (off + bytes_read) (sz - bytes_read) of
             (po, k, n) \<Rightarrow>
               (case get_or_alloc_page stack b po c of
                  None \<Rightarrow> None
                | Some (None, c1) \<Rightarrow> Some (-1, buf, c1)
                | Some (Some i, c1) \<Rightarrow>
                    cache_read_from stack b off sz (bytes_read + n)
                      (\<lambda>j. if unat bytes_read \<le> j \<and> j < unat bytes_read + unat n
                           then data (pool c1 ! i) (unat k + (j - unat bytes_read)) else buf j) c1)
      else Some (sint bytes_read, buf, c))"

definition cache_read :: "buffer \<Rightarrow> u32 \<Rightarrow> u32 \<Rightarrow> u32 \<Rightarrow> buffer \<Rightarrow> cache \<Rightarrow> (int \<times> buffer \<times> cache) option" where
  "cache_read stack b off sz buf c = cache_read_from stack b off sz 0 buf c"

partial_function (option) cache_write_from ::
    "buffer \<Rightarrow> u32 \<Rightarrow> u32 \<Rightarrow> u32 \<Rightarrow> u32 \<Rightarrow> buffer \<Rightarrow> cache \<Rightarrow> (int \<times> cache) option" where
  [code]: "cache_write_from stack b off sz bytes_written buf c =
     (if bytes_written < sz
      then case chunk_at (dev c) (off + bytes_written) (sz - bytes_written) of
             (po, k, n) \<Rightarrow>
               (case get_or_alloc_page stack b po c of
                  None \<Rightarrow> None
                | Some (None, c1) \<Rightarrow> Some (-1, c1)
                | Some (Some i, c1) \<Rightarrow>
                    cache_write_from stack b off sz (bytes_written + n) buf
                      (upd_page i (\<lambda>p. p\<lparr>data := (\<lambda>j. if unat k \<le> j \<and> j < unat k + unat n
                                                 then buf (unat bytes_written + (j - unat k)) else data p j),
                                        is_dirty := True\<rparr>) c1))
      else Some (sint bytes_written, c))"

definition cache_write :: "buffer \<Rightarrow> u32 \<Rightarrow> u32 \<Rightarrow> u32 \<Rightarrow> buffer \<Rightarrow> cache \<Rightarrow> (int \<times> cache) option" where
  "cache_write stack b off sz buf c = cache_write_from stack b off sz 0 buf c"

definition cache_erase :: "u32 \<Rightarrow> cache \<Rightarrow> int \<times> cache" where
  "cache_erase b c =
     (let c1 = c\<lparr>pool := map (\<lambda>p. if (is_valid p \<or> is_reserved p) \<and> block_addr p = b
                 then p\<lparr>is_valid := False, is_dirty := False, is_reserved := False\<rparr> else p) (pool c)\<rparr>
      in case erase_block b (dev c1) of (res, f) \<Rightarrow> (res, c1\<lparr>dev := f\<rparr>))"

fun sync_from :: "nat list \<Rightarrow> int \<Rightarrow> cache \<Rightarrow> int \<times> cache" where
  "sync_from [] final_res c = (final_res, c)"
| "sync_from (i # is) final_res c =
     (if is_valid (pool c ! i) \<and> is_dirty (pool c ! i)
      then case flush_page i c of
             (res, c1) \<Rightarrow> sync_from is (if res \<noteq> 0 \<and> final_res = 0 then res else final_res) c1
      else sync_from is final_res c)"

definition cache_sync :: "cache \<Rightarrow> int \<times> cache" where
  "cache_sync c = sync_from [0..<CACHE_POOL_SIZE] 0 c"

definition get_dirty_count :: "cache \<Rightarrow> u32" where
  "get_dirty_count c = of_nat (length (filter (\<lambda>p. is_valid p \<and> is_dirty p) (pool c)))"

end
