(* ===== verification/Photon_Cache_Props.thy ===== *)
theory Photon_Cache_Props
  imports Photon_Cache
begin

text \<open>
  The cache refines a store of bytes. The invariant relates every cached page to the flash below it:
  a cached page may only have cleared bits, which is what lets a delayed write reach the flash
  unchanged; the contents seen through the cache are those of the cached page where there is one.
\<close>

section \<open>Contents\<close>

definition cell :: "flash \<Rightarrow> u32 \<Rightarrow> nat \<Rightarrow> u8" where
  "cell f b j = fl_mem f (phys_addr b 0 f + of_nat j)"

definition geometry :: "flash \<Rightarrow> bool" where
  "geometry f \<longleftrightarrow> page_size f = 256 \<and> 256 dvd unat (block_size f) \<and> unat (block_size f) * unat (block_count f) < 2 ^ 32"

definition in_range :: "flash \<Rightarrow> u32 \<Rightarrow> nat \<Rightarrow> bool" where
  "in_range f b j \<longleftrightarrow> b < block_count f \<and> j < unat (block_size f)"

definition key_of :: "nat \<Rightarrow> u32" where
  "key_of j = of_nat (j div 256 * 256)"

definition contents :: "cache \<Rightarrow> u32 \<Rightarrow> nat \<Rightarrow> u8" where
  "contents c b j =
     (case find (holds_page b (key_of j)) (pool c) of Some p \<Rightarrow> data p (j mod 256) | None \<Rightarrow> cell (dev c) b j)"

definition page_ok :: "flash \<Rightarrow> cache_page \<Rightarrow> bool" where
  "page_ok f p \<longleftrightarrow> \<not> is_reserved p \<and> (is_valid p \<longrightarrow>
     block_addr p < block_count f \<and> unat (page_offset p) mod 256 = 0 \<and> unat (page_offset p) + 256 \<le> unat (block_size f)
     \<and> (\<forall>i < 256. data p i AND cell f (block_addr p) (unat (page_offset p) + i) = data p i)
     \<and> (\<not> is_dirty p \<longrightarrow> (\<forall>i < 256. data p i = cell f (block_addr p) (unat (page_offset p) + i))))"

definition same_key :: "cache_page \<Rightarrow> cache_page \<Rightarrow> bool" where
  "same_key p q \<longleftrightarrow> is_valid p \<and> is_valid q \<and> block_addr p = block_addr q \<and> page_offset p = page_offset q"

definition cache_ok :: "cache \<Rightarrow> bool" where
  "cache_ok c \<longleftrightarrow> length (pool c) = CACHE_POOL_SIZE \<and> geometry (dev c)
     \<and> (\<forall>i < CACHE_POOL_SIZE. page_ok (dev c) (pool c ! i) \<and> (is_valid (pool c ! i) \<longrightarrow> last_access_tick (pool c ! i) \<le> tick_counter c))
     \<and> (\<forall>i < CACHE_POOL_SIZE. \<forall>j < CACHE_POOL_SIZE. same_key (pool c ! i) (pool c ! j) \<longrightarrow> i = j)"

lemma cache_okD:
  assumes "cache_ok c"
  shows "length (pool c) = 8" "geometry (dev c)" "i < 8 \<Longrightarrow> page_ok (dev c) (pool c ! i)"
    "i < 8 \<Longrightarrow> is_valid (pool c ! i) \<Longrightarrow> last_access_tick (pool c ! i) \<le> tick_counter c"
    "i < 8 \<Longrightarrow> j < 8 \<Longrightarrow> same_key (pool c ! i) (pool c ! j) \<Longrightarrow> i = j"
  using assms unfolding cache_ok_def by auto

lemma cache_okI:
  assumes "length (pool c) = 8" "geometry (dev c)" "\<And>i. i < 8 \<Longrightarrow> page_ok (dev c) (pool c ! i)"
    "\<And>i. i < 8 \<Longrightarrow> is_valid (pool c ! i) \<Longrightarrow> last_access_tick (pool c ! i) \<le> tick_counter c"
    "\<And>i j. i < 8 \<Longrightarrow> j < 8 \<Longrightarrow> same_key (pool c ! i) (pool c ! j) \<Longrightarrow> i = j"
  shows "cache_ok c"
  unfolding cache_ok_def using assms by auto

lemma page_okD:
  assumes "page_ok f p" "is_valid p"
  shows "block_addr p < block_count f" "unat (page_offset p) mod 256 = 0" "unat (page_offset p) + 256 \<le> unat (block_size f)"
    "i < 256 \<Longrightarrow> data p i AND cell f (block_addr p) (unat (page_offset p) + i) = data p i"
    "\<not> is_dirty p \<Longrightarrow> i < 256 \<Longrightarrow> data p i = cell f (block_addr p) (unat (page_offset p) + i)"
  using assms unfolding page_ok_def by blast+

section \<open>Addresses\<close>

lemma unat_cell:
  assumes "geometry f" "in_range f b j"
  shows "unat (phys_addr b 0 f + of_nat j) = unat b * unat (block_size f) + j"
    "unat b * unat (block_size f) + j < 2 ^ 32"
proof -
  have b: "unat b + 1 \<le> unat (block_count f)" "j < unat (block_size f)" using assms(2) by (simp_all add: in_range_def word_less_nat_alt)
  have "(unat b + 1) * unat (block_size f) \<le> unat (block_count f) * unat (block_size f)" by (rule mult_le_mono1 [OF b(1)])
  then have l: "unat b * unat (block_size f) + j < 2 ^ 32" using assms(1) b(2) by (simp add: geometry_def algebra_simps)
  then show "unat b * unat (block_size f) + j < 2 ^ 32" .
  have "unat (b * block_size f) = unat b * unat (block_size f)" using l by (simp add: unat_word_ariths)
  moreover have "unat (of_nat j :: u32) = j" using l by (simp add: unat_of_nat take_bit_nat_eq_self)
  ultimately show "unat (phys_addr b 0 f + of_nat j) = unat b * unat (block_size f) + j"
    using l by (simp add: phys_addr_def unat_word_ariths)
qed

lemma cell_inj:
  assumes "geometry f" "in_range f b j" "in_range f b' j'" "unat b * unat (block_size f) + j = unat b' * unat (block_size f) + j'"
  shows "b = b' \<and> j = j'"
proof -
  have s: "j < unat (block_size f)" "j' < unat (block_size f)" using assms(2,3) by (simp_all add: in_range_def)
  have "(unat b * unat (block_size f) + j) div unat (block_size f) = unat b" "(unat b' * unat (block_size f) + j') div unat (block_size f) = unat b'"
    using s by simp_all
  then have "unat b = unat b'" using assms(4) by metis
  then show ?thesis using assms(4) by (simp add: word_unat_eq_iff)
qed

text \<open>What programming a page changes.\<close>

lemma program_page:
  assumes g: "geometry f" and b: "b < block_count f" and po: "unat po + 256 \<le> unat (block_size f)"
  shows "\<exists>f'. write_blocks b po 0 buf 256 f = (0, f') \<and> geometry f' \<and> block_size f' = block_size f \<and> block_count f' = block_count f
    \<and> (\<forall>b' j. in_range f b' j \<longrightarrow> cell f' b' j =
        (if b' = b \<and> unat po \<le> j \<and> j < unat po + 256 then cell f b' j AND buf (j - unat po) else cell f b' j))"
proof -
  have r: "in_range f b (unat po)" using b po by (simp add: in_range_def)
  have "\<not> po + 256 > block_size f"
  proof -
    have "unat (block_size f) < 2 ^ 32" using unsigned_less [of "block_size f"] by simp
    then have "unat po + 256 < 2 ^ 32" using po by simp
    then have "unat (po + 256) = unat po + 256" by (simp add: unat_word_ariths)
    then show ?thesis using po by (simp add: word_less_nat_alt)
  qed
  then have "fst (write_blocks b po 0 buf 256 f) = 0" using b by (simp add: write_blocks_def Let_def not_le)
  then obtain f' where w: "write_blocks b po 0 buf 256 f = (0, f')" by (cases "write_blocks b po 0 buf 256 f") simp
  note W = write_blocks_mem [OF w]
  have geo: "geometry f'" using g W(2-4) by (simp add: geometry_def)
  have "cell f' b' j = (if b' = b \<and> unat po \<le> j \<and> j < unat po + 256 then cell f b' j AND buf (j - unat po) else cell f b' j)"
    if rj: "in_range f b' j" for b' j
  proof -
    let ?x = "phys_addr b' 0 f + of_nat j" and ?p = "phys_addr b po f"
    have p: "unat ?p = unat b * unat (block_size f) + unat po" using unat_cell(1) [OF g r] by (simp add: phys_addr_def)
    note x = unat_cell(1) [OF g rj]
    have e: "cell f' b' j = fl_mem f' ?x" "cell f b' j = fl_mem f ?x" using W(2) by (simp_all add: cell_def phys_addr_def)
    show ?thesis
    proof (cases "b' = b \<and> unat po \<le> j \<and> j < unat po + 256")
      case True
      then have "unat (?x - ?p) = j - unat po" using x p by (simp add: unat_sub_if')
      moreover have "j - unat po < 256" using True by linarith
      ultimately show ?thesis using W(1) [of ?x] True e by simp
    next
      case False
      have "\<not> unat (?x - ?p) < 256"
      proof
        assume l: "unat (?x - ?p) < 256"
        define i where "i = unat (?x - ?p)"
        have "?x = ?p + of_nat i" by (simp add: i_def)
        also have "\<dots> = phys_addr b 0 f + of_nat (unat po + i)" by (simp add: phys_addr_def)
        finally have xi: "?x = phys_addr b 0 f + of_nat (unat po + i)" .
        have i: "i < 256" "in_range f b (unat po + i)" using l b po by (simp_all add: in_range_def i_def)
        have "unat ?x = unat b * unat (block_size f) + (unat po + i)" unfolding xi by (rule unat_cell(1) [OF g i(2)])
        then have "b' = b \<and> j = unat po + i" using x by (intro cell_inj [OF g rj i(2)]) linarith
        then show False using False i(1) by simp
      qed
      then show ?thesis using W(1) [of ?x] False e by auto
    qed
  qed
  then show ?thesis using w geo W(2,3) by blast
qed

section \<open>Contents through pages\<close>

lemma unat_key: "j < 2 ^ 32 \<Longrightarrow> unat (key_of j) = j div 256 * 256"
proof -
  assume "j < 2 ^ 32"
  then have "j div 256 * 256 < 2 ^ 32" using div_times_less_eq_dividend [of j 256] by linarith
  then show ?thesis unfolding key_of_def by (simp only: unat_of_nat) (simp add: take_bit_nat_eq_self)
qed

lemma in_range_small: "in_range f b j \<Longrightarrow> j < 2 ^ 32"
proof -
  assume "in_range f b j"
  moreover have "unat (block_size f) < 2 ^ 32" using unsigned_less [of "block_size f"] by simp
  ultimately show ?thesis by (simp add: in_range_def)
qed

lemma contents_page:
  assumes "cache_ok c" "i < 8" "holds_page b (key_of j) (pool c ! i)"
  shows "contents c b j = data (pool c ! i) (j mod 256)"
proof -
  note D = cache_okD [OF assms(1)]
  have m: "pool c ! i \<in> set (pool c)" using D(1) assms(2) by simp
  obtain p where p: "find (holds_page b (key_of j)) (pool c) = Some p"
    using m assms(3) by (cases "find (holds_page b (key_of j)) (pool c)") (auto simp: find_None_iff)
  then obtain k where k: "k < 8" "p = pool c ! k" "holds_page b (key_of j) (pool c ! k)" using D(1) by (auto simp: find_Some_iff)
  have "k = i" using D(5) [OF k(1) assms(2)] k(3) assms(3) by (simp add: same_key_def holds_page_def)
  then show ?thesis using p k by (simp add: contents_def)
qed

lemma contents_flash:
  assumes "\<And>i. i < length (pool c) \<Longrightarrow> \<not> holds_page b (key_of j) (pool c ! i)"
  shows "contents c b j = cell (dev c) b j"
proof -
  have "find (holds_page b (key_of j)) (pool c) = None" using assms by (auto simp: find_None_iff in_set_conv_nth)
  then show ?thesis by (simp add: contents_def)
qed

text \<open>A change that keeps the flash where no page covers it and the data where one does keeps the contents.\<close>

lemma contents_same:
  assumes ok: "cache_ok c" "cache_ok c'" and j: "j < 2 ^ 32"
    and pages: "\<And>i. i < 8 \<Longrightarrow> holds_page b (key_of j) (pool c ! i) \<Longrightarrow>
        holds_page b (key_of j) (pool c' ! i) \<and> data (pool c' ! i) (j mod 256) = data (pool c ! i) (j mod 256)
        \<or> (\<forall>k < 8. \<not> holds_page b (key_of j) (pool c' ! k)) \<and> cell (dev c') b j = data (pool c ! i) (j mod 256)"
    and flash: "(\<And>i. i < 8 \<Longrightarrow> \<not> holds_page b (key_of j) (pool c ! i)) \<Longrightarrow> cell (dev c') b j = cell (dev c) b j"
    and new: "\<And>i. i < 8 \<Longrightarrow> (\<And>k. k < 8 \<Longrightarrow> \<not> holds_page b (key_of j) (pool c ! k)) \<Longrightarrow> holds_page b (key_of j) (pool c' ! i) \<Longrightarrow>
        data (pool c' ! i) (j mod 256) = cell (dev c) b j"
  shows "contents c' b j = contents c b j"
proof (cases "\<exists>i < 8. holds_page b (key_of j) (pool c ! i)")
  case True
  then obtain i where i: "i < 8" "holds_page b (key_of j) (pool c ! i)" by blast
  have l: "contents c b j = data (pool c ! i) (j mod 256)" by (rule contents_page [OF ok(1) i])
  from pages [OF i] show ?thesis
  proof
    assume "holds_page b (key_of j) (pool c' ! i) \<and> data (pool c' ! i) (j mod 256) = data (pool c ! i) (j mod 256)"
    then show ?thesis using contents_page [OF ok(2) i(1), of b j] l by simp
  next
    assume "(\<forall>k < 8. \<not> holds_page b (key_of j) (pool c' ! k)) \<and> cell (dev c') b j = data (pool c ! i) (j mod 256)"
    then show ?thesis using contents_flash [of c' b j] l cache_okD(1) [OF ok(2)] by simp
  qed
next
  case False
  then have l: "contents c b j = cell (dev c) b j" using cache_okD(1) [OF ok(1)] by (intro contents_flash) auto
  show ?thesis
  proof (cases "\<exists>i < 8. holds_page b (key_of j) (pool c' ! i)")
    case True
    then obtain i where i: "i < 8" "holds_page b (key_of j) (pool c' ! i)" by blast
    then have "data (pool c' ! i) (j mod 256) = cell (dev c) b j" using new [OF i(1) _ i(2)] False by blast
    then show ?thesis using contents_page [OF ok(2) i] l by simp
  next
    case none: False
    then have "contents c' b j = cell (dev c') b j" using cache_okD(1) [OF ok(2)] by (intro contents_flash) auto
    then show ?thesis using flash False l by auto
  qed
qed

section \<open>Flushing\<close>

lemma cell_of_page:
  assumes "page_ok f p" "holds_page b (key_of j) p" "in_range f b j"
  shows "unat (page_offset p) + j mod 256 = j" "data p (j mod 256) AND cell f b j = data p (j mod 256)"
    "\<not> is_dirty p \<Longrightarrow> data p (j mod 256) = cell f b j"
proof -
  have v: "is_valid p" "block_addr p = b" "page_offset p = key_of j" using assms(2) by (simp_all add: holds_page_def)
  have "unat (key_of j) = j div 256 * 256" by (rule unat_key [OF in_range_small [OF assms(3)]])
  then show e: "unat (page_offset p) + j mod 256 = j" using v by simp
  show "data p (j mod 256) AND cell f b j = data p (j mod 256)" using page_okD(4) [OF assms(1) v(1), of "j mod 256"] e v(2) by simp
  show "\<not> is_dirty p \<Longrightarrow> data p (j mod 256) = cell f b j" using page_okD(5) [OF assms(1) v(1), of "j mod 256"] e v(2) by simp
qed

lemma page_apart:
  assumes "unat po mod 256 = 0" "unat qo mod 256 = 0" "i < 256" "unat po \<le> unat qo + i" "unat qo + i < unat po + 256"
  shows "po = (qo :: u32)"
proof -
  have "(unat qo + i) div 256 = unat po div 256"
  proof (rule div_nat_eqI)
    have "256 * (unat po div 256) = unat po" using assms(1) mult_div_mod_eq [of 256 "unat po"] by simp
    then show "256 * (unat po div 256) \<le> unat qo + i" "unat qo + i < 256 * Suc (unat po div 256)" using assms(4,5) by simp_all
  qed
  moreover have "(unat qo + i) div 256 = unat qo div 256" using assms(2,3) by (simp add: div_add1_eq)
  ultimately have "unat po div 256 * 256 = unat qo div 256 * 256" by simp
  then have "unat po = unat qo" using assms(1,2) div_mult_mod_eq [of "unat po" 256] div_mult_mod_eq [of "unat qo" 256] by simp
  then show ?thesis by (simp add: word_unat_eq_iff)
qed

definition programmed :: "cache_page \<Rightarrow> flash \<Rightarrow> flash \<Rightarrow> bool" where
  "programmed p f f' \<longleftrightarrow> geometry f' \<and> block_size f' = block_size f \<and> block_count f' = block_count f
     \<and> (\<forall>b j. in_range f b j \<longrightarrow> cell f' b j =
          (if b = block_addr p \<and> unat (page_offset p) \<le> j \<and> j < unat (page_offset p) + 256
           then cell f b j AND data p (j - unat (page_offset p)) else cell f b j))"

lemma programmedD:
  assumes "programmed p f f'"
  shows "geometry f'" "block_size f' = block_size f" "block_count f' = block_count f"
    "in_range f b j \<Longrightarrow> cell f' b j = (if b = block_addr p \<and> unat (page_offset p) \<le> j \<and> j < unat (page_offset p) + 256
       then cell f b j AND data p (j - unat (page_offset p)) else cell f b j)"
  using assms unfolding programmed_def by blast+

lemma page_in_range:
  assumes "page_ok f p" "is_valid p" "k < 256"
  shows "in_range f (block_addr p) (unat (page_offset p) + k)"
  using page_okD [OF assms(1,2)] assms(3) by (simp add: in_range_def)

text \<open>The flushed page agrees with the flash and the cells under the other pages are kept.\<close>

lemma programmed_pages:
  assumes ok: "cache_ok c" and i: "i < 8" "is_valid (pool c ! i)" and f': "programmed (pool c ! i) (dev c) f'" and k: "k < 8"
  shows "page_ok f' (if k = i then (pool c ! i)\<lparr>is_dirty := False\<rparr> else pool c ! k)"
proof -
  note D = cache_okD [OF ok] and W = programmedD [OF f'] and P = page_okD [OF cache_okD(3) [OF ok i(1)] i(2)]
  have own: "cell f' (block_addr (pool c ! i)) (unat (page_offset (pool c ! i)) + m) = data (pool c ! i) m" if "m < 256" for m
    using W(4) [OF page_in_range [OF D(3) [OF i(1)] i(2) that]] P(4) [OF that] that by (simp add: and.commute)
  have others: "cell f' (block_addr (pool c ! k)) (unat (page_offset (pool c ! k)) + m) = cell (dev c) (block_addr (pool c ! k)) (unat (page_offset (pool c ! k)) + m)"
    if n: "k \<noteq> i" "is_valid (pool c ! k)" and m: "m < 256" for m
  proof -
    have "\<not> (block_addr (pool c ! k) = block_addr (pool c ! i) \<and> page_offset (pool c ! i) = page_offset (pool c ! k))"
      using D(5) [OF k i(1)] n i(2) by (auto simp: same_key_def)
    then show ?thesis
      using W(4) [OF page_in_range [OF D(3) [OF k] n(2) m]] page_apart [OF P(2) page_okD(2) [OF D(3) [OF k] n(2)] m] by auto
  qed
  show ?thesis
  proof (cases "k = i")
    case True
    then show ?thesis using own P W(2,3) D(3) [OF i(1)] by (simp add: page_ok_def)
  next
    case False
    then show ?thesis using others [OF False] D(3) [OF k] W(2,3) by (auto simp: page_ok_def)
  qed
qed

lemma flushed_ok:
  assumes ok: "cache_ok c" and i: "i < 8" "is_valid (pool c ! i)" and f': "programmed (pool c ! i) (dev c) f'"
  defines "c' \<equiv> c\<lparr>dev := f', flush_count := flush_count c + 1, pool := (pool c)[i := (pool c ! i)\<lparr>is_dirty := False\<rparr>]\<rparr>"
  shows "cache_ok c'" "in_range (dev c) b j \<Longrightarrow> contents c' b j = contents c b j"
proof -
  note D = cache_okD [OF ok] and W = programmedD [OF f'] and P = page_okD [OF cache_okD(3) [OF ok i(1)] i(2)]
  have pl: "pool c' ! k = (if k = i then (pool c ! i)\<lparr>is_dirty := False\<rparr> else pool c ! k)" for k using D(1) i(1) by (simp add: c'_def)
  have sk: "is_valid (pool c' ! k) = is_valid (pool c ! k)" "block_addr (pool c' ! k) = block_addr (pool c ! k)"
      "page_offset (pool c' ! k) = page_offset (pool c ! k)" "data (pool c' ! k) = data (pool c ! k)"
      "last_access_tick (pool c' ! k) = last_access_tick (pool c ! k)" for k
    by (simp_all add: pl)
  have hp: "holds_page b po (pool c' ! k) = holds_page b po (pool c ! k)" for b po k by (simp add: holds_page_def sk)
  show ok': "cache_ok c'"
  proof (rule cache_okI)
    show "length (pool c') = 8" "geometry (dev c')" using D(1) W(1) by (simp_all add: c'_def)
    show "k < 8 \<Longrightarrow> page_ok (dev c') (pool c' ! k)" for k unfolding pl using programmed_pages [OF ok i f'] by (simp add: c'_def)
    show "k < 8 \<Longrightarrow> is_valid (pool c' ! k) \<Longrightarrow> last_access_tick (pool c' ! k) \<le> tick_counter c'" for k
      using D(4) [of k] by (simp add: sk) (simp add: c'_def)
    show "k < 8 \<Longrightarrow> m < 8 \<Longrightarrow> same_key (pool c' ! k) (pool c' ! m) \<Longrightarrow> k = m" for k m
      using D(5) [of k m] by (simp add: same_key_def sk)
  qed
  show "contents c' b j = contents c b j" if r: "in_range (dev c) b j"
  proof (rule contents_same [OF ok ok' in_range_small [OF r]])
    assume none: "\<And>k. k < 8 \<Longrightarrow> \<not> holds_page b (key_of j) (pool c ! k)"
    have "\<not> (b = block_addr (pool c ! i) \<and> unat (page_offset (pool c ! i)) \<le> j \<and> j < unat (page_offset (pool c ! i)) + 256)"
    proof
      assume j: "b = block_addr (pool c ! i) \<and> unat (page_offset (pool c ! i)) \<le> j \<and> j < unat (page_offset (pool c ! i)) + 256"
      have "page_offset (pool c ! i) = key_of j"
        by (rule page_apart [of _ _ "j mod 256"]) (use P(2) j unat_key [OF in_range_small [OF r]] in simp_all)
      then show False using none [OF i(1)] j i(2) by (simp add: holds_page_def)
    qed
    then show "cell (dev c') b j = cell (dev c) b j" using W(4) [OF r] by (auto simp: c'_def)
  qed (auto simp: hp sk)
qed

lemma flush_page_ok:
  assumes ok: "cache_ok c" and i: "i < 8"
  shows "\<exists>c'. flush_page i c = (0, c') \<and> cache_ok c' \<and> pool c' = (pool c)[i := (pool c ! i)\<lparr>is_dirty := is_dirty (pool c ! i) \<and> \<not> is_valid (pool c ! i)\<rparr>]
    \<and> tick_counter c' = tick_counter c \<and> block_size (dev c') = block_size (dev c) \<and> block_count (dev c') = block_count (dev c)
    \<and> (\<forall>b j. in_range (dev c) b j \<longrightarrow> contents c' b j = contents c b j)"
proof (cases "is_valid (pool c ! i) \<and> is_dirty (pool c ! i)")
  case False
  then have "flush_page i c = (0, c)" by (auto simp: flush_page_def)
  moreover have "(pool c ! i)\<lparr>is_dirty := is_dirty (pool c ! i) \<and> \<not> is_valid (pool c ! i)\<rparr> = pool c ! i" using False by (cases "pool c ! i") auto
  ultimately show ?thesis using ok by simp
next
  case True
  note D = cache_okD [OF ok]
  have v: "is_valid (pool c ! i)" using True by simp
  note P = page_okD [OF D(3) [OF i] v]
  obtain f' where w: "write_blocks (block_addr (pool c ! i)) (page_offset (pool c ! i)) 0 (data (pool c ! i)) 256 (dev c) = (0, f')"
      and f': "programmed (pool c ! i) (dev c) f'"
    using program_page [OF D(2) P(1,3), of "data (pool c ! i)"] unfolding programmed_def by blast
  define c' where "c' = c\<lparr>dev := f', flush_count := flush_count c + 1, pool := (pool c)[i := (pool c ! i)\<lparr>is_dirty := False\<rparr>]\<rparr>"
  have "page_size (dev c) = 256" using D(2) by (simp add: geometry_def)
  then have "flush_page i c = (0, c')" using True w by (simp add: flush_page_def upd_page_def c'_def numeral_3_eq_3)
  moreover note F = flushed_ok [OF ok i v f', folded c'_def]
  ultimately show ?thesis using F True programmedD(2,3) [OF f'] by (intro exI [of _ c']) (simp add: c'_def)
qed

section \<open>Finding a page\<close>

lemma scan_hit: "scan_pool b po i oi ot ps = Hit k \<Longrightarrow> i \<le> k \<and> k < i + length ps \<and> holds_page b po (ps ! (k - i))"
proof (induction ps arbitrary: i oi ot)
  case (Cons p ps)
  show ?case
  proof (cases "holds_page b po p")
    case False
    then obtain oi' ot' where "scan_pool b po (Suc i) oi' ot' ps = Hit k" using Cons.prems by (auto split: if_splits)
    from Cons.IH [OF this] show ?thesis by (auto simp: nth_Cons')
  qed (use Cons.prems in auto)
qed simp

lemma scan_victim:
  "scan_pool b po i oi ot ps = Victim r \<Longrightarrow> (\<forall>p \<in> set ps. \<not> holds_page b po p) \<and> (r = oi \<or> (\<exists>k. r = Some (i + k) \<and> k < length ps))"
proof (induction ps arbitrary: i oi ot)
  case (Cons p ps)
  then obtain oi' ot' where s: "scan_pool b po (Suc i) oi' ot' ps = Victim r" "oi' = oi \<or> oi' = Some i" and h: "\<not> holds_page b po p"
    by (auto split: if_splits)
  from Cons.IH [OF s(1)] have "\<forall>p \<in> set ps. \<not> holds_page b po p" "r = oi' \<or> (\<exists>k. r = Some (Suc i + k) \<and> k < length ps)" by blast+
  moreover from this(2) s(2) have "r = oi \<or> (\<exists>k. r = Some (i + k) \<and> k < length (p # ps))"
  proof (elim disjE exE conjE)
    fix k
    assume "r = Some (Suc i + k)" "k < length ps"
    then show ?thesis by (intro disjI2 exI [of _ "Suc k"]) simp
  qed auto
  ultimately show ?case using h by simp
qed simp

lemma scan_none:
  "scan_pool b po i oi ot ps = Victim None \<Longrightarrow> oi = None \<and> (\<forall>p \<in> set ps. is_reserved p \<or> is_valid p \<and> ot \<le> last_access_tick p)"
proof (induction ps arbitrary: i oi ot)
  case (Cons p ps)
  show ?case
  proof (cases "is_reserved p \<or> is_valid p \<and> ot \<le> last_access_tick p")
    case True
    then have "scan_pool b po (Suc i) oi ot ps = Victim None" using Cons.prems by (auto simp: not_less split: if_splits)
    from Cons.IH [OF this] show ?thesis using True by simp
  next
    case False
    then obtain ot' where "scan_pool b po (Suc i) (Some i) ot' ps = Victim None" using Cons.prems by (auto split: if_splits)
    from Cons.IH [OF this] show ?thesis by simp
  qed
qed simp

lemma begin_hit:
  assumes "cache_ok c" "scan_pool b po 0 None 0xFFFFFFFF (pool c) = Hit i"
  shows "i < 8" "holds_page b po (pool c ! i)"
  using scan_hit [OF assms(2)] cache_okD(1) [OF assms(1)] by auto

lemma begin_victim:
  assumes ok: "cache_ok c" and t: "tick_counter c < 0xFFFFFFFF" and s: "scan_pool b po 0 None 0xFFFFFFFF (pool c) = Victim r"
  obtains v where "r = Some v" "v < 8" "\<And>i. i < 8 \<Longrightarrow> \<not> holds_page b po (pool c ! i)"
proof -
  note D = cache_okD [OF ok] and V = scan_victim [OF s]
  have nh: "\<And>i. i < 8 \<Longrightarrow> \<not> holds_page b po (pool c ! i)" using V D(1) by auto
  have "r \<noteq> None"
  proof
    assume "r = None"
    then have "\<forall>p \<in> set (pool c). is_reserved p \<or> is_valid p \<and> 0xFFFFFFFF \<le> last_access_tick p" using scan_none s by blast
    then have "is_reserved (pool c ! 0) \<or> is_valid (pool c ! 0) \<and> 0xFFFFFFFF \<le> last_access_tick (pool c ! 0)" using D(1) by simp
    then show False using D(3) [of 0] D(4) [of 0] t by (auto simp: page_ok_def)
  qed
  then obtain v where "r = Some v" "v < 8" using V D(1) by auto
  then show thesis using that nh by blast
qed

text \<open>A tick on a page changes nothing else.\<close>

lemma upd_page_sel [simp]:
  "dev (upd_page i g c) = dev c" "tick_counter (upd_page i g c) = tick_counter c" "length (pool (upd_page i g c)) = length (pool c)"
  by (simp_all add: upd_page_def)

lemma pool_upd_page: "i < length (pool c) \<Longrightarrow> pool (upd_page i g c) ! k = (if k = i then g (pool c ! i) else pool c ! k)"
  by (simp add: upd_page_def)

lemma tick_le: "t < 0xFFFFFFFF \<Longrightarrow> a \<le> t \<Longrightarrow> a \<le> t + 1" for a t :: u32
proof -
  assume "t < 0xFFFFFFFF" "a \<le> t"
  moreover from this(1) have "unat (t + 1) = unat t + 1" by (simp add: unat_word_ariths word_less_nat_alt)
  ultimately show ?thesis by (simp add: word_le_nat_alt)
qed

lemma touch_ok:
  assumes ok: "cache_ok c" and i: "i < 8" and t: "tick_counter c < 0xFFFFFFFF"
  shows "cache_ok (touch i c)" "contents (touch i c) b j = contents c b j" "holds_page b' po (pool (touch i c) ! i) = holds_page b' po (pool c ! i)"
    "dev (touch i c) = dev c" "tick_counter (touch i c) = tick_counter c + 1"
proof -
  note D = cache_okD [OF ok]
  have P: "pool (touch i c) ! k = (if k = i then (pool c ! i)\<lparr>last_access_tick := tick_counter c + 1\<rparr> else pool c ! k)" for k
    using D(1) i by (simp add: touch_def pool_upd_page)
  show dv: "dev (touch i c) = dev c" "tick_counter (touch i c) = tick_counter c + 1" by (simp_all add: touch_def)
  show "holds_page b' po (pool (touch i c) ! i) = holds_page b' po (pool c ! i)" by (simp add: P holds_page_def)
  show ok': "cache_ok (touch i c)"
  proof (rule cache_okI)
    show "length (pool (touch i c)) = 8" "geometry (dev (touch i c))" using D(1,2) by (simp_all add: touch_def)
    show "k < 8 \<Longrightarrow> page_ok (dev (touch i c)) (pool (touch i c) ! k)" for k using D(3) [of k] by (auto simp: P dv page_ok_def)
    show "k < 8 \<Longrightarrow> is_valid (pool (touch i c) ! k) \<Longrightarrow> last_access_tick (pool (touch i c) ! k) \<le> tick_counter (touch i c)" for k
      using D(4) [of k] tick_le [OF t, of "last_access_tick (pool c ! k)"] by (cases "k = i") (simp_all add: P dv)
    show "k < 8 \<Longrightarrow> m < 8 \<Longrightarrow> same_key (pool (touch i c) ! k) (pool (touch i c) ! m) \<Longrightarrow> k = m" for k m
      using D(5) [of k m] by (cases "k = i"; cases "m = i") (simp_all add: P same_key_def)
  qed
  have h: "holds_page b (key_of j) (pool (touch i c) ! k) = holds_page b (key_of j) (pool c ! k)" "data (pool (touch i c) ! k) = data (pool c ! k)" for k
    by (simp_all add: P holds_page_def)
  show "contents (touch i c) b j = contents c b j"
  proof (cases "\<exists>k < 8. holds_page b (key_of j) (pool c ! k)")
    case True
    then obtain k where k: "k < 8" "holds_page b (key_of j) (pool c ! k)" by blast
    then show ?thesis using contents_page [OF ok k] contents_page [OF ok' k(1)] h by simp
  next
    case False
    then show ?thesis using contents_flash [of c b j] contents_flash [of "touch i c" b j] h D(1) cache_okD(1) [OF ok'] dv by simp
  qed
qed

text \<open>A clean page replaced by a page of the flash.\<close>

lemma replace_page:
  assumes ok: "cache_ok c" and v: "v < 8" "\<not> (is_valid (pool c ! v) \<and> is_dirty (pool c ! v))" and t: "tick_counter c < 0xFFFFFFFF"
    and none: "\<And>i. i < 8 \<Longrightarrow> \<not> holds_page b po (pool c ! i)"
    and r: "b < block_count (dev c)" "unat po mod 256 = 0" "unat po + 256 \<le> unat (block_size (dev c))"
    and p: "holds_page b po p" "\<not> is_dirty p" "\<not> is_reserved p" "last_access_tick p = tick_counter c + 1"
    and d: "\<And>i. i < 256 \<Longrightarrow> data p i = cell (dev c) b (unat po + i)"
  defines "c' \<equiv> c\<lparr>tick_counter := tick_counter c + 1, pool := (pool c)[v := p]\<rparr>"
  shows "cache_ok c'" "in_range (dev c) b' j \<Longrightarrow> contents c' b' j = contents c b' j"
proof -
  note D = cache_okD [OF ok]
  have P: "pool c' ! k = (if k = v then p else pool c ! k)" for k using D(1) v(1) by (simp add: c'_def)
  show ok': "cache_ok c'"
  proof (rule cache_okI)
    show "length (pool c') = 8" "geometry (dev c')" using D(1,2) by (simp_all add: c'_def)
    have "page_ok (dev c) p" using p r d by (simp add: page_ok_def holds_page_def)
    moreover have "dev c' = dev c" by (simp add: c'_def)
    ultimately show "k < 8 \<Longrightarrow> page_ok (dev c') (pool c' ! k)" for k using D(3) [of k] by (simp add: P)
    show "k < 8 \<Longrightarrow> is_valid (pool c' ! k) \<Longrightarrow> last_access_tick (pool c' ! k) \<le> tick_counter c'" for k
      using D(4) [of k] tick_le [OF t, of "last_access_tick (pool c ! k)"] p(4) by (cases "k = v") (simp_all add: P, simp_all add: c'_def)
    show "k = m" if "k < 8" "m < 8" "same_key (pool c' ! k) (pool c' ! m)" for k m
      using D(5) [of k m] none [of k] none [of m] that p(1)
      by (cases "k = v"; cases "m = v") (simp_all add: P same_key_def holds_page_def)
  qed
  assume rj: "in_range (dev c) b' j"
  have hv: "holds_page b' (key_of j) p \<longleftrightarrow> b' = b \<and> key_of j = po" using p(1) by (auto simp: holds_page_def)
  show "contents c' b' j = contents c b' j"
  proof (rule contents_same [OF ok ok' in_range_small [OF rj]])
    fix i
    assume i: "i < 8" "holds_page b' (key_of j) (pool c ! i)"
    show "holds_page b' (key_of j) (pool c' ! i) \<and> data (pool c' ! i) (j mod 256) = data (pool c ! i) (j mod 256)
        \<or> (\<forall>k < 8. \<not> holds_page b' (key_of j) (pool c' ! k)) \<and> cell (dev c') b' j = data (pool c ! i) (j mod 256)"
    proof (cases "i = v")
      case True
      have "\<not> is_dirty (pool c ! v)" using i(2) v(2) True by (auto simp: holds_page_def)
      then have "data (pool c ! v) (j mod 256) = cell (dev c) b' j" using cell_of_page(3) [OF D(3) [OF v(1)] _ rj] i(2) True by simp
      moreover have "\<not> holds_page b' (key_of j) (pool c' ! k)" if k: "k < 8" for k
      proof (cases "k = v")
        case True
        then show ?thesis using none [OF i(1)] i(2) by (auto simp: P hv)
      next
        case False
        then show ?thesis using D(5) [OF k v(1)] i(2) \<open>i = v\<close> by (auto simp: P same_key_def holds_page_def)
      qed
      ultimately show ?thesis using True by (simp add: c'_def)
    qed (use i in \<open>simp add: P\<close>)
  next
    fix i
    assume i: "i < 8" "\<And>k. k < 8 \<Longrightarrow> \<not> holds_page b' (key_of j) (pool c ! k)" "holds_page b' (key_of j) (pool c' ! i)"
    then have iv: "i = v" "b' = b" "key_of j = po" by (auto simp: P hv split: if_splits)
    have "unat po + j mod 256 = j" using unat_key [OF in_range_small [OF rj]] iv(3) by simp
    then show "data (pool c' ! i) (j mod 256) = cell (dev c) b' j" using d [of "j mod 256"] iv by (simp add: P)
  qed (simp add: c'_def)
qed

lemma counters_ignored [simp]:
  "cache_ok (c\<lparr>hit_count := x\<rparr>) = cache_ok c" "cache_ok (c\<lparr>miss_count := x\<rparr>) = cache_ok c"
  "contents (c\<lparr>hit_count := x\<rparr>) = contents c" "contents (c\<lparr>miss_count := x\<rparr>) = contents c"
proof -
  show "cache_ok (c\<lparr>hit_count := x\<rparr>) = cache_ok c" "cache_ok (c\<lparr>miss_count := x\<rparr>) = cache_ok c" by (simp_all add: cache_ok_def)
  show "contents (c\<lparr>hit_count := x\<rparr>) = contents c" "contents (c\<lparr>miss_count := x\<rparr>) = contents c"
    by (auto simp: contents_def fun_eq_iff split: option.split)
qed

lemma cached_size_256: "geometry f \<Longrightarrow> cached_size f = 256"
  by (simp add: geometry_def cached_size_def)

lemma load_page_cells:
  assumes g: "geometry f" and b: "b < block_count f" and po: "unat po + 256 \<le> unat (block_size f)" and i: "i < 256"
  shows "load_page stack b po f i = cell f b (unat po + i)"
proof -
  have "unat (block_size f) < 2 ^ 32" using unsigned_less [of "block_size f"] by simp
  then have "unat po + 256 < 2 ^ 32" using po by simp
  then have "unat (po + 256) = unat po + 256" by (simp add: unat_word_ariths)
  then have "\<not> block_size f < po + 256" using po by (simp add: word_less_nat_alt)
  then show ?thesis using b by (simp add: load_page_def read_blocks_def cached_size_256 [OF g] cell_def phys_addr_def not_le [symmetric] add.assoc)
qed

definition page_found :: "u32 \<Rightarrow> u32 \<Rightarrow> nat \<Rightarrow> cache \<Rightarrow> cache \<Rightarrow> bool" where
  "page_found b po i c c' \<longleftrightarrow> i < 8 \<and> cache_ok c' \<and> holds_page b po (pool c' ! i) \<and> tick_counter c' = tick_counter c + 1
     \<and> block_size (dev c') = block_size (dev c) \<and> block_count (dev c') = block_count (dev c)
     \<and> (\<forall>b' j. in_range (dev c) b' j \<longrightarrow> contents c' b' j = contents c b' j)"

text \<open>What a miss does when a slot can be replaced, for any page number.\<close>

definition fresh_page :: "buffer \<Rightarrow> u32 \<Rightarrow> u32 \<Rightarrow> flash \<Rightarrow> u32 \<Rightarrow> cache_page \<Rightarrow> bool" where
  "fresh_page stack b po f t p \<longleftrightarrow> holds_page b po p \<and> \<not> is_dirty p \<and> \<not> is_reserved p \<and> last_access_tick p = t
     \<and> (\<forall>i < 256. data p i = load_page stack b po f i)"

lemma load_new_page:
  assumes ok: "cache_ok c2" and v: "v < 8" and none: "\<And>i. i < 8 \<Longrightarrow> \<not> holds_page b po (pool c2 ! i)"
    and bp: "begin_page b po c = (Loading v, upd_page v (\<lambda>p. p\<lparr>is_valid := False, is_dirty := False, is_reserved := True,
       block_addr := b, page_offset := po\<rparr>) c2)"
  shows "\<exists>p. get_or_alloc_page stack b po c = Some (Some v, c2\<lparr>tick_counter := tick_counter c2 + 1, pool := (pool c2)[v := p]\<rparr>)
    \<and> fresh_page stack b po (dev c2) (tick_counter c2 + 1) p"
proof -
  note D = cache_okD [OF ok]
  define c3 where "c3 = upd_page v (\<lambda>p. p\<lparr>is_valid := False, is_dirty := False, is_reserved := True, block_addr := b, page_offset := po\<rparr>) c2"
  have P: "pool c3 ! k = (if k = v then (pool c2 ! v)\<lparr>is_valid := False, is_dirty := False, is_reserved := True, block_addr := b, page_offset := po\<rparr> else pool c2 ! k)" for k
    using v D(1) by (simp add: c3_def pool_upd_page)
  define tmp where "tmp = load_page stack b po (dev c2)"
  define p where "p = (pool c2 ! v)\<lparr>is_dirty := False, data := (\<lambda>i. if i < 256 then tmp i else data (pool c2 ! v) i),
      block_addr := b, page_offset := po, last_access_tick := tick_counter c2 + 1, is_valid := True, is_reserved := False\<rparr>"
  have fs: "first_slot (\<lambda>p. p) (map (\<lambda>i. i \<noteq> v \<and> holds_page b po (pool c3 ! i)) [0..<length (pool c3)]) = None"
  proof -
    have "length (pool c3) = 8" using D(1) by (simp add: c3_def)
    then show ?thesis using none by (auto simp: first_slot_None P)
  qed
  have dv: "dev c3 = dev c2" "tick_counter c3 = tick_counter c2" by (simp_all add: c3_def)
  have "finish_page v b po tmp c3 = (Some v, c2\<lparr>tick_counter := tick_counter c2 + 1, pool := (pool c2)[v := p]\<rparr>)"
    unfolding finish_page_def fs using v D(1,2)
    by (simp add: P dv cached_size_256 upd_page_def p_def cong: if_cong) (simp add: c3_def upd_page_def)
  then have "get_or_alloc_page stack b po c = Some (Some v, c2\<lparr>tick_counter := tick_counter c2 + 1, pool := (pool c2)[v := p]\<rparr>)"
    by (subst get_or_alloc_page.simps) (simp add: bp c3_def [symmetric] dv tmp_def)
  then show ?thesis by (intro exI [of _ p]) (simp add: fresh_page_def p_def holds_page_def tmp_def)
qed

lemma miss_ok:
  assumes ok: "cache_ok c" and t: "tick_counter c < 0xFFFFFFFF" and s: "scan_pool b po 0 None 0xFFFFFFFF (pool c) = Victim r"
  obtains v c2 p where "v < 8" "cache_ok c2" "\<not> (is_valid (pool c2 ! v) \<and> is_dirty (pool c2 ! v))" "\<And>i. i < 8 \<Longrightarrow> \<not> holds_page b po (pool c2 ! i)"
    "tick_counter c2 = tick_counter c" "block_size (dev c2) = block_size (dev c)" "block_count (dev c2) = block_count (dev c)"
    "\<And>b' j. in_range (dev c) b' j \<Longrightarrow> contents c2 b' j = contents c b' j"
    "get_or_alloc_page stack b po c = Some (Some v, c2\<lparr>tick_counter := tick_counter c2 + 1, pool := (pool c2)[v := p]\<rparr>)"
    "fresh_page stack b po (dev c2) (tick_counter c2 + 1) p"
proof -
  obtain v where v: "r = Some v" "v < 8" and none: "\<And>i. i < 8 \<Longrightarrow> \<not> holds_page b po (pool c ! i)"
    by (rule begin_victim [OF ok t s]) blast
  define c1 where "c1 = c\<lparr>miss_count := miss_count c + 1\<rparr>"
  have ok1: "cache_ok c1" using ok by (simp add: c1_def)
  obtain c2 where fl: "(if is_valid (pool c1 ! v) \<and> is_dirty (pool c1 ! v) then flush_page v c1 else (0, c1)) = (0, c2)"
      and ok2: "cache_ok c2" and pl: "pool c2 = (pool c1)[v := (pool c1 ! v)\<lparr>is_dirty := is_dirty (pool c1 ! v) \<and> \<not> is_valid (pool c1 ! v)\<rparr>]"
      and s2: "tick_counter c2 = tick_counter c1" "block_size (dev c2) = block_size (dev c1)" "block_count (dev c2) = block_count (dev c1)"
      and ct: "\<And>b j. in_range (dev c1) b j \<Longrightarrow> contents c2 b j = contents c1 b j"
    using flush_page_ok [OF ok1 v(2)] by (auto simp: flush_page_def split: if_splits)
  have l: "length (pool c1) = 8" by (rule cache_okD(1) [OF ok1])
  have none2: "\<not> holds_page b po (pool c2 ! i)" if "i < 8" for i
    using none [OF that] pl v(2) l by (cases "i = v") (simp_all add: c1_def holds_page_def)
  have bp: "begin_page b po c = (Loading v, upd_page v (\<lambda>p. p\<lparr>is_valid := False, is_dirty := False, is_reserved := True, block_addr := b, page_offset := po\<rparr>) c2)"
    using fl by (simp add: begin_page_def s v(1) c1_def [symmetric] Let_def)
  obtain p where "get_or_alloc_page stack b po c = Some (Some v, c2\<lparr>tick_counter := tick_counter c2 + 1, pool := (pool c2)[v := p]\<rparr>)"
      "fresh_page stack b po (dev c2) (tick_counter c2 + 1) p"
    using load_new_page [OF ok2 v(2) none2 bp, of stack] by blast
  moreover have "\<not> (is_valid (pool c2 ! v) \<and> is_dirty (pool c2 ! v))" using pl v(2) l by simp
  ultimately show thesis using that [OF v(2) ok2 _ none2] s2 ct by (simp add: c1_def)
qed

lemma get_page_ok:
  assumes ok: "cache_ok c" and t: "tick_counter c < 0xFFFFFFFF"
    and r: "b < block_count (dev c)" "unat po mod 256 = 0" "unat po + 256 \<le> unat (block_size (dev c))"
  shows "\<exists>i c'. get_or_alloc_page stack b po c = Some (Some i, c') \<and> page_found b po i c c'"
proof (cases "scan_pool b po 0 None 0xFFFFFFFF (pool c)")
  case (Hit i)
  note H = begin_hit [OF ok Hit] and T = touch_ok [OF ok begin_hit(1) [OF ok Hit] t]
  have "get_or_alloc_page stack b po c = Some (Some i, (touch i c)\<lparr>hit_count := hit_count c + 1\<rparr>)"
    by (subst get_or_alloc_page.simps) (simp add: begin_page_def Hit)
  then show ?thesis using H T by (intro exI [of _ i] exI) (auto simp: page_found_def)
next
  case (Victim r')
  obtain v c2 p where v: "v < 8" and ok2: "cache_ok c2" and cl: "\<not> (is_valid (pool c2 ! v) \<and> is_dirty (pool c2 ! v))"
      and none: "\<And>i. i < 8 \<Longrightarrow> \<not> holds_page b po (pool c2 ! i)"
      and s2: "tick_counter c2 = tick_counter c" "block_size (dev c2) = block_size (dev c)" "block_count (dev c2) = block_count (dev c)"
      and ct: "\<And>b' j. in_range (dev c) b' j \<Longrightarrow> contents c2 b' j = contents c b' j"
      and go: "get_or_alloc_page stack b po c = Some (Some v, c2\<lparr>tick_counter := tick_counter c2 + 1, pool := (pool c2)[v := p]\<rparr>)"
      and p: "fresh_page stack b po (dev c2) (tick_counter c2 + 1) p"
    by (rule miss_ok [OF ok t Victim, of stack]) blast
  have r2: "b < block_count (dev c2)" "unat po + 256 \<le> unat (block_size (dev c2))" "tick_counter c2 < 0xFFFFFFFF" using r t s2 by simp_all
  have p': "holds_page b po p" "\<not> is_dirty p" "\<not> is_reserved p" "last_access_tick p = tick_counter c2 + 1"
      "\<And>i. i < 256 \<Longrightarrow> data p i = cell (dev c2) b (unat po + i)"
    using p load_page_cells [OF cache_okD(2) [OF ok2] r2(1,2)] by (simp_all add: fresh_page_def)
  note R = replace_page [OF ok2 v cl r2(3) none r2(1) r(2) r2(2) p']
  define c4 where "c4 = c2\<lparr>tick_counter := tick_counter c2 + 1, pool := (pool c2)[v := p]\<rparr>"
  have "cache_ok c4" using R(1) by (simp add: c4_def)
  moreover have "contents c4 b' j = contents c b' j" if "in_range (dev c) b' j" for b' j
    using R(2) [of b' j] ct [OF that] that s2 by (simp add: c4_def in_range_def)
  ultimately have "page_found b po v c c4"
    using v s2 p'(1) cache_okD(1) [OF ok2] by (simp add: page_found_def c4_def)
  then show ?thesis using go by (auto simp: c4_def)
qed

section \<open>Reading and writing\<close>

lemma low_byte: "unat (v AND 255) = unat v mod 256" "unat (v AND NOT 255) = unat v div 256 * 256" for v :: u32
proof -
  have "v AND 255 = take_bit 8 v" by (simp add: take_bit_eq_mask mask_eq_exp_minus_1)
  then have "unat (v AND 255) = take_bit 8 (unat v)" by (simp only: unsigned_take_bit_eq)
  then show l: "unat (v AND 255) = unat v mod 256" by (simp add: take_bit_eq_mod)
  have "(v AND 255) + (v AND NOT 255) = v"
    by (subst disjunctive_add) (auto simp: bit_simps intro!: bit_word_eqI)
  then have "v AND NOT 255 = v - (v AND 255)" by (metis add_diff_cancel_left')
  moreover have "v AND 255 \<le> v" using l by (simp add: word_le_nat_alt)
  ultimately have "unat (v AND NOT 255) = unat v - unat v mod 256" using l by (simp add: unat_sub)
  then show "unat (v AND NOT 255) = unat v div 256 * 256" by (simp add: minus_mod_eq_div_mult)
qed

lemma chunk_at_page:
  assumes g: "geometry f" and cur: "unat cur < unat (block_size f)" and rest: "0 < unat rest" and c: "chunk_at f cur rest = (po, k, n)"
  shows "po = key_of (unat cur)" "unat po mod 256 = 0" "unat po + 256 \<le> unat (block_size f)" "unat po + unat k = unat cur" "unat k < 256"
    "unat n = min (256 - unat k) (unat rest)" "0 < unat n"
proof -
  have e: "po = cur AND NOT 255" "k = cur AND 255" "n = (if 256 - k > rest then rest else 256 - k)"
    using c by (auto simp: chunk_at_def Let_def cached_size_256 [OF g])
  have k: "unat k = unat cur mod 256" and po: "unat po = unat cur div 256 * 256" using low_byte [of cur] by (simp_all add: e)
  have "unat cur < 2 ^ 32" using unsigned_less [of cur] by simp
  then show "po = key_of (unat cur)" using unat_key [of "unat cur"] po by (simp add: word_unat_eq_iff)
  show "unat po mod 256 = 0" "unat po + unat k = unat cur" and kl: "unat k < 256" using k po by simp_all
  have "unat (256 - k) = 256 - unat k" using kl by (simp add: unat_sub word_le_nat_alt)
  then show n: "unat n = min (256 - unat k) (unat rest)" by (auto simp: e(3) word_less_nat_alt min_def)
  then show "0 < unat n" using kl rest by simp
  obtain m where m: "unat (block_size f) = 256 * m" using g by (auto simp: geometry_def)
  then have "unat cur div 256 < m" using cur by (simp add: less_mult_imp_div_less mult.commute)
  then have "unat cur div 256 + 1 \<le> m" by simp
  then have "(unat cur div 256 + 1) * 256 \<le> m * 256" by (rule mult_le_mono1)
  then show "unat po + 256 \<le> unat (block_size f)" using po m by simp
qed

lemma page_bytes:
  assumes "cache_ok c" "i < 8" "holds_page b po (pool c ! i)" "unat po mod 256 = 0" "m < 256"
  shows "contents c b (unat po + m) = data (pool c ! i) m"
proof -
  have d: "(unat po + m) div 256 * 256 = unat po" "(unat po + m) mod 256 = m"
  proof -
    have "unat po = 256 * (unat po div 256)" using assms(4) mult_div_mod_eq [of 256 "unat po"] by simp
    then obtain q where "unat po = 256 * q" by blast
    then show "(unat po + m) div 256 * 256 = unat po" "(unat po + m) mod 256 = m" using assms(5) by simp_all
  qed
  then have "key_of (unat po + m) = po" by (simp add: key_of_def)
  then show ?thesis using contents_page [OF assms(1,2), of b "unat po + m"] assms(3) d by simp
qed

text \<open>The part of an access in one page.\<close>

definition next_part :: "cache \<Rightarrow> u32 \<Rightarrow> u32 \<Rightarrow> u32 \<Rightarrow> u32 \<Rightarrow> bool" where
  "next_part c b off sz k \<longleftrightarrow> cache_ok c \<and> b < block_count (dev c) \<and> unat off + unat sz \<le> unat (block_size (dev c))
     \<and> unat k \<le> unat sz \<and> unat (tick_counter c) + (unat sz - unat k) < 0xFFFFFFFF"

lemma part_step:
  assumes I: "next_part c b off sz m" and lt: "m < sz" and ch: "chunk_at (dev c) (off + m) (sz - m) = (po, k, n)"
  shows "\<exists>i c1. get_or_alloc_page stack b po c = Some (Some i, c1) \<and> page_found b po i c c1"
    "unat po mod 256 = 0" "unat po + unat k = unat off + unat m" "unat k + unat n \<le> 256" "0 < unat n" "unat (m + n) = unat m + unat n" "unat m + unat n \<le> unat sz"
    "page_found b po i c c1 \<Longrightarrow> next_part c1 b off sz (m + n)"
proof -
  have ok: "cache_ok c" and b: "b < block_count (dev c)" and os: "unat off + unat sz \<le> unat (block_size (dev c))"
      and tk: "unat (tick_counter c) + (unat sz - unat m) < 0xFFFFFFFF" using I unfolding next_part_def by blast+
  have m: "unat m < unat sz" using lt by (simp add: word_less_nat_alt)
  have bs: "unat (block_size (dev c)) < 2 ^ 32" using unsigned_less [of "block_size (dev c)"] by simp
  have cur: "unat (off + m) = unat off + unat m" using os m bs by (simp add: unat_word_ariths)
  have rest: "unat (sz - m) = unat sz - unat m" using m by (simp add: unat_sub word_le_nat_alt)
  have curlt: "unat (off + m) < unat (block_size (dev c))" using cur os m by simp
  have rpos: "0 < unat (sz - m)" using rest m by simp
  note K = chunk_at_page [OF cache_okD(2) [OF ok] curlt rpos ch]
  show "unat po mod 256 = 0" "0 < unat n" by (rule K(2), rule K(7))
  show "unat po + unat k = unat off + unat m" using K(4) cur by simp
  show "unat k + unat n \<le> 256" using K(5,6) by simp
  show mn: "unat m + unat n \<le> unat sz" using K(6) rest m by simp
  then show mn': "unat (m + n) = unat m + unat n" using os bs by (simp add: unat_word_ariths)
  have "tick_counter c < 0xFFFFFFFF" using tk m by (simp add: word_less_nat_alt)
  then show "\<exists>i c1. get_or_alloc_page stack b po c = Some (Some i, c1) \<and> page_found b po i c c1"
    by (rule get_page_ok [OF ok _ b K(2,3)])
  assume F: "page_found b po i c c1"
  have "unat (tick_counter c1) = unat (tick_counter c) + 1" using F tk m by (simp add: page_found_def unat_word_ariths)
  then show "next_part c1 b off sz (m + n)" using F b os mn mn' tk K(7) m by (simp add: next_part_def page_found_def)
qed

lemma page_foundD:
  assumes "page_found b po i c c1"
  shows "i < 8" "cache_ok c1" "holds_page b po (pool c1 ! i)" "in_range (dev c) b' j \<Longrightarrow> contents c1 b' j = contents c b' j"
    "in_range (dev c1) b' j = in_range (dev c) b' j"
  using assms by (simp_all add: page_found_def in_range_def)

lemma read_from_ok:
  assumes "next_part c b off sz m"
  shows "\<exists>buf' c'. cache_read_from stack b off sz m buf c = Some (sint sz, buf', c') \<and> cache_ok c'
    \<and> (\<forall>b' j. in_range (dev c) b' j \<longrightarrow> contents c' b' j = contents c b' j)
    \<and> (\<forall>j. buf' j = (if unat m \<le> j \<and> j < unat sz then contents c b (unat off + j) else buf j))"
  using assms
proof (induction "unat sz - unat m" arbitrary: m buf c rule: less_induct)
  case less
  show ?case
  proof (cases "m < sz")
    case False
    then have "m = sz" using less.prems by (simp add: next_part_def word_less_nat_alt word_unat_eq_iff)
    then show ?thesis using less.prems by (subst cache_read_from.simps) (auto simp: next_part_def)
  next
    case True
    obtain po k n where ch: "chunk_at (dev c) (off + m) (sz - m) = (po, k, n)" by (metis prod_cases3)
    note S = part_step [OF less.prems True ch]
    obtain i c1 where go: "get_or_alloc_page stack b po c = Some (Some i, c1)" and F: "page_found b po i c c1" using S(1) by blast
    note F' = page_foundD [OF F]
    define buf1 where "buf1 = (\<lambda>j. if unat m \<le> j \<and> j < unat m + unat n then data (pool c1 ! i) (unat k + (j - unat m)) else buf j)"
    have e: "cache_read_from stack b off sz m buf c = cache_read_from stack b off sz (m + n) buf1 c1"
      using True ch go by (subst cache_read_from.simps) (simp add: buf1_def)
    have ml: "unat sz - unat (m + n) < unat sz - unat m" using S(5-7) by simp
    obtain buf' c' where R: "cache_read_from stack b off sz (m + n) buf1 c1 = Some (sint sz, buf', c')" "cache_ok c'"
        "\<And>b' j. in_range (dev c1) b' j \<Longrightarrow> contents c' b' j = contents c1 b' j"
        "\<And>j. buf' j = (if unat (m + n) \<le> j \<and> j < unat sz then contents c1 b (unat off + j) else buf1 j)"
      using less.hyps [OF ml S(8) [OF F], of buf1] by blast
    have rng: "in_range (dev c) b (unat off + j)" if "j < unat sz" for j
      using less.prems that by (simp add: next_part_def in_range_def)
    have here: "buf1 j = contents c b (unat off + j)" if j: "unat m \<le> j" "j < unat m + unat n" for j
    proof -
      have l: "unat k + (j - unat m) < 256" using j S(4) by simp
      have "unat po + (unat k + (j - unat m)) = unat off + j" using j S(3) by simp
      then have "contents c1 b (unat off + j) = data (pool c1 ! i) (unat k + (j - unat m))"
        using page_bytes [OF F'(2,1,3) S(2) l] by simp
      then show ?thesis using j S(7) F'(4) [OF rng [of j]] by (simp add: buf1_def)
    qed
    have "buf' j = (if unat m \<le> j \<and> j < unat sz then contents c b (unat off + j) else buf j)" for j
      using R(4) [of j] here [of j] S(6,7) F'(4) [OF rng [of j]] by (auto simp: buf1_def)
    moreover have "contents c' b' j = contents c b' j" if "in_range (dev c) b' j" for b' j using R(3) F'(4,5) that by simp
    ultimately show ?thesis using e R(1,2) by auto
  qed
qed

text \<open>Writing into a cached page, clearing bits only.\<close>

lemma store_page_ok:
  assumes ok: "cache_ok c" and i: "i < 8" and h: "holds_page b po (pool c ! i)"
    and cl: "\<And>m. m < 256 \<Longrightarrow> d m AND contents c b (unat po + m) = d m"
  defines "c' \<equiv> upd_page i (\<lambda>p. p\<lparr>data := d, is_dirty := True\<rparr>) c"
  shows "cache_ok c'"
    "in_range (dev c) b' j \<Longrightarrow> contents c' b' j = (if b' = b \<and> unat po \<le> j \<and> j < unat po + 256 then d (j - unat po) else contents c b' j)"
proof -
  note D = cache_okD [OF ok]
  have v: "is_valid (pool c ! i)" "block_addr (pool c ! i) = b" "page_offset (pool c ! i) = po" using h by (simp_all add: holds_page_def)
  note P = page_okD [OF D(3) [OF i] v(1), unfolded v]
  have Q: "pool c' ! k = (if k = i then (pool c ! i)\<lparr>data := d, is_dirty := True\<rparr> else pool c ! k)" for k
    using D(1) i by (simp add: c'_def pool_upd_page)
  have hk: "holds_page b' q (pool c' ! k) = holds_page b' q (pool c ! k)" for b' q k by (simp add: Q holds_page_def)
  have dv: "dev c' = dev c" "tick_counter c' = tick_counter c" "length (pool c') = length (pool c)" by (simp_all add: c'_def)
  have bits: "d m AND cell (dev c) b (unat po + m) = d m" if m: "m < 256" for m
  proof -
    have e: "data (pool c ! i) m AND cell (dev c) b (unat po + m) = data (pool c ! i) m" by (rule P(4) [OF m])
    have "d m = d m AND data (pool c ! i) m" using cl [OF m] page_bytes [OF ok i h P(2) m] by simp
    then have "d m AND cell (dev c) b (unat po + m) = d m AND (data (pool c ! i) m AND cell (dev c) b (unat po + m))" by (metis and.assoc)
    then show ?thesis unfolding e using cl [OF m] page_bytes [OF ok i h P(2) m] by simp
  qed
  show ok': "cache_ok c'"
  proof (rule cache_okI)
    show "length (pool c') = 8" "geometry (dev c')" using D(1,2) dv by simp_all
    show "k < 8 \<Longrightarrow> page_ok (dev c') (pool c' ! k)" for k
      using D(3) [of k] bits v P(1-3) by (cases "k = i") (simp_all add: Q dv page_ok_def)
    show "k < 8 \<Longrightarrow> is_valid (pool c' ! k) \<Longrightarrow> last_access_tick (pool c' ! k) \<le> tick_counter c'" for k
      using D(4) [of k] by (cases "k = i") (simp_all add: Q dv)
    show "k < 8 \<Longrightarrow> m < 8 \<Longrightarrow> same_key (pool c' ! k) (pool c' ! m) \<Longrightarrow> k = m" for k m
      using D(5) [of k m] by (cases "k = i"; cases "m = i") (simp_all add: Q same_key_def)
  qed
  assume r: "in_range (dev c) b' j"
  show "contents c' b' j = (if b' = b \<and> unat po \<le> j \<and> j < unat po + 256 then d (j - unat po) else contents c b' j)"
  proof (cases "b' = b \<and> unat po \<le> j \<and> j < unat po + 256")
    case True
    then have m: "j - unat po < 256" "unat po + (j - unat po) = j" by linarith+
    have "holds_page b po (pool c' ! i)" using h hk by simp
    from page_bytes [OF ok' i this P(2) m(1)] show ?thesis using True m(2) by (simp add: Q)
  next
    case False
    have "\<not> holds_page b' (key_of j) (pool c ! i)"
    proof
      assume "holds_page b' (key_of j) (pool c ! i)"
      then have "b' = b" "unat po = j div 256 * 256" using unat_key [OF in_range_small [OF r]] v by (auto simp: holds_page_def)
      then show False using False div_mult_mod_eq [of j 256] mod_less_divisor [of 256 j] by linarith
    qed
    then have "contents c' b' j = contents c b' j"
      using hk by (intro contents_same [OF ok ok' in_range_small [OF r]]) (auto simp: dv Q)
    then show ?thesis unfolding if_not_P [OF False] .
  qed
qed

definition clears_only :: "cache \<Rightarrow> u32 \<Rightarrow> nat \<Rightarrow> nat \<Rightarrow> nat \<Rightarrow> buffer \<Rightarrow> bool" where
  "clears_only c b off m sz buf \<longleftrightarrow> (\<forall>j. m \<le> j \<longrightarrow> j < sz \<longrightarrow> buf j AND contents c b (off + j) = buf j)"

text \<open>The part of a write in one page.\<close>

lemma store_part:
  assumes F: "page_found b po i c c1" and po: "unat po mod 256 = 0" and kn: "unat po + k = off + m" "k + n \<le> 256" "m + n \<le> sz"
    and r: "b < block_count (dev c)" "off + sz \<le> unat (block_size (dev c))" and cl: "clears_only c b off m sz buf"
  defines "c2 \<equiv> upd_page i (\<lambda>p. p\<lparr>data := (\<lambda>j. if k \<le> j \<and> j < k + n then buf (m + (j - k)) else data p j), is_dirty := True\<rparr>) c1"
  shows "cache_ok c2" "in_range (dev c) b' j \<Longrightarrow> contents c2 b' j = (if b' = b \<and> off + m \<le> j \<and> j < off + m + n then buf (j - off) else contents c b' j)"
    "clears_only c2 b off (m + n) sz buf"
proof -
  note F' = page_foundD [OF F]
  let ?d = "\<lambda>j. if k \<le> j \<and> j < k + n then buf (m + (j - k)) else data (pool c1 ! i) j"
  have l: "length (pool c1) = 8" by (rule cache_okD(1) [OF F'(2)])
  have c2: "c2 = upd_page i (\<lambda>p. p\<lparr>data := ?d, is_dirty := True\<rparr>) c1" by (simp add: c2_def upd_page_def)
  have rng: "in_range (dev c) b (off + j)" if "j < sz" for j using r that by (simp add: in_range_def)
  have bytes: "contents c1 b (unat po + j) = data (pool c1 ! i) j" if "j < 256" for j
    by (rule page_bytes [OF F'(2,1,3) po that])
  have v: "is_valid (pool c1 ! i)" "block_addr (pool c1 ! i) = b" "page_offset (pool c1 ! i) = po" using F'(3) by (simp_all add: holds_page_def)
  have clr: "?d j AND contents c1 b (unat po + j) = ?d j" if j: "j < 256" for j
  proof (cases "k \<le> j \<and> j < k + n")
    case True
    then have e: "unat po + j = off + (m + (j - k))" and s: "m + (j - k) < sz" using kn by linarith+
    have "buf (m + (j - k)) AND contents c b (off + (m + (j - k))) = buf (m + (j - k))" using cl s unfolding clears_only_def by simp
    then show ?thesis using True e F'(4) [OF rng [OF s]] by simp
  next
    case False
    show ?thesis unfolding if_not_P [OF False] bytes [OF j] by simp
  qed
  note S = store_page_ok [OF F'(2,1,3) clr, folded c2]
  show "cache_ok c2" by (rule S(1))
  show ct: "contents c2 b' j = (if b' = b \<and> off + m \<le> j \<and> j < off + m + n then buf (j - off) else contents c b' j)"
    if rj: "in_range (dev c) b' j" for b' j
  proof (cases "b' = b \<and> unat po \<le> j \<and> j < unat po + 256")
    case True
    then have m: "j - unat po < 256" "unat po + (j - unat po) = j" by linarith+
    have d: "contents c2 b' j = ?d (j - unat po)" using S(2) [of b' j] F'(5) rj True by simp
    show ?thesis
    proof (cases "off + m \<le> j \<and> j < off + m + n")
      case w: True
      then have "k \<le> j - unat po" "j - unat po < k + n" "m + (j - unat po - k) = j - off" using kn True by linarith+
      then show ?thesis using d w True by simp
    next
      case w: False
      then have "\<not> (k \<le> j - unat po \<and> j - unat po < k + n)" using kn True m(2) by linarith
      then show ?thesis using d w bytes [OF m(1)] m(2) True F'(4) [OF rj] by auto
    qed
  next
    case False
    then have "\<not> (b' = b \<and> off + m \<le> j \<and> j < off + m + n)" using kn by linarith
    then show ?thesis using S(2) [of b' j] F'(4,5) rj False by auto
  qed
  show "clears_only c2 b off (m + n) sz buf"
    unfolding clears_only_def
  proof (intro allI impI)
    fix j
    assume j: "m + n \<le> j" "j < sz"
    have "contents c2 b (off + j) = contents c b (off + j)" using ct [OF rng [OF j(2)]] j(1) by simp
    then show "buf j AND contents c2 b (off + j) = buf j" using cl j unfolding clears_only_def by simp
  qed
qed

lemma write_from_ok:
  assumes "next_part c b off sz m" "clears_only c b (unat off) (unat m) (unat sz) buf"
  shows "\<exists>c'. cache_write_from stack b off sz m buf c = Some (sint sz, c') \<and> cache_ok c'
    \<and> (\<forall>b' j. in_range (dev c) b' j \<longrightarrow> contents c' b' j =
        (if b' = b \<and> unat off + unat m \<le> j \<and> j < unat off + unat sz then buf (j - unat off) else contents c b' j))"
  using assms
proof (induction "unat sz - unat m" arbitrary: m c rule: less_induct)
  case less
  show ?case
  proof (cases "m < sz")
    case False
    then have "m = sz" using less.prems(1) by (simp add: next_part_def word_less_nat_alt word_unat_eq_iff)
    then show ?thesis using less.prems(1) by (subst cache_write_from.simps) (auto simp: next_part_def)
  next
    case True
    obtain po k n where ch: "chunk_at (dev c) (off + m) (sz - m) = (po, k, n)" by (metis prod_cases3)
    note S = part_step [OF less.prems(1) True ch]
    obtain i c1 where go: "get_or_alloc_page stack b po c = Some (Some i, c1)" and F: "page_found b po i c c1" using S(1) by blast
    define c2 where "c2 = upd_page i (\<lambda>p. p\<lparr>data := (\<lambda>j. if unat k \<le> j \<and> j < unat k + unat n then buf (unat m + (j - unat k)) else data p j),
        is_dirty := True\<rparr>) c1"
    have e: "cache_write_from stack b off sz m buf c = cache_write_from stack b off sz (m + n) buf c2"
      using True ch go by (subst cache_write_from.simps) (simp add: c2_def)
    have r: "b < block_count (dev c)" "unat off + unat sz \<le> unat (block_size (dev c))" using less.prems(1) by (simp_all add: next_part_def)
    note W = store_part [OF F S(2,3,4,7) r less.prems(2), folded c2_def]
    have dv: "dev c2 = dev c1" "tick_counter c2 = tick_counter c1" by (simp_all add: c2_def)
    have I: "next_part c2 b off sz (m + n)" using S(8) [OF F] W(1) unfolding next_part_def dv by blast
    have rg: "in_range (dev c2) b' j = in_range (dev c) b' j" for b' j using page_foundD(5) [OF F] by (simp add: dv)
    have ml: "unat sz - unat (m + n) < unat sz - unat m" using S(5-7) by simp
    obtain c' where R: "cache_write_from stack b off sz (m + n) buf c2 = Some (sint sz, c')" "cache_ok c'"
        "\<And>b' j. in_range (dev c2) b' j \<Longrightarrow> contents c' b' j =
          (if b' = b \<and> unat off + unat (m + n) \<le> j \<and> j < unat off + unat sz then buf (j - unat off) else contents c2 b' j)"
      using less.hyps [OF ml I] W(3) S(6) by auto
    have "contents c' b' j = (if b' = b \<and> unat off + unat m \<le> j \<and> j < unat off + unat sz then buf (j - unat off) else contents c b' j)"
      if rj: "in_range (dev c) b' j" for b' j
      using R(3) [of b' j] rg rj W(2) [OF rj] S(6,7) by auto
    then show ?thesis using e R(1,2) by auto
  qed
qed

section \<open>Erasing and synchronising\<close>

lemma erase_cells:
  assumes g: "geometry f" and b: "b < block_count f"
  shows "\<exists>f'. erase_block b f = (0, f') \<and> geometry f' \<and> block_size f' = block_size f \<and> block_count f' = block_count f
    \<and> (\<forall>b' j. in_range f b' j \<longrightarrow> cell f' b' j = (if b' = b then 0xFF else cell f b' j))"
proof -
  obtain f' where f': "erase_block b f = (0, f')" "block_size f' = block_size f" "block_count f' = block_count f" "page_size f' = page_size f"
      and m: "fl_mem f' = (\<lambda>a. if b * block_size f \<le> a \<and> unat a < unat (b * block_size f) + unat (block_size f) then 0xFF else fl_mem f a)"
    using b by (simp add: erase_block_def not_le Let_def)
  have "cell f' b' j = (if b' = b then 0xFF else cell f b' j)" if r: "in_range f b' j" for b' j
  proof -
    have "in_range f b 0" using r b by (simp add: in_range_def)
    then have B: "unat (b * block_size f) = unat b * unat (block_size f)" using unat_cell(1) [OF g, of b 0] by (simp add: phys_addr_def)
    define a where "a = phys_addr b' 0 f + of_nat j"
    have A: "unat a = unat b' * unat (block_size f) + j" unfolding a_def by (rule unat_cell(1) [OF g r])
    have j: "j < unat (block_size f)" using r by (simp add: in_range_def)
    have "unat b' = unat b" if h: "unat b * unat (block_size f) \<le> unat a" "unat a < unat b * unat (block_size f) + unat (block_size f)"
    proof -
      have "unat a div unat (block_size f) = unat b" using h by (intro div_nat_eqI) (simp_all add: algebra_simps)
      moreover have "unat a div unat (block_size f) = unat b'" using A j by simp
      ultimately show ?thesis by simp
    qed
    then have "(b * block_size f \<le> a \<and> unat a < unat (b * block_size f) + unat (block_size f)) = (b' = b)"
      using A j by (auto simp: word_le_nat_alt B word_unat_eq_iff)
    moreover have "cell f' b' j = fl_mem f' a" "cell f b' j = fl_mem f a" by (simp_all add: cell_def a_def phys_addr_def f'(2))
    ultimately show ?thesis unfolding m by simp
  qed
  then show ?thesis using f' g by (simp add: geometry_def)
qed

lemma erase_ok:
  assumes ok: "cache_ok c" and b: "b < block_count (dev c)"
  shows "\<exists>c'. cache_erase b c = (0, c') \<and> cache_ok c'
    \<and> (\<forall>b' j. in_range (dev c) b' j \<longrightarrow> contents c' b' j = (if b' = b then 0xFF else contents c b' j))"
proof -
  note D = cache_okD [OF ok]
  obtain f' where f': "erase_block b (dev c) = (0, f')" and g: "geometry f'" "block_size f' = block_size (dev c)" "block_count f' = block_count (dev c)"
      and cl: "\<And>b' j. in_range (dev c) b' j \<Longrightarrow> cell f' b' j = (if b' = b then 0xFF else cell (dev c) b' j)"
    using erase_cells [OF D(2) b] by blast
  define drop_it :: "cache_page \<Rightarrow> cache_page" where "drop_it = (\<lambda>p. if (is_valid p \<or> is_reserved p) \<and> block_addr p = b
      then p\<lparr>is_valid := False, is_dirty := False, is_reserved := False\<rparr> else p)"
  define c' where "c' = c\<lparr>pool := map drop_it (pool c), dev := f'\<rparr>"
  have er: "cache_erase b c = (0, c')" using f' by (simp add: cache_erase_def c'_def drop_it_def)
  have pl: "pool c' ! k = drop_it (pool c ! k)" if "k < 8" for k using D(1) that by (simp add: c'_def)
  have vd: "is_valid (drop_it p) \<longleftrightarrow> is_valid p \<and> block_addr p \<noteq> b" "is_valid (drop_it p) \<Longrightarrow> drop_it p = p"
      "\<not> is_reserved p \<Longrightarrow> \<not> is_reserved (drop_it p)" for p by (auto simp: drop_it_def)
  have pg: "page_ok f' (drop_it p)" if p: "page_ok (dev c) p" for p
  proof (cases "is_valid (drop_it p)")
    case True
    then have "is_valid p" "block_addr p \<noteq> b" "drop_it p = p" using vd by blast+
    then show ?thesis using p cl [OF page_in_range [OF p]] g by (simp add: page_ok_def)
  next
    case False
    then show ?thesis using p vd(3) by (simp add: page_ok_def)
  qed
  have ok': "cache_ok c'"
  proof (rule cache_okI)
    show "length (pool c') = 8" "geometry (dev c')" using D(1) g by (simp_all add: c'_def)
    show "k < 8 \<Longrightarrow> page_ok (dev c') (pool c' ! k)" for k using pg [OF D(3)] pl by (simp add: c'_def)
    show "k < 8 \<Longrightarrow> is_valid (pool c' ! k) \<Longrightarrow> last_access_tick (pool c' ! k) \<le> tick_counter c'" for k
      using D(4) [of k] vd [of "pool c ! k"] by (simp add: pl) (simp add: c'_def)
    show "k < 8 \<Longrightarrow> m < 8 \<Longrightarrow> same_key (pool c' ! k) (pool c' ! m) \<Longrightarrow> k = m" for k m
      using D(5) [of k m] vd [of "pool c ! k"] vd [of "pool c ! m"] by (auto simp: pl same_key_def)
  qed
  have hp: "holds_page b' po (pool c' ! k) \<longleftrightarrow> holds_page b' po (pool c ! k) \<and> b' \<noteq> b" if "k < 8" for b' po k
    using pl [OF that] vd [of "pool c ! k"] by (auto simp: holds_page_def)
  have "contents c' b' j = (if b' = b then 0xFF else contents c b' j)" if r: "in_range (dev c) b' j" for b' j
  proof (cases "b' = b")
    case True
    then have "contents c' b' j = cell (dev c') b' j" using hp cache_okD(1) [OF ok'] by (intro contents_flash) simp
    then show ?thesis using cl [OF r] True by (simp add: c'_def)
  next
    case False
    then have "contents c' b' j = contents c b' j"
      by (intro contents_same [OF ok ok' in_range_small [OF r]]) (use hp pl vd cl [OF r] in \<open>auto simp: c'_def holds_page_def\<close>)
    then show ?thesis using False by simp
  qed
  then show ?thesis using er ok' by blast
qed

lemma sync_from_ok:
  assumes "cache_ok c" "\<forall>i \<in> set is. i < 8"
  shows "\<exists>c'. sync_from is 0 c = (0, c') \<and> cache_ok c' \<and> (\<forall>b j. in_range (dev c') b j = in_range (dev c) b j)
    \<and> (\<forall>b j. in_range (dev c) b j \<longrightarrow> contents c' b j = contents c b j)
    \<and> (\<forall>k < 8. k \<in> set is \<or> \<not> (is_valid (pool c ! k) \<and> is_dirty (pool c ! k)) \<longrightarrow> \<not> (is_valid (pool c' ! k) \<and> is_dirty (pool c' ! k)))"
  using assms
proof (induction "is" arbitrary: c)
  case (Cons i "is")
  obtain c1 where fl: "flush_page i c = (0, c1)" and ok1: "cache_ok c1"
      and pl: "pool c1 = (pool c)[i := (pool c ! i)\<lparr>is_dirty := is_dirty (pool c ! i) \<and> \<not> is_valid (pool c ! i)\<rparr>]"
      and s: "block_size (dev c1) = block_size (dev c)" "block_count (dev c1) = block_count (dev c)"
      and ct: "\<And>b j. in_range (dev c) b j \<Longrightarrow> contents c1 b j = contents c b j"
    using flush_page_ok [OF Cons.prems(1), of i] Cons.prems(2) by auto
  have st: "sync_from (i # is) 0 c = sync_from is 0 c1" using fl by (auto simp: flush_page_def)
  have cln: "\<not> (is_valid (pool c1 ! k) \<and> is_dirty (pool c1 ! k))" if "k = i \<or> \<not> (is_valid (pool c ! k) \<and> is_dirty (pool c ! k))" for k
    using that Cons.prems(2) cache_okD(1) [OF Cons.prems(1)] by (cases "k = i") (auto simp: pl)
  obtain c' where R: "sync_from is 0 c1 = (0, c')" "cache_ok c'" "\<And>b j. in_range (dev c') b j = in_range (dev c1) b j"
      "\<And>b j. in_range (dev c1) b j \<Longrightarrow> contents c' b j = contents c1 b j"
      "\<And>k. k < 8 \<Longrightarrow> k \<in> set is \<or> \<not> (is_valid (pool c1 ! k) \<and> is_dirty (pool c1 ! k)) \<Longrightarrow> \<not> (is_valid (pool c' ! k) \<and> is_dirty (pool c' ! k))"
    using Cons.IH [OF ok1] Cons.prems(2) by auto
  have rg: "in_range (dev c1) b j = in_range (dev c) b j" for b j using s by (simp add: in_range_def)
  show ?case
  proof (intro exI conjI allI impI)
    show "sync_from (i # is) 0 c = (0, c')" using st R(1) by simp
    show "in_range (dev c') b j = in_range (dev c) b j" for b j using R(3) rg by simp
    show "contents c' b j = contents c b j" if "in_range (dev c) b j" for b j using R(4) [of b j] ct [OF that] rg that by simp
    show "\<not> (is_valid (pool c' ! k) \<and> is_dirty (pool c' ! k))"
      if "k < 8" "k \<in> set (i # is) \<or> \<not> (is_valid (pool c ! k) \<and> is_dirty (pool c ! k))" for k
      using R(5) [OF that(1)] cln [of k] that(2) by auto
  qed (rule R(2))
qed auto

lemma sync_ok:
  assumes "cache_ok c"
  shows "\<exists>c'. cache_sync c = (0, c') \<and> cache_ok c' \<and> (\<forall>b j. in_range (dev c) b j \<longrightarrow> contents c' b j = contents c b j \<and> cell (dev c') b j = contents c b j)"
proof -
  obtain c' where R: "cache_sync c = (0, c')" "cache_ok c'" "\<And>b j. in_range (dev c') b j = in_range (dev c) b j"
      "\<And>b j. in_range (dev c) b j \<Longrightarrow> contents c' b j = contents c b j" and cln: "\<And>k. k < 8 \<Longrightarrow> \<not> (is_valid (pool c' ! k) \<and> is_dirty (pool c' ! k))"
    using sync_from_ok [OF assms, of "[0..<8]"] by (auto simp: cache_sync_def)
  have "cell (dev c') b j = contents c' b j" if r: "in_range (dev c) b j" for b j
  proof (cases "\<exists>k < 8. holds_page b (key_of j) (pool c' ! k)")
    case True
    then obtain k where k: "k < 8" "holds_page b (key_of j) (pool c' ! k)" by blast
    then have "\<not> is_dirty (pool c' ! k)" using cln [OF k(1)] by (simp add: holds_page_def)
    from cell_of_page(3) [OF cache_okD(3) [OF R(2) k(1)] k(2) _ this] contents_page [OF R(2) k] R(3) r show ?thesis by simp
  next
    case False
    then show ?thesis using contents_flash [of c' b j] cache_okD(1) [OF R(2)] by auto
  qed
  then show ?thesis using R by auto
qed

section \<open>A page the flash does not have\<close>

text \<open>A dirty page whose block number the device refuses.\<close>

definition stuck :: "nat \<Rightarrow> cache \<Rightarrow> bool" where
  "stuck v c \<longleftrightarrow> is_valid (pool c ! v) \<and> is_dirty (pool c ! v) \<and> block_count (dev c) \<le> block_addr (pool c ! v)"

lemma write_blocks_result:
  "fst (write_blocks b off ba buf n f) = 0 \<or> fst (write_blocks b off ba buf n f) = -1"
  "block_count (snd (write_blocks b off ba buf n f)) = block_count f"
  by (simp_all add: write_blocks_def Let_def)

lemma write_retry_result:
  "(r = -1 \<longrightarrow> fst (write_retry n r p f) = 0 \<or> fst (write_retry n r p f) = -1) \<and> block_count (snd (write_retry n r p f)) = block_count f"
proof (induction n arbitrary: r f)
  case (Suc n)
  obtain r' f' where w: "write_blocks (block_addr p) (page_offset p) 0 (data p) (page_size f) f = (r', f')" by fastforce
  note R = write_blocks_result [of "block_addr p" "page_offset p" 0 "data p" "page_size f" f, unfolded w, simplified]
  have "write_retry (Suc n) r p f = (if r' = 0 then (r', f') else write_retry n r' p f')" by (simp add: w)
  then show ?case using Suc.IH [of r' f'] R by auto
qed simp

lemma write_retry_refused:
  "block_count f \<le> block_addr p \<Longrightarrow> write_retry n (-1) p f = (-1, f)"
  by (induction n) (simp_all add: write_blocks_def)

lemma flush_stuck: "stuck v c \<Longrightarrow> flush_page v c = (-1, c)"
  by (simp add: stuck_def flush_page_def write_retry_refused)

lemma flush_other:
  assumes "flush_page i c = (r, c')"
  shows "r = 0 \<or> r = -1" "v \<noteq> i \<Longrightarrow> stuck v c \<Longrightarrow> stuck v c'"
proof -
  obtain r' f' where w: "write_retry 3 (-1) (pool c ! i) (dev c) = (r', f')" by fastforce
  have R: "r' = 0 \<or> r' = -1" "block_count f' = block_count (dev c)"
    using write_retry_result [where r = "-1" and n = 3 and p = "pool c ! i" and f = "dev c"] by (simp_all add: w)
  show "r = 0 \<or> r = -1" using assms R(1) by (auto simp: flush_page_def w Let_def split: if_splits)
  show "v \<noteq> i \<Longrightarrow> stuck v c \<Longrightarrow> stuck v c'"
    using assms R(2) by (auto simp: flush_page_def w Let_def stuck_def pool_upd_page upd_page_def split: if_splits)
qed

lemma sync_failed: "sync_from is (-1) c = (-1, snd (sync_from is (-1) c))"
  by (induction "is" arbitrary: c) (auto split: prod.splits)

lemma sync_stuck:
  assumes "v \<in> set is" "stuck v c" "r = 0 \<or> r = -1"
  shows "fst (sync_from is r c) = -1"
  using assms
proof (induction "is" arbitrary: c r)
  case (Cons i "is")
  show ?case
  proof (cases "r = -1")
    case True
    then show ?thesis using sync_failed [of "i # is" c] by (metis fst_conv)
  next
    case r: False
    show ?thesis
    proof (cases "i = v")
      case True
      then show ?thesis using flush_stuck [OF Cons.prems(2)] Cons.prems(2,3) r sync_failed [of "is" c] by (auto simp: stuck_def) (metis fst_conv)
    next
      case False
      obtain r1 c1 where fl: "flush_page i c = (r1, c1)" by fastforce
      have s: "stuck v c1" "r1 = 0 \<or> r1 = -1" using flush_other [OF fl] False Cons.prems(2) by auto
      show ?thesis using Cons.IH [OF _ s(1)] Cons.IH [OF _ Cons.prems(2)] Cons.prems(1,3) False s(2) r by (auto simp: fl)
    qed
  qed
qed simp

lemma lost_write:
  assumes ok: "cache_ok c" and t: "tick_counter c < 0xFFFFFFFF" and b: "block_count (dev c) \<le> b"
    and sz: "0 < sz" "sz \<le> 256 - (off AND 255)"
  shows "\<exists>c' v. cache_write stack b off sz buf c = Some (sint sz, c') \<and> v < 8 \<and> stuck v c'"
proof -
  note D = cache_okD [OF ok]
  obtain po k where ch: "chunk_at (dev c) (off + 0) (sz - 0) = (po, k, sz)"
    using sz by (auto simp: chunk_at_def Let_def cached_size_256 [OF D(2)])
  have none: "\<not> holds_page b po (pool c ! i)" if "i < 8" for i
    using page_okD(1) [OF D(3) [OF that]] b by (auto simp: holds_page_def)
  obtain r where s: "scan_pool b po 0 None 0xFFFFFFFF (pool c) = Victim r"
    using begin_hit [OF ok] none by (cases "scan_pool b po 0 None 0xFFFFFFFF (pool c)") blast+
  obtain v c2 p where v: "v < 8" and ok2: "cache_ok c2" and bc: "block_count (dev c2) = block_count (dev c)"
      and go: "get_or_alloc_page stack b po c = Some (Some v, c2\<lparr>tick_counter := tick_counter c2 + 1, pool := (pool c2)[v := p]\<rparr>)"
      and p: "fresh_page stack b po (dev c2) (tick_counter c2 + 1) p"
    by (rule miss_ok [OF ok t s, of stack]) blast
  define c' where "c' = upd_page v (\<lambda>p. p\<lparr>data := (\<lambda>j. if unat k \<le> j \<and> j < unat k + unat sz then buf (unat (0 :: u32) + (j - unat k)) else data p j),
      is_dirty := True\<rparr>) (c2\<lparr>tick_counter := tick_counter c2 + 1, pool := (pool c2)[v := p]\<rparr>)"
  have "cache_write stack b off sz buf c = cache_write_from stack b off sz (0 + sz) buf c'"
    unfolding cache_write_def using sz(1) ch go by (subst cache_write_from.simps) (simp add: c'_def)
  also have "\<dots> = Some (sint sz, c')" by (subst cache_write_from.simps) simp
  moreover have "stuck v c'"
    using p v b bc cache_okD(1) [OF ok2] by (simp add: c'_def stuck_def upd_page_def fresh_page_def holds_page_def)
  ultimately show ?thesis using v by auto
qed

text \<open>The stuck page is the oldest of a full pool.\<close>

definition wedged :: "nat \<Rightarrow> cache \<Rightarrow> bool" where
  "wedged v c \<longleftrightarrow> length (pool c) = CACHE_POOL_SIZE \<and> v < CACHE_POOL_SIZE \<and> stuck v c
     \<and> last_access_tick (pool c ! v) < 0xFFFFFFFF
     \<and> (\<forall>i < CACHE_POOL_SIZE. is_valid (pool c ! i) \<and> \<not> is_reserved (pool c ! i)
          \<and> (i \<noteq> v \<longrightarrow> last_access_tick (pool c ! v) < last_access_tick (pool c ! i)))"

lemma scan_keeps_oldest:
  assumes "\<forall>p \<in> set ps. is_valid p \<and> ot \<le> last_access_tick p \<and> \<not> holds_page b po p"
  shows "scan_pool b po i oi ot ps = Victim oi"
  using assms by (induction ps arbitrary: i) (auto simp: not_less)

lemma scan_oldest:
  assumes "v < length ps" "last_access_tick (ps ! v) < ot" "\<forall>p \<in> set ps. is_valid p \<and> \<not> is_reserved p \<and> \<not> holds_page b po p"
    "\<forall>k < length ps. k \<noteq> v \<longrightarrow> last_access_tick (ps ! v) < last_access_tick (ps ! k)"
  shows "scan_pool b po i oi ot ps = Victim (Some (i + v))"
  using assms
proof (induction ps arbitrary: i oi ot v)
  case (Cons p ps)
  show ?case
  proof (cases v)
    case 0
    have "last_access_tick p < last_access_tick (ps ! m)" if "m < length ps" for m
      using Cons.prems(4) [rule_format, of "Suc m"] that 0 by simp
    then have "\<forall>q \<in> set ps. last_access_tick p < last_access_tick q" by (auto simp: in_set_conv_nth)
    then have "scan_pool b po (Suc i) (Some i) (last_access_tick p) ps = Victim (Some i)"
      using Cons.prems(3) by (intro scan_keeps_oldest) (auto simp: less_imp_le)
    then show ?thesis using Cons.prems(2,3) 0 by simp
  next
    case (Suc w)
    have w: "last_access_tick (ps ! w) < last_access_tick p" "\<forall>k < length ps. k \<noteq> w \<longrightarrow> last_access_tick (ps ! w) < last_access_tick (ps ! k)"
      using Cons.prems(4) Suc by (auto dest: spec [of _ 0] spec [of _ "Suc _"])
    have I: "scan_pool b po (Suc i) oi' ot' ps = Victim (Some (Suc i + w))" if "last_access_tick (ps ! w) < ot'" for oi' ot'
      using Cons.prems(1,3) Suc that by (intro Cons.IH w(2)) auto
    show ?thesis using Cons.prems(2,3) I [of ot] I [OF w(1)] Suc by simp
  qed
qed simp

lemma wedged_lookup:
  assumes w: "wedged v c" and none: "\<forall>p \<in> set (pool c). \<not> holds_page b po p"
  shows "get_or_alloc_page stack b po c = Some (None, c\<lparr>miss_count := miss_count c + 1\<rparr>)"
proof -
  have "\<forall>p \<in> set (pool c). is_valid p \<and> \<not> is_reserved p" using w by (auto simp: wedged_def in_set_conv_nth)
  then have "scan_pool b po 0 None 0xFFFFFFFF (pool c) = Victim (Some (0 + v))"
    using w none by (intro scan_oldest) (auto simp: wedged_def)
  moreover have "stuck v (c\<lparr>miss_count := miss_count c + 1\<rparr>)" using w by (simp add: wedged_def stuck_def)
  from flush_stuck [OF this] this have "begin_page b po c = (Refused, c\<lparr>miss_count := miss_count c + 1\<rparr>)"
    using calculation by (simp add: begin_page_def stuck_def)
  then show ?thesis by (subst get_or_alloc_page.simps) simp
qed

lemma wedged_cache_refuses:
  assumes w: "wedged v c" and sz: "0 < sz" and ch: "chunk_at (dev c) off sz = (po, k, n)" and none: "\<forall>p \<in> set (pool c). \<not> holds_page b po p"
  defines "c' \<equiv> c\<lparr>miss_count := miss_count c + 1\<rparr>"
  shows "cache_read stack b off sz buf c = Some (-1, buf, c')" "cache_write stack b off sz buf c = Some (-1, c')" "wedged v c'"
proof -
  note L = wedged_lookup [OF w none, of stack]
  show "cache_read stack b off sz buf c = Some (-1, buf, c')"
    unfolding cache_read_def using sz ch L by (subst cache_read_from.simps) (simp add: c'_def)
  show "cache_write stack b off sz buf c = Some (-1, c')"
    unfolding cache_write_def using sz ch L by (subst cache_write_from.simps) (simp add: c'_def)
  show "wedged v c'" using w by (simp add: wedged_def c'_def stuck_def)
qed

section \<open>The new cache\<close>

lemma cache_new_ok:
  assumes "length ps = 8" "geometry f"
  shows "cache_ok (cache_new f ps)"
  by (rule cache_okI) (use assms in \<open>auto simp: cache_new_def page_ok_def same_key_def\<close>)

lemma cache_new_contents: "contents (cache_new f ps) b j = cell f b j"
proof -
  have "contents (cache_new f ps) b j = cell (dev (cache_new f ps)) b j"
    by (rule contents_flash) (simp add: cache_new_def holds_page_def)
  then show ?thesis by (simp add: cache_new_def)
qed

lemma flash_new_cells:
  assumes f: "flash_new bs bc ps m = Some f" and g: "geometry f" and r: "in_range f b j"
  shows "cell f b j = 0xFF"
proof -
  have e: "block_size f = bs" "block_count f = bc" "fl_mem f = (\<lambda>a. if a < bs * bc then 0xFF else m a)"
    using f by (auto simp: flash_new_def Let_def split: if_splits)
  have "unat b + 1 \<le> unat bc" "j < unat bs" using r by (simp_all add: in_range_def e word_less_nat_alt)
  then have "(unat b + 1) * unat bs \<le> unat bc * unat bs" "j < unat bs" by (simp_all only: mult_le_mono1)
  then have "unat b * unat bs + j < unat bs * unat bc" by (simp add: algebra_simps)
  moreover have "unat (bs * bc) = unat bs * unat bc" using g by (simp add: geometry_def e unat_word_ariths)
  ultimately have "phys_addr b 0 f + of_nat j < bs * bc" using unat_cell(1) [OF g r] by (simp add: word_less_nat_alt e)
  then show ?thesis by (simp add: cell_def e(3))
qed

section \<open>Properties\<close>

text \<open>
  C9: Over one thread and a range inside a block, the cache behaves as a store of bytes. A read
  returns the contents and changes none. A write that only clears bits replaces exactly its bytes.
  Erasing sets the whole block to ones, whatever was cached of it. Synchronising changes no contents
  and leaves every byte in the flash. Every operation succeeds and keeps the invariant, as long as
  the access counter does not wrap.
\<close>

theorem cache_operations_refine_store:
  assumes "cache_ok c" "b < block_count (dev c)" "unat off + unat sz \<le> unat (block_size (dev c))" "unat (tick_counter c) + unat sz < 0xFFFFFFFF"
  shows "(\<exists>buf' c'. cache_read stack b off sz buf c = Some (sint sz, buf', c') \<and> cache_ok c'
        \<and> (\<forall>b' j. in_range (dev c) b' j \<longrightarrow> contents c' b' j = contents c b' j)
        \<and> (\<forall>j. buf' j = (if j < unat sz then contents c b (unat off + j) else buf j)))
    \<and> (clears_only c b (unat off) 0 (unat sz) buf \<longrightarrow>
        (\<exists>c'. cache_write stack b off sz buf c = Some (sint sz, c') \<and> cache_ok c'
          \<and> (\<forall>b' j. in_range (dev c) b' j \<longrightarrow> contents c' b' j =
              (if b' = b \<and> unat off \<le> j \<and> j < unat off + unat sz then buf (j - unat off) else contents c b' j))))
    \<and> (\<exists>c'. cache_erase b c = (0, c') \<and> cache_ok c'
        \<and> (\<forall>b' j. in_range (dev c) b' j \<longrightarrow> contents c' b' j = (if b' = b then 0xFF else contents c b' j)))
    \<and> (\<exists>c'. cache_sync c = (0, c') \<and> cache_ok c'
        \<and> (\<forall>b' j. in_range (dev c) b' j \<longrightarrow> contents c' b' j = contents c b' j \<and> cell (dev c') b' j = contents c b' j))"
proof (intro conjI impI)
  have I: "next_part c b off sz 0" using assms by (simp add: next_part_def)
  show "\<exists>buf' c'. cache_read stack b off sz buf c = Some (sint sz, buf', c') \<and> cache_ok c'
        \<and> (\<forall>b' j. in_range (dev c) b' j \<longrightarrow> contents c' b' j = contents c b' j)
        \<and> (\<forall>j. buf' j = (if j < unat sz then contents c b (unat off + j) else buf j))"
    using read_from_ok [OF I, of stack buf] by (simp add: cache_read_def)
  show "\<exists>c'. cache_write stack b off sz buf c = Some (sint sz, c') \<and> cache_ok c'
          \<and> (\<forall>b' j. in_range (dev c) b' j \<longrightarrow> contents c' b' j =
              (if b' = b \<and> unat off \<le> j \<and> j < unat off + unat sz then buf (j - unat off) else contents c b' j))"
    if "clears_only c b (unat off) 0 (unat sz) buf"
    using write_from_ok [OF I, of buf stack] that by (simp add: cache_write_def)
qed (use erase_ok sync_ok assms in blast)+

definition erased_flash :: flash where
  "erased_flash = the (flash_new 4096 128 256 (\<lambda>_. 0))"

definition empty_cache :: cache where
  "empty_cache = cache_new erased_flash (replicate 8
     \<lparr>block_addr = 0, page_offset = 0, data = (\<lambda>_. 0), is_valid = False, is_dirty = False, is_reserved = False, last_access_tick = 0\<rparr>)"

lemma erased_flash_new: "flash_new 4096 128 256 (\<lambda>_. 0) = Some erased_flash" "geometry erased_flash"
    "block_size erased_flash = 4096" "block_count erased_flash = 128"
  by (simp_all add: erased_flash_def flash_new_def FLASH_BACKING_STORE_BYTES_def geometry_def)

lemma empty_cache_ok: "cache_ok empty_cache" "dev empty_cache = erased_flash" "tick_counter empty_cache = 0"
    "in_range erased_flash b j \<Longrightarrow> contents empty_cache b j = 0xFF"
proof -
  show "cache_ok empty_cache" unfolding empty_cache_def by (rule cache_new_ok) (simp_all add: erased_flash_new)
  show "in_range erased_flash b j \<Longrightarrow> contents empty_cache b j = 0xFF"
    unfolding empty_cache_def cache_new_contents by (rule flash_new_cells [OF erased_flash_new(1,2)])
qed (simp_all add: empty_cache_def cache_new_def)

theorem cache_operations_refine_store_witness:
  "(\<exists>buf' c'. cache_read (\<lambda>_. 0) 1 200 300 (\<lambda>_. 0) empty_cache = Some (300, buf', c') \<and> buf' 299 = 0xFF)
   \<and> (\<exists>c'. cache_write (\<lambda>_. 0) 1 200 300 (\<lambda>_. 5) empty_cache = Some (300, c') \<and> contents c' 1 499 = 5 \<and> contents c' 1 500 = 0xFF)"
proof -
  have r: "in_range erased_flash 1 j \<longleftrightarrow> j < 4096" for j by (simp add: in_range_def erased_flash_new)
  note C = cache_operations_refine_store [OF empty_cache_ok(1), of 1 200 300 "\<lambda>_. 0", unfolded empty_cache_ok(2,3) erased_flash_new(3,4), simplified]
  have cl: "clears_only empty_cache 1 200 0 300 (\<lambda>_. 5)" using empty_cache_ok(4) [of 1] by (simp add: clears_only_def r)
  have "contents empty_cache 1 499 = 0xFF" "contents empty_cache 1 500 = 0xFF" using empty_cache_ok(4) [of 1] by (simp_all add: r)
  then show ?thesis using C [of "\<lambda>_. 0"] C [of "\<lambda>_. 5"] cl r by fastforce
qed

text \<open>
  C40: A write to a block the flash does not have is accepted: within one page it returns the number
  of bytes. The page can never reach the flash, and the next synchronisation reports the failure.
\<close>

theorem out_of_range_write_is_accepted:
  assumes "cache_ok c" "tick_counter c < 0xFFFFFFFF" "block_count (dev c) \<le> b" "0 < sz" "sz \<le> 256 - (off AND 255)"
  shows "\<exists>c'. cache_write stack b off sz buf c = Some (sint sz, c') \<and> fst (cache_sync c') = -1"
proof -
  obtain c' v where "cache_write stack b off sz buf c = Some (sint sz, c')" "v < 8" "stuck v c'" using lost_write [OF assms] by blast
  then show ?thesis using sync_stuck [of v "[0..<8]" c' 0] by (auto simp: cache_sync_def)
qed

theorem out_of_range_write_is_accepted_witness:
  "\<exists>c'. cache_write (\<lambda>_. 0) 128 16 4 (\<lambda>_. 5) empty_cache = Some (4, c') \<and> fst (cache_sync c') = -1"
  using out_of_range_write_is_accepted [OF empty_cache_ok(1), of 128 4 16 "\<lambda>_. 0" "\<lambda>_. 5"]
  by (simp add: empty_cache_ok erased_flash_new)

end
