(* ===== verification/Spec2Isabelle.thy ===== *)
theory Spec2Isabelle
  imports Arch_Bits Mpu Scheduler_Props CSpace_Props Mutex_Props Firewall_Props Rule_Parser Tlsf_Props Syscall_Validator Photon_Cache_Props
begin

text \<open>
  \<^bold>\<open>AuroraOS.\<close> A small operating system for watches and network devices, written in C++. This
  development models its kernel (tasks, signals, IPC, capabilities, mutexes), its memory management
  (heap, physical pages, page tables, protection unit, validation of user pointers), its packet filter
  and the storage layer under the file system. All file names below are relative to \<open>src/\<close>.

  \<^bold>\<open>How the parts interact.\<close> Task control blocks live in one table. The scheduler threads the ready
  ones through circular lists, one per priority; endpoints and mutexes thread the waiting ones through
  wait queues. Both change tasks only by the scheduler's operations for state and priority.
  Capabilities name kernel objects by reference count; deleting the last one destroys the object, which
  ends the waits on an endpoint or releases a task. The memory manager gives every task an address
  space whose tables come from a common pool of pages, and the validator walks these tables before the
  kernel uses a pointer of a task. The packet filter is driven by packets and a periodic tick and is
  configured by text commands. The page cache stands between the file system and the flash.

  \<^bold>\<open>Theories.\<close>

  \<^item> \<open>Prelude\<close>: word types, bit sets, the first free slot of a table, and the locale \<open>slot_table\<close>, the
    contract of fixed tables of slots; \<open>Firewall\<close> interprets it for rules, connections and hosts.
  \<^item> \<open>Arch_Bits\<close>: \<open>clz\<close>, \<open>ctz\<close>, \<open>find_highest_bit\<close>, \<open>find_lowest_bit\<close> of \<open>kernel/core/arch_api.hpp\<close>.
    The portable loops equal the builtins.
  \<^item> \<open>Mpu\<close>: \<open>kernel/mm/mpu.hpp\<close>, the CRC of \<open>utils/hmac_sha256.hpp\<close> and the MPU registers of
    \<open>arch/arm/cortex-m/cm3/arch_impl.hpp\<close>. Every change of a sealed descriptor in one field is detected, but for
    the reserved field, which the CRC does not cover; an accepted descriptor programs its own region and no other.
  \<^item> \<open>Kernel_State\<close>: the records of \<open>kernel/task/task.hpp\<close>, \<open>kernel/core/ipc.hpp\<close>, \<open>cspace.hpp\<close>,
    \<open>mutex.hpp\<close> and \<open>kernel_object.hpp\<close>. A pointer to a control block is its index in the table.
  \<^item> \<open>Scheduler\<close>, \<open>Ring\<close>, \<open>Ready_Queue\<close>, \<open>Scheduling\<close>, \<open>Example_States\<close>, \<open>Scheduler_Props\<close>: the class
    \<open>Scheduler\<close> of \<open>kernel/task/task.hpp\<close>, with creation, release, signals, \<open>schedule\<close>, sleeping, ticks
    and the context switch of \<open>arch/arm/cortex-m/cm3/boot.S\<close>. The ready queues are rings that refine lists in every
    reachable state, and \<open>schedule\<close> refines a scheduler on lists. The locale \<open>scheduler_service\<close> is what
    the blocking services use of it; it is interpreted with the ready-queue invariant.
  \<^item> \<open>Wait_Queue\<close>: \<open>kernel/task/wait_queue.cpp\<close>. Its operations refine stable insertion by priority
    and removal on lists, and return on every well-formed queue.
  \<^item> \<open>Ipc\<close>, \<open>Ipc_Invariant\<close>, \<open>Ipc_Operations\<close>, \<open>Ipc_Teardown\<close>, \<open>Ipc_Props\<close>: \<open>Endpoint\<close> of
    \<open>kernel/core/ipc.cpp\<close> and the timeouts of \<open>tick_update\<close>. Every sequence of requests returns and keeps
    the queues, the states of the waiters and the inherited priorities in step.
  \<^item> \<open>CSpace\<close>, \<open>CSpace_Props\<close>: \<open>kernel/core/cspace.cpp\<close> and \<open>kernel_object.hpp\<close>. Reference counts and
    occupancy bits are exact and no sequence of operations creates authority, copies of a slot onto
    itself excepted; revocation is complete and ends exactly the waits that depended on it.
  \<^item> \<open>Mutex\<close>, \<open>Mutex_Props\<close>: \<open>kernel/core/mutex.hpp\<close>, with interleavings as an inductive relation over
    the entry of \<open>lock\<close>, the passes of its waiting loop, \<open>unlock\<close> and scheduler activity. The wait-for
    graph stays acyclic and every operation returns; no wake-up is lost unless a waiter is terminated.
  \<^item> \<open>Stealth\<close>, \<open>Firewall\<close>, \<open>Firewall_Props\<close>, \<open>Rule_Parser\<close>: \<open>net/stealth_identity.hpp\<close> and
    \<open>net/firewall/\<close>. No read leaves the packet, a segment inside a TCP stream passes only on a connection
    that an accepted SYN opened, printed addresses parse back, and commands keep the rule table in shape.
  \<^item> \<open>Tlsf\<close>, \<open>Tlsf_Lists\<close>, \<open>Tlsf_Heap\<close>, \<open>Tlsf_Props\<close>: \<open>KernelHeap\<close> of \<open>kernel/mm/memory.hpp\<close>. In every
    history of requests below the wrap-around and releases of live pointers the heap refines a map of live, disjoint, aligned allocations.
  \<^item> \<open>Page_Tables\<close>, \<open>Page_Table_Trees\<close>, \<open>Page_Table_Frames\<close>, \<open>Vasp\<close>, \<open>Address_Space\<close>, \<open>Mmu\<close>:
    \<open>kernel/mm/page_allocator.hpp\<close>, \<open>arch/arm/cortex-a/mmu/\<close>, \<open>kernel/mm/vasp.hpp\<close> and \<open>kernel/mm/mmu.cpp\<close>.
    Tables form trees over the pool; operations on a page refine updates of a translation map; an
    operation on one space changes no other space; pages are neither lost nor shared. The virtual methods
    of an address space are the locale \<open>vasp_methods\<close>, interpreted for the page tables.
  \<^item> \<open>Syscall_Validator\<close>: \<open>kernel/core/syscall_validator.cpp\<close>. An accepted buffer that is not empty lies
    in a region of the task, in one of the kernel's data regions that the code admits, or on user pages
    that are mapped with the needed access.
  \<^item> \<open>Flash\<close>, \<open>Photon_Cache\<close>, \<open>Photon_Cache_Props\<close>: \<open>drivers/storage/flash_device.hpp\<close> and
    \<open>vfs/photon_cache.hpp\<close>. Programming by words is a bytewise conjunction; the cache refines an array of
    bytes, and after a synchronisation the flash holds it.

  Some theorems state behaviour that clients have to know: what short IP headers, non-canonical
  pointers, requests near 4 GiB, a second insertion into a wait queue, a timeout of a terminated task
  or a write beyond the flash do.

  \<^bold>\<open>Loops and bounds.\<close> A loop that follows links or may run on is a partial function with value
  None for not returning, and its properties state that it returns. The deadlock check is bounded
  by the sixteen tasks, as in the source. The results on the heap are for regions below 16 MiB, where the
  classes of the allocator are exact; sizes and addresses wrap at 32 bits where the source's do. Page
  tables translate the low 48 bits of an address. The result on the cache assumes pages of 256 bytes
  and an access counter that does not wrap during the operation; writes have to clear bits only, as the
  flash does. Counters and bitmaps keep the width they have in the source.

  \<^bold>\<open>Parameters.\<close> The frame filter, the signal handlers and the cycle counter are fields of the
  scheduling environment. Linker symbols and heap bounds are a record of the validator. The contents
  of an uninitialised stack buffer are an argument of the cache operations.

  \<^bold>\<open>Not modelled.\<close> Interrupt masking: an operation that runs with interrupts off, or under the lock
  of its object, is one step. Hardware registers other than those of the protection unit, caches and the
  TLB. Two threads inside one cache operation: the two halves of a lookup are separate definitions, the
  theorems are about one thread. The system-call dispatcher, semaphores, message queues, timers, the audit log, file systems
  above the cache, the firmware update, drivers, the user interface, applications, radio and scanning
  tools, intrusion detection, and third-party code (lwIP, Lua, Ed25519, NimBLE).
\<close>

end
